(* ===== verification/Prelude.thy ===== *)
theory Prelude
  imports Main "HOL-Library.Word"
begin

text \<open>
  Shared vocabulary of the development: the machine integers of the library, the C++
  exceptions its operations throw, results that carry them, and the generic lemmas on words,
  counting of pointer variables, swaps and option pointers that the component theories use.
  The collections \<open>word_count\<close> (unsigned counters read as natural numbers) and
  \<open>ptr_simps\<close> (conditional application at a possibly null pointer) are filled here and
  grown by the component theories.
\<close>

named_theorems word_count
named_theorems ptr_simps

text \<open>\<open>unsigned int\<close> has 32 bits, \<open>std::uintptr_t\<close> and \<open>std::size_t\<close> have 64.\<close>

type_synonym u32 = "32 word"
type_synonym uptr = "64 word"

text \<open>Addresses of objects; \<open>None\<close> is the null pointer.\<close>

type_synonym addr = nat
type_synonym ptr = "nat option"

text \<open>
  The exceptions that the library throws. \<open>Assertion_failed\<close> is a failed \<open>assert\<close>
  (an abort of the program, not an exception that can be caught).
\<close>

datatype future_errc =
  Broken_promise | Future_already_retrieved | Promise_already_satisfied | No_state

datatype cxx_error =
  Invalid_argument | Runtime_error | Logic_error | Bad_alloc
| Future_error future_errc
| Workq_deadlock | Workq_stack_error | Publish_wqs_busy
| Assertion_failed

type_synonym 'a result = "cxx_error + 'a"

subsection \<open>Unsigned counters\<close>

lemma unat_bound: "unat (w :: 'a::len word) < 2 ^ LENGTH('a)"
  by (rule unsigned_less)

lemma unat_plus_exact [word_count]:
  "unat (a :: 'a::len word) + unat b < 2 ^ LENGTH('a) \<Longrightarrow> unat (a + b) = unat a + unat b"
  by (simp add: unat_add_lem [THEN iffD1])

lemma unat_minus_exact [word_count]:
  "unat (b :: 'a::len word) \<le> unat a \<Longrightarrow> unat (a - b) = unat a - unat b"
  by (simp add: unat_sub word_le_nat_alt)

lemma unat_of_nat_exact [word_count]:
  "n < 2 ^ LENGTH('a) \<Longrightarrow> unat (of_nat n :: 'a::len word) = n"
  by (simp add: unat_of_nat)

lemma word_eq_of_nat_iff [word_count]:
  "n < 2 ^ LENGTH('a) \<Longrightarrow> (w = (of_nat n :: 'a::len word)) = (unat w = n)"
  by (auto simp: unat_of_nat word_unat_eq_iff)

lemma unat_inc [word_count]:
  "Suc (unat (w :: 'a::len word)) < 2 ^ LENGTH('a) \<Longrightarrow> unat (w + 1) = Suc (unat w)"
  using unat_plus_exact [of w 1] by (cases "LENGTH('a) = 1") auto

lemma unat_dec [word_count]:
  "0 < unat (w :: 'a::len word) \<Longrightarrow> unat (w - 1) = unat w - 1"
  by (rule unat_minus_one) auto

subsection \<open>Pointers\<close>

definition when_ptr :: "(addr \<Rightarrow> 's \<Rightarrow> 's) \<Rightarrow> ptr \<Rightarrow> 's \<Rightarrow> 's" where
  "when_ptr f p s = (case p of None \<Rightarrow> s | Some a \<Rightarrow> f a s)"

lemma when_ptr_simps [simp, ptr_simps]:
  "when_ptr f None s = s" "when_ptr f (Some a) s = f a s"
  by (simp_all add: when_ptr_def)

definition swap_at :: "'v \<Rightarrow> 'v \<Rightarrow> ('v \<Rightarrow> 'a) \<Rightarrow> 'v \<Rightarrow> 'a" where
  "swap_at v w m = m(v := m w, w := m v)"

lemma swap_at_same [simp]: "swap_at v v m = m"
  by (auto simp: swap_at_def)

text \<open>How many pointer variables hold an address.\<close>

definition refs :: "('v::finite \<Rightarrow> ptr) \<Rightarrow> addr \<Rightarrow> nat" where
  "refs m p = card {v. m v = Some p}"

lemma refs_pos_iff: "0 < refs m p \<longleftrightarrow> (\<exists>v. m v = Some p)"
  by (auto simp: refs_def card_gt_0_iff)

lemma refs_zero_iff: "refs m p = 0 \<longleftrightarrow> (\<forall>v. m v \<noteq> Some p)"
  by (auto simp: refs_def)

lemma refs_le_card: "refs (m :: 'v::finite \<Rightarrow> ptr) p \<le> card (UNIV :: 'v set)"
  unfolding refs_def by (rule card_mono) auto

lemma refs_upd:
  "refs (m(v := x)) p =
     (if m v = Some p then refs m p - 1 else refs m p) + (if x = Some p then 1 else 0)"
proof -
  let ?S = "{u. m u = Some p} - {v}"
  have *: "{u. (m(v := x)) u = Some p} = (if x = Some p then insert v ?S else ?S)"
    by auto
  have "card ?S = (if m v = Some p then refs m p - 1 else refs m p)"
    by (simp add: refs_def card_Diff_singleton_if)
  moreover have "card (insert v ?S) = Suc (card ?S)"
    by (rule card_insert_disjoint) auto
  ultimately show ?thesis
    unfolding refs_def * by auto
qed

lemma refs_ge_1: "m v = Some p \<Longrightarrow> 1 \<le> refs m p"
  using refs_pos_iff [of m p] by (auto simp: Suc_le_eq)

lemma refs_swap_at: "refs (swap_at v w m) p = refs m p"
  by (cases "v = w") (auto simp: swap_at_def refs_upd dest: refs_ge_1)

subsection \<open>Sums over threads\<close>

text \<open>A sum over all threads when one or two of them change their contribution.\<close>

lemma sum_change_one:
  fixes f g :: "'t::finite \<Rightarrow> nat"
  assumes "\<And>u. u \<noteq> t \<Longrightarrow> g u = f u"
  shows "sum g UNIV + f t = sum f UNIV + g t"
proof -
  have "sum g (UNIV - {t}) = sum f (UNIV - {t})" by (rule sum.cong) (auto simp: assms)
  then show ?thesis
    using sum.remove [of UNIV t f] sum.remove [of UNIV t g] by simp
qed

lemma sum_change_two:
  fixes f g :: "'t::finite \<Rightarrow> nat"
  assumes "t \<noteq> r" and "\<And>u. u \<noteq> t \<Longrightarrow> u \<noteq> r \<Longrightarrow> g u = f u"
  shows "sum g UNIV + f t + f r = sum f UNIV + g t + g r"
proof -
  have "sum (f(t := g t)) UNIV + f t = sum f UNIV + (f(t := g t)) t"
    by (rule sum_change_one) simp
  moreover have "sum g UNIV + (f(t := g t)) r = sum (f(t := g t)) UNIV + g r"
    by (rule sum_change_one) (auto simp: assms(2))
  ultimately show ?thesis using assms(1) by simp
qed

lemma sum_ge_one: "(f :: 't::finite \<Rightarrow> nat) t \<le> sum f UNIV"
  by (rule member_le_sum) auto

end
