(* ===== verification/Ticket_Lock.thy ===== *)
theory Ticket_Lock
  imports Prelude
begin

text \<open>
  The ticket lock behind the atomic operations on \<open>refpointer\<close>: \<open>atom_lck::impl\<close> of
  \<open>src/refcnt.cc\<close>. The steps are the atomic operations of \<open>lock()\<close> and \<open>unlock()\<close>, of
  any number of threads in any interleaving; tickets are 32-bit words and wrap around.
  The lemmas show mutual exclusion, first-come first-served order and that the lock is
  never stuck, for fewer than \<open>2 ^ 32\<close> threads.
\<close>

definition SPIN :: u32 where "SPIN = 100"

text \<open>
  \<open>spinwait\<close> on the local spin counter: the new counter, and whether the thread gives up
  its time slice.
\<close>

definition spinwait :: "u32 \<Rightarrow> u32 \<times> bool" where
  "spinwait spin = (if spin \<noteq> 0 then (spin - 1, False) else (SPIN, True))"

text \<open>
  Where a thread is in the code: outside; after \<open>fetch_add\<close> on \<open>m_ticket\<close>; in the
  yielding loop and in the spinning loop, with the last value read from \<open>m_start\<close> (and the
  spin counter); inside the critical section.
\<close>

datatype tl_pc =
  TL_Idle
| TL_Took u32
| TL_Yield u32 u32
| TL_Spin u32 u32 u32
| TL_Crit u32

record 'p atom_lck =
  m_ticket :: u32
  m_start :: u32
  tl_at :: "'p \<Rightarrow> tl_pc"

definition atom_lck_init :: "'p atom_lck" where
  "atom_lck_init = \<lparr>m_ticket = 0, m_start = 0, tl_at = (\<lambda>_. TL_Idle)\<rparr>"

abbreviation at_pc :: "'p \<Rightarrow> tl_pc \<Rightarrow> 'p atom_lck \<Rightarrow> 'p atom_lck" where
  "at_pc p c s \<equiv> s\<lparr>tl_at := (tl_at s)(p := c)\<rparr>"

inductive tl_step :: "u32 \<Rightarrow> 'p atom_lck \<Rightarrow> 'p atom_lck \<Rightarrow> bool" for hwcc where
  lock_take: "tl_at s p = TL_Idle \<Longrightarrow>
    tl_step hwcc s (at_pc p (TL_Took (m_ticket s)) (s\<lparr>m_ticket := m_ticket s + 1\<rparr>))"
| lock_load: "tl_at s p = TL_Took t \<Longrightarrow>
    tl_step hwcc s (at_pc p (TL_Yield t (m_start s)) s)"
| lock_yield: "tl_at s p = TL_Yield t st \<Longrightarrow> max 1 hwcc \<le> t - st \<Longrightarrow>
    tl_step hwcc s (at_pc p (TL_Yield t (m_start s)) s)"
| lock_yield_exit: "tl_at s p = TL_Yield t st \<Longrightarrow> \<not> max 1 hwcc \<le> t - st \<Longrightarrow>
    tl_step hwcc s (at_pc p (TL_Spin t st SPIN) s)"
| lock_spin: "tl_at s p = TL_Spin t st n \<Longrightarrow> t \<noteq> st \<Longrightarrow>
    tl_step hwcc s (at_pc p (TL_Spin t (m_start s) (fst (spinwait n))) s)"
| lock_enter: "tl_at s p = TL_Spin t st n \<Longrightarrow> t = st \<Longrightarrow>
    tl_step hwcc s (at_pc p (TL_Crit t) s)"
| unlock: "tl_at s p = TL_Crit t \<Longrightarrow>
    tl_step hwcc s (at_pc p TL_Idle (s\<lparr>m_start := m_start s + 1\<rparr>))"

inductive tl_reachable :: "u32 \<Rightarrow> 'p atom_lck \<Rightarrow> bool" for hwcc where
  tl_init: "tl_reachable hwcc atom_lck_init"
| tl_next: "tl_reachable hwcc s \<Longrightarrow> tl_step hwcc s t \<Longrightarrow> tl_reachable hwcc t"

fun ticket_of :: "tl_pc \<Rightarrow> u32 option" where
  "ticket_of TL_Idle = None"
| "ticket_of (TL_Took t) = Some t"
| "ticket_of (TL_Yield t st) = Some t"
| "ticket_of (TL_Spin t st n) = Some t"
| "ticket_of (TL_Crit t) = Some t"

text \<open>The place in the queue of a ticket, and the number of threads that hold one.\<close>

definition place :: "'p atom_lck \<Rightarrow> u32 \<Rightarrow> nat" where
  "place s t = unat (t - m_start s)"

definition holders :: "'p atom_lck \<Rightarrow> 'p set" where
  "holders s = {p. ticket_of (tl_at s p) \<noteq> None}"

definition tl_local_ok :: "'p atom_lck \<Rightarrow> tl_pc \<Rightarrow> bool" where
  "tl_local_ok s c = (case c of
     TL_Yield t st \<Rightarrow> place s t \<le> unat (t - st)
   | TL_Spin t st n \<Rightarrow> place s t \<le> unat (t - st)
   | TL_Crit t \<Rightarrow> t = m_start s
   | _ \<Rightarrow> True)"

definition tl_inv :: "'p::finite atom_lck \<Rightarrow> bool" where
  "tl_inv s \<longleftrightarrow>
     unat (m_ticket s - m_start s) = card (holders s) \<and>
     (\<forall>p t. ticket_of (tl_at s p) = Some t \<longrightarrow> place s t < card (holders s)) \<and>
     (\<forall>p q t. ticket_of (tl_at s p) = Some t \<longrightarrow> ticket_of (tl_at s q) = Some t \<longrightarrow> p = q) \<and>
     (\<forall>p. tl_local_ok s (tl_at s p))"

lemma tl_inv_init: "tl_inv atom_lck_init"
  by (simp add: tl_inv_def atom_lck_init_def holders_def tl_local_ok_def)

lemma place_advance: "t \<noteq> m_start s \<Longrightarrow> place (s\<lparr>m_start := m_start s + 1\<rparr>) t = place s t - 1"
proof -
  assume "t \<noteq> m_start s"
  then have "0 < unat (t - m_start s)" by (simp add: unat_gt_0)
  then show ?thesis
    using unat_dec [of "t - m_start s"] by (simp add: place_def diff_diff_eq)
qed

lemma place_zero_iff: "place s t = 0 \<longleftrightarrow> t = m_start s"
  by (simp add: place_def unat_eq_0)

lemma place_self [simp]: "place s (m_start s) = 0"
  by (simp add: place_def)

lemma tl_local_ok_cong: "m_start s' = m_start s \<Longrightarrow> tl_local_ok s' c = tl_local_ok s c"
  by (simp add: tl_local_ok_def place_def split: tl_pc.splits)

text \<open>A step of a thread that keeps its ticket and leaves the shared counters alone.\<close>

lemma tl_inv_local:
  assumes "tl_inv s" and "ticket_of (tl_at s p) = ticket_of c" and "tl_local_ok s c"
  shows "tl_inv (at_pc p c s)"
proof -
  let ?s = "at_pc p c s"
  have tk: "ticket_of (tl_at ?s q) = ticket_of (tl_at s q)" for q
    using assms(2) by simp
  then have h: "holders ?s = holders s" by (simp add: holders_def)
  have pl: "place ?s = place s" by (simp add: place_def fun_eq_iff)
  have ok: "tl_local_ok ?s d = tl_local_ok s d" for d by (rule tl_local_ok_cong) simp
  show ?thesis
    using assms(1,3) unfolding tl_inv_def tk h pl ok by simp
qed

lemma tl_inv_take:
  assumes inv: "tl_inv (s :: 'p::finite atom_lck)" and idle: "tl_at s p = TL_Idle"
    and small: "card (UNIV :: 'p set) < 2 ^ 32"
  shows "tl_inv (at_pc p (TL_Took (m_ticket s)) (s\<lparr>m_ticket := m_ticket s + 1\<rparr>))"
    (is "tl_inv ?s")
proof -
  have pl: "place ?s = place s" by (simp add: place_def fun_eq_iff)
  have new: "p \<notin> holders s" using idle by (simp add: holders_def)
  have h: "holders ?s = insert p (holders s)" by (auto simp: holders_def)
  then have c: "card (holders ?s) = Suc (card (holders s))" using new by simp
  have "card (holders ?s) \<le> card (UNIV :: 'p set)" by (rule card_mono) auto
  with c small have lim: "Suc (card (holders s)) < 2 ^ 32" by simp
  have top: "place s (m_ticket s) = card (holders s)"
    using inv by (simp add: tl_inv_def place_def)
  have eq: "m_ticket ?s - m_start ?s = (m_ticket s - m_start s) + 1" by simp
  have "unat (m_ticket s - m_start s) = card (holders s)" using inv by (simp add: tl_inv_def)
  then have "unat (m_ticket ?s - m_start ?s) = card (holders ?s)"
    unfolding eq c using lim unat_inc [of "m_ticket s - m_start s"] by simp
  moreover have "place s t < card (holders ?s)" if "ticket_of (tl_at ?s q) = Some t" for q t
    using that inv c top by (auto simp: tl_inv_def less_Suc_eq split: if_splits)
  moreover have fresh: "ticket_of (tl_at s q) \<noteq> Some (m_ticket s)" for q
    using inv top by (metis tl_inv_def less_irrefl)
  have "q = r" if "ticket_of (tl_at ?s q) = Some t" "ticket_of (tl_at ?s r) = Some t" for q r t
    using that inv fresh by (auto simp: tl_inv_def split: if_splits)
  moreover have "tl_local_ok ?s (tl_at ?s q)" for q
  proof -
    have "tl_local_ok ?s d = tl_local_ok s d" for d by (rule tl_local_ok_cong) simp
    moreover have "tl_local_ok s (tl_at s q)" using inv by (simp add: tl_inv_def)
    ultimately show ?thesis by (simp add: tl_local_ok_def)
  qed
  ultimately show ?thesis unfolding tl_inv_def pl by blast
qed

lemma tl_inv_unlock:
  assumes inv: "tl_inv (s :: 'p::finite atom_lck)" and crit: "tl_at s p = TL_Crit t"
  shows "tl_inv (at_pc p TL_Idle (s\<lparr>m_start := m_start s + 1\<rparr>))" (is "tl_inv ?s")
proof -
  have "tl_local_ok s (tl_at s p)" using inv by (simp add: tl_inv_def)
  then have t: "t = m_start s" using crit by (simp add: tl_local_ok_def)
  have old: "p \<in> holders s" using crit by (simp add: holders_def)
  have h: "holders ?s = holders s - {p}" by (auto simp: holders_def)
  have pos: "0 < card (holders s)" using old by (auto simp: card_gt_0_iff)
  have c: "card (holders ?s) = card (holders s) - 1" using old h by simp
  have pl: "place ?s u = place s u - 1 \<and> place s u \<noteq> 0"
    if "ticket_of (tl_at s q) = Some u" "q \<noteq> p" for q u
  proof -
    have "u \<noteq> m_start s" using inv crit t that by (fastforce simp: tl_inv_def)
    then show ?thesis using place_advance [of u s] by (simp add: place_zero_iff) (simp add: place_def)
  qed
  have eq: "m_ticket ?s - m_start ?s = (m_ticket s - m_start s) - 1" by simp
  have "unat (m_ticket s - m_start s) = card (holders s)" using inv by (simp add: tl_inv_def)
  then have "unat (m_ticket ?s - m_start ?s) = card (holders ?s)"
    unfolding eq c using pos unat_dec [of "m_ticket s - m_start s"] by simp
  moreover have "place ?s u < card (holders ?s)" if "ticket_of (tl_at ?s q) = Some u" for q u
  proof -
    from that have q: "ticket_of (tl_at s q) = Some u" "q \<noteq> p" by (auto split: if_splits)
    then have "place s u < card (holders s)" using inv by (auto simp: tl_inv_def)
    then show ?thesis using pl [OF q] c by linarith
  qed
  moreover have "q = r" if "ticket_of (tl_at ?s q) = Some u" "ticket_of (tl_at ?s r) = Some u" for q r u
    using that inv by (auto simp: tl_inv_def split: if_splits)
  moreover have "tl_local_ok ?s (tl_at ?s q)" for q
  proof (cases "q = p")
    case False
    have "tl_local_ok s (tl_at s q)" using inv by (simp add: tl_inv_def)
    then show ?thesis
      using False pl [OF _ False] by (auto simp: tl_local_ok_def split: tl_pc.splits)
  qed (simp add: tl_local_ok_def)
  ultimately show ?thesis unfolding tl_inv_def by blast
qed

lemma tl_step_inv:
  assumes "tl_step hwcc s t" and "tl_inv (s :: 'p::finite atom_lck)"
    and "card (UNIV :: 'p set) < 2 ^ 32"
  shows "tl_inv t"
  using assms
proof (induction rule: tl_step.induct)
  case (lock_enter s p t st n)
  then have "tl_local_ok s (TL_Spin t st n)" by (metis tl_inv_def)
  with lock_enter show ?case
    by (intro tl_inv_local) (auto simp: tl_local_ok_def place_zero_iff)
next
  case (lock_yield_exit s p t st)
  then have "tl_local_ok s (TL_Yield t st)" by (metis tl_inv_def)
  with lock_yield_exit show ?case
    by (intro tl_inv_local) (auto simp: tl_local_ok_def)
next
  case (lock_take s p)
  then show ?case by (intro tl_inv_take)
next
  case (unlock s p t)
  then show ?case by (intro tl_inv_unlock)
qed (auto intro!: tl_inv_local simp: tl_local_ok_def place_def)

lemma tl_reachable_inv:
  "tl_reachable hwcc s \<Longrightarrow> card (UNIV :: 'p set) < 2 ^ 32 \<Longrightarrow> tl_inv (s :: 'p::finite atom_lck)"
  by (induction rule: tl_reachable.induct) (auto intro: tl_inv_init tl_step_inv)


section \<open>What the lock guarantees\<close>

lemma tl_inv_crit:
  "tl_inv s \<Longrightarrow> tl_at s p = TL_Crit t \<Longrightarrow> t = m_start s"
  by (metis (mono_tags, lifting) tl_inv_def tl_local_ok_def tl_pc.simps(29))

text \<open>
  C16. Mutual exclusion of the ticket lock, for any interleaving and any number of threads
  below \<open>2 ^ 32\<close>, across wrap-around of the tickets: two threads inside are the same.
\<close>

theorem ticket_lock_mutual_exclusion:
  assumes "tl_reachable hwcc (s :: 'p::finite atom_lck)" and "card (UNIV :: 'p set) < 2 ^ 32"
    and "tl_at s p = TL_Crit t" and "tl_at s q = TL_Crit u"
  shows "p = q"
proof -
  have inv: "tl_inv s" using assms(1,2) by (rule tl_reachable_inv)
  have "t = u" using tl_inv_crit [OF inv] assms(3,4) by metis
  then show ?thesis using inv assms(3,4) by (auto simp: tl_inv_def)
qed

lemma not_max_le_0: "\<not> max 1 h \<le> (0 :: u32)"
proof
  assume "max 1 h \<le> (0 :: u32)"
  then have "(1 :: u32) \<le> 0" using max.cobounded1 order.trans by blast
  then show False by simp
qed

lemma tl_lock_alone:
  assumes "tl_at s p = TL_Idle" and "m_ticket s = m_start s" and "tl_reachable hwcc s"
  shows "tl_reachable hwcc (at_pc p (TL_Crit (m_start s)) (s\<lparr>m_ticket := m_ticket s + 1\<rparr>))"
proof -
  let ?s0 = "s\<lparr>m_ticket := m_ticket s + 1\<rparr>"
  let ?t = "m_start s"
  have "tl_reachable hwcc (at_pc p (TL_Took ?t) ?s0)"
    using tl_next [OF assms(3) lock_take] assms(1,2) by metis
  then have "tl_reachable hwcc (at_pc p (TL_Yield ?t ?t) ?s0)"
    using tl_next [OF _ lock_load [of _ p ?t]] by fastforce
  then have "tl_reachable hwcc (at_pc p (TL_Spin ?t ?t SPIN) ?s0)"
    using tl_next [OF _ lock_yield_exit [of _ p ?t ?t]] not_max_le_0 [of hwcc] by fastforce
  then show ?thesis
    using tl_next [OF _ lock_enter [of _ p ?t ?t SPIN]] by fastforce
qed

lemma tl_crit_reachable: "tl_reachable 4 (at_pc True (TL_Crit 0) (atom_lck_init\<lparr>m_ticket := 1\<rparr>))"
  using tl_lock_alone [OF _ _ tl_init, of True 4] by (simp add: atom_lck_init_def)

theorem ticket_lock_mutual_exclusion_witness:
  "\<exists>s :: bool atom_lck. tl_reachable 4 s \<and> tl_at s True = TL_Crit 0 \<and>
     (\<forall>q u. tl_at s q = TL_Crit u \<longrightarrow> True = q)"
proof -
  let ?s = "at_pc True (TL_Crit 0) (atom_lck_init\<lparr>m_ticket := 1\<rparr>)"
  have "\<forall>q u. tl_at ?s q = TL_Crit u \<longrightarrow> True = q"
    using ticket_lock_mutual_exclusion [OF tl_crit_reachable, of True 0]
    by (auto simp: atom_lck_init_def)
  then show ?thesis using tl_crit_reachable by (intro exI [of _ ?s]) simp
qed

text \<open>A run during which a thread keeps its ticket.\<close>

definition tl_keeps :: "u32 \<Rightarrow> 'p \<Rightarrow> u32 \<Rightarrow> 'p atom_lck \<Rightarrow> 'p atom_lck \<Rightarrow> bool" where
  "tl_keeps hwcc p t =
     (\<lambda>s s'. tl_step hwcc s s' \<and> ticket_of (tl_at s' p) = Some t)\<^sup>*\<^sup>*"

text \<open>While \<open>p\<close> keeps its ticket, every other ticket is either older or stays behind it.\<close>

definition behind :: "'p atom_lck \<Rightarrow> 'p \<Rightarrow> u32 \<Rightarrow> bool" where
  "behind s q t \<longleftrightarrow> (\<forall>u. ticket_of (tl_at s q) = Some u \<longrightarrow> place s t < place s u)"

lemma tl_step_behind:
  assumes "tl_step hwcc s s'" and inv: "tl_inv (s :: 'p::finite atom_lck)"
    and "ticket_of (tl_at s p) = Some t" and "ticket_of (tl_at s' p) = Some t"
    and "behind s q t" and "p \<noteq> q"
  shows "behind s' q t"
  using assms
proof (induction rule: tl_step.induct)
  case (lock_take s r)
  have "place s t < unat (m_ticket s - m_start s)"
    using lock_take by (auto simp: tl_inv_def)
  with lock_take show ?case by (auto simp: behind_def place_def)
next
  case (unlock s r u)
  then have "u = m_start s" by (metis tl_inv_crit)
  have "r \<noteq> p" using unlock by auto
  then have t: "t \<noteq> m_start s"
    using unlock \<open>u = m_start s\<close> by (metis tl_inv_def ticket_of.simps(5))
  have pl: "place (at_pc r TL_Idle (s\<lparr>m_start := m_start s + 1\<rparr>)) x = place s x - 1"
    if "x \<noteq> m_start s" for x
    using place_advance [OF that] by (simp add: place_def)
  show ?case
    unfolding behind_def
  proof (intro allI impI)
    fix x
    assume x: "ticket_of (tl_at (at_pc r TL_Idle (s\<lparr>m_start := m_start s + 1\<rparr>)) q) = Some x"
    then have "place s t < place s x"
      using unlock.prems(4) by (auto simp: behind_def split: if_splits)
    moreover from this have "x \<noteq> m_start s" by (auto simp: place_def)
    moreover have "0 < place s t" using t by (simp add: place_zero_iff neq0_conv [symmetric])
    ultimately show "place (at_pc r TL_Idle (s\<lparr>m_start := m_start s + 1\<rparr>)) t <
        place (at_pc r TL_Idle (s\<lparr>m_start := m_start s + 1\<rparr>)) x"
      using pl t by simp
  qed
qed (auto simp: behind_def place_def split: if_splits)

lemma tl_keeps_behind:
  assumes "tl_keeps hwcc p t s s'" and "tl_inv (s :: 'p::finite atom_lck)"
    and "card (UNIV :: 'p set) < 2 ^ 32" and "ticket_of (tl_at s p) = Some t"
    and "behind s q t" and "p \<noteq> q"
  shows "tl_inv s' \<and> ticket_of (tl_at s' p) = Some t \<and> behind s' q t"
  using assms(1) unfolding tl_keeps_def
proof (induction rule: rtranclp_induct)
  case base
  with assms show ?case by simp
next
  case (step y z)
  then show ?case
    using assms(3,6) tl_step_inv tl_step_behind by metis
qed

text \<open>
  First come, first served: a thread that takes its ticket after another one does not
  enter while the other one waits or is inside, however the threads interleave.
\<close>

theorem ticket_lock_no_overtaking:
  assumes "tl_reachable hwcc (s :: 'p::finite atom_lck)" and "card (UNIV :: 'p set) < 2 ^ 32"
    and "ticket_of (tl_at s p) = Some t" and "tl_at s q = TL_Idle"
    and "tl_keeps hwcc p t s s'"
  shows "tl_at s' q \<noteq> TL_Crit u"
proof
  assume q: "tl_at s' q = TL_Crit u"
  have "p \<noteq> q" using assms(3,4) by auto
  moreover have "behind s q t" using assms(4) by (simp add: behind_def)
  ultimately have "tl_inv s' \<and> behind s' q t"
    using tl_keeps_behind [OF assms(5) tl_reachable_inv [OF assms(1,2)] assms(2,3)] by simp
  then have "u = m_start s'" "place s' t < place s' u"
    using q tl_inv_crit by (auto simp: behind_def)
  then show False by (simp add: place_def)
qed

theorem ticket_lock_no_overtaking_witness:
  "let s = at_pc True (TL_Crit 0) (atom_lck_init\<lparr>m_ticket := 1\<rparr>);
       s' = at_pc False (TL_Took 1) (s\<lparr>m_ticket := 2\<rparr>)
   in tl_keeps 4 True 0 s s' \<and> ticket_of (tl_at s' False) = Some 1 \<and> tl_at s' False \<noteq> TL_Crit 1"
proof -
  let ?s = "at_pc True (TL_Crit 0) (atom_lck_init\<lparr>m_ticket := 1\<rparr>)"
  let ?s' = "at_pc False (TL_Took 1) (?s\<lparr>m_ticket := 2\<rparr>)"
  have "tl_step 4 ?s ?s'"
    using lock_take [of ?s False 4] by (simp add: atom_lck_init_def)
  then have k: "tl_keeps 4 True 0 ?s ?s'"
    unfolding tl_keeps_def by (intro r_into_rtranclp) simp
  show ?thesis
    using k ticket_lock_no_overtaking [OF tl_crit_reachable _ _ _ k, of False 1]
    by (simp add: atom_lck_init_def Let_def)
qed

text \<open>
  The lock is never stuck: when some thread waits and none is inside, one of the
  waiting threads has the ticket that is being served, and re-reading \<open>m_start\<close> lets it in.
\<close>

theorem ticket_lock_not_stuck:
  assumes "tl_reachable hwcc (s :: 'p::finite atom_lck)" and "card (UNIV :: 'p set) < 2 ^ 32"
    and "ticket_of (tl_at s q) \<noteq> None"
  shows "\<exists>p. ticket_of (tl_at s p) = Some (m_start s)"
proof -
  have inv: "tl_inv s" using assms(1,2) by (rule tl_reachable_inv)
  let ?f = "\<lambda>p. place s (the (ticket_of (tl_at s p)))"
  have "inj_on ?f (holders s)"
  proof (rule inj_onI)
    fix p r assume "p \<in> holders s" "r \<in> holders s" "?f p = ?f r"
    then obtain t u where "ticket_of (tl_at s p) = Some t" "ticket_of (tl_at s r) = Some u" "t = u"
      by (auto simp: holders_def place_def word_unat_eq_iff [symmetric])
    then show "p = r" using inv by (auto simp: tl_inv_def)
  qed
  then have "card (?f ` holders s) = card (holders s)" by (rule card_image)
  moreover have "?f ` holders s \<subseteq> {..<card (holders s)}"
    using inv by (auto simp: tl_inv_def holders_def)
  ultimately have "?f ` holders s = {..<card (holders s)}"
    by (intro card_subset_eq) auto
  moreover have "0 < card (holders s)"
    using assms(3) by (auto simp: card_gt_0_iff holders_def)
  ultimately have "0 \<in> ?f ` holders s" by simp
  then obtain p t where "ticket_of (tl_at s p) = Some t" "place s t = 0"
    by (auto simp: holders_def)
  then show ?thesis by (auto simp: place_zero_iff)
qed

theorem ticket_lock_not_stuck_witness:
  "\<exists>p. ticket_of (tl_at (at_pc True (TL_Crit 0) (atom_lck_init\<lparr>m_ticket := 1\<rparr>)) p) = Some 0"
  using ticket_lock_not_stuck [OF tl_crit_reachable, of True]
  by (simp add: atom_lck_init_def)

end
