(* ===== verification/Refcount.thy ===== *)
theory Refcount
  imports Prelude
begin

text \<open>
  Intrusive reference counting: \<open>include/ilias/refcnt.h\<close>.

  The counter of a \<open>refcount_base\<close> with \<open>refcnt_acquire\<close>, \<open>refcnt_release\<close> and
  the queries; the \<open>refpointer\<close> class as operations on a store of pointer variables
  (so that aliasing, as in self-assignment, is part of the model), with the acquire and
  release policy \<open>AcqRel\<close> of the template as arguments; the contract of such a policy as
  the locale \<open>refcount_mgr\<close>; and the counting invariant of arbitrary programs over
  \<open>refpointer\<close> variables.
\<close>

section \<open>The counter\<close>

text \<open>
  \<open>m_refcount\<close> is the atomic counter. \<open>m_deleted\<close> counts the invocations of the
  deleter on the object; the deleter itself is the template argument \<open>Deleter\<close>.
\<close>

record refcount_base =
  m_refcount :: u32
  m_deleted :: nat

definition refcount_base_init :: refcount_base where
  "refcount_base_init = \<lparr>m_refcount = 0, m_deleted = 0\<rparr>"

definition refcnt_acquire :: "u32 \<Rightarrow> refcount_base \<Rightarrow> refcount_base" where
  "refcnt_acquire nrefs o' =
     (if nrefs = 0 then o' else o'\<lparr>m_refcount := m_refcount o' + nrefs\<rparr>)"

definition refcnt_release :: "u32 \<Rightarrow> refcount_base \<Rightarrow> refcount_base" where
  "refcnt_release nrefs o' =
     (if nrefs = 0 then o'
      else let old = m_refcount o'; o1 = o'\<lparr>m_refcount := old - nrefs\<rparr>
           in if old = nrefs then o1\<lparr>m_deleted := m_deleted o1 + 1\<rparr> else o1)"

definition refcnt_is_solo :: "refcount_base \<Rightarrow> bool" where
  "refcnt_is_solo o' \<longleftrightarrow> m_refcount o' = 1"

definition refcnt_is_zero :: "refcount_base \<Rightarrow> bool" where
  "refcnt_is_zero o' \<longleftrightarrow> m_refcount o' = 0"

text \<open>
  \<open>refcnt_acquire_iff_live\<close> is a compare-exchange loop that starts from the guess 1. The
  argument \<open>obs\<close> lists what the successive exchanges observe in the counter (other threads
  may change it between two attempts); the loop ends at the first attempt whose guess agrees
  with the observation, or at an observation of 0. \<open>None\<close> means that the observations ended
  before the loop did.
\<close>

fun acquire_iff_live_loop :: "u32 \<Rightarrow> u32 \<Rightarrow> u32 list \<Rightarrow> (bool \<times> u32) option" where
  "acquire_iff_live_loop nrefs expect [] = None"
| "acquire_iff_live_loop nrefs expect (v # obs) =
     (if v = expect then Some (True, expect + nrefs)
      else if v = 0 then Some (False, v)
      else acquire_iff_live_loop nrefs v obs)"

definition refcnt_acquire_iff_live :: "u32 \<Rightarrow> u32 list \<Rightarrow> (bool \<times> u32) option" where
  "refcnt_acquire_iff_live nrefs obs = acquire_iff_live_loop nrefs 1 obs"

lemma acquire_iff_live_loop_sound:
  assumes "acquire_iff_live_loop nrefs expect obs = Some (ok, v')" and "expect \<noteq> 0"
  shows "\<exists>v \<in> set obs. (ok \<longrightarrow> v \<noteq> 0 \<and> v' = v + nrefs) \<and> (\<not> ok \<longrightarrow> v = 0 \<and> v' = 0)"
  using assms
  by (induction nrefs expect obs rule: acquire_iff_live_loop.induct)
     (auto split: if_splits)

lemma refcnt_acquire_iff_live_quiet:
  "refcnt_acquire_iff_live nrefs [v, v] = Some (v \<noteq> 0, if v = 0 then 0 else v + nrefs)"
  by (auto simp: refcnt_acquire_iff_live_def)

section \<open>Objects and the default policy\<close>

type_synonym objects = "addr \<Rightarrow> refcount_base"

definition default_acquire :: "addr \<Rightarrow> nat \<Rightarrow> objects \<Rightarrow> objects" where
  "default_acquire p n s = s(p := refcnt_acquire (of_nat n) (s p))"

definition default_release :: "addr \<Rightarrow> nat \<Rightarrow> objects \<Rightarrow> objects" where
  "default_release p n s = s(p := refcnt_release (of_nat n) (s p))"

definition obj_count :: "objects \<Rightarrow> addr \<Rightarrow> nat" where
  "obj_count s p = unat (m_refcount (s p))"

definition obj_dead :: "objects \<Rightarrow> addr \<Rightarrow> bool" where
  "obj_dead s p \<longleftrightarrow> m_deleted (s p) > 0"

section \<open>The smart pointer\<close>

text \<open>
  A world holds the pointer variables (\<open>m_ptr\<close> of each \<open>refpointer\<close>) and the state
  \<open>'s\<close> of the counted objects. Every method below is the method of the class on the
  variable \<open>v\<close>; \<open>u\<close> is its argument, which may be the same variable.
\<close>

record ('v, 's) rp_world =
  m_ptr :: "'v \<Rightarrow> ptr"
  objs :: 's

type_synonym 's policy = "addr \<Rightarrow> nat \<Rightarrow> 's \<Rightarrow> 's"

definition on_objs :: "'s policy \<Rightarrow> ptr \<Rightarrow> ('v, 's) rp_world \<Rightarrow> ('v, 's) rp_world" where
  "on_objs f p w = w\<lparr>objs := when_ptr (\<lambda>a. f a 1) p (objs w)\<rparr>"

definition set_ptr :: "'v \<Rightarrow> ptr \<Rightarrow> ('v, 's) rp_world \<Rightarrow> ('v, 's) rp_world" where
  "set_ptr v p w = w\<lparr>m_ptr := (m_ptr w)(v := p)\<rparr>"

definition rp_reset :: "'s policy \<Rightarrow> 'v \<Rightarrow> ('v, 's) rp_world \<Rightarrow> ('v, 's) rp_world" where
  "rp_reset rel v w = (let tmp = m_ptr w v in on_objs rel tmp (set_ptr v None w))"

definition rp_reset_copy ::
    "'s policy \<Rightarrow> 's policy \<Rightarrow> 'v \<Rightarrow> 'v \<Rightarrow> ('v, 's) rp_world \<Rightarrow> ('v, 's) rp_world" where
  "rp_reset_copy acq rel v u w =
     (let tmp = m_ptr w u; w1 = on_objs acq tmp w; old = m_ptr w1 v
      in on_objs rel old (set_ptr v tmp w1))"

definition rp_swap :: "'v \<Rightarrow> 'v \<Rightarrow> ('v, 's) rp_world \<Rightarrow> ('v, 's) rp_world" where
  "rp_swap v u w = w\<lparr>m_ptr := swap_at v u (m_ptr w)\<rparr>"

definition rp_reset_move :: "'s policy \<Rightarrow> 'v \<Rightarrow> 'v \<Rightarrow> ('v, 's) rp_world \<Rightarrow> ('v, 's) rp_world" where
  "rp_reset_move rel v u w =
     (let old = m_ptr w v in on_objs rel old (rp_swap v u (set_ptr v None w)))"

definition rp_reset_ptr ::
    "'s policy \<Rightarrow> 's policy \<Rightarrow> 'v \<Rightarrow> ptr \<Rightarrow> bool \<Rightarrow> ('v, 's) rp_world \<Rightarrow> ('v, 's) rp_world" where
  "rp_reset_ptr acq rel v p do_acquire w =
     (let w1 = (if do_acquire then on_objs acq p w else w); tmp = m_ptr w1 v
      in on_objs rel tmp (set_ptr v p w1))"

definition rp_release :: "'v \<Rightarrow> ('v, 's) rp_world \<Rightarrow> ptr \<times> ('v, 's) rp_world" where
  "rp_release v w = (m_ptr w v, set_ptr v None w)"

text \<open>
  Constructors start from a null \<open>m_ptr\<close> (the variable's storage holds no pointer yet).
\<close>

definition rp_copy_ctor ::
    "'s policy \<Rightarrow> 's policy \<Rightarrow> 'v \<Rightarrow> 'v \<Rightarrow> ('v, 's) rp_world \<Rightarrow> ('v, 's) rp_world" where
  "rp_copy_ctor acq rel v u w = rp_reset_copy acq rel v u (set_ptr v None w)"

definition rp_move_ctor :: "'v \<Rightarrow> 'v \<Rightarrow> ('v, 's) rp_world \<Rightarrow> ('v, 's) rp_world" where
  "rp_move_ctor v u w = rp_swap v u (set_ptr v None w)"

definition rp_ptr_ctor ::
    "'s policy \<Rightarrow> 's policy \<Rightarrow> 'v \<Rightarrow> ptr \<Rightarrow> bool \<Rightarrow> ('v, 's) rp_world \<Rightarrow> ('v, 's) rp_world" where
  "rp_ptr_ctor acq rel v p do_acquire w = rp_reset_ptr acq rel v p do_acquire (set_ptr v None w)"

definition rp_dtor :: "'s policy \<Rightarrow> 'v \<Rightarrow> ('v, 's) rp_world \<Rightarrow> ('v, 's) rp_world" where
  "rp_dtor rel v w = rp_reset rel v w"

definition rp_eq :: "'v \<Rightarrow> 'v \<Rightarrow> ('v, 's) rp_world \<Rightarrow> bool" where
  "rp_eq v u w \<longleftrightarrow> m_ptr w v = m_ptr w u"

definition rp_bool :: "'v \<Rightarrow> ('v, 's) rp_world \<Rightarrow> bool" where
  "rp_bool v w \<longleftrightarrow> m_ptr w v \<noteq> None"

text \<open>
  The atomic free functions run their body while the \<open>atom_lck\<close> of the pointer's address
  is held, so each is one step. \<open>v\<close> is the by-value parameter (a variable of its own,
  destroyed on return) and \<open>r\<close> the variable that receives the result.
\<close>

definition rp_atomic_load ::
    "'s policy \<Rightarrow> 's policy \<Rightarrow> 'v \<Rightarrow> 'v \<Rightarrow> ('v, 's) rp_world \<Rightarrow> ('v, 's) rp_world" where
  "rp_atomic_load acq rel r p w = rp_copy_ctor acq rel r p w"

definition rp_atomic_store :: "'s policy \<Rightarrow> 'v \<Rightarrow> 'v \<Rightarrow> ('v, 's) rp_world \<Rightarrow> ('v, 's) rp_world" where
  "rp_atomic_store rel p v w = rp_dtor rel v (rp_reset_move rel p v w)"

definition rp_atomic_exchange ::
    "'s policy \<Rightarrow> 'v \<Rightarrow> 'v \<Rightarrow> 'v \<Rightarrow> ('v, 's) rp_world \<Rightarrow> ('v, 's) rp_world" where
  "rp_atomic_exchange rel r p v w = rp_dtor rel v (rp_move_ctor r v (rp_swap p v w))"

definition rp_atomic_cas ::
    "'s policy \<Rightarrow> 's policy \<Rightarrow> 'v \<Rightarrow> 'v \<Rightarrow> 'v \<Rightarrow> ('v, 's) rp_world \<Rightarrow> bool \<times> ('v, 's) rp_world" where
  "rp_atomic_cas acq rel p expect v w =
     (if rp_eq p expect w then (True, rp_dtor rel v (rp_reset_move rel p v w))
      else (False, rp_dtor rel v (rp_reset_copy acq rel expect p w)))"

text \<open>
  The pointer casts: the copying form acquires a reference of its own, the moving form
  passes the reference of its argument on (the address is unchanged by the casts that the
  library uses).
\<close>

definition rp_pointer_cast ::
    "'s policy \<Rightarrow> 's policy \<Rightarrow> 'v \<Rightarrow> 'v \<Rightarrow> ('v, 's) rp_world \<Rightarrow> ('v, 's) rp_world" where
  "rp_pointer_cast acq rel r p w = rp_ptr_ctor acq rel r (m_ptr w p) True w"

definition rp_pointer_cast_move ::
    "'s policy \<Rightarrow> 's policy \<Rightarrow> 'v \<Rightarrow> 'v \<Rightarrow> ('v, 's) rp_world \<Rightarrow> ('v, 's) rp_world" where
  "rp_pointer_cast_move acq rel r p w =
     (case rp_release p w of (a, w1) \<Rightarrow> rp_ptr_ctor acq rel r a False w1)"

section \<open>The contract of an acquire and release policy\<close>

text \<open>
  What \<open>refpointer\<close> relies on: a count per object that acquire raises and release lowers by
  exactly the number asked for (as long as the counter does not overflow), and that an object
  dies only when a release takes its last reference.
\<close>

locale refcount_mgr =
  fixes acquire :: "'s policy"
    and release :: "'s policy"
    and count :: "'s \<Rightarrow> addr \<Rightarrow> nat"
    and dead :: "'s \<Rightarrow> addr \<Rightarrow> bool"
    and limit :: nat
  assumes count_acquire:
      "count s p + n < limit \<Longrightarrow>
       count (acquire p n s) q = (if q = p then count s p + n else count s q)"
    and count_release:
      "n \<le> count s p \<Longrightarrow> count s p < limit \<Longrightarrow>
       count (release p n s) q = (if q = p then count s p - n else count s q)"
    and dead_acquire: "dead (acquire p n s) q \<longleftrightarrow> dead s q"
    and dead_release:
      "0 < n \<Longrightarrow> n \<le> count s p \<Longrightarrow> count s p < limit \<Longrightarrow> dead (release p n s) q \<Longrightarrow>
       dead s q \<or> (q = p \<and> n = count s p)"

text \<open>
  The counting invariant. \<open>ext p\<close> is the number of references to \<open>p\<close> owned outside of
  the pointer variables (by raw pointers that \<open>release()\<close> handed out).
\<close>

definition rp_inv ::
    "('s \<Rightarrow> addr \<Rightarrow> nat) \<Rightarrow> ('s \<Rightarrow> addr \<Rightarrow> bool) \<Rightarrow> nat \<Rightarrow> (addr \<Rightarrow> nat) \<Rightarrow>
     ('v::finite, 's) rp_world \<Rightarrow> bool" where
  "rp_inv count dead limit ext w \<longleftrightarrow>
     (\<forall>p. count (objs w) p = refs (m_ptr w) p + ext p \<and>
          card (UNIV :: 'v set) + ext p < limit \<and>
          (dead (objs w) p \<longrightarrow> refs (m_ptr w) p = 0 \<and> ext p = 0))"

definition give :: "ptr \<Rightarrow> (addr \<Rightarrow> nat) \<Rightarrow> addr \<Rightarrow> nat" where
  "give p ext = when_ptr (\<lambda>a e. e(a := e a + 1)) p ext"

definition take1 :: "ptr \<Rightarrow> (addr \<Rightarrow> nat) \<Rightarrow> addr \<Rightarrow> nat" where
  "take1 p ext = when_ptr (\<lambda>a e. e(a := e a - 1)) p ext"

lemma give_apply [ptr_simps]: "give p ext q = ext q + (if p = Some q then 1 else 0)"
  by (cases p) (auto simp: give_def)

lemma take1_apply [ptr_simps]: "take1 p ext q = ext q - (if p = Some q then 1 else 0)"
  by (cases p) (auto simp: take1_def)

lemma give_take1: "(\<And>a. p = Some a \<Longrightarrow> 0 < ext a) \<Longrightarrow> give p (take1 p ext) = ext"
  by (cases p) (auto simp: give_def take1_def)

text \<open>Programs over pointer variables.\<close>

datatype 'v rp_op =
  RpReset 'v | RpCopy 'v 'v | RpMove 'v 'v | RpSwap 'v 'v | RpPtr 'v ptr bool | RpRelease 'v
| RpLoad 'v 'v | RpStore 'v 'v | RpExchange 'v 'v 'v | RpCas 'v 'v 'v
| RpCast 'v 'v | RpCastMove 'v 'v

fun rp_step :: "'s policy \<Rightarrow> 's policy \<Rightarrow> 'v rp_op \<Rightarrow> ('v, 's) rp_world \<Rightarrow> ('v, 's) rp_world" where
  "rp_step acq rel (RpReset v) w = rp_reset rel v w"
| "rp_step acq rel (RpCopy v u) w = rp_reset_copy acq rel v u w"
| "rp_step acq rel (RpMove v u) w = rp_reset_move rel v u w"
| "rp_step acq rel (RpSwap v u) w = rp_swap v u w"
| "rp_step acq rel (RpPtr v p b) w = rp_reset_ptr acq rel v p b w"
| "rp_step acq rel (RpRelease v) w = snd (rp_release v w)"
| "rp_step acq rel (RpLoad r p) w = rp_atomic_load acq rel r p w"
| "rp_step acq rel (RpStore p v) w = rp_atomic_store rel p v w"
| "rp_step acq rel (RpExchange r p v) w = rp_atomic_exchange rel r p v w"
| "rp_step acq rel (RpCas p e v) w = snd (rp_atomic_cas acq rel p e v w)"
| "rp_step acq rel (RpCast r p) w = rp_pointer_cast acq rel r p w"
| "rp_step acq rel (RpCastMove r p) w = rp_pointer_cast_move acq rel r p w"

text \<open>
  When an operation may be called: a raw pointer that is acquired is alive, an adopted one
  carries a reference, and a variable that is constructed holds nothing yet and is not the
  argument.
\<close>

fun rp_ok :: "('s \<Rightarrow> addr \<Rightarrow> bool) \<Rightarrow> (addr \<Rightarrow> nat) \<Rightarrow> 'v rp_op \<Rightarrow> ('v, 's) rp_world \<Rightarrow> bool" where
  "rp_ok dead ext (RpPtr v p b) w \<longleftrightarrow>
     (case p of None \<Rightarrow> True | Some a \<Rightarrow> if b then \<not> dead (objs w) a else 0 < ext a)"
| "rp_ok dead ext (RpLoad r p) w \<longleftrightarrow> m_ptr w r = None \<and> r \<noteq> p"
| "rp_ok dead ext (RpExchange r p v) w \<longleftrightarrow> m_ptr w r = None \<and> r \<noteq> p \<and> r \<noteq> v"
| "rp_ok dead ext (RpCast r p) w \<longleftrightarrow> m_ptr w r = None \<and> r \<noteq> p"
| "rp_ok dead ext (RpCastMove r p) w \<longleftrightarrow> m_ptr w r = None \<and> r \<noteq> p"
| "rp_ok dead ext _ w \<longleftrightarrow> True"

text \<open>The references owned outside of the variables after an operation.\<close>

fun rp_ext :: "'v rp_op \<Rightarrow> ('v, 's) rp_world \<Rightarrow> (addr \<Rightarrow> nat) \<Rightarrow> addr \<Rightarrow> nat" where
  "rp_ext (RpPtr v p b) w ext = (if b then ext else take1 p ext)"
| "rp_ext (RpRelease v) w ext = give (m_ptr w v) ext"
| "rp_ext _ w ext = ext"

text \<open>A whole program; \<open>None\<close> when an operation is called where it may not be.\<close>

fun rp_run ::
    "'s policy \<Rightarrow> 's policy \<Rightarrow> ('s \<Rightarrow> addr \<Rightarrow> bool) \<Rightarrow> 'v rp_op list \<Rightarrow> (addr \<Rightarrow> nat) \<Rightarrow>
     ('v, 's) rp_world \<Rightarrow> ((addr \<Rightarrow> nat) \<times> ('v, 's) rp_world) option" where
  "rp_run acq rel dead [] ext w = Some (ext, w)"
| "rp_run acq rel dead (x # xs) ext w =
     (if rp_ok dead ext x w
      then rp_run acq rel dead xs (rp_ext x w ext) (rp_step acq rel x w) else None)"

end
