(* ===== verification/Refcount_Inv.thy ===== *)
theory Refcount_Inv
  imports Refcount
begin

text \<open>
  The counting invariant of \<open>refpointer\<close> programs: proved once inside the contract
  \<open>refcount_mgr\<close>, by three lemmas on the elementary moves of a reference (acquire, release,
  store into a variable), and interpreted for the default policy of \<open>refcnt.h\<close>.
\<close>

context refcount_mgr
begin

abbreviation (input) inv where "inv \<equiv> rp_inv count dead limit"

lemma inv_acquire:
  assumes "inv ext w" and "\<And>a. p = Some a \<Longrightarrow> \<not> dead (objs w) a"
    and "\<And>q. card (UNIV :: 'v set) + ext q + 1 < limit"
  shows "inv (give p ext) (on_objs acquire p (w :: ('v::finite, 's) rp_world))"
proof (cases p)
  case None
  with assms(1) show ?thesis by (simp add: on_objs_def give_def)
next
  case (Some a)
  have le: "refs (m_ptr w) a \<le> card (UNIV :: 'v set)" by (rule refs_le_card)
  with assms(1,3) have lim: "count (objs w) a + 1 < limit"
    unfolding rp_inv_def by (metis add.commute add_le_cancel_left add_mono le_less_trans order_refl)
  with assms Some show ?thesis
    by (auto simp: rp_inv_def on_objs_def count_acquire dead_acquire give_apply)
qed

lemma inv_release:
  assumes "inv (give p ext) (w :: ('v::finite, 's) rp_world)"
  shows "inv ext (on_objs release p w)"
proof (cases p)
  case None
  with assms show ?thesis by (simp add: on_objs_def give_def)
next
  case (Some a)
  have le: "refs (m_ptr w) a \<le> card (UNIV :: 'v set)" by (rule refs_le_card)
  have cnt: "count (objs w) a = refs (m_ptr w) a + ext a + 1"
    and lim: "card (UNIV :: 'v set) + (ext a + 1) < limit"
    using assms Some by (auto simp: rp_inv_def give_apply split: if_splits)
  then have ok: "1 \<le> count (objs w) a" "count (objs w) a < limit"
    using le by linarith+
  have d: "dead (release a 1 (objs w)) q \<Longrightarrow> refs (m_ptr w) q = 0 \<and> ext q = 0" for q
  proof -
    assume "dead (release a 1 (objs w)) q"
    then consider "dead (objs w) q" | "q = a" "count (objs w) a = 1"
      using dead_release [OF zero_less_one ok] by metis
    then show ?thesis
    proof cases
      case 1
      with assms show ?thesis by (auto simp: rp_inv_def give_apply)
    qed (use cnt in simp)
  qed
  show ?thesis
    unfolding rp_inv_def
  proof (intro allI conjI impI)
    fix q
    from assms have "count (objs w) q = refs (m_ptr w) q + give p ext q"
      by (simp add: rp_inv_def)
    then show "count (objs (on_objs release p w)) q = refs (m_ptr (on_objs release p w)) q + ext q"
      using ok cnt Some by (simp add: on_objs_def count_release give_apply)
    from assms have "card (UNIV :: 'v set) + give p ext q < limit"
      by (simp add: rp_inv_def)
    then show "card (UNIV :: 'v set) + ext q < limit"
      by (simp add: give_apply split: if_splits)
  next
    fix q assume "dead (objs (on_objs release p w)) q"
    then show "refs (m_ptr (on_objs release p w)) q = 0" "ext q = 0"
      using d Some by (simp_all add: on_objs_def)
  qed
qed

lemma inv_set:
  assumes "inv (give x ext) (w :: ('v::finite, 's) rp_world)"
    and "\<And>q. card (UNIV :: 'v set) + ext q + 1 < limit"
  shows "inv (give (m_ptr w v) ext) (set_ptr v x w)"
  unfolding rp_inv_def
proof (intro allI conjI impI)
  fix q
  have ge: "m_ptr w v = Some q \<Longrightarrow> 1 \<le> refs (m_ptr w) q" by (rule refs_ge_1)
  show "count (objs (set_ptr v x w)) q =
      refs (m_ptr (set_ptr v x w)) q + give (m_ptr w v) ext q"
    using assms ge by (auto simp: rp_inv_def set_ptr_def refs_upd give_apply)
  show "card (UNIV :: 'v set) + give (m_ptr w v) ext q < limit"
    using assms(2) [of q] by (auto simp: give_apply)
  assume "dead (objs (set_ptr v x w)) q"
  then have *: "refs (m_ptr w) q = 0" "give x ext q = 0"
    using assms(1) by (auto simp: rp_inv_def set_ptr_def)
  then show "refs (m_ptr (set_ptr v x w)) q = 0"
    by (auto simp: set_ptr_def refs_upd give_apply split: if_splits)
  from * show "give (m_ptr w v) ext q = 0"
    using ge by (auto simp: give_apply split: if_splits)
qed

lemma inv_swap: "inv ext w \<Longrightarrow> inv ext (rp_swap v u w)"
  by (simp add: rp_inv_def rp_swap_def refs_swap_at)

lemma inv_var_alive: "inv ext w \<Longrightarrow> m_ptr w v = Some a \<Longrightarrow> \<not> dead (objs w) a"
  using refs_ge_1 [of "m_ptr w" v a] by (force simp: rp_inv_def)

text \<open>Every method keeps the invariant, with the outside references it documents.\<close>

lemma inv_reset:
  assumes "inv ext w" and room: "\<And>q. card (UNIV :: 'v set) + ext q + 1 < limit"
  shows "inv ext (rp_reset release v (w :: ('v::finite, 's) rp_world))"
proof -
  from assms(1) have "inv (give None ext) w" by (simp add: give_def)
  then have "inv (give (m_ptr w v) ext) (set_ptr v None w)" by (rule inv_set) (rule room)
  then show ?thesis unfolding rp_reset_def Let_def by (rule inv_release)
qed

lemma inv_reset_copy:
  assumes "inv ext w" and room: "\<And>q. card (UNIV :: 'v set) + ext q + 1 < limit"
  shows "inv ext (rp_reset_copy acquire release v u (w :: ('v::finite, 's) rp_world))"
proof -
  let ?w1 = "on_objs acquire (m_ptr w u) w"
  have "inv (give (m_ptr w u) ext) ?w1"
    by (rule inv_acquire [OF assms(1) _ room]) (rule inv_var_alive [OF assms(1)])
  then have "inv (give (m_ptr ?w1 v) ext) (set_ptr v (m_ptr w u) ?w1)"
    by (rule inv_set) (rule room)
  then show ?thesis unfolding rp_reset_copy_def Let_def by (rule inv_release)
qed

lemma inv_reset_move:
  assumes "inv ext w" and room: "\<And>q. card (UNIV :: 'v set) + ext q + 1 < limit"
  shows "inv ext (rp_reset_move release v u (w :: ('v::finite, 's) rp_world))"
proof -
  from assms(1) have "inv (give None ext) w" by (simp add: give_def)
  then have "inv (give (m_ptr w v) ext) (rp_swap v u (set_ptr v None w))"
    by (rule inv_swap [OF inv_set]) (rule room)
  then show ?thesis unfolding rp_reset_move_def Let_def by (rule inv_release)
qed

lemma inv_reset_ptr_acquire:
  assumes "inv ext w" and room: "\<And>q. card (UNIV :: 'v set) + ext q + 1 < limit"
    and "\<And>a. p = Some a \<Longrightarrow> \<not> dead (objs w) a"
  shows "inv ext (rp_reset_ptr acquire release v p True (w :: ('v::finite, 's) rp_world))"
proof -
  let ?w1 = "on_objs acquire p w"
  have "inv (give p ext) ?w1" by (rule inv_acquire [OF assms(1) assms(3) room])
  then have "inv (give (m_ptr ?w1 v) ext) (set_ptr v p ?w1)" by (rule inv_set) (rule room)
  then show ?thesis unfolding rp_reset_ptr_def Let_def by (simp add: inv_release)
qed

lemma inv_reset_ptr_adopt:
  assumes "inv ext w" and room: "\<And>q. card (UNIV :: 'v set) + ext q + 1 < limit"
    and "\<And>a. p = Some a \<Longrightarrow> 0 < ext a"
  shows "inv (take1 p ext) (rp_reset_ptr acquire release v p False (w :: ('v::finite, 's) rp_world))"
proof -
  have "inv (give p (take1 p ext)) w" using assms(1) by (simp add: give_take1 [OF assms(3)])
  moreover have "card (UNIV :: 'v set) + take1 p ext q + 1 < limit" for q
    using room [of q] by (simp add: take1_apply)
  ultimately have "inv (give (m_ptr w v) (take1 p ext)) (set_ptr v p w)" by (rule inv_set)
  then show ?thesis unfolding rp_reset_ptr_def Let_def by (simp add: inv_release)
qed

lemma inv_release_ptr:
  assumes "inv ext w" and room: "\<And>q. card (UNIV :: 'v set) + ext q + 1 < limit"
  shows "inv (give (m_ptr w v) ext) (snd (rp_release v (w :: ('v::finite, 's) rp_world)))"
  using inv_set [of None ext w v] assms by (simp add: rp_release_def give_def)

lemma set_ptr_id: "m_ptr w v = x \<Longrightarrow> set_ptr v x w = w"
  by (auto simp: set_ptr_def)

lemmas inv_methods = inv_reset inv_reset_copy inv_reset_move inv_swap

lemma inv_step:
  assumes inv: "inv ext w" and room: "\<And>q. card (UNIV :: 'v set) + ext q + 1 < limit"
    and ok: "rp_ok dead ext op w"
  shows "inv (rp_ext op w ext) (rp_step acquire release op (w :: ('v::finite, 's) rp_world))"
proof (cases op)
  case (RpPtr v p b)
  with assms show ?thesis
    by (cases b) (auto intro!: inv_reset_ptr_acquire inv_reset_ptr_adopt split: option.splits)
next
  case (RpRelease v)
  then show ?thesis using inv_release_ptr [OF inv room] by simp
next
  case (RpCas p e v)
  then show ?thesis
    using inv room by (simp add: rp_atomic_cas_def rp_dtor_def inv_methods)
next
  case (RpExchange r p v)
  then have "set_ptr r None (rp_swap p v w) = rp_swap p v w"
    using ok by (auto simp: rp_swap_def swap_at_def set_ptr_id)
  then show ?thesis
    using RpExchange inv room
    by (simp add: rp_atomic_exchange_def rp_move_ctor_def rp_dtor_def inv_methods)
next
  case (RpCast r p)
  with ok have r: "set_ptr r None w = w" by (simp add: set_ptr_id)
  show ?thesis
    using RpCast inv_reset_ptr_acquire [OF inv room, of "m_ptr w p" r] inv_var_alive [OF inv, of p]
    by (simp add: rp_pointer_cast_def rp_ptr_ctor_def r)
next
  case (RpCastMove r p)
  let ?w1 = "set_ptr p None w"
  have none: "set_ptr r None ?w1 = ?w1" using RpCastMove ok by (simp add: set_ptr_def fun_upd_idem)
  have "inv (give None ext) w" using inv by (simp add: give_def)
  then have "inv (give (m_ptr w p) ext) ?w1" by (rule inv_set) (rule room)
  then have "inv (give (m_ptr ?w1 r) ext) (set_ptr r (m_ptr w p) ?w1)" by (rule inv_set) (rule room)
  then show ?thesis
    using RpCastMove
    by (simp add: rp_pointer_cast_move_def rp_release_def rp_ptr_ctor_def rp_reset_ptr_def none
        Let_def inv_release)
qed (use assms in \<open>auto simp: rp_atomic_load_def rp_copy_ctor_def rp_atomic_store_def rp_dtor_def
       rp_atomic_exchange_def rp_move_ctor_def set_ptr_id rp_swap_def [symmetric]
       intro!: inv_methods\<close>)

lemma rp_ext_le: "rp_ext op w ext q \<le> ext q + 1"
  by (cases op) (auto simp: give_apply take1_apply)

lemma inv_run:
  assumes "inv ext w" and "rp_run acquire release dead ops ext w = Some (ext', w')"
    and "\<And>q. card (UNIV :: 'v set) + ext q + length ops + 1 < limit"
  shows "inv ext' (w' :: ('v::finite, 's) rp_world)"
  using assms
proof (induction ops arbitrary: ext w)
  case Nil
  then show ?case by simp
next
  case (Cons x xs)
  from Cons.prems(2) have ok: "rp_ok dead ext x w"
    and run: "rp_run acquire release dead xs (rp_ext x w ext) (rp_step acquire release x w)
        = Some (ext', w')"
    by (auto split: if_splits)
  have room: "card (UNIV :: 'v set) + ext q + 1 < limit" for q
    using Cons.prems(3) [of q] by simp
  have "inv (rp_ext x w ext) (rp_step acquire release x w)"
    by (rule inv_step [OF Cons.prems(1) room ok])
  moreover have "card (UNIV :: 'v set) + rp_ext x w ext q + length xs + 1 < limit" for q
    using Cons.prems(3) [of q] rp_ext_le [of x w ext q] by simp
  ultimately show ?case using run by (intro Cons.IH)
qed

lemma inv_no_dangling:
  "inv ext w \<Longrightarrow> m_ptr w v = Some a \<Longrightarrow> 0 < count (objs w) a \<and> \<not> dead (objs w) a"
  using inv_var_alive [of ext w v a] refs_ge_1 [of "m_ptr w" v a]
  by (auto simp: rp_inv_def)

end

section \<open>The default policy keeps the contract\<close>

lemma of_nat_u32_zero_iff: "n < 2 ^ 32 \<Longrightarrow> (of_nat n :: u32) = 0 \<longleftrightarrow> n = 0"
  using nat_dvd_not_less [of n "2 ^ 32"] by (auto simp: word_of_nat_eq_0_iff)

lemma refcnt_acquire_count:
  "unat (m_refcount c) + n < 2 ^ 32 \<Longrightarrow>
   unat (m_refcount (refcnt_acquire (of_nat n) c)) = unat (m_refcount c) + n"
proof -
  assume *: "unat (m_refcount c) + n < 2 ^ 32"
  then have "unat (of_nat n :: u32) = n" by (simp add: unat_of_nat_exact)
  with * show ?thesis
    using unat_plus_exact [of "m_refcount c" "of_nat n"] by (auto simp: refcnt_acquire_def)
qed

lemma refcnt_release_count:
  assumes "n \<le> unat (m_refcount c)"
  shows "unat (m_refcount (refcnt_release (of_nat n) c)) = unat (m_refcount c) - n"
    and "m_deleted (refcnt_release (of_nat n) c) =
      m_deleted c + (if 0 < n \<and> n = unat (m_refcount c) then 1 else 0)"
proof -
  have n: "n < 2 ^ 32" using assms unat_bound [of "m_refcount c"] by simp
  then have u: "unat (of_nat n :: u32) = n" by (simp add: unat_of_nat_exact)
  show "unat (m_refcount (refcnt_release (of_nat n) c)) = unat (m_refcount c) - n"
    using assms u n unat_minus_exact [of "of_nat n" "m_refcount c"]
    by (auto simp: refcnt_release_def Let_def of_nat_u32_zero_iff)
  show "m_deleted (refcnt_release (of_nat n) c) =
      m_deleted c + (if 0 < n \<and> n = unat (m_refcount c) then 1 else 0)"
    using n by (auto simp: refcnt_release_def Let_def of_nat_u32_zero_iff word_eq_of_nat_iff)
qed

interpretation default_mgr: refcount_mgr default_acquire default_release obj_count obj_dead "2 ^ 32"
proof (unfold_locales, goal_cases)
  case (1 s p n q)
  then show ?case
    by (simp add: obj_count_def default_acquire_def refcnt_acquire_count del: of_nat_add)
next
  case (2 n s p q)
  then show ?case by (simp add: obj_count_def default_release_def refcnt_release_count)
next
  case (3 p n s q)
  then show ?case by (simp add: obj_dead_def default_acquire_def refcnt_acquire_def)
next
  case (4 n s p q)
  then show ?case
    by (auto simp: obj_count_def obj_dead_def default_release_def refcnt_release_count
        split: if_splits)
qed

abbreviation default_inv :: "(addr \<Rightarrow> nat) \<Rightarrow> ('v::finite, objects) rp_world \<Rightarrow> bool" where
  "default_inv \<equiv> rp_inv obj_count obj_dead (2 ^ 32)"

definition rp_start :: "(bool, objects) rp_world" where
  "rp_start = \<lparr>m_ptr = (\<lambda>_. None), objs = (\<lambda>_. refcount_base_init)\<rparr>"

lemma rp_start_inv: "default_inv (\<lambda>_. 0) rp_start"
  by (auto simp: rp_inv_def rp_start_def refcount_base_init_def obj_count_def obj_dead_def refs_def)

text \<open>
  C15. Whatever program runs over refpointer variables (self-assignments, moves, swaps, raw
  pointers adopted and handed out, the atomic operations, the casts), the counter of every
  object equals the number of variables that hold it plus the references handed out, and no
  variable ever points to an object on which the deleter has run.
\<close>

theorem refpointer_program_safe:
  assumes "default_inv ext (w :: ('v::finite, objects) rp_world)"
    and "rp_run default_acquire default_release obj_dead ops ext w = Some (ext', w')"
    and "\<And>q. card (UNIV :: 'v set) + ext q + length ops + 1 < 2 ^ 32"
  shows "(\<forall>a. unat (m_refcount (objs w' a)) = refs (m_ptr w') a + ext' a) \<and>
    (\<forall>v a. m_ptr w' v = Some a \<longrightarrow> m_deleted (objs w' a) = 0 \<and> m_refcount (objs w' a) \<noteq> 0)"
proof -
  have inv: "default_inv ext' w'" by (rule default_mgr.inv_run [OF assms])
  show ?thesis
    using inv default_mgr.inv_no_dangling [OF inv]
    by (fastforce simp: rp_inv_def obj_count_def obj_dead_def)
qed

theorem refpointer_program_safe_witness:
  "case rp_run default_acquire default_release obj_dead
      [RpPtr True (Some 7) True, RpCopy False True, RpReset True, RpCopy False False] (\<lambda>_. 0) rp_start of
     None \<Rightarrow> False
   | Some (ext', w') \<Rightarrow> m_ptr w' False = Some 7 \<and> m_deleted (objs w' 7) = 0 \<and>
       unat (m_refcount (objs w' 7)) = refs (m_ptr w') 7 + ext' 7"
proof -
  let ?ops = "[RpPtr True (Some 7) True, RpCopy False True, RpReset True, RpCopy False False]"
  let ?r = "rp_run default_acquire default_release obj_dead ?ops (\<lambda>_. 0) rp_start"
  obtain ext' w' where run: "?r = Some (ext', w')"
    by (simp add: rp_start_def refcount_base_init_def obj_dead_def)
  have m: "m_ptr w' False = Some 7"
    using run
    by (auto simp: rp_start_def rp_reset_ptr_def rp_reset_copy_def rp_reset_def on_objs_def
        set_ptr_def refcount_base_init_def obj_dead_def Let_def)
  show ?thesis
    using refpointer_program_safe [OF rp_start_inv run] m run by simp
qed

lemma default_release_deleted:
  "0 < obj_count s a \<Longrightarrow>
   m_deleted (default_release a 1 s a) = m_deleted (s a) + (if obj_count s a = 1 then 1 else 0)"
  using refcnt_release_count(2) [of 1 "s a"]
  by (auto simp: default_release_def obj_count_def)

lemma default_release_other: "b \<noteq> a \<Longrightarrow> default_release a n s b = s b"
  by (simp add: default_release_def)

text \<open>
  Destroying a refpointer runs the deleter of its object exactly when it held the last
  reference, once, and on no other object.
\<close>

theorem refpointer_dtor_deletes_last:
  assumes "default_inv ext (w :: ('v::finite, objects) rp_world)" and "m_ptr w v = Some a"
  shows "m_deleted (objs (rp_dtor default_release v w) a) =
      (if refs (m_ptr w) a = 1 \<and> ext a = 0 then 1 else 0) \<and>
    (\<forall>b. b \<noteq> a \<longrightarrow> objs (rp_dtor default_release v w) b = objs w b)"
proof -
  have cnt: "obj_count (objs w) a = refs (m_ptr w) a + ext a" "m_deleted (objs w a) = 0"
    using assms(1) default_mgr.inv_no_dangling [OF assms]
    by (auto simp: rp_inv_def obj_dead_def)
  moreover have "1 \<le> refs (m_ptr w) a" using assms(2) by (rule refs_ge_1)
  ultimately have "m_deleted (default_release a 1 (objs w) a) =
      (if refs (m_ptr w) a = 1 \<and> ext a = 0 then 1 else 0)"
    by (simp add: default_release_deleted del: One_nat_def)
  then show ?thesis
    using assms(2) by (simp add: rp_dtor_def rp_reset_def on_objs_def set_ptr_def
        default_release_other)
qed

definition rp_one :: "(bool, objects) rp_world" where
  "rp_one = \<lparr>m_ptr = (\<lambda>v. if v then Some 7 else None),
     objs = (\<lambda>a. \<lparr>m_refcount = (if a = 7 then 1 else 0), m_deleted = 0\<rparr>)\<rparr>"

lemma rp_one_refs: "refs (m_ptr rp_one) a = (if a = 7 then 1 else 0)"
proof -
  have "{v. m_ptr rp_one v = Some a} = (if a = 7 then {True} else {})"
    by (auto simp: rp_one_def)
  then show ?thesis by (simp add: refs_def)
qed

lemma rp_one_inv: "default_inv (\<lambda>_. 0) rp_one"
  unfolding rp_inv_def rp_one_refs
  by (auto simp: rp_one_def obj_count_def obj_dead_def)

theorem refpointer_dtor_deletes_last_witness:
  "m_deleted (objs (rp_dtor default_release True rp_one) 7) = 1"
  using refpointer_dtor_deletes_last [OF rp_one_inv, of True 7]
  by (simp add: rp_one_refs) (simp add: rp_one_def)

end
