(* ===== verification/Hazard.thy ===== *)
theory Hazard
  imports Refcount_Inv
begin

unbundle bit_operations_syntax

text \<open>
  Hazard pointers: \<open>include/ilias/hazard.h\<close>, \<open>hazard-inl.h\<close> and \<open>src/hazard.cc\<close>.

  The table of 64 hazards and the operations of \<open>basic_hazard\<close> on it, as they run without
  interference from other threads (the table itself may hold the published hazards of any
  number of parked threads). A compare-exchange loop that can only be left by the action of
  another thread is the result \<open>None\<close>. The interleaved execution of these operations is the
  subject of the theory \<open>LLPtr_Conc\<close>.
\<close>

definition FLAG :: uptr where "FLAG = 1"
definition MASK :: uptr where "MASK = NOT FLAG"

record hazard_t =
  owner :: uptr
  hvalue :: uptr

record hazards =
  hz_idx :: "16 word"
  hz_tab :: "hazard_t list"

definition N_HAZARDS :: nat where "N_HAZARDS = 64"

definition hazards_init :: hazards where
  "hazards_init = \<lparr>hz_idx = 0, hz_tab = replicate N_HAZARDS \<lparr>owner = 0, hvalue = 0\<rparr>\<rparr>"

definition validate_owner :: "uptr \<Rightarrow> uptr result" where
  "validate_owner p =
     (if p = 0 then Inl Invalid_argument
      else if p AND FLAG \<noteq> 0 then Inl Invalid_argument
      else Inr p)"

text \<open>
  The allocation starts at a rotating index, walks to the end of the table and then over the
  whole table until a compare-exchange from 0 succeeds.
\<close>

fun find_free :: "hazard_t list \<Rightarrow> nat \<Rightarrow> nat option" where
  "find_free [] k = None"
| "find_free (h # hs) k = (if owner h = 0 then Some k else find_free hs (Suc k))"

definition allocate_hazard :: "uptr \<Rightarrow> hazards \<Rightarrow> (nat \<times> hazards) option" where
  "allocate_hazard own s =
     (let idx = unat (hz_idx s) mod length (hz_tab s);
          s1 = s\<lparr>hz_idx := hz_idx s + 1\<rparr>;
          take_slot = (\<lambda>j. (j, s1\<lparr>hz_tab := (hz_tab s1)[j := (hz_tab s1 ! j)\<lparr>owner := own\<rparr>]\<rparr>))
      in case find_free (drop idx (hz_tab s1)) idx of
           Some j \<Rightarrow> Some (take_slot j)
         | None \<Rightarrow> map_option take_slot (find_free (hz_tab s1) 0))"

text \<open>Constructor and destructor of \<open>basic_hazard\<close>.\<close>

definition basic_hazard_ctor :: "uptr \<Rightarrow> hazards \<Rightarrow> (nat \<times> hazards) option result" where
  "basic_hazard_ctor own s = (case validate_owner own of
     Inl e \<Rightarrow> Inl e
   | Inr p \<Rightarrow> (case allocate_hazard p s of
       None \<Rightarrow> Inr None
     | Some (j, s') \<Rightarrow> if hvalue (hz_tab s' ! j) = 0 then Inr (Some (j, s')) else Inl Assertion_failed))"

definition upd_hazard :: "nat \<Rightarrow> (hazard_t \<Rightarrow> hazard_t) \<Rightarrow> hazards \<Rightarrow> hazards" where
  "upd_hazard j f s = s\<lparr>hz_tab := (hz_tab s)[j := f (hz_tab s ! j)]\<rparr>"

definition basic_hazard_dtor :: "nat \<Rightarrow> hazards \<Rightarrow> hazards result" where
  "basic_hazard_dtor j s =
     (if hvalue (hz_tab s ! j) \<noteq> 0 then Inl Assertion_failed
      else Inr (upd_hazard j (\<lambda>h. h\<lparr>owner := owner h AND FLAG\<rparr>) s))"

text \<open>
  \<open>do_hazard\<close>: publish the value, run the operation, withdraw the value; \<open>on_nil\<close> runs when
  somebody took the value away in between. The operations act on the table and on the rest of
  the world, \<open>'w\<close>.
\<close>

definition basic_do_hazard ::
    "nat \<Rightarrow> uptr \<Rightarrow> (hazards \<times> 'w \<Rightarrow> hazards \<times> 'w) \<Rightarrow> ('w \<Rightarrow> 'w) \<Rightarrow> hazards \<times> 'w \<Rightarrow>
     (hazards \<times> 'w) result" where
  "basic_do_hazard j v operation on_nil = (\<lambda>(s, w).
     if hvalue (hz_tab s ! j) \<noteq> 0 then Inl Assertion_failed
     else let (s1, w1) = operation (upd_hazard j (\<lambda>h. h\<lparr>hvalue := v\<rparr>) s, w);
              old = hvalue (hz_tab s1 ! j);
              s2 = upd_hazard j (\<lambda>h. h\<lparr>hvalue := 0\<rparr>) s1
          in Inr (s2, if old = 0 then on_nil w1 else w1))"

text \<open>
  \<open>mark\<close> takes the value away from one hazard. The loop goes round again only while the owner
  matches but its flag is set by another marker.
\<close>

definition mark :: "uptr \<Rightarrow> uptr \<Rightarrow> hazard_t \<Rightarrow> (bool \<times> hazard_t) option" where
  "mark own v h =
     (if hvalue h \<noteq> v then Some (False, h)
      else if owner h = own then
        let h1 = h\<lparr>owner := own OR FLAG\<rparr>;
            rv = (hvalue h1 = v);
            h2 = (if rv then h1\<lparr>hvalue := 0\<rparr> else h1)
        in Some (rv, h2\<lparr>owner := owner h2 AND MASK\<rparr>)
      else if owner h AND MASK = own then None
      else Some (False, h))"

fun grant_loop :: "uptr \<Rightarrow> uptr \<Rightarrow> nat option \<Rightarrow> nat \<Rightarrow> hazard_t list \<Rightarrow> (nat \<times> hazard_t list) option" where
  "grant_loop own v nrefs count [] = Some (count, [])"
| "grant_loop own v nrefs count (h # hs) =
     (if nrefs = Some count then Some (count, h # hs)
      else case mark own v h of
        None \<Rightarrow> None
      | Some (b, h') \<Rightarrow>
          (case grant_loop own v nrefs (if b then count + 1 else count) hs of
             None \<Rightarrow> None
           | Some (c, hs') \<Rightarrow> Some (c, h' # hs')))"

definition hazard_grant :: "uptr \<Rightarrow> uptr \<Rightarrow> hazards \<Rightarrow> (nat \<times> hazards) option" where
  "hazard_grant own v s =
     map_option (\<lambda>(c, hs). (c, s\<lparr>hz_tab := hs\<rparr>)) (grant_loop own v None 0 (hz_tab s))"

definition hazard_grant_n :: "uptr \<Rightarrow> uptr \<Rightarrow> nat \<Rightarrow> hazards \<Rightarrow> (nat \<times> hazards) option" where
  "hazard_grant_n own v nrefs s =
     map_option (\<lambda>(c, hs). (c, s\<lparr>hz_tab := hs\<rparr>)) (grant_loop own v (Some nrefs) 0 (hz_tab s))"

text \<open>\<open>hazard_wait\<close> returns when no hazard of the owner publishes the value.\<close>

definition hazard_wait :: "uptr \<Rightarrow> uptr \<Rightarrow> hazards \<Rightarrow> unit option" where
  "hazard_wait own v s =
     (if list_ex (\<lambda>h. owner h AND MASK = own \<and> hvalue h = v) (hz_tab s) then None else Some ())"

text \<open>
  \<open>grant\<close>: make sure of one reference per hazard, hand them out, and return the rest.
\<close>

definition basic_grant ::
    "(nat \<Rightarrow> 's \<Rightarrow> 's) \<Rightarrow> (nat \<Rightarrow> 's \<Rightarrow> 's) \<Rightarrow> uptr \<Rightarrow> uptr \<Rightarrow> nat \<Rightarrow> hazards \<times> 's \<Rightarrow>
     (hazards \<times> 's) option result" where
  "basic_grant acq rel own v nrefs = (\<lambda>(s, w). case validate_owner own of
     Inl e \<Rightarrow> Inl e
   | Inr _ \<Rightarrow>
       let w1 = (if nrefs < N_HAZARDS then acq (N_HAZARDS - nrefs) w else w);
           n1 = (if nrefs < N_HAZARDS then N_HAZARDS else nrefs)
       in Inr (case hazard_grant own v s of
            None \<Rightarrow> None
          | Some (c, s') \<Rightarrow>
              let n2 = n1 - c in Some (s', if 0 < n2 then rel n2 w1 else w1)))"

definition basic_grant_n :: "uptr \<Rightarrow> uptr \<Rightarrow> nat \<Rightarrow> hazards \<Rightarrow> (nat \<times> hazards) option result" where
  "basic_grant_n own v nrefs s = (case validate_owner own of
     Inl e \<Rightarrow> Inl e | Inr _ \<Rightarrow> Inr (hazard_grant_n own v nrefs s))"

definition basic_wait_unused :: "uptr \<Rightarrow> uptr \<Rightarrow> hazards \<Rightarrow> unit option result" where
  "basic_wait_unused own v s = (case validate_owner own of
     Inl e \<Rightarrow> Inl e | Inr _ \<Rightarrow> Inr (hazard_wait own v s))"

section \<open>Allocation\<close>

lemma find_free_Some:
  "find_free hs k = Some j \<Longrightarrow> k \<le> j \<and> j - k < length hs \<and> owner (hs ! (j - k)) = 0"
proof (induction hs k rule: find_free.induct)
  case (2 h hs k)
  then show ?case
    by (cases "owner h = 0") (auto simp: nth_Cons' Suc_le_eq le_Suc_eq diff_Suc split: nat.splits)
qed simp

lemma find_free_None: "find_free hs k = None \<longleftrightarrow> (\<forall>h \<in> set hs. owner h \<noteq> 0)"
  by (induction hs k rule: find_free.induct) auto

lemma allocate_hazard_Some:
  assumes "allocate_hazard own s = Some (j, s')"
  shows "j < length (hz_tab s) \<and> owner (hz_tab s ! j) = 0 \<and>
    hz_tab s' = (hz_tab s)[j := (hz_tab s ! j)\<lparr>owner := own\<rparr>]"
proof -
  let ?idx = "unat (hz_idx s) mod length (hz_tab s)"
  consider "find_free (drop ?idx (hz_tab s)) ?idx = Some j" | "find_free (hz_tab s) 0 = Some j"
    using assms by (auto simp: allocate_hazard_def Let_def split: option.splits)
  then have "j < length (hz_tab s) \<and> owner (hz_tab s ! j) = 0"
    by cases (auto dest!: find_free_Some)
  then show ?thesis
    using assms by (auto simp: allocate_hazard_def Let_def split: option.splits)
qed

lemma allocate_hazard_None:
  "allocate_hazard own s = None \<longleftrightarrow> (\<forall>h \<in> set (hz_tab s). owner h \<noteq> 0)"
proof -
  let ?idx = "unat (hz_idx s) mod length (hz_tab s)"
  show ?thesis
  proof (cases "find_free (drop ?idx (hz_tab s)) ?idx")
    case None
    then show ?thesis
      by (simp add: allocate_hazard_def Let_def find_free_None [of "hz_tab s" 0])
  next
    case (Some j)
    then have "\<not> (\<forall>h \<in> set (drop ?idx (hz_tab s)). owner h \<noteq> 0)"
      using find_free_None [of "drop ?idx (hz_tab s)" ?idx] by simp
    then have "\<not> (\<forall>h \<in> set (hz_tab s). owner h \<noteq> 0)"
      by (auto dest: in_set_dropD)
    with Some show ?thesis by (simp add: allocate_hazard_def Let_def)
  qed
qed

section \<open>Granting\<close>

text \<open>The hazards that publish a value for an owner, and the table with these withdrawn.\<close>

definition publishes :: "uptr \<Rightarrow> uptr \<Rightarrow> hazard_t \<Rightarrow> bool" where
  "publishes own v h \<longleftrightarrow> owner h = own \<and> hvalue h = v"

definition withdrawn :: "uptr \<Rightarrow> uptr \<Rightarrow> hazard_t \<Rightarrow> hazard_t" where
  "withdrawn own v h = (if publishes own v h then h\<lparr>hvalue := 0\<rparr> else h)"

definition unflagged :: "hazard_t \<Rightarrow> bool" where
  "unflagged h \<longleftrightarrow> owner h AND FLAG = 0"

lemma and_MASK_unflagged: "w AND FLAG = 0 \<Longrightarrow> w AND MASK = w"
proof -
  assume flag: "w AND FLAG = 0"
  have "w = w AND (FLAG OR NOT FLAG)" by simp
  also have "\<dots> = (w AND FLAG) OR (w AND NOT FLAG)" by (simp only: bit.conj_disj_distrib)
  finally show ?thesis using flag by (simp add: MASK_def)
qed

lemma or_FLAG_and_MASK: "w AND FLAG = 0 \<Longrightarrow> (w OR FLAG) AND MASK = w"
  using and_MASK_unflagged [of w]
  by (simp add: MASK_def bit.conj_disj_distrib2)

lemma mark_unflagged:
  assumes "own AND FLAG = 0" and "unflagged h"
  shows "mark own v h = Some (publishes own v h, withdrawn own v h)"
  using assms
  by (auto simp: mark_def publishes_def withdrawn_def unflagged_def or_FLAG_and_MASK
      and_MASK_unflagged Let_def)

lemma grant_loop_all:
  assumes "own AND FLAG = 0" and "\<forall>h \<in> set hs. unflagged h"
  shows "grant_loop own v None c hs =
    Some (c + length (filter (publishes own v) hs), map (withdrawn own v) hs)"
  using assms(2)
  by (induction hs arbitrary: c) (auto simp: mark_unflagged [OF assms(1)])

lemma hazard_grant_all:
  assumes "own AND FLAG = 0" and "\<forall>h \<in> set (hz_tab s). unflagged h"
  shows "hazard_grant own v s =
    Some (length (filter (publishes own v) (hz_tab s)), s\<lparr>hz_tab := map (withdrawn own v) (hz_tab s)\<rparr>)"
  by (simp add: hazard_grant_def grant_loop_all [OF assms])

lemma grant_loop_n_le:
  "grant_loop own v (Some n) c hs = Some (c', hs') \<Longrightarrow> c \<le> n \<Longrightarrow> c \<le> c' \<and> c' \<le> n"
proof (induction hs arbitrary: c c' hs')
  case (Cons h hs)
  then show ?case
    by (fastforce split: if_splits option.splits prod.splits dest: Suc_leI Cons.IH)
qed simp

lemma validate_owner_ok: "own \<noteq> 0 \<Longrightarrow> own AND FLAG = 0 \<Longrightarrow> validate_owner own = Inr own"
  by (simp add: validate_owner_def)

text \<open>
  The arithmetic of \<open>grant\<close>, for every policy that keeps the contract.
\<close>

context refcount_mgr
begin

lemma grant_counts:
  assumes own: "own \<noteq> 0" "own AND FLAG = 0"
    and tab: "\<forall>h \<in> set (hz_tab s). unflagged h" "length (hz_tab s) = N_HAZARDS"
    and brought: "nrefs \<le> count w p" "count w p + N_HAZARDS < limit"
    and g: "g = length (filter (publishes own v) (hz_tab s))"
  shows "\<exists>w'. basic_grant (acquire p) (release p) own v nrefs (s, w) =
      Inr (Some (s\<lparr>hz_tab := map (withdrawn own v) (hz_tab s)\<rparr>, w')) \<and>
    count w' p = count w p - nrefs + g \<and> (\<forall>q. q \<noteq> p \<longrightarrow> count w' q = count w q)"
proof -
  define w1 where "w1 = (if nrefs < N_HAZARDS then acquire p (N_HAZARDS - nrefs) w else w)"
  define n1 where "n1 = (if nrefs < N_HAZARDS then N_HAZARDS else nrefs)"
  define w2 where "w2 = (if 0 < n1 - g then release p (n1 - g) w1 else w1)"
  have "g \<le> N_HAZARDS" using tab(2) g by (metis length_filter_le)
  then have g1: "g \<le> n1" by (simp add: n1_def)
  have c1: "count w1 p = count w p - nrefs + n1" "\<And>q. q \<noteq> p \<Longrightarrow> count w1 q = count w q"
    using brought by (auto simp: w1_def n1_def count_acquire)
  have lim: "count w1 p < limit" using c1(1) brought by (auto simp: n1_def split: if_splits)
  have "n1 - g \<le> count w1 p" using c1(1) by simp
  then have c2: "count w2 p = count w p - nrefs + g" "\<And>q. q \<noteq> p \<Longrightarrow> count w2 q = count w q"
    using c1 g1 lim by (auto simp: w2_def count_release)
  have "basic_grant (acquire p) (release p) own v nrefs (s, w) =
      Inr (Some (s\<lparr>hz_tab := map (withdrawn own v) (hz_tab s)\<rparr>, w2))"
    by (simp add: basic_grant_def validate_owner_ok [OF own] hazard_grant_all [OF own(2) tab(1)]
        w1_def n1_def w2_def g Let_def)
  with c2 show ?thesis by blast
qed

end

text \<open>
  The arithmetic of \<open>grant\<close>: whatever number of references the caller brings, the count
  of the object changes by exactly the references given to readers less those brought; every
  hazard that publishes the value for this owner (and no other) is withdrawn and gets one.
\<close>

theorem grant_balances:
  assumes "own \<noteq> 0" "own AND FLAG = 0"
    and "\<forall>h \<in> set (hz_tab s). unflagged h" "length (hz_tab s) = N_HAZARDS"
    and "nrefs \<le> obj_count w p" "obj_count w p + N_HAZARDS < 2 ^ 32"
  shows "\<exists>w'. basic_grant (default_acquire p) (default_release p) own v nrefs (s, w) =
      Inr (Some (s\<lparr>hz_tab := map (withdrawn own v) (hz_tab s)\<rparr>, w')) \<and>
    obj_count w' p = obj_count w p - nrefs + length (filter (publishes own v) (hz_tab s)) \<and>
    (\<forall>q. q \<noteq> p \<longrightarrow> obj_count w' q = obj_count w q)"
  by (rule default_mgr.grant_counts [OF assms refl])

definition hz_example :: hazards where
  "hz_example = \<lparr>hz_idx = 0, hz_tab = \<lparr>owner = 16, hvalue = 96\<rparr> # \<lparr>owner = 32, hvalue = 96\<rparr> #
     \<lparr>owner = 16, hvalue = 96\<rparr> # replicate 61 \<lparr>owner = 0, hvalue = 0\<rparr>\<rparr>"

theorem grant_balances_witness:
  "\<exists>w'. basic_grant (default_acquire 96) (default_release 96) 16 96 1
      (hz_example, (\<lambda>_. \<lparr>m_refcount = 5, m_deleted = 0\<rparr>)) =
      Inr (Some (hz_example\<lparr>hz_tab := map (withdrawn 16 96) (hz_tab hz_example)\<rparr>, w')) \<and>
    obj_count w' 96 = 6"
proof -
  let ?w = "\<lambda>_::addr. \<lparr>m_refcount = 5, m_deleted = 0\<rparr>"
  have "\<forall>h \<in> set (hz_tab hz_example). unflagged h"
    by (simp add: hz_example_def unflagged_def FLAG_def)
  moreover have "length (hz_tab hz_example) = N_HAZARDS"
    by (simp add: hz_example_def N_HAZARDS_def)
  moreover have "obj_count ?w 96 = 5" by (simp add: obj_count_def)
  moreover have "length (filter (publishes 16 96) (hz_tab hz_example)) = 2"
    by (simp add: hz_example_def publishes_def)
  moreover have "(16 :: uptr) AND FLAG = 0" by (simp add: FLAG_def)
  ultimately show ?thesis
    using grant_balances [of 16 hz_example 1 ?w 96 96] by (auto simp: N_HAZARDS_def)
qed

text \<open>
  A hazard slot is handed out to one user at a time: the allocation returns a slot that
  nobody owned, makes the caller its owner and leaves all other slots as they were; and it
  returns whenever some slot is free.
\<close>

theorem allocate_hazard_exclusive:
  "case allocate_hazard own s of
     None \<Rightarrow> list_all (\<lambda>h. owner h \<noteq> 0) (hz_tab s)
   | Some (j, s') \<Rightarrow> j < length (hz_tab s) \<and> owner (hz_tab s ! j) = 0 \<and>
       hz_tab s' = (hz_tab s)[j := (hz_tab s ! j)\<lparr>owner := own\<rparr>]"
  using allocate_hazard_Some [of own s]
  by (auto simp: allocate_hazard_None list_all_iff split: option.splits)

end
