(* ===== verification/LLPtr_Conc.thy ===== *)
theory LLPtr_Conc
  imports Hazard
begin

text \<open>
  The interleaved execution of \<open>llptr\<close> (\<open>include/ilias/llptr.h\<close>) with the hazard table
  (\<open>hazard-inl.h\<close>, \<open>src/hazard.cc\<close>): any number of threads load, exchange, store and
  compare-exchange any number of atomic pointers, one atomic operation per step, in any order
  (sequentially consistent).

  \<open>impl\<close> is the pointer part of \<open>m_impl\<close> of every \<open>llptr\<close> (the flags do not take part),
  \<open>hown\<close> and \<open>hval\<close> are the fields of the hazards (the owner with its \<open>FLAG\<close> bit as a
  pair), \<open>cnt\<close> the counter that \<open>AcqRel\<close> keeps for each object, \<open>held\<close> the references
  that the callers own, and \<open>pc\<close> says where every thread is in the code.
\<close>

text \<open>
  The places: in \<open>load\<close> (and in the failing compare-exchange that has to acquire what it
  observed) \<open>Ld...\<close>, with the pointer \<open>l\<close>, the address \<open>v\<close> read from it, the hazard slot
  \<open>i\<close> and the number \<open>rv\<close> of references acquired; in \<open>grant\<close> \<open>Gr...\<close>, with the
  address \<open>p\<close> taken out of \<open>l\<close>, the references \<open>n\<close> left to give, the slot \<open>j\<close>
  looked at, and the references \<open>k\<close> that the caller keeps for itself.
\<close>

datatype 'l llpc =
  Idle
| LdAlloc 'l addr
| LdSet 'l addr nat
| LdCheck 'l addr nat
| LdAcquire 'l addr nat
| LdClear 'l addr nat nat
| LdDone 'l addr nat nat
| LdFree 'l ptr nat
| GrAcq 'l addr nat nat
| GrScan 'l addr nat nat nat
| GrLock 'l addr nat nat nat
| GrCas 'l addr nat nat nat
| GrUnlock 'l addr nat nat nat

record ('l, 't) ll =
  impl :: "'l \<Rightarrow> ptr"
  hown :: "nat \<Rightarrow> 'l option \<times> bool"
  hval :: "nat \<Rightarrow> ptr"
  cnt :: "addr \<Rightarrow> nat"
  held :: "'t \<Rightarrow> addr \<Rightarrow> nat"
  pc :: "'t \<Rightarrow> 'l llpc"

definition ll_init :: "('l, 't) ll" where
  "ll_init = \<lparr>impl = (\<lambda>_. None), hown = (\<lambda>_. (None, False)), hval = (\<lambda>_. None),
     cnt = (\<lambda>_. 0), held = (\<lambda>_ _. 0), pc = (\<lambda>_. Idle)\<rparr>"

definition goto :: "'t \<Rightarrow> 'l llpc \<Rightarrow> ('l, 't) ll \<Rightarrow> ('l, 't) ll" where
  "goto t c s = s\<lparr>pc := (pc s)(t := c)\<rparr>"

definition set_hval :: "nat \<Rightarrow> ptr \<Rightarrow> ('l, 't) ll \<Rightarrow> ('l, 't) ll" where
  "set_hval i x s = s\<lparr>hval := (hval s)(i := x)\<rparr>"

definition set_hown :: "nat \<Rightarrow> 'l option \<times> bool \<Rightarrow> ('l, 't) ll \<Rightarrow> ('l, 't) ll" where
  "set_hown i x s = s\<lparr>hown := (hown s)(i := x)\<rparr>"

definition set_impl :: "'l \<Rightarrow> ptr \<Rightarrow> ('l, 't) ll \<Rightarrow> ('l, 't) ll" where
  "set_impl l x s = s\<lparr>impl := (impl s)(l := x)\<rparr>"

definition acq_obj :: "addr \<Rightarrow> nat \<Rightarrow> ('l, 't) ll \<Rightarrow> ('l, 't) ll" where
  "acq_obj p n s = s\<lparr>cnt := (cnt s)(p := cnt s p + n)\<rparr>"

definition rel_obj :: "addr \<Rightarrow> nat \<Rightarrow> ('l, 't) ll \<Rightarrow> ('l, 't) ll" where
  "rel_obj p n s = s\<lparr>cnt := (cnt s)(p := cnt s p - n)\<rparr>"

definition hold :: "'t \<Rightarrow> ptr \<Rightarrow> nat \<Rightarrow> ('l, 't) ll \<Rightarrow> ('l, 't) ll" where
  "hold t p n s = when_ptr (\<lambda>a s. s\<lparr>held := (held s)(t := (held s t)(a := held s t a + n))\<rparr>) p s"

definition unhold :: "'t \<Rightarrow> ptr \<Rightarrow> ('l, 't) ll \<Rightarrow> ('l, 't) ll" where
  "unhold t p s = when_ptr (\<lambda>a s. s\<lparr>held := (held s)(t := (held s t)(a := held s t a - 1))\<rparr>) p s"

lemmas ll_upd_defs = goto_def set_hval_def set_hown_def set_impl_def acq_obj_def rel_obj_def
  hold_def unhold_def

lemma ll_sel [simp]:
  "impl (goto t c s) = impl s" "hown (goto t c s) = hown s" "hval (goto t c s) = hval s"
  "cnt (goto t c s) = cnt s" "held (goto t c s) = held s" "pc (goto t c s) = (pc s)(t := c)"
  "impl (set_hval i x s) = impl s" "hown (set_hval i x s) = hown s" "cnt (set_hval i x s) = cnt s"
  "held (set_hval i x s) = held s" "pc (set_hval i x s) = pc s" "hval (set_hval i x s) = (hval s)(i := x)"
  "impl (set_hown i y s) = impl s" "hval (set_hown i y s) = hval s" "cnt (set_hown i y s) = cnt s"
  "held (set_hown i y s) = held s" "pc (set_hown i y s) = pc s" "hown (set_hown i y s) = (hown s)(i := y)"
  "hown (set_impl l x s) = hown s" "hval (set_impl l x s) = hval s" "cnt (set_impl l x s) = cnt s"
  "held (set_impl l x s) = held s" "pc (set_impl l x s) = pc s" "impl (set_impl l x s) = (impl s)(l := x)"
  "impl (acq_obj p n s) = impl s" "hown (acq_obj p n s) = hown s" "hval (acq_obj p n s) = hval s"
  "held (acq_obj p n s) = held s" "pc (acq_obj p n s) = pc s" "cnt (acq_obj p n s) = (cnt s)(p := cnt s p + n)"
  "impl (rel_obj p n s) = impl s" "hown (rel_obj p n s) = hown s" "hval (rel_obj p n s) = hval s"
  "held (rel_obj p n s) = held s" "pc (rel_obj p n s) = pc s" "cnt (rel_obj p n s) = (cnt s)(p := cnt s p - n)"
  "impl (hold t x n s) = impl s" "hown (hold t x n s) = hown s" "hval (hold t x n s) = hval s"
  "cnt (hold t x n s) = cnt s" "pc (hold t x n s) = pc s" "impl (unhold t x s) = impl s"
  "hown (unhold t x s) = hown s" "hval (unhold t x s) = hval s" "cnt (unhold t x s) = cnt s"
  "pc (unhold t x s) = pc s"
  by (auto simp: ll_upd_defs when_ptr_def split: option.splits)

lemma held_hold [simp]:
  "held (hold t x n s) u q = held s u q + (if u = t \<and> x = Some q then n else 0)"
  by (cases x) (auto simp: hold_def)

lemma held_unhold [simp]:
  "held (unhold t x s) u q = held s u q - (if u = t \<and> x = Some q then 1 else 0)"
  by (cases x) (auto simp: unhold_def)

definition owns :: "'t \<Rightarrow> ptr \<Rightarrow> ('l, 't) ll \<Rightarrow> bool" where
  "owns t p s \<longleftrightarrow> (case p of None \<Rightarrow> True | Some a \<Rightarrow> 0 < held s t a)"

text \<open>
  The steps. Loading a null pointer returns at once and changes nothing, so it has no rule.
\<close>

inductive ll_step :: "('l, 't) ll \<Rightarrow> ('l, 't) ll \<Rightarrow> bool" where
  \<comment> \<open>\<open>load\<close>: read \<open>m_impl\<close>, allocate a hazard\<close>
  ld_read: "pc s t = Idle \<Longrightarrow> impl s l = Some v \<Longrightarrow> ll_step s (goto t (LdAlloc l v) s)"
| ld_alloc: "pc s t = LdAlloc l v \<Longrightarrow> i < N_HAZARDS \<Longrightarrow> hown s i = (None, False) \<Longrightarrow>
    ll_step s (goto t (LdSet l v i) (set_hown i (Some l, False) s))"
  \<comment> \<open>\<open>do_hazard\<close>: publish, read \<open>m_impl\<close> again, acquire, withdraw\<close>
| ld_set: "pc s t = LdSet l v i \<Longrightarrow>
    ll_step s (goto t (LdCheck l v i) (set_hval i (Some v) s))"
| ld_check_eq: "pc s t = LdCheck l v i \<Longrightarrow> impl s l = Some v \<Longrightarrow>
    ll_step s (goto t (LdAcquire l v i) s)"
| ld_check_ne: "pc s t = LdCheck l v i \<Longrightarrow> impl s l \<noteq> Some v \<Longrightarrow>
    ll_step s (goto t (LdClear l v i 0) s)"
| ld_acquire: "pc s t = LdAcquire l v i \<Longrightarrow>
    ll_step s (goto t (LdClear l v i 1) (acq_obj v 1 s))"
| ld_clear: "pc s t = LdClear l v i rv \<Longrightarrow> hval s i \<noteq> None \<Longrightarrow>
    ll_step s (goto t (LdDone l v i rv) (set_hval i None s))"
| ld_clear_granted: "pc s t = LdClear l v i rv \<Longrightarrow> hval s i = None \<Longrightarrow>
    ll_step s (goto t (LdDone l v i (rv + 1)) (set_hval i None s))"
  \<comment> \<open>the loop of \<open>load\<close>, the surplus reference, the destruction of the hazard\<close>
| ld_retry: "pc s t = LdDone l v i 0 \<Longrightarrow> impl s l = Some v' \<Longrightarrow>
    ll_step s (goto t (LdSet l v' i) s)"
| ld_retry_null: "pc s t = LdDone l v i 0 \<Longrightarrow> impl s l = None \<Longrightarrow>
    ll_step s (goto t (LdFree l None i) s)"
| ld_got: "pc s t = LdDone l v i rv \<Longrightarrow> 0 < rv \<Longrightarrow>
    ll_step s (goto t (LdFree l (Some v) i) (if 1 < rv then rel_obj v (rv - 1) s else s))"
| ld_free: "pc s t = LdFree l r i \<Longrightarrow>
    ll_step s (goto t Idle (hold t r 1 (set_hown i (None, snd (hown s i)) s)))"
  \<comment> \<open>the exchange of \<open>exchange\<close> / \<open>store\<close> / a successful compare-exchange\<close>
| sw_null: "pc s t = Idle \<Longrightarrow> owns t x s \<Longrightarrow> impl s l = None \<Longrightarrow>
    ll_step s (unhold t x (set_impl l x s))"
| sw_exchange: "pc s t = Idle \<Longrightarrow> owns t x s \<Longrightarrow> impl s l = Some p \<Longrightarrow>
    ll_step s (goto t (GrAcq l p 0 1) (unhold t x (set_impl l x s)))"
| sw_store: "pc s t = Idle \<Longrightarrow> owns t x s \<Longrightarrow> impl s l = Some p \<Longrightarrow>
    ll_step s (goto t (GrAcq l p 1 0) (unhold t x (set_impl l x s)))"
| sw_cas_own: "pc s t = Idle \<Longrightarrow> owns t x s \<Longrightarrow> impl s l = Some p \<Longrightarrow>
    owns t (Some p) (unhold t x s) \<Longrightarrow>
    ll_step s (goto t (GrAcq l p 2 0) (unhold t (Some p) (unhold t x (set_impl l x s))))"
  \<comment> \<open>\<open>grant\<close>: raise the count, mark every hazard, return what is left\<close>
| gr_acq: "pc s t = GrAcq l p r k \<Longrightarrow>
    ll_step s (goto t (GrScan l p (max r N_HAZARDS) 0 k)
      (if r < N_HAZARDS then acq_obj p (N_HAZARDS - r) s else s))"
| gr_skip: "pc s t = GrScan l p n j k \<Longrightarrow> j < N_HAZARDS \<Longrightarrow> hval s j \<noteq> Some p \<Longrightarrow>
    ll_step s (goto t (GrScan l p n (Suc j) k) s)"
| gr_match: "pc s t = GrScan l p n j k \<Longrightarrow> j < N_HAZARDS \<Longrightarrow> hval s j = Some p \<Longrightarrow>
    ll_step s (goto t (GrLock l p n j k) s)"
| gr_lock: "pc s t = GrLock l p n j k \<Longrightarrow> hown s j = (Some l, False) \<Longrightarrow>
    ll_step s (goto t (GrCas l p n j k) (set_hown j (Some l, True) s))"
| gr_lock_retry: "pc s t = GrLock l p n j k \<Longrightarrow> hown s j = (Some l, True) \<Longrightarrow>
    ll_step s (goto t (GrScan l p n j k) s)"
| gr_lock_other: "pc s t = GrLock l p n j k \<Longrightarrow> fst (hown s j) \<noteq> Some l \<Longrightarrow>
    ll_step s (goto t (GrScan l p n (Suc j) k) s)"
| gr_cas_hit: "pc s t = GrCas l p n j k \<Longrightarrow> hval s j = Some p \<Longrightarrow>
    ll_step s (goto t (GrUnlock l p (n - 1) j k) (set_hval j None s))"
| gr_cas_miss: "pc s t = GrCas l p n j k \<Longrightarrow> hval s j \<noteq> Some p \<Longrightarrow>
    ll_step s (goto t (GrUnlock l p n j k) s)"
| gr_unlock: "pc s t = GrUnlock l p n j k \<Longrightarrow>
    ll_step s (goto t (GrScan l p n (Suc j) k) (set_hown j (fst (hown s j), False) s))"
| gr_done: "pc s t = GrScan l p n N_HAZARDS k \<Longrightarrow>
    ll_step s (goto t Idle (hold t (Some p) k (if 0 < n then rel_obj p n s else s)))"
  \<comment> \<open>the callers: create an object (an address may be reused), copy and drop a reference\<close>
| cl_new: "pc s t = Idle \<Longrightarrow> cnt s p = 0 \<Longrightarrow> ll_step s (hold t (Some p) 1 (acq_obj p 1 s))"
| cl_copy: "pc s t = Idle \<Longrightarrow> owns t (Some p) s \<Longrightarrow> ll_step s (hold t (Some p) 1 (acq_obj p 1 s))"
| cl_drop: "pc s t = Idle \<Longrightarrow> owns t (Some p) s \<Longrightarrow> ll_step s (unhold t (Some p) (rel_obj p 1 s))"

inductive ll_reachable :: "('l, 't) ll \<Rightarrow> bool" where
  ll_start: "ll_reachable ll_init"
| ll_next: "ll_reachable s \<Longrightarrow> ll_step s s' \<Longrightarrow> ll_reachable s'"

section \<open>Who owns what\<close>

fun credit :: "(nat \<Rightarrow> ptr) \<Rightarrow> 'l llpc \<Rightarrow> addr \<Rightarrow> nat" where
  "credit hv (LdCheck l v i) p = (if v = p \<and> hv i = None then 1 else 0)"
| "credit hv (LdAcquire l v i) p = (if v = p \<and> hv i = None then 1 else 0)"
| "credit hv (LdClear l v i rv) p = (if v = p then rv + (if hv i = None then 1 else 0) else 0)"
| "credit hv (LdDone l v i rv) p = (if v = p then rv else 0)"
| "credit hv (LdFree l r i) p = (if r = Some p then 1 else 0)"
| "credit hv (GrAcq l q r k) p = (if q = p then r + k else 0)"
| "credit hv (GrScan l q n j k) p = (if q = p then n + k else 0)"
| "credit hv (GrLock l q n j k) p = (if q = p then n + k else 0)"
| "credit hv (GrCas l q n j k) p = (if q = p then n + k else 0)"
| "credit hv (GrUnlock l q n j k) p = (if q = p then n + k else 0)"
| "credit hv _ p = 0"

definition own_refs :: "('l, 't) ll \<Rightarrow> 't \<Rightarrow> addr \<Rightarrow> nat" where
  "own_refs s t p = credit (hval s) (pc s t) p + held s t p"

fun slot_of :: "'l llpc \<Rightarrow> ('l \<times> nat) option" where
  "slot_of (LdSet l v i) = Some (l, i)"
| "slot_of (LdCheck l v i) = Some (l, i)"
| "slot_of (LdAcquire l v i) = Some (l, i)"
| "slot_of (LdClear l v i rv) = Some (l, i)"
| "slot_of (LdDone l v i rv) = Some (l, i)"
| "slot_of (LdFree l r i) = Some (l, i)"
| "slot_of _ = None"

fun pub_of :: "'l llpc \<Rightarrow> (addr \<times> nat) option" where
  "pub_of (LdCheck l v i) = Some (v, i)"
| "pub_of (LdAcquire l v i) = Some (v, i)"
| "pub_of (LdClear l v i rv) = Some (v, i)"
| "pub_of _ = None"

text \<open>Places of \<open>grant\<close> that still owe slot \<open>i\<close> a look.\<close>

fun covers :: "'l \<Rightarrow> addr \<Rightarrow> nat \<Rightarrow> 'l llpc \<Rightarrow> bool" where
  "covers l v i (GrAcq l' p r k) \<longleftrightarrow> l' = l \<and> p = v"
| "covers l v i (GrScan l' p n j k) \<longleftrightarrow> l' = l \<and> p = v \<and> j \<le> i"
| "covers l v i (GrLock l' p n j k) \<longleftrightarrow> l' = l \<and> p = v \<and> j \<le> i"
| "covers l v i (GrCas l' p n j k) \<longleftrightarrow> l' = l \<and> p = v \<and> j \<le> i"
| "covers l v i (GrUnlock l' p n j k) \<longleftrightarrow> l' = l \<and> p = v \<and> j < i"
| "covers l v i _ \<longleftrightarrow> False"

text \<open>A granting thread has enough references for the slots it has not looked at.\<close>

fun solvent :: "'l llpc \<Rightarrow> bool" where
  "solvent (GrAcq l p r k) \<longleftrightarrow> 1 \<le> r + k"
| "solvent (GrScan l p n j k) \<longleftrightarrow> j \<le> N_HAZARDS \<and> N_HAZARDS \<le> n + j"
| "solvent (GrLock l p n j k) \<longleftrightarrow> j < N_HAZARDS \<and> N_HAZARDS \<le> n + j"
| "solvent (GrCas l p n j k) \<longleftrightarrow> j < N_HAZARDS \<and> N_HAZARDS \<le> n + j"
| "solvent (GrUnlock l p n j k) \<longleftrightarrow> j < N_HAZARDS \<and> N_HAZARDS \<le> n + Suc j"
| "solvent _ \<longleftrightarrow> True"

definition counts_ok :: "('l::finite, 't::finite) ll \<Rightarrow> bool" where
  "counts_ok s \<longleftrightarrow> (\<forall>p. cnt s p = refs (impl s) p + (\<Sum>t \<in> UNIV. own_refs s t p))"

definition slots_ok :: "('l, 't) ll \<Rightarrow> bool" where
  "slots_ok s \<longleftrightarrow>
     (\<forall>t l i. slot_of (pc s t) = Some (l, i) \<longrightarrow> i < N_HAZARDS \<and> fst (hown s i) = Some l) \<and>
     (\<forall>t u l l' i. slot_of (pc s t) = Some (l, i) \<longrightarrow> slot_of (pc s u) = Some (l', i) \<longrightarrow> t = u)"

definition values_ok :: "('l, 't) ll \<Rightarrow> bool" where
  "values_ok s \<longleftrightarrow> (\<forall>i v. hval s i = Some v \<longrightarrow> (\<exists>t. pub_of (pc s t) = Some (v, i)))"

definition protected :: "('l, 't) ll \<Rightarrow> bool" where
  "protected s \<longleftrightarrow> (\<forall>t l v i. pc s t = LdAcquire l v i \<longrightarrow>
     hval s i = None \<or> impl s l = Some v \<or> (\<exists>u. covers l v i (pc s u)))"

definition ll_inv :: "('l::finite, 't::finite) ll \<Rightarrow> bool" where
  "ll_inv s \<longleftrightarrow> counts_ok s \<and> slots_ok s \<and> values_ok s \<and> protected s \<and> (\<forall>t. solvent (pc s t))"

end
