(* ===== verification/LLPtr_Inv.thy ===== *)
theory LLPtr_Inv
  imports LLPtr_Conc
begin

text \<open>
  Safety of \<open>llptr\<close> under interleaving: the invariant of \<open>LLPtr_Conc\<close> is kept by every step,
  component by component, and gives that no reference is ever acquired on a dead object.
\<close>

section \<open>Slots and published values\<close>

lemma pub_slot: "pub_of c = Some (v, i) \<Longrightarrow> \<exists>l. slot_of c = Some (l, i)"
  by (cases c) auto

lemma slots_ok_mono:
  assumes "slots_ok s"
    and "\<And>u. slot_of (pc s' u) = slot_of (pc s u) \<or> slot_of (pc s' u) = None"
    and "\<And>i. fst (hown s' i) = fst (hown s i)"
  shows "slots_ok s'"
  unfolding slots_ok_def
proof (intro conjI allI impI)
  fix t l i assume "slot_of (pc s' t) = Some (l, i)"
  then have "slot_of (pc s t) = Some (l, i)" using assms(2) [of t] by auto
  then show "i < N_HAZARDS" "fst (hown s' i) = Some l"
    using assms(1,3) by (auto simp: slots_ok_def)
next
  fix t u l l' i
  assume "slot_of (pc s' t) = Some (l, i)" "slot_of (pc s' u) = Some (l', i)"
  then have "slot_of (pc s t) = Some (l, i)" "slot_of (pc s u) = Some (l', i)"
    using assms(2) [of t] assms(2) [of u] by auto
  then show "t = u" using assms(1) by (auto simp: slots_ok_def)
qed

lemma slots_ok_step: "ll_step s s' \<Longrightarrow> slots_ok s \<Longrightarrow> slots_ok s'"
proof (induction rule: ll_step.induct)
  case (ld_alloc s t l v i)
  then have "slot_of (pc s u) \<noteq> Some (l', i)" for u l'
    unfolding slots_ok_def by fastforce
  with ld_alloc show ?case
    unfolding slots_ok_def by auto
next
  case (ld_free s t l r i)
  then have "slot_of (pc s t) = Some (l, i)" by simp
  then have "u \<noteq> t \<Longrightarrow> slot_of (pc s u) \<noteq> Some (l', i)" for u l'
    using ld_free unfolding slots_ok_def by blast
  with ld_free show ?case
    unfolding slots_ok_def by auto
qed (erule slots_ok_mono; simp; fail)+

lemma values_ok_mono:
  assumes "values_ok s"
    and "\<And>i v. hval s' i = Some v \<Longrightarrow> hval s i = Some v"
    and "\<And>i v u. hval s' i = Some v \<Longrightarrow> pub_of (pc s u) = Some (v, i) \<Longrightarrow>
      pub_of (pc s' u) = Some (v, i)"
  shows "values_ok s'"
  using assms unfolding values_ok_def by blast

lemma values_ok_step: "ll_step s s' \<Longrightarrow> values_ok s \<Longrightarrow> values_ok s'"
proof (induction rule: ll_step.induct)
  case (ld_set s t l v i)
  show ?case
    unfolding values_ok_def
  proof (intro allI impI)
    fix j w assume w: "hval (goto t (LdCheck l v i) (set_hval i (Some v) s)) j = Some w"
    show "\<exists>u. pub_of (pc (goto t (LdCheck l v i) (set_hval i (Some v) s)) u) = Some (w, j)"
    proof (cases "j = i")
      case True
      with w show ?thesis by (intro exI [of _ t]) simp
    next
      case False
      with w ld_set(2) obtain u where "pub_of (pc s u) = Some (w, j)"
        by (auto simp: values_ok_def)
      with ld_set(1) show ?thesis by (intro exI [of _ u]) auto
    qed
  qed
qed (erule values_ok_mono; force split: if_splits; fail)+

text \<open>A published value is the one its publisher put there.\<close>

lemma values_unique:
  assumes "slots_ok s" "values_ok s" "pub_of (pc s t) = Some (v, i)" "hval s i = Some w"
  shows "w = v"
proof -
  obtain u where u: "pub_of (pc s u) = Some (w, i)"
    using assms(2,4) by (auto simp: values_ok_def)
  have "u = t"
    using pub_slot [OF u] pub_slot [OF assms(3)] assms(1) by (auto simp: slots_ok_def)
  with u assms(3) show ?thesis by simp
qed

lemma publisher_unique:
  assumes "slots_ok s" "pub_of (pc s t) = Some (v, i)" "pub_of (pc s u) = Some (w, i)"
  shows "t = u"
  using pub_slot [OF assms(2)] pub_slot [OF assms(3)] assms(1) by (auto simp: slots_ok_def)

section \<open>Solvency of granting threads\<close>

lemma solvent_step: "ll_step s s' \<Longrightarrow> \<forall>t. solvent (pc s t) \<Longrightarrow> \<forall>t. solvent (pc s' t)"
proof (induction rule: ll_step.induct)
  case (gr_skip s t l p n j k)
  from gr_skip(4) [rule_format, of t] gr_skip show ?case by auto
next
  case (gr_match s t l p n j k)
  from gr_match(4) [rule_format, of t] gr_match show ?case by auto
next
  case (gr_lock s t l p n j k)
  from gr_lock(3) [rule_format, of t] gr_lock show ?case by auto
next
  case (gr_lock_retry s t l p n j k)
  from gr_lock_retry(3) [rule_format, of t] gr_lock_retry show ?case by auto
next
  case (gr_lock_other s t l p n j k)
  from gr_lock_other(3) [rule_format, of t] gr_lock_other show ?case by auto
next
  case (gr_cas_hit s t l p n j k)
  from gr_cas_hit(3) [rule_format, of t] gr_cas_hit show ?case by auto
next
  case (gr_cas_miss s t l p n j k)
  from gr_cas_miss(3) [rule_format, of t] gr_cas_miss show ?case by auto
next
  case (gr_unlock s t l p n j k)
  from gr_unlock(2) [rule_format, of t] gr_unlock show ?case by auto
qed auto

section \<open>Protection of a reader\<close>

definition shielded :: "('l, 't) ll \<Rightarrow> 'l \<Rightarrow> addr \<Rightarrow> nat \<Rightarrow> bool" where
  "shielded s l v i \<longleftrightarrow> hval s i = None \<or> impl s l = Some v \<or> (\<exists>u. covers l v i (pc s u))"

lemma protected_alt:
  "protected s \<longleftrightarrow> (\<forall>t l v i. pc s t = LdAcquire l v i \<longrightarrow> shielded s l v i)"
  by (simp add: protected_def shielded_def)

lemma shielded_mono:
  assumes "shielded s l v i" and "hval s' i = hval s i" and "impl s' l = impl s l"
    and "\<And>u. covers l v i (pc s u) \<Longrightarrow> covers l v i (pc s' u)"
  shows "shielded s' l v i"
  using assms by (auto simp: shielded_def)

lemma shielded_swap:
  assumes "shielded s l v i" and "hval s' i = hval s i" and "impl s' = (impl s)(l' := x)"
    and "impl s l' = Some v \<Longrightarrow> covers l' v i (pc s' u)"
    and "\<And>u. covers l v i (pc s u) \<Longrightarrow> covers l v i (pc s' u)"
  shows "shielded s' l v i"
  using assms unfolding shielded_def by (cases "l' = l") auto

text \<open>
  A step of another thread keeps a shield: if the thread takes the value out of the pointer it
  starts to cover the slot, and if it passes the slot the value has been withdrawn.
\<close>

lemma shielded_step:
  assumes "ll_step s s'" and "slots_ok s" "values_ok s"
    and "pc s t = LdAcquire l v i" "pc s' t = LdAcquire l v i" "shielded s l v i"
  shows "shielded s' l v i"
proof -
  have slot: "slot_of (pc s t) = Some (l, i)" using assms(4) by simp
  have i: "i < N_HAZARDS" "fst (hown s i) = Some l" using assms(2) slot by (auto simp: slots_ok_def)
  have val: "hval s i = None \<or> hval s i = Some v"
    using values_unique [OF assms(2,3), of t v i] assms(4) by (cases "hval s i") auto
  have same: "slot_of (pc s u) = Some (l', i) \<Longrightarrow> u = t" for u l'
    using assms(2) slot by (auto simp: slots_ok_def)
  from assms(1,4-6) show ?thesis
  proof (cases rule: ll_step.cases)
    case (ld_set u l' v' i')
    then have "i' \<noteq> i" using same [of u l'] assms(4) by auto
    with ld_set show ?thesis by (intro shielded_mono [OF assms(6)]) (auto split: if_splits)
  next
    case (gr_skip u l' p n j k)
    show ?thesis
    proof (cases "hval s i = None")
      case False
      with val gr_skip show ?thesis
        by (intro shielded_mono [OF assms(6)]) (auto simp: Suc_le_eq le_less split: if_splits)
    qed (use gr_skip in \<open>simp add: shielded_def\<close>)
  next
    case (gr_lock_other u l' p n j k)
    with i show ?thesis
      by (intro shielded_mono [OF assms(6)]) (auto simp: Suc_le_eq le_less split: if_splits)
  next
    case (gr_cas_miss u l' p n j k)
    show ?thesis
    proof (cases "hval s i = None")
      case False
      with val gr_cas_miss show ?thesis
        by (intro shielded_mono [OF assms(6)]) (auto simp: le_less split: if_splits)
    qed (use gr_cas_miss in \<open>simp add: shielded_def\<close>)
  next
    case (gr_cas_hit u l' p n j k)
    show ?thesis
    proof (cases "j = i")
      case False
      with gr_cas_hit show ?thesis
        by (intro shielded_mono [OF assms(6)]) (auto simp: le_less split: if_splits)
    qed (use gr_cas_hit in \<open>simp add: shielded_def\<close>)
  next
    case (gr_done u l' p n k)
    with i show ?thesis
      by (intro shielded_mono [OF assms(6)]) (auto split: if_splits)
  next
    case (sw_exchange u x l' p)
    then show ?thesis
      by (intro shielded_swap [OF assms(6), of s' l' x u]) (auto split: if_splits)
  next
    case (sw_store u x l' p)
    then show ?thesis
      by (intro shielded_swap [OF assms(6), of s' l' x u]) (auto split: if_splits)
  next
    case (sw_cas_own u x l' p)
    then show ?thesis
      by (intro shielded_swap [OF assms(6), of s' l' x u]) (auto split: if_splits)
  next
    case (sw_null u x l')
    then show ?thesis
      by (intro shielded_swap [OF assms(6), of s' l' x u]) (auto split: if_splits)
  next
  case (ld_clear u l' v' i' rv)
    then have "i' \<noteq> i" using same [of u l'] assms(4) by auto
    with ld_clear show ?thesis by (intro shielded_mono [OF assms(6)]) (auto split: if_splits)
  next
    case (ld_clear_granted u l' v' i' rv)
    then have "i' \<noteq> i" using same [of u l'] assms(4) by auto
    with ld_clear_granted show ?thesis by (intro shielded_mono [OF assms(6)]) (auto split: if_splits)
  qed (intro shielded_mono [OF assms(6)]; auto split: if_splits; fail)+
qed

lemma protected_step:
  assumes "ll_step s s'" "slots_ok s" "values_ok s" "protected s"
  shows "protected s'"
  unfolding protected_alt
proof (intro allI impI)
  fix t l v i assume acq: "pc s' t = LdAcquire l v i"
  show "shielded s' l v i"
  proof (cases "pc s t = LdAcquire l v i")
    case True
    then show ?thesis
      using shielded_step [OF assms(1,2,3) True acq] assms(4) by (simp add: protected_alt)
  next
    case False
    with assms(1) acq have "impl s' l = Some v"
      by (cases rule: ll_step.cases) (auto split: if_splits)
    then show ?thesis by (simp add: shielded_def)
  qed
qed

section \<open>Conservation of references\<close>

lemma own_other:
  assumes "pc s' u = pc s u" and "\<And>q. held s' u q = held s u q"
    and "\<And>v i. pub_of (pc s u) = Some (v, i) \<Longrightarrow> (hval s' i = None) = (hval s i = None)"
  shows "own_refs s' u p = own_refs s u p"
  using assms unfolding own_refs_def by (cases "pc s u") auto

lemma own_le_cnt: "counts_ok s \<Longrightarrow> own_refs s t p \<le> cnt s p"
  using sum_ge_one [of "\<lambda>t. own_refs s t p" t] by (simp add: counts_ok_def)

lemma refs_le_cnt: "counts_ok s \<Longrightarrow> refs (impl s) p \<le> cnt s p"
  by (simp add: counts_ok_def)

lemma counts_actor:
  assumes "counts_ok s"
    and "\<And>u p. u \<noteq> t \<Longrightarrow> own_refs s' u p = own_refs s u p"
    and "\<And>p. cnt s' p + refs (impl s) p + own_refs s t p = cnt s p + refs (impl s') p + own_refs s' t p"
  shows "counts_ok s'"
  unfolding counts_ok_def
proof
  fix p
  have "(\<Sum>u\<in>UNIV. own_refs s' u p) + own_refs s t p = (\<Sum>u\<in>UNIV. own_refs s u p) + own_refs s' t p"
    by (rule sum_change_one) (rule assms(2))
  then show "cnt s' p = refs (impl s') p + (\<Sum>u\<in>UNIV. own_refs s' u p)"
    using assms(1) assms(3) [of p] by (simp add: counts_ok_def)
qed

lemma counts_goto:
  assumes "counts_ok s"
    and "\<And>u p. u \<noteq> t \<Longrightarrow> own_refs (goto t c s1) u p = own_refs s u p"
    and "\<And>p. cnt s1 p + refs (impl s) p + own_refs s t p =
      cnt s p + refs (impl s1) p + own_refs (goto t c s1) t p"
  shows "counts_ok (goto t c s1)"
  by (rule counts_actor [OF assms(1,2)], assumption) (simp only: ll_sel assms(3))

lemma counts_step:
  assumes "ll_step s s'" and "slots_ok s" "values_ok s" "counts_ok s" "\<forall>t. solvent (pc s t)"
  shows "counts_ok s'"
  using assms
proof (induction rule: ll_step.induct)
  case (ld_set s t l v i)
  have none: "pub_of (pc s u) \<noteq> Some (w, i)" for u w
  proof
    assume pub: "pub_of (pc s u) = Some (w, i)"
    then obtain l' where "slot_of (pc s u) = Some (l', i)" using pub_slot by blast
    moreover have "slot_of (pc s t) = Some (l, i)" using ld_set(1) by simp
    ultimately have "u = t" using ld_set(2) unfolding slots_ok_def by blast
    with pub ld_set(1) show False by simp
  qed
  have other: "own_refs (goto t (LdCheck l v i) (set_hval i (Some v) s)) u p = own_refs s u p"
    if "u \<noteq> t" for u p
    using that none by (intro own_other) auto
  show ?case
    by (rule counts_actor [OF ld_set(4) other]) (use ld_set(1) in \<open>simp add: own_refs_def\<close>)+
next
  case (ld_clear s t l v i rv)
  have none: "u \<noteq> t \<Longrightarrow> pub_of (pc s u) \<noteq> Some (w, i)" for u w
    using publisher_unique [OF ld_clear(3), of u w i t v] ld_clear(1) by auto
  have other: "own_refs (goto t (LdDone l v i rv) (set_hval i None s)) u p = own_refs s u p"
    if "u \<noteq> t" for u p
    using that none by (intro own_other) auto
  show ?case
  proof (rule counts_actor [OF ld_clear(5) other])
    fix p
    obtain y where "hval s i = Some y" using ld_clear(2) by auto
    then show "cnt (goto t (LdDone l v i rv) (set_hval i None s)) p + refs (impl s) p + own_refs s t p
      = cnt s p + refs (impl (goto t (LdDone l v i rv) (set_hval i None s))) p +
        own_refs (goto t (LdDone l v i rv) (set_hval i None s)) t p"
      using ld_clear(1) by (simp add: own_refs_def)
  qed
next
  case (ld_clear_granted s t l v i rv)
  have none: "u \<noteq> t \<Longrightarrow> pub_of (pc s u) \<noteq> Some (w, i)" for u w
    using publisher_unique [OF ld_clear_granted(3), of u w i t v] ld_clear_granted(1) by auto
  have other: "own_refs (goto t (LdDone l v i (rv + 1)) (set_hval i None s)) u p = own_refs s u p"
    if "u \<noteq> t" for u p
    using that none by (intro own_other) auto
  show ?case
    by (rule counts_actor [OF ld_clear_granted(5) other])
       (use ld_clear_granted(1,2) in \<open>simp add: own_refs_def\<close>)+
next
  case (gr_cas_hit s t l p n j k)
  let ?s = "goto t (GrUnlock l p (n - 1) j k) (set_hval j None s)"
  obtain r where r: "pub_of (pc s r) = Some (p, j)"
    using gr_cas_hit(2,4) unfolding values_ok_def by blast
  have rt: "r \<noteq> t" using r gr_cas_hit(1) by auto
  have n: "0 < n" using gr_cas_hit(6) [rule_format, of t] gr_cas_hit(1) by (cases n) auto
  have other: "own_refs ?s u q = own_refs s u q" if "u \<noteq> t" "u \<noteq> r" for u q
  proof -
    have "pub_of (pc s u) \<noteq> Some (w, j)" for w
      using publisher_unique [OF gr_cas_hit(3) _ r, of u w] that by auto
    with that show ?thesis by (intro own_other) auto
  qed
  have r1: "own_refs ?s r q = own_refs s r q + (if q = p then 1 else 0)" for q
    using r rt gr_cas_hit(2) unfolding own_refs_def by (cases "pc s r") auto
  have t1: "own_refs ?s t q + (if q = p then 1 else 0) = own_refs s t q" for q
    using gr_cas_hit(1) n by (simp add: own_refs_def)
  have s1: "(\<Sum>u\<in>UNIV. own_refs ?s u q) + own_refs s t q + own_refs s r q
      = (\<Sum>u\<in>UNIV. own_refs s u q) + own_refs ?s t q + own_refs ?s r q" for q
    by (rule sum_change_two) (use rt other in auto)
  have "(\<Sum>u\<in>UNIV. own_refs ?s u q) = (\<Sum>u\<in>UNIV. own_refs s u q)" for q
    using r1 [of q] t1 [of q] s1 [of q] by linarith
  with gr_cas_hit(5) show ?case by (simp add: counts_ok_def)
next
  case (ld_got s t l v i rv)
  have le: "own_refs s t v \<le> cnt s v" by (rule own_le_cnt) (rule ld_got(5))
  show ?case
    by (rule counts_actor [OF ld_got(5), of t])
       (use ld_got(1,2) le in \<open>auto simp: own_refs_def owns_def refs_upd split: option.splits if_splits\<close>)
next
  case (gr_done s t l p n k)
  have le: "own_refs s t p \<le> cnt s p" by (rule own_le_cnt) (rule gr_done(4))
  show ?case
    by (rule counts_actor [OF gr_done(4), of t])
       (use gr_done(1) le in \<open>auto simp: own_refs_def owns_def refs_upd split: option.splits if_splits\<close>)
next
  case (cl_drop s t p)
  have le: "own_refs s t p \<le> cnt s p" by (rule own_le_cnt) (rule cl_drop(5))
  show ?case
    by (rule counts_actor [OF cl_drop(5), of t])
       (use cl_drop(1,2) le in \<open>auto simp: own_refs_def owns_def refs_upd split: option.splits if_splits\<close>)
next
  case (cl_new s t p)
  show ?case
    by (rule counts_actor [OF cl_new(5), of t])
       (use cl_new(1,2) in \<open>auto simp: own_refs_def owns_def\<close>)
next
  case (cl_copy s t p)
  show ?case
    by (rule counts_actor [OF cl_copy(5), of t])
       (use cl_copy(1,2) in \<open>auto simp: own_refs_def owns_def\<close>)
next
  case (sw_null s t x l)
  show ?case
    by (rule counts_actor [OF sw_null(6), of t])
       (use sw_null(1-3) in \<open>auto simp: own_refs_def owns_def refs_upd split: option.splits if_splits\<close>)
next
  case (sw_exchange s t x l p)
  have ge: "1 \<le> refs (impl s) p" by (rule refs_ge_1) (rule sw_exchange(3))
  show ?case
    by (rule counts_actor [OF sw_exchange(6), of t])
       (use sw_exchange(1-3) ge in \<open>auto simp: own_refs_def owns_def refs_upd split: option.splits if_splits\<close>)
next
  case (sw_store s t x l p)
  have ge: "1 \<le> refs (impl s) p" by (rule refs_ge_1) (rule sw_store(3))
  show ?case
    by (rule counts_actor [OF sw_store(6), of t])
       (use sw_store(1-3) ge in \<open>auto simp: own_refs_def owns_def refs_upd split: option.splits if_splits\<close>)
next
  case (sw_cas_own s t x l p)
  have ge: "1 \<le> refs (impl s) p" by (rule refs_ge_1) (rule sw_cas_own(3))
  show ?case
    by (rule counts_actor [OF sw_cas_own(7), of t])
       (use sw_cas_own(1-4) ge in \<open>auto simp: own_refs_def owns_def refs_upd split: option.splits if_splits\<close>)
qed (erule counts_goto; auto simp: own_refs_def split: if_splits; fail)+

section \<open>The invariant of all reachable states\<close>

lemma ll_inv_init: "ll_inv ll_init"
  by (auto simp: ll_inv_def ll_init_def counts_ok_def slots_ok_def values_ok_def protected_def
      own_refs_def refs_def)

lemma ll_inv_step: "ll_step s s' \<Longrightarrow> ll_inv s \<Longrightarrow> ll_inv s'"
  unfolding ll_inv_def
  using slots_ok_step values_ok_step protected_step counts_step solvent_step by blast

lemma ll_reachable_inv: "ll_reachable s \<Longrightarrow> ll_inv s"
  by (induction rule: ll_reachable.induct) (auto intro: ll_inv_init ll_inv_step)

lemma covers_credit:
  "covers l v i c \<Longrightarrow> solvent c \<Longrightarrow> i < N_HAZARDS \<Longrightarrow> 1 \<le> credit hv c v"
  by (cases c) auto

lemma shielded_alive:
  assumes "ll_inv s" and "pc s t = LdAcquire l v i"
  shows "0 < cnt s v"
proof -
  have cts: "counts_ok s" and sh: "shielded s l v i"
    using assms by (auto simp: ll_inv_def protected_alt)
  have "slot_of (pc s t) = Some (l, i)" using assms(2) by simp
  then have i: "i < N_HAZARDS" using assms(1) unfolding ll_inv_def slots_ok_def by blast
  consider (granted) "hval s i = None" | (here) "impl s l = Some v"
    | (giver) u where "covers l v i (pc s u)"
    using sh by (auto simp: shielded_def)
  then show ?thesis
  proof cases
    case granted
    then have "1 \<le> own_refs s t v" using assms(2) by (simp add: own_refs_def)
    then show ?thesis using own_le_cnt [OF cts, of t v] by simp
  next
    case here
    then have "1 \<le> refs (impl s) v" by (rule refs_ge_1)
    then show ?thesis using refs_le_cnt [OF cts, of v] by simp
  next
    case giver
    moreover have "solvent (pc s u)" using assms(1) by (simp add: ll_inv_def)
    ultimately have "1 \<le> own_refs s u v"
      using covers_credit [of l v i "pc s u" "hval s"] i by (simp add: own_refs_def)
    then show ?thesis using own_le_cnt [OF cts, of u v] by simp
  qed
qed

section \<open>A concrete run\<close>

text \<open>Thread \<open>True\<close> creates object 7 and stores it; thread \<open>False\<close> loads it.\<close>

definition run1 :: "(unit, bool) ll" where
  "run1 = unhold True (Some 7) (set_impl () (Some 7) (hold True (Some 7) 1 (acq_obj 7 1 ll_init)))"

definition run2 :: "(unit, bool) ll" where
  "run2 = goto False (LdAcquire () 7 0) (goto False (LdCheck () 7 0) (set_hval 0 (Some 7)
     (goto False (LdSet () 7 0) (set_hown 0 (Some (), False) (goto False (LdAlloc () 7) run1)))))"

lemma run1_reachable: "ll_reachable run1"
proof -
  have "ll_reachable (hold True (Some 7) 1 (acq_obj 7 1 (ll_init :: (unit, bool) ll)))"
    by (rule ll_next [OF ll_start cl_new]) (simp_all add: ll_init_def)
  then show ?thesis
    unfolding run1_def by (rule ll_next [OF _ sw_null]) (simp_all add: ll_init_def owns_def)
qed

lemma run1_simps [simp]:
  "pc run1 u = Idle" "impl run1 l = Some 7" "hown run1 i = (None, False)" "hval run1 i = None"
  "cnt run1 7 = 1" "held run1 u p = 0"
  by (simp_all add: run1_def ll_init_def)

lemma run2_reachable: "ll_reachable run2"
proof -
  have "ll_reachable (goto False (LdAlloc () 7) run1)"
    by (rule ll_next [OF run1_reachable ld_read]) simp_all
  then have "ll_reachable (goto False (LdSet () 7 0) (set_hown 0 (Some (), False)
      (goto False (LdAlloc () 7) run1)))"
    by (rule ll_next [OF _ ld_alloc]) (simp_all add: N_HAZARDS_def)
  then have "ll_reachable (goto False (LdCheck () 7 0) (set_hval 0 (Some 7)
     (goto False (LdSet () 7 0) (set_hown 0 (Some (), False) (goto False (LdAlloc () 7) run1)))))"
    by (rule ll_next [OF _ ld_set]) simp
  then show ?thesis
    unfolding run2_def by (rule ll_next [OF _ ld_check_eq]) simp_all
qed

section \<open>What is guaranteed\<close>

text \<open>
  C1. No use after free in \<open>llptr\<close>: whenever a thread in \<open>load\<close> is about to acquire a
  reference to the object it has read, that object still has one, however the other threads
  exchange the pointer and drop references in between, and even when addresses are reused.
\<close>

theorem llptr_acquire_alive:
  assumes "ll_reachable (s :: ('l::finite, 't::finite) ll)" and "pc s t = LdAcquire l v i"
  shows "0 < cnt s v"
  by (rule shielded_alive [OF ll_reachable_inv [OF assms(1)] assms(2)])

theorem llptr_acquire_alive_witness:
  "ll_reachable run2 \<and> pc run2 False = LdAcquire () 7 0 \<and> 0 < cnt run2 7"
  using llptr_acquire_alive [OF run2_reachable, of False "()" 7 0] run2_reachable
  by (simp add: run2_def)

text \<open>
  C2. Conservation of references: in every reachable state the count of an object is the
  number of atomic pointers that hold it plus the references that the threads own (those of
  their callers, those acquired or received by a load in progress and those a grant in
  progress has left); so an object that a pointer or a caller refers to is alive.
\<close>

theorem llptr_references_conserved:
  assumes "ll_reachable (s :: ('l::finite, 't::finite) ll)"
  shows "cnt s p = refs (impl s) p + (\<Sum>t \<in> UNIV. credit (hval s) (pc s t) p + held s t p) \<and>
    (impl s l = Some p \<longrightarrow> 0 < cnt s p) \<and> (0 < held s t p \<longrightarrow> 0 < cnt s p)"
proof (intro conjI impI)
  have cts: "counts_ok s" using ll_reachable_inv [OF assms] by (simp add: ll_inv_def)
  then show "cnt s p = refs (impl s) p + (\<Sum>t \<in> UNIV. credit (hval s) (pc s t) p + held s t p)"
    by (simp add: counts_ok_def own_refs_def)
  show "0 < cnt s p" if "impl s l = Some p"
    using refs_le_cnt [OF cts, of p] refs_ge_1 [of "impl s" l p] that by simp
  show "0 < cnt s p" if "0 < held s t p"
    using own_le_cnt [OF cts, of t p] that by (simp add: own_refs_def)
qed

theorem llptr_references_conserved_witness:
  "cnt run2 7 = refs (impl run2) 7 + (\<Sum>t \<in> UNIV. credit (hval run2) (pc run2 t) 7 + held run2 t 7)
   \<and> impl run2 () = Some 7 \<and> 0 < cnt run2 7"
proof -
  have at: "impl run2 () = Some 7" by (simp add: run2_def)
  then show ?thesis using llptr_references_conserved [OF run2_reachable, of 7 "()" True] by blast
qed

text \<open>
  C17. The hazard protocol keeps its own assertions: a load publishes only into a slot that it
  owns alone and that is empty (the assertion of \<open>do_hazard\<close>), and a grant never gives a
  reference it does not have.
\<close>

theorem hazard_protocol_assertions:
  assumes "ll_reachable (s :: ('l::finite, 't::finite) ll)"
  shows "(pc s t = LdSet l v i \<longrightarrow> hval s i = None \<and> fst (hown s i) = Some l) \<and>
    (pc s t = GrCas l p n j k \<longrightarrow> 0 < n) \<and>
    (slot_of (pc s t) = Some (l, i) \<longrightarrow> slot_of (pc s u) = Some (l', i) \<longrightarrow> t = u)"
proof (intro conjI impI)
  have inv: "slots_ok s" "values_ok s" "solvent (pc s t)"
    using ll_reachable_inv [OF assms] by (simp_all add: ll_inv_def)
  {
    assume at: "pc s t = LdSet l v i"
    then have sl: "slot_of (pc s t) = Some (l, i)" by simp
    show "hval s i = None"
    proof (rule ccontr)
      assume "hval s i \<noteq> None"
      then obtain w where "hval s i = Some w" by auto
      then obtain u where u: "pub_of (pc s u) = Some (w, i)"
        using inv(2) unfolding values_ok_def by blast
      then have "u = t" using pub_slot [OF u] sl inv(1) by (auto simp: slots_ok_def)
      with u at show False by simp
    qed
    show "fst (hown s i) = Some l" using sl inv(1) by (auto simp: slots_ok_def)
  }
  show "0 < n" if "pc s t = GrCas l p n j k"
    using that inv(3) by (cases n) auto
  show "t = u" if "slot_of (pc s t) = Some (l, i)" "slot_of (pc s u) = Some (l', i)"
    using that inv(1) unfolding slots_ok_def by blast
qed

definition run_set :: "(unit, bool) ll" where
  "run_set = goto False (LdSet () 7 0) (set_hown 0 (Some (), False) (goto False (LdAlloc () 7) run1))"

lemma run_set_reachable: "ll_reachable run_set"
proof -
  have "ll_reachable (goto False (LdAlloc () 7) run1)"
    by (rule ll_next [OF run1_reachable ld_read]) simp_all
  then show ?thesis
    unfolding run_set_def by (rule ll_next [OF _ ld_alloc]) (simp_all add: N_HAZARDS_def)
qed

theorem hazard_protocol_assertions_witness:
  "pc run_set False = LdSet () 7 0 \<and> hval run_set 0 = None \<and> fst (hown run_set 0) = Some ()"
  using hazard_protocol_assertions [OF run_set_reachable, of False "()" 7 0]
  by (simp add: run_set_def)

end
