(* ===== verification/LLPtr.thy ===== *)
theory LLPtr
  imports Hazard
begin

unbundle bit_operations_syntax

text \<open>
  Atomic counted pointers with flags: \<open>atomic_flag_ptr\<close> and \<open>llptr\<close> of
  \<open>include/ilias/llptr.h\<close>, as they run without interference, on a hazard table in which
  other threads may have published values. \<open>LLPtr_Conc\<close> has the interleaved execution.
\<close>

section \<open>Pointers with flags\<close>

text \<open>\<open>n\<close> is the template argument \<open>Flags\<close>; flags are the low \<open>n\<close> bits of a word.\<close>

type_synonym element = "uptr \<times> uptr"

definition flag_bits :: "nat \<Rightarrow> uptr" where "flag_bits n = push_bit n 1 - 1"
definition ptr_bits :: "nat \<Rightarrow> uptr" where "ptr_bits n = NOT (flag_bits n)"

definition fp_encode :: "element \<Rightarrow> uptr" where "fp_encode e = (fst e OR snd e)"

definition fp_decode :: "nat \<Rightarrow> uptr \<Rightarrow> element" where
  "fp_decode n v = (v AND ptr_bits n, v AND flag_bits n)"

definition fp_load :: "nat \<Rightarrow> uptr \<Rightarrow> element" where "fp_load n v = fp_decode n v"

definition fp_store :: "element \<Rightarrow> uptr \<Rightarrow> uptr" where "fp_store e v = fp_encode e"

definition fp_exchange :: "nat \<Rightarrow> element \<Rightarrow> uptr \<Rightarrow> element \<times> uptr" where
  "fp_exchange n e v = (fp_decode n v, fp_encode e)"

text \<open>
  Compare and exchange: the answer, the new value of \<open>expect\<close> and the new word. The weak form
  may fail although the values agree (\<open>spurious\<close>).
\<close>

definition fp_cas_weak :: "nat \<Rightarrow> bool \<Rightarrow> element \<Rightarrow> element \<Rightarrow> uptr \<Rightarrow> bool \<times> element \<times> uptr" where
  "fp_cas_weak n spurious expect nw v =
     (let expect' = fp_encode expect
      in if v = expect' \<and> \<not> spurious then (True, expect, fp_encode nw)
         else (False, fp_decode n v, v))"

definition fp_cas_strong :: "nat \<Rightarrow> element \<Rightarrow> element \<Rightarrow> uptr \<Rightarrow> bool \<times> element \<times> uptr" where
  "fp_cas_strong n expect nw v = fp_cas_weak n False expect nw v"

definition fp_reset :: "uptr \<Rightarrow> uptr" where "fp_reset v = 0"

definition fp_fetch_or :: "nat \<Rightarrow> uptr \<Rightarrow> uptr \<Rightarrow> uptr \<times> uptr" where
  "fp_fetch_or n fl v = (v AND flag_bits n, v OR fl)"

definition fp_fetch_xor :: "nat \<Rightarrow> uptr \<Rightarrow> uptr \<Rightarrow> uptr \<times> uptr" where
  "fp_fetch_xor n fl v = (v AND flag_bits n, v XOR fl)"

definition fp_fetch_and :: "nat \<Rightarrow> uptr \<Rightarrow> uptr \<Rightarrow> uptr \<times> uptr" where
  "fp_fetch_and n fl v = (v AND flag_bits n, v AND (ptr_bits n OR fl))"

definition fp_load_flags :: "nat \<Rightarrow> uptr \<Rightarrow> uptr" where "fp_load_flags n v = v AND flag_bits n"

section \<open>Counted pointers\<close>

text \<open>
  \<open>own\<close> is the address of the \<open>llptr\<close>, the owner of its hazards; \<open>acq\<close> and \<open>rel\<close> are the
  policy. The result \<open>None\<close> is an operation that does not return (it waits for another thread,
  or an exception reaches its \<open>noexcept\<close>).
\<close>

record 's llptr =
  m_impl :: uptr
  ll_hz :: hazards
  ll_objs :: 's

definition ll_drop :: "'s policy \<Rightarrow> uptr \<Rightarrow> 's llptr \<Rightarrow> 's llptr" where
  "ll_drop rel p st = (if p = 0 then st else st\<lparr>ll_objs := rel (unat p) 1 (ll_objs st)\<rparr>)"

definition ll_grant ::
    "'s policy \<Rightarrow> 's policy \<Rightarrow> uptr \<Rightarrow> uptr \<Rightarrow> nat \<Rightarrow> 's llptr \<Rightarrow> 's llptr option" where
  "ll_grant acq rel own p nrefs st =
     (if p = 0 then Some st
      else case basic_grant (acq (unat p)) (rel (unat p)) own p nrefs (ll_hz st, ll_objs st) of
        Inr (Some (hz, ob)) \<Rightarrow> Some (st\<lparr>ll_hz := hz, ll_objs := ob\<rparr>)
      | _ \<Rightarrow> None)"

definition ll_do_hazard ::
    "nat \<Rightarrow> 's policy \<Rightarrow> nat \<Rightarrow> uptr \<Rightarrow> 's llptr \<Rightarrow> (nat \<times> 's llptr) option" where
  "ll_do_hazard n acq j p st =
     (if p = 0 then Some (0, st)
      else let
        operation = (\<lambda>(hz, ob, rv). if fst (fp_load n (m_impl st)) = p
                       then (hz, acq (unat p) 1 ob, rv + 1) else (hz, ob, rv));
        on_nil = (\<lambda>(ob, rv). (ob, rv + 1))
      in case basic_do_hazard j p operation on_nil (ll_hz st, ll_objs st, 0) of
        Inl e \<Rightarrow> None
      | Inr (hz, ob, rv) \<Rightarrow> Some (rv, st\<lparr>ll_hz := hz, ll_objs := ob\<rparr>))"

text \<open>
  The acquisition of what was read: allocate a hazard, try it, return the surplus, destroy the
  hazard. A round that acquires nothing is repeated; nothing changes between the rounds here,
  so it is repeated for ever.
\<close>

definition ll_acquire_read ::
    "nat \<Rightarrow> 's policy \<Rightarrow> 's policy \<Rightarrow> uptr \<Rightarrow> uptr \<Rightarrow> 's llptr \<Rightarrow> 's llptr option" where
  "ll_acquire_read n acq rel own p st =
     (case basic_hazard_ctor own (ll_hz st) of
        Inr (Some (j, hz)) \<Rightarrow>
          (case ll_do_hazard n acq j p (st\<lparr>ll_hz := hz\<rparr>) of
             None \<Rightarrow> None
           | Some (a, st1) \<Rightarrow>
               if a = 0 then None
               else let st2 = (if 1 < a then st1\<lparr>ll_objs := rel (unat p) (a - 1) (ll_objs st1)\<rparr> else st1)
                    in (case basic_hazard_dtor j (ll_hz st2) of
                          Inl e \<Rightarrow> None | Inr hz' \<Rightarrow> Some (st2\<lparr>ll_hz := hz'\<rparr>)))
      | _ \<Rightarrow> None)"

definition ll_load ::
    "nat \<Rightarrow> 's policy \<Rightarrow> 's policy \<Rightarrow> uptr \<Rightarrow> 's llptr \<Rightarrow> (element \<times> 's llptr) option" where
  "ll_load n acq rel own st =
     (let v = fp_load n (m_impl st)
      in if fst v = 0 then Some (v, st)
         else map_option (Pair v) (ll_acquire_read n acq rel own (fst v) st))"

definition ll_store ::
    "nat \<Rightarrow> 's policy \<Rightarrow> 's policy \<Rightarrow> uptr \<Rightarrow> element \<Rightarrow> 's llptr \<Rightarrow> 's llptr option" where
  "ll_store n acq rel own e st =
     (case fp_exchange n e (m_impl st) of
        (old, v) \<Rightarrow> ll_grant acq rel own (fst old) 1 (st\<lparr>m_impl := v\<rparr>))"

definition ll_exchange ::
    "nat \<Rightarrow> 's policy \<Rightarrow> 's policy \<Rightarrow> uptr \<Rightarrow> element \<Rightarrow> 's llptr \<Rightarrow> (element \<times> 's llptr) option" where
  "ll_exchange n acq rel own e st =
     (case fp_exchange n e (m_impl st) of
        (old, v) \<Rightarrow> map_option (Pair old) (ll_grant acq rel own (fst old) 0 (st\<lparr>m_impl := v\<rparr>)))"

definition ll_reset :: "nat \<Rightarrow> 's policy \<Rightarrow> 's policy \<Rightarrow> uptr \<Rightarrow> 's llptr \<Rightarrow> 's llptr option" where
  "ll_reset n acq rel own st = ll_store n acq rel own (0, 0) st"

text \<open>
  The compare-exchanges take \<open>set\<close> (here \<open>nw\<close>) by value: on success its reference goes into the pointer, on
  failure it is dropped. With an \<open>expect\<close> that owns no reference:
\<close>

definition ll_cas_plain ::
    "nat \<Rightarrow> 's policy \<Rightarrow> 's policy \<Rightarrow> uptr \<Rightarrow> bool \<Rightarrow> element \<Rightarrow> element \<Rightarrow> 's llptr \<Rightarrow>
     (bool \<times> element \<times> 's llptr) option" where
  "ll_cas_plain n acq rel own spurious expect nw st =
     (case fp_cas_weak n spurious expect nw (m_impl st) of
        (ok, expect', v) \<Rightarrow>
          if ok then map_option (\<lambda>st'. (True, expect', st'))
                       (ll_grant acq rel own (fst expect') 1 (st\<lparr>m_impl := v\<rparr>))
          else Some (False, expect', ll_drop rel (fst nw) st))"

text \<open>With an \<open>expect\<close> whose reference is given up on success (an rvalue):\<close>

definition ll_cas_own ::
    "nat \<Rightarrow> 's policy \<Rightarrow> 's policy \<Rightarrow> uptr \<Rightarrow> bool \<Rightarrow> element \<Rightarrow> element \<Rightarrow> 's llptr \<Rightarrow>
     (bool \<times> element \<times> 's llptr) option" where
  "ll_cas_own n acq rel own spurious expect nw st =
     (case fp_cas_weak n spurious expect nw (m_impl st) of
        (ok, _, v) \<Rightarrow>
          if ok then map_option (\<lambda>st'. (True, (0, snd expect), st'))
                       (ll_grant acq rel own (fst expect) 2 (st\<lparr>m_impl := v\<rparr>))
          else Some (False, expect, ll_drop rel (fst nw) st))"

text \<open>
  With an \<open>expect\<close> that owns a reference and receives what was found on failure: nothing is
  acquired when only the flags differ or the pointer is null.
\<close>

definition ll_cas_observe ::
    "nat \<Rightarrow> 's policy \<Rightarrow> 's policy \<Rightarrow> uptr \<Rightarrow> element \<Rightarrow> element \<Rightarrow> 's llptr \<Rightarrow>
     (element \<times> 's llptr) option" where
  "ll_cas_observe n acq rel own expect found st =
     (if fst found = fst expect then Some ((fst expect, snd found), st)
      else if fst found = 0 then Some ((0, snd found), ll_drop rel (fst expect) st)
      else case ll_acquire_read n acq rel own (fst found) st of
        None \<Rightarrow> None | Some st1 \<Rightarrow> Some (found, ll_drop rel (fst expect) st1))"

definition ll_cas_weak ::
    "nat \<Rightarrow> 's policy \<Rightarrow> 's policy \<Rightarrow> uptr \<Rightarrow> bool \<Rightarrow> element \<Rightarrow> element \<Rightarrow> 's llptr \<Rightarrow>
     (bool \<times> element \<times> 's llptr) option" where
  "ll_cas_weak n acq rel own spurious expect nw st =
     (case ll_cas_plain n acq rel own spurious expect nw st of
        None \<Rightarrow> None
      | Some (True, _, st1) \<Rightarrow> Some (True, expect, st1)
      | Some (False, found, st1) \<Rightarrow>
          map_option (\<lambda>(e, st2). (False, e, st2)) (ll_cas_observe n acq rel own expect found st1))"

text \<open>In the strong form \<open>set\<close> lives until the function returns.\<close>

definition ll_cas_strong ::
    "nat \<Rightarrow> 's policy \<Rightarrow> 's policy \<Rightarrow> uptr \<Rightarrow> element \<Rightarrow> element \<Rightarrow> 's llptr \<Rightarrow>
     (bool \<times> element \<times> 's llptr) option" where
  "ll_cas_strong n acq rel own expect nw st =
     (case fp_cas_strong n expect nw (m_impl st) of
        (ok, found, v) \<Rightarrow>
          if ok then map_option (\<lambda>st'. (True, expect, st'))
                       (ll_grant acq rel own (fst expect) 1 (st\<lparr>m_impl := v\<rparr>))
          else map_option (\<lambda>(e, st1). (False, e, ll_drop rel (fst nw) st1))
                 (ll_cas_observe n acq rel own expect found st))"

section \<open>What holds of pointers with flags\<close>

definition is_ptr :: "nat \<Rightarrow> uptr \<Rightarrow> bool" where "is_ptr n p \<longleftrightarrow> p AND flag_bits n = 0"
definition is_flags :: "nat \<Rightarrow> uptr \<Rightarrow> bool" where "is_flags n f \<longleftrightarrow> f AND ptr_bits n = 0"

lemma is_flags_iff: "is_flags n f \<longleftrightarrow> f AND flag_bits n = f"
proof -
  have "f = (f AND flag_bits n) OR (f AND ptr_bits n)"
    by (simp add: ptr_bits_def flip: bit.conj_disj_distrib)
  moreover have "(f AND flag_bits n) AND ptr_bits n = 0"
    by (simp add: ptr_bits_def ac_simps)
  ultimately show ?thesis by (metis is_flags_def or.right_neutral)
qed

text \<open>
  C22. Pointers and flags share a word without disturbing each other: encoding and decoding are
  inverse on an aligned pointer and flags in range, every word decodes to such a pair and is
  restored by encoding it, and the flag operations change the flags as bit sets and keep the
  pointer.
\<close>

theorem flag_ptr_roundtrip:
  assumes "is_ptr n p" and "is_flags n f" and "is_flags n g"
  shows "fp_decode n (fp_encode (p, f)) = (p, f) \<and>
    fp_encode (fp_decode n v) = v \<and> is_ptr n (fst (fp_decode n v)) \<and> is_flags n (snd (fp_decode n v)) \<and>
    fp_decode n (snd (fp_fetch_or n g (fp_encode (p, f)))) = (p, f OR g) \<and>
    fp_decode n (snd (fp_fetch_xor n g (fp_encode (p, f)))) = (p, f XOR g) \<and>
    fp_decode n (snd (fp_fetch_and n g (fp_encode (p, f)))) = (p, f AND g)"
proof -
  have p: "bit p i \<Longrightarrow> \<not> bit (flag_bits n) i" for i
    using assms(1) by (metis is_ptr_def bit_and_iff bit_0_eq bot_apply bot_bool_def)
  have f: "bit f i \<Longrightarrow> bit (flag_bits n) i" and g: "bit g i \<Longrightarrow> bit (flag_bits n) i" for i
    using assms(2,3) by (metis is_flags_iff bit_and_iff)+
  note bits = fp_decode_def fp_encode_def fp_fetch_or_def fp_fetch_xor_def fp_fetch_and_def
    ptr_bits_def is_ptr_def is_flags_def bit_eq_iff bit_simps
  show ?thesis
    using p f g by (auto simp: bits)
qed

theorem flag_ptr_roundtrip_witness:
  "fp_decode 2 (fp_encode (64, 3)) = (64, 3) \<and>
   fp_decode 2 (snd (fp_fetch_and 2 1 (fp_encode (64, 3)))) = (64, 1)"
proof -
  have "is_ptr 2 64" "is_flags 2 3" "is_flags 2 1"
    by (simp_all add: is_ptr_def is_flags_def ptr_bits_def flag_bits_def)
  from flag_ptr_roundtrip [OF this] show ?thesis by simp
qed

section \<open>What holds of counted pointers\<close>

text \<open>A table between operations: the owners are unflagged and free slots publish nothing.\<close>

definition hz_quiet :: "hazards \<Rightarrow> bool" where
  "hz_quiet s \<longleftrightarrow> length (hz_tab s) = N_HAZARDS \<and>
     list_all (\<lambda>h. unflagged h \<and> (owner h = 0 \<longrightarrow> hvalue h = 0)) (hz_tab s)"

lemma quiet_alloc:
  assumes "hz_quiet s" and "own \<noteq> 0" "own AND FLAG = 0" and "\<exists>h \<in> set (hz_tab s). owner h = 0"
  shows "\<exists>j s'. basic_hazard_ctor own s = Inr (Some (j, s')) \<and> j < length (hz_tab s) \<and>
    hz_tab s ! j = \<lparr>owner = 0, hvalue = 0\<rparr> \<and> hz_tab s' = (hz_tab s)[j := \<lparr>owner = own, hvalue = 0\<rparr>]"
proof -
  obtain j s' where a: "allocate_hazard own s = Some (j, s')"
    using assms(4) allocate_hazard_None [of own s] by (cases "allocate_hazard own s") auto
  from allocate_hazard_Some [OF a] have j: "j < length (hz_tab s)" "owner (hz_tab s ! j) = 0"
    "hz_tab s' = (hz_tab s)[j := (hz_tab s ! j)\<lparr>owner := own\<rparr>]" by auto
  have "hvalue (hz_tab s ! j) = 0"
    using assms(1) j by (auto simp: hz_quiet_def list_all_length)
  then have e: "hz_tab s ! j = \<lparr>owner = 0, hvalue = 0\<rparr>" using j(2) by (cases "hz_tab s ! j") simp
  then show ?thesis
    using a j validate_owner_ok [OF assms(2,3)] by (simp add: basic_hazard_ctor_def)
qed

lemma do_hazard_quiet:
  assumes "j < length (hz_tab (ll_hz st))" and "hz_tab (ll_hz st) ! j = \<lparr>owner = own, hvalue = 0\<rparr>"
    and "p \<noteq> 0" and "fst (fp_load n (m_impl st)) = p"
  shows "\<exists>hz. ll_do_hazard n acq j p st =
      Some (1, st\<lparr>ll_hz := hz, ll_objs := acq (unat p) 1 (ll_objs st)\<rparr>) \<and> hz_tab hz = hz_tab (ll_hz st)"
proof -
  have id: "(hz_tab (ll_hz st))[j := \<lparr>owner = own, hvalue = 0\<rparr>] = hz_tab (ll_hz st)"
    using assms(2) list_update_id [of "hz_tab (ll_hz st)" j] by simp
  show ?thesis
    using assms
    by (intro exI [of _ "ll_hz st"])
       (simp add: ll_do_hazard_def basic_do_hazard_def upd_hazard_def Let_def id)
qed

text \<open>
  C24. \<open>load\<close> returns the pointer and the flags that are stored, with exactly one reference
  acquired on the object, and leaves the hazard table as it found it, whenever a slot is free;
  a null pointer costs nothing.
\<close>

theorem llptr_load_acquires_one:
  assumes "hz_quiet (ll_hz st)" and "own \<noteq> 0" "own AND FLAG = 0"
    and "\<exists>h \<in> set (hz_tab (ll_hz st)). owner h = 0"
  shows "\<exists>st'. ll_load n acq rel own st = Some (fp_decode n (m_impl st), st') \<and> m_impl st' = m_impl st \<and>
    hz_tab (ll_hz st') = hz_tab (ll_hz st) \<and>
    ll_objs st' = (let p = fst (fp_decode n (m_impl st)) in
      if p = 0 then ll_objs st else acq (unat p) 1 (ll_objs st))"
proof (cases "fst (fp_decode n (m_impl st)) = 0")
  case True
  then show ?thesis by (simp add: ll_load_def fp_load_def Let_def)
next
  case False
  define p where "p = fst (fp_decode n (m_impl st))"
  obtain j s' where a: "basic_hazard_ctor own (ll_hz st) = Inr (Some (j, s'))" "j < length (hz_tab (ll_hz st))"
      "hz_tab (ll_hz st) ! j = \<lparr>owner = 0, hvalue = 0\<rparr>"
      "hz_tab s' = (hz_tab (ll_hz st))[j := \<lparr>owner = own, hvalue = 0\<rparr>]"
    using quiet_alloc [OF assms] by blast
  have "\<exists>hz. ll_do_hazard n acq j p (st\<lparr>ll_hz := s'\<rparr>) =
      Some (1, st\<lparr>ll_hz := hz, ll_objs := acq (unat p) 1 (ll_objs st)\<rparr>) \<and> hz_tab hz = hz_tab s'"
    using do_hazard_quiet [of j "st\<lparr>ll_hz := s'\<rparr>" own p n acq] a(2,4) False
    by (simp add: p_def fp_load_def)
  then obtain hz where hz: "ll_do_hazard n acq j p (st\<lparr>ll_hz := s'\<rparr>) =
      Some (1, st\<lparr>ll_hz := hz, ll_objs := acq (unat p) 1 (ll_objs st)\<rparr>)" "hz_tab hz = hz_tab s'" by blast
  have "(hz_tab (ll_hz st))[j := \<lparr>owner = 0, hvalue = 0\<rparr>] = hz_tab (ll_hz st)"
    using a(3) list_update_id [of "hz_tab (ll_hz st)" j] by simp
  then show ?thesis
    using False a hz assms(3)
    by (simp add: ll_load_def fp_load_def ll_acquire_read_def basic_hazard_dtor_def upd_hazard_def
        p_def [symmetric] Let_def)
qed

text \<open>A table with one hazard of another pointer parked in it.\<close>

definition hz_parked :: hazards where
  "hz_parked = hazards_init\<lparr>hz_tab := \<lparr>owner = 32, hvalue = 96\<rparr> # replicate 63 \<lparr>owner = 0, hvalue = 0\<rparr>\<rparr>"

lemma hz_parked_quiet: "hz_quiet hz_parked" "\<exists>h \<in> set (hz_tab hz_parked). owner h = 0"
  by (simp_all add: hz_parked_def hz_quiet_def unflagged_def FLAG_def N_HAZARDS_def list_all_iff)

theorem llptr_load_acquires_one_witness:
  "\<exists>st'. ll_load 2 default_acquire default_release 16
      \<lparr>m_impl = 97, ll_hz = hz_parked, ll_objs = \<lambda>_. \<lparr>m_refcount = 5, m_deleted = 0\<rparr>\<rparr> =
      Some ((96, 1), st') \<and> m_refcount (ll_objs st' 96) = 6"
proof -
  let ?st = "\<lparr>m_impl = 97, ll_hz = hz_parked, ll_objs = \<lambda>_::nat. \<lparr>m_refcount = 5, m_deleted = 0\<rparr>\<rparr>"
  have d: "fp_decode 2 97 = (96, 1)" by (simp add: fp_decode_def ptr_bits_def flag_bits_def)
  have "(16 :: uptr) AND FLAG = 0" by (simp add: FLAG_def)
  then show ?thesis
    using llptr_load_acquires_one [of ?st 16 2 default_acquire default_release] hz_parked_quiet d
    by (auto simp: default_acquire_def refcnt_acquire_def)
qed

context refcount_mgr
begin

lemma ll_grant_counts:
  assumes "hz_quiet (ll_hz st)" and "own \<noteq> 0" "own AND FLAG = 0" and "p \<noteq> 0"
    and "nrefs \<le> count (ll_objs st) (unat p)" "count (ll_objs st) (unat p) + N_HAZARDS < limit"
  shows "\<exists>ob. ll_grant acquire release own p nrefs st = Some (st\<lparr>
      ll_hz := (ll_hz st)\<lparr>hz_tab := map (withdrawn own p) (hz_tab (ll_hz st))\<rparr>, ll_objs := ob\<rparr>) \<and>
    count ob (unat p) = count (ll_objs st) (unat p) - nrefs +
      length (filter (publishes own p) (hz_tab (ll_hz st))) \<and>
    (\<forall>q. q \<noteq> unat p \<longrightarrow> count ob q = count (ll_objs st) q)"
proof -
  have "\<forall>h \<in> set (hz_tab (ll_hz st)). unflagged h" "length (hz_tab (ll_hz st)) = N_HAZARDS"
    using assms(1) by (auto simp: hz_quiet_def list_all_iff)
  from grant_counts [OF assms(2,3) this assms(5,6) refl]
  obtain w' where "basic_grant (acquire (unat p)) (release (unat p)) own p nrefs (ll_hz st, ll_objs st) =
      Inr (Some ((ll_hz st)\<lparr>hz_tab := map (withdrawn own p) (hz_tab (ll_hz st))\<rparr>, w'))"
    "count w' (unat p) = count (ll_objs st) (unat p) - nrefs +
      length (filter (publishes own p) (hz_tab (ll_hz st)))"
    "\<forall>q. q \<noteq> unat p \<longrightarrow> count w' q = count (ll_objs st) q" by blast
  then show ?thesis using assms(4) by (intro exI [of _ w']) (simp add: ll_grant_def)
qed

end

text \<open>
  C25. A compare-exchange that succeeds replaces pointer and flags together. Every load of the old
  pointer that it finds in progress is served: its hazard no longer publishes the pointer, by which
  the load knows that it was given a reference, and the old object ends with its count less the
  reference the pointer held (and less the one of \<open>expect\<close>, if that is given up) plus one for each
  such load; no other hazard and no other object changes. It needs the references that it gives up,
  at least two here, to be there. One that fails leaves pointer, hazards and counts alone but for
  the reference of \<open>set\<close>.
\<close>

theorem llptr_cas_counts:
  assumes "hz_quiet (ll_hz st)" and "own \<noteq> 0" "own AND FLAG = 0" and "fst expect \<noteq> 0"
    and "2 \<le> obj_count (ll_objs st) (unat (fst expect))"
    and "obj_count (ll_objs st) (unat (fst expect)) + N_HAZARDS < 2 ^ 32"
  shows "if m_impl st = fp_encode expect then
      (\<exists>ob. ll_cas_own n default_acquire default_release own False expect nw st =
          Some (True, (0, snd expect), st\<lparr>m_impl := fp_encode nw,
            ll_hz := (ll_hz st)\<lparr>hz_tab := map (withdrawn own (fst expect)) (hz_tab (ll_hz st))\<rparr>, ll_objs := ob\<rparr>) \<and>
        obj_count ob (unat (fst expect)) = obj_count (ll_objs st) (unat (fst expect)) - 2 +
          length (filter (publishes own (fst expect)) (hz_tab (ll_hz st))) \<and>
        (\<forall>q. q \<noteq> unat (fst expect) \<longrightarrow> obj_count ob q = obj_count (ll_objs st) q)) \<and>
      (\<exists>ob. ll_cas_plain n default_acquire default_release own False expect nw st =
          Some (True, expect, st\<lparr>m_impl := fp_encode nw,
            ll_hz := (ll_hz st)\<lparr>hz_tab := map (withdrawn own (fst expect)) (hz_tab (ll_hz st))\<rparr>, ll_objs := ob\<rparr>) \<and>
        obj_count ob (unat (fst expect)) = obj_count (ll_objs st) (unat (fst expect)) - 1 +
          length (filter (publishes own (fst expect)) (hz_tab (ll_hz st))) \<and>
        (\<forall>q. q \<noteq> unat (fst expect) \<longrightarrow> obj_count ob q = obj_count (ll_objs st) q))
    else
      ll_cas_own n default_acquire default_release own False expect nw st =
        Some (False, expect, ll_drop default_release (fst nw) st) \<and>
      ll_cas_plain n default_acquire default_release own False expect nw st =
        Some (False, fp_decode n (m_impl st), ll_drop default_release (fst nw) st)"
proof (cases "m_impl st = fp_encode expect")
  case True
  have one: "1 \<le> obj_count (ll_objs st) (unat (fst expect))" using assms(5) by simp
  let ?st = "st\<lparr>m_impl := fp_encode nw\<rparr>"
  obtain o1 where "ll_grant default_acquire default_release own (fst expect) 2 ?st = Some (?st\<lparr>
      ll_hz := (ll_hz st)\<lparr>hz_tab := map (withdrawn own (fst expect)) (hz_tab (ll_hz st))\<rparr>, ll_objs := o1\<rparr>)"
    "obj_count o1 (unat (fst expect)) = obj_count (ll_objs st) (unat (fst expect)) - 2 +
      length (filter (publishes own (fst expect)) (hz_tab (ll_hz st)))"
    "\<forall>q. q \<noteq> unat (fst expect) \<longrightarrow> obj_count o1 q = obj_count (ll_objs st) q"
    using default_mgr.ll_grant_counts [of ?st own "fst expect" 2] assms by auto
  moreover obtain o2 where "ll_grant default_acquire default_release own (fst expect) 1 ?st = Some (?st\<lparr>
      ll_hz := (ll_hz st)\<lparr>hz_tab := map (withdrawn own (fst expect)) (hz_tab (ll_hz st))\<rparr>, ll_objs := o2\<rparr>)"
    "obj_count o2 (unat (fst expect)) = obj_count (ll_objs st) (unat (fst expect)) - 1 +
      length (filter (publishes own (fst expect)) (hz_tab (ll_hz st)))"
    "\<forall>q. q \<noteq> unat (fst expect) \<longrightarrow> obj_count o2 q = obj_count (ll_objs st) q"
    using default_mgr.ll_grant_counts [of ?st own "fst expect" 1] assms one by auto
  ultimately show ?thesis
    using True by (simp add: ll_cas_own_def ll_cas_plain_def fp_cas_weak_def Let_def) blast
next
  case False
  then show ?thesis by (simp add: ll_cas_own_def ll_cas_plain_def fp_cas_weak_def Let_def)
qed

theorem llptr_cas_counts_witness:
  "\<exists>st'. ll_cas_own 0 default_acquire default_release 32 False (96, 0) (64, 0)
      \<lparr>m_impl = 96, ll_hz = hz_parked, ll_objs = \<lambda>_. \<lparr>m_refcount = 5, m_deleted = 0\<rparr>\<rparr> =
      Some (True, (0, 0), st') \<and> m_impl st' = 64 \<and> obj_count (ll_objs st') 96 = 4 \<and>
      hz_tab (ll_hz st') = (hz_tab hazards_init)[0 := \<lparr>owner = 32, hvalue = 0\<rparr>]"
proof -
  let ?st = "\<lparr>m_impl = 96, ll_hz = hz_parked, ll_objs = \<lambda>_::nat. \<lparr>m_refcount = 5, m_deleted = 0\<rparr>\<rparr>"
  have "length (filter (publishes 32 96) (hz_tab hz_parked)) = 1"
    by (simp add: hz_parked_def publishes_def)
  moreover have "map (withdrawn 32 96) (hz_tab hz_parked) =
      \<lparr>owner = 32, hvalue = 0\<rparr> # replicate 63 \<lparr>owner = 0, hvalue = 0\<rparr>"
    by (simp add: hz_parked_def withdrawn_def publishes_def)
  moreover have "(hz_tab hazards_init)[0 := \<lparr>owner = 32, hvalue = 0\<rparr>] =
      \<lparr>owner = 32, hvalue = 0\<rparr> # replicate 63 \<lparr>owner = 0, hvalue = 0\<rparr>"
    by (simp add: hazards_init_def N_HAZARDS_def numeral_eq_Suc)
  moreover have "(32 :: uptr) AND FLAG = 0" by (simp add: FLAG_def)
  ultimately show ?thesis
    using llptr_cas_counts [of ?st 32 "(96, 0)" 0 "(64, 0)"] hz_parked_quiet
    by (auto simp: fp_encode_def obj_count_def N_HAZARDS_def)
qed

end
