(* ===== verification/Monitor.thy ===== *)
theory Monitor
  imports Prelude "HOL-Library.Multiset"
begin

text \<open>
  The monitor: \<open>include/ilias/monitor.h\<close>, \<open>monitor-inl.h\<close> and \<open>src/monitor.cc\<close>.

  A monitor hands out tokens for reading, upgradable reading and writing. The first part is
  the code, one definition per method; \<open>'p\<close> names the promises and a method returns, beside
  its result, the tokens it gives to promises, in order. The second part lets any number of
  clients call the methods in any order, with the two critical sections of \<open>unlock_\<close> as
  separate steps, and relates the counters of the monitor to the tokens that are alive.
\<close>

section \<open>The methods\<close>

datatype access = ANone | ARead | AUpgrade | AWrite

record 'p monitor =
  active_readers :: uptr
  active_writers :: uptr
  upgrade_active :: uptr
  w_queue :: "(access \<times> 'p) list"
  r_queue :: "'p list"
  u_queue :: "'p list"

definition monitor_init :: "'p monitor" where
  "monitor_init = \<lparr>active_readers = 0, active_writers = 0, upgrade_active = 0,
     w_queue = [], r_queue = [], u_queue = []\<rparr>"

definition monitor_dtor :: "'p monitor \<Rightarrow> unit result" where
  "monitor_dtor m =
     (if active_readers m = 0 \<and> upgrade_active m = 0 \<and> active_writers m = 0 \<and>
         w_queue m = [] \<and> r_queue m = []
      then Inr () else Inl Assertion_failed)"

type_synonym 'p grants = "(access \<times> 'p) list"

definition queue_m :: "'p \<Rightarrow> access \<Rightarrow> 'p monitor \<Rightarrow> ('p grants \<times> 'p monitor) result" where
  "queue_m p a m =
     (if a = ARead \<and> (active_writers m = 0 \<or> upgrade_active m \<noteq> 0)
      then Inr ([(a, p)], m\<lparr>active_readers := active_readers m + 1\<rparr>)
      else if (a = AWrite \<or> a = AUpgrade) \<and> active_writers m = 0 \<and> active_readers m = 0
      then (if upgrade_active m \<noteq> 0 then Inl Assertion_failed
            else let m1 = m\<lparr>active_writers := active_writers m + 1\<rparr>;
                     m2 = (if a = AUpgrade then m1\<lparr>upgrade_active := upgrade_active m1 + 1\<rparr> else m1)
                 in Inr ([(a, p)], m2))
      else case a of
        ARead \<Rightarrow> Inr ([], m\<lparr>r_queue := p # r_queue m\<rparr>)
      | AWrite \<Rightarrow> Inr ([], m\<lparr>w_queue := w_queue m @ [(a, p)]\<rparr>)
      | AUpgrade \<Rightarrow> Inr ([], m\<lparr>w_queue := w_queue m @ [(a, p)]\<rparr>)
      | ANone \<Rightarrow> Inr ([(ANone, p)], m))"

text \<open>\<open>queue\<close> answers \<open>access::none\<close> at once, and starts \<open>queue_\<close> for the rest.\<close>

definition monitor_queue :: "'p \<Rightarrow> access \<Rightarrow> 'p monitor \<Rightarrow> ('p grants \<times> 'p monitor) result" where
  "monitor_queue p a m = (if a = ANone then Inr ([(ANone, p)], m) else queue_m p a m)"

definition try_immediate :: "access \<Rightarrow> 'p monitor \<Rightarrow> (access \<times> 'p monitor) result" where
  "try_immediate a m =
     (if a = ARead \<and> active_writers m = upgrade_active m
      then Inr (a, m\<lparr>active_readers := active_readers m + 1\<rparr>)
      else if a = AUpgrade \<and> active_writers m = 0
      then (if upgrade_active m \<noteq> 0 then Inl Assertion_failed
            else Inr (a, m\<lparr>active_writers := active_writers m + 1,
                          upgrade_active := upgrade_active m + 1\<rparr>))
      else if a = AWrite \<and> active_writers m = 0 \<and> active_readers m = 0
      then (if upgrade_active m \<noteq> 0 then Inl Assertion_failed
            else Inr (a, m\<lparr>active_writers := active_writers m + 1\<rparr>))
      else Inr (ANone, m))"

text \<open>
  \<open>unlock_\<close> has two critical sections. The first one drops the access and, when somebody can
  be served, takes the promises out; the second one serves the readers. The flag tells that
  the mutex was given up in between: this is so after an upgradable token was granted.
\<close>

definition drop_access :: "access \<Rightarrow> 'p monitor \<Rightarrow> 'p monitor" where
  "drop_access a m = (case a of
     ARead \<Rightarrow> m\<lparr>active_readers := active_readers m - 1\<rparr>
   | AUpgrade \<Rightarrow> m\<lparr>upgrade_active := upgrade_active m - 1, active_writers := active_writers m - 1\<rparr>
   | AWrite \<Rightarrow> m\<lparr>active_writers := active_writers m - 1\<rparr>
   | ANone \<Rightarrow> m)"

definition unlock_readers :: "'p monitor \<Rightarrow> 'p grants \<times> 'p monitor" where
  "unlock_readers m =
     (if r_queue m \<noteq> [] \<and> active_writers m = upgrade_active m
      then (map (Pair ARead) (r_queue m),
            m\<lparr>active_readers := active_readers m + of_nat (length (r_queue m)), r_queue := []\<rparr>)
      else ([], m))"

definition unlock_serve :: "'p monitor \<Rightarrow> ('p grants \<times> bool \<times> 'p monitor) result" where
  "unlock_serve m =
     (if u_queue m \<noteq> [] then
        (if active_readers m = 0
         then Inr (map (Pair AWrite) (u_queue m), False, m\<lparr>u_queue := []\<rparr>)
         else Inr ([], False, m))
      else case w_queue m of
        ap # rest \<Rightarrow>
          if active_writers m = 0 then
            (if upgrade_active m \<noteq> 0 then Inl Assertion_failed
             else let m1 = m\<lparr>w_queue := rest, active_writers := active_writers m + 1\<rparr>;
                      m2 = (if fst ap = AUpgrade then m1\<lparr>upgrade_active := upgrade_active m1 + 1\<rparr> else m1)
                  in Inr ([ap], fst ap \<noteq> AWrite, m2))
          else (case unlock_readers m of (gs, m') \<Rightarrow> Inr (gs, False, m'))
      | [] \<Rightarrow> (case unlock_readers m of (gs, m') \<Rightarrow> Inr (gs, False, m')))"

definition unlock_first :: "access \<Rightarrow> 'p monitor \<Rightarrow> ('p grants \<times> bool \<times> 'p monitor) result" where
  "unlock_first a m = (if a = ANone then Inr ([], False, m) else unlock_serve (drop_access a m))"

definition unlock_m :: "access \<Rightarrow> 'p monitor \<Rightarrow> ('p grants \<times> 'p monitor) result" where
  "unlock_m a m = (case unlock_first a m of
     Inl e \<Rightarrow> Inl e
   | Inr (gs, again, m1) \<Rightarrow>
       if again then (case unlock_readers m1 of (gs', m2) \<Rightarrow> Inr (gs @ gs', m2)) else Inr (gs, m1))"

definition add_m :: "access \<Rightarrow> 'p monitor \<Rightarrow> 'p monitor" where
  "add_m a m = (case a of
     ARead \<Rightarrow> m\<lparr>active_readers := active_readers m + 1\<rparr>
   | AUpgrade \<Rightarrow> m\<lparr>upgrade_active := upgrade_active m + 1, active_writers := active_writers m + 1\<rparr>
   | AWrite \<Rightarrow> m\<lparr>active_writers := active_writers m + 1\<rparr>
   | ANone \<Rightarrow> m)"

definition upgrade_to_write_m :: "'p \<Rightarrow> 'p monitor \<Rightarrow> 'p grants \<times> 'p monitor" where
  "upgrade_to_write_m p m =
     (let m1 = m\<lparr>active_writers := active_writers m + 1\<rparr>
      in if active_readers m1 = 0 then ([(AWrite, p)], m1)
         else ([], m1\<lparr>u_queue := p # u_queue m1\<rparr>))"

text \<open>
  The interface of a shared mutex. The waiting loops give up the mutex and yield until their
  condition is met: \<open>None\<close> means that the caller waits.
\<close>

definition try_lock :: "'p monitor \<Rightarrow> (bool \<times> 'p monitor) result" where
  "try_lock m =
     (if active_writers m = 0 \<and> active_readers m = 0
      then (if upgrade_active m \<noteq> 0 then Inl Assertion_failed
            else Inr (True, m\<lparr>active_writers := active_writers m + 1\<rparr>))
      else Inr (False, m))"

definition monitor_lock :: "'p monitor \<Rightarrow> 'p monitor option result" where
  "monitor_lock m =
     (if active_writers m \<noteq> 0 \<or> active_readers m \<noteq> 0 then Inr None
      else if upgrade_active m \<noteq> 0 then Inl Assertion_failed
      else Inr (Some (m\<lparr>active_writers := active_writers m + 1\<rparr>)))"

definition monitor_unlock :: "'p monitor \<Rightarrow> ('p grants \<times> 'p monitor) result" where
  "monitor_unlock m = unlock_m AWrite m"

definition try_lock_shared :: "'p monitor \<Rightarrow> bool \<times> 'p monitor" where
  "try_lock_shared m =
     (if active_writers m = upgrade_active m
      then (True, m\<lparr>active_readers := active_readers m + 1\<rparr>) else (False, m))"

definition lock_shared :: "'p monitor \<Rightarrow> 'p monitor option result" where
  "lock_shared m =
     (if active_readers m \<noteq> upgrade_active m then Inr None
      else if upgrade_active m \<noteq> 0 then Inl Assertion_failed
      else Inr (Some (m\<lparr>active_readers := active_readers m + 1\<rparr>)))"

definition unlock_shared :: "'p monitor \<Rightarrow> ('p grants \<times> 'p monitor) result" where
  "unlock_shared m = unlock_m ARead m"

section \<open>The tokens\<close>

record monitor_token =
  tok_m :: ptr
  tok_access :: access

definition token_null :: monitor_token where
  "token_null = \<lparr>tok_m = None, tok_access = ANone\<rparr>"

type_synonym 'p monitors = "addr \<Rightarrow> 'p monitor"

definition token_copy_ctor :: "monitor_token \<Rightarrow> 'p monitors \<Rightarrow> monitor_token \<times> 'p monitors" where
  "token_copy_ctor t ms =
     (\<lparr>tok_m = tok_m t, tok_access = tok_access t\<rparr>, when_ptr (\<lambda>a ms. ms(a := add_m (tok_access t) (ms a))) (tok_m t) ms)"

text \<open>The move constructor returns the new token and what is left in its argument.\<close>

definition token_move_ctor :: "monitor_token \<Rightarrow> monitor_token \<times> monitor_token" where
  "token_move_ctor t = (\<lparr>tok_m = tok_m t, tok_access = tok_access t\<rparr>, t\<lparr>tok_m := None\<rparr>)"

definition token_dtor ::
    "monitor_token \<Rightarrow> 'p monitors \<Rightarrow> ('p grants \<times> 'p monitors) result" where
  "token_dtor t ms = (case tok_m t of
     None \<Rightarrow> Inr ([], ms)
   | Some a \<Rightarrow> (case unlock_m (tok_access t) (ms a) of
       Inl e \<Rightarrow> Inl e | Inr (gs, m') \<Rightarrow> Inr (gs, ms(a := m'))))"

text \<open>
  The assignments, with the variables that hold the tokens: copy or move into a temporary,
  swap, destroy. In \<open>operator=(token t)\<close> the named argument \<open>t\<close> is an lvalue, so the
  temporary is made by the copy constructor there as well.
\<close>

definition token_assign ::
    "'v \<Rightarrow> 'v \<Rightarrow> ('v \<Rightarrow> monitor_token) \<Rightarrow> 'p monitors \<Rightarrow>
     (('v \<Rightarrow> monitor_token) \<times> 'p grants \<times> 'p monitors) result" where
  "token_assign v u ts ms =
     (let (tmp, ms1) = token_copy_ctor (ts u) ms;
          ts1 = ts(v := tmp)
      in case token_dtor (ts v) ms1 of
           Inl e \<Rightarrow> Inl e | Inr (gs, ms2) \<Rightarrow> Inr (ts1, gs, ms2))"

definition token_move_assign ::
    "'v \<Rightarrow> 'v \<Rightarrow> ('v \<Rightarrow> monitor_token) \<Rightarrow> 'p monitors \<Rightarrow>
     (('v \<Rightarrow> monitor_token) \<times> 'p grants \<times> 'p monitors) result" where
  "token_move_assign v u ts ms = token_assign v u ts ms"

definition token_eq :: "monitor_token \<Rightarrow> monitor_token \<Rightarrow> bool" where
  "token_eq t u \<longleftrightarrow> tok_m t = tok_m u \<and> tok_access t = tok_access u"

definition ptr_less :: "ptr \<Rightarrow> ptr \<Rightarrow> bool" where
  "ptr_less p q = (case (p, q) of
     (None, None) \<Rightarrow> False | (None, Some _) \<Rightarrow> True | (Some _, None) \<Rightarrow> False | (Some a, Some b) \<Rightarrow> a < b)"

definition token_less :: "monitor_token \<Rightarrow> monitor_token \<Rightarrow> bool" where
  "token_less t u \<longleftrightarrow> ptr_less (tok_m t) (tok_m u) \<or> (tok_m t = tok_m u \<and> tok_access t = tok_access u)"

definition token_locked :: "monitor_token \<Rightarrow> bool" where
  "token_locked t \<longleftrightarrow> tok_m t \<noteq> None \<and> tok_access t \<noteq> ANone"

definition token_upgrade_to_write ::
    "'p \<Rightarrow> monitor_token \<Rightarrow> 'p monitors \<Rightarrow> ('p grants \<times> 'p monitors) result" where
  "token_upgrade_to_write p t ms = (case tok_m t of
     None \<Rightarrow> Inl Invalid_argument
   | Some a \<Rightarrow> (case tok_access t of
       AUpgrade \<Rightarrow> (case upgrade_to_write_m p (ms a) of (gs, m') \<Rightarrow> Inr (gs, ms(a := m')))
     | ARead \<Rightarrow> Inl Invalid_argument
     | AWrite \<Rightarrow> Inl Invalid_argument
     | ANone \<Rightarrow> Inl Invalid_argument))"

definition token_downgrade_to_read ::
    "monitor_token \<Rightarrow> 'p monitors \<Rightarrow> (monitor_token \<times> 'p monitors) result" where
  "token_downgrade_to_read t ms = (case tok_m t of
     None \<Rightarrow> Inl Invalid_argument
   | Some a \<Rightarrow>
       if tok_access t = AUpgrade \<or> tok_access t = AWrite
       then Inr (\<lparr>tok_m = Some a, tok_access = ARead\<rparr>, ms(a := add_m ARead (ms a)))
       else Inl Invalid_argument)"

definition token_downgrade_to_upgrade ::
    "monitor_token \<Rightarrow> 'p monitors \<Rightarrow> (monitor_token \<times> 'p monitors) result" where
  "token_downgrade_to_upgrade t ms = (case tok_m t of
     None \<Rightarrow> Inl Invalid_argument
   | Some a \<Rightarrow>
       if tok_access t = AWrite
       then Inr (\<lparr>tok_m = Some a, tok_access = AUpgrade\<rparr>, ms(a := add_m AUpgrade (ms a)))
       else Inl Invalid_argument)"

end
