(* ===== verification/Monitor_Inv.thy ===== *)
theory Monitor_Inv
  imports Monitor
begin

text \<open>
  Clients of a monitor. A session is started by each call of \<open>queue\<close>, \<open>try_immediate\<close> and
  the lock functions; copies, upgrades and downgrades of a token belong to the session of the
  token. \<open>live\<close> holds the tokens that exist, with their sessions, \<open>pend\<close> counts the
  calls of \<open>unlock_\<close> that are between their two critical sections. The clients call the
  methods in any order; a token can only be used by a client while it is alive.
\<close>

record mworld =
  mon :: "nat monitor"
  live :: "(access \<times> nat) multiset"
  pend :: nat
  nxt :: nat

definition mworld_init :: mworld where
  "mworld_init = \<lparr>mon = monitor_init, live = {#}, pend = 0, nxt = 0\<rparr>"

inductive mon_step :: "mworld \<Rightarrow> mworld \<Rightarrow> bool" where
  ms_queue: "monitor_queue (nxt w) a (mon w) = Inr (gs, m') \<Longrightarrow>
    mon_step w (w\<lparr>mon := m', live := live w + mset gs, nxt := nxt w + 1\<rparr>)"
| ms_try: "try_immediate a (mon w) = Inr (a', m') \<Longrightarrow>
    mon_step w (w\<lparr>mon := m', live := add_mset (a', nxt w) (live w), nxt := nxt w + 1\<rparr>)"
| ms_try_lock: "try_lock (mon w) = Inr (True, m') \<Longrightarrow>
    mon_step w (w\<lparr>mon := m', live := add_mset (AWrite, nxt w) (live w), nxt := nxt w + 1\<rparr>)"
| ms_lock: "monitor_lock (mon w) = Inr (Some m') \<Longrightarrow>
    mon_step w (w\<lparr>mon := m', live := add_mset (AWrite, nxt w) (live w), nxt := nxt w + 1\<rparr>)"
| ms_try_shared: "try_lock_shared (mon w) = (True, m') \<Longrightarrow>
    mon_step w (w\<lparr>mon := m', live := add_mset (ARead, nxt w) (live w), nxt := nxt w + 1\<rparr>)"
| ms_lock_shared: "lock_shared (mon w) = Inr (Some m') \<Longrightarrow>
    mon_step w (w\<lparr>mon := m', live := add_mset (ARead, nxt w) (live w), nxt := nxt w + 1\<rparr>)"
| ms_release: "(a, q) \<in># live w \<Longrightarrow> unlock_first a (mon w) = Inr (gs, again, m') \<Longrightarrow>
    mon_step w (w\<lparr>mon := m', live := live w - {#(a, q)#} + mset gs,
                   pend := pend w + (if again then 1 else 0)\<rparr>)"
| ms_release_readers: "0 < pend w \<Longrightarrow> unlock_readers (mon w) = (gs, m') \<Longrightarrow>
    mon_step w (w\<lparr>mon := m', live := live w + mset gs, pend := pend w - 1\<rparr>)"
| ms_copy: "(a, q) \<in># live w \<Longrightarrow>
    mon_step w (w\<lparr>mon := add_m a (mon w), live := add_mset (a, q) (live w)\<rparr>)"
| ms_upgrade: "(AUpgrade, q) \<in># live w \<Longrightarrow> upgrade_to_write_m q (mon w) = (gs, m') \<Longrightarrow>
    mon_step w (w\<lparr>mon := m', live := live w + mset gs\<rparr>)"
| ms_downgrade_read: "(a, q) \<in># live w \<Longrightarrow> a = AUpgrade \<or> a = AWrite \<Longrightarrow>
    mon_step w (w\<lparr>mon := add_m ARead (mon w), live := add_mset (ARead, q) (live w)\<rparr>)"
| ms_downgrade_upgrade: "(AWrite, q) \<in># live w \<Longrightarrow>
    mon_step w (w\<lparr>mon := add_m AUpgrade (mon w), live := add_mset (AUpgrade, q) (live w)\<rparr>)"

text \<open>The counters have 64 bits; the states considered have fewer tokens than that.\<close>

definition fits :: "mworld \<Rightarrow> bool" where
  "fits w \<longleftrightarrow> size (live w) + length (u_queue (mon w)) < 2 ^ 64"

inductive mon_reachable :: "mworld \<Rightarrow> bool" where
  mr_init: "mon_reachable mworld_init"
| mr_next: "mon_reachable w \<Longrightarrow> mon_step w w' \<Longrightarrow> fits w' \<Longrightarrow> mon_reachable w'"

section \<open>Counting tokens\<close>

definition tokens :: "access \<Rightarrow> (access \<times> 'q) multiset \<Rightarrow> nat" where
  "tokens a L = size (filter_mset (\<lambda>x. fst x = a) L)"

lemma tokens_simps [simp]:
  "tokens a {#} = 0"
  "tokens a (add_mset x L) = (if fst x = a then 1 else 0) + tokens a L"
  "tokens a (L + M) = tokens a L + tokens a M"
  by (auto simp: tokens_def)

lemma tokens_diff: "x \<in># L \<Longrightarrow> tokens a (L - {#x#}) + (if fst x = a then 1 else 0) = tokens a L"
  by (auto simp: tokens_def dest!: multi_member_split)

lemma tokens_map [simp]:
  "tokens a (mset (map (Pair b) qs)) = (if a = b then length qs else 0)"
  by (induction qs) auto

lemma tokens_image [simp]:
  "tokens a (image_mset (Pair b) (mset qs)) = (if a = b then length qs else 0)"
  using tokens_map [of a b qs] by simp

lemma tokens_pos: "(a, q) \<in># L \<Longrightarrow> 0 < tokens a L"
  by (auto simp: tokens_def dest!: multi_member_split)

lemma tokens_sum:
  "a \<noteq> b \<Longrightarrow> a \<noteq> c \<Longrightarrow> b \<noteq> c \<Longrightarrow> tokens a L + tokens b L + tokens c L \<le> size L"
  by (induction L) auto

definition excl :: "access \<Rightarrow> bool" where
  "excl a \<longleftrightarrow> a = AWrite \<or> a = AUpgrade"

lemma excl_simps [simp]: "excl AWrite" "excl AUpgrade" "\<not> excl ARead" "\<not> excl ANone"
  by (auto simp: excl_def)

definition counters_ok :: "'p monitor \<Rightarrow> (access \<times> nat) multiset \<Rightarrow> bool" where
  "counters_ok m L \<longleftrightarrow>
     active_readers m = of_nat (tokens ARead L) \<and>
     upgrade_active m = of_nat (tokens AUpgrade L) \<and>
     active_writers m = of_nat (tokens AWrite L + tokens AUpgrade L + length (u_queue m))"

text \<open>Nobody waits for nothing.\<close>

definition wakeups_ok :: "mworld \<Rightarrow> bool" where
  "wakeups_ok w \<longleftrightarrow>
     (w_queue (mon w) \<noteq> [] \<longrightarrow>
        tokens AWrite (live w) \<noteq> 0 \<or> tokens AUpgrade (live w) \<noteq> 0 \<or> tokens ARead (live w) \<noteq> 0) \<and>
     (r_queue (mon w) \<noteq> [] \<longrightarrow>
        tokens AWrite (live w) \<noteq> 0 \<or> tokens AUpgrade (live w) \<noteq> 0 \<or> u_queue (mon w) \<noteq> [] \<or> 0 < pend w) \<and>
     (u_queue (mon w) \<noteq> [] \<longrightarrow> tokens ARead (live w) \<noteq> 0)"

text \<open>All exclusive tokens, and the upgrades waited for, belong to one session.\<close>

definition sole :: "(access \<times> nat) multiset \<Rightarrow> nat set \<Rightarrow> bool" where
  "sole L U \<longleftrightarrow> (\<exists>s. (\<forall>x \<in># L. excl (fst x) \<longrightarrow> snd x = s) \<and> U \<subseteq> {s})"

definition one_session :: "mworld \<Rightarrow> bool" where
  "one_session w \<longleftrightarrow> sole (live w) (set (u_queue (mon w)))"

text \<open>The queue of writers is in the order of their calls and holds proper requests only.\<close>

definition queue_ok :: "mworld \<Rightarrow> bool" where
  "queue_ok w \<longleftrightarrow> sorted_wrt (<) (map snd (w_queue (mon w))) \<and>
     (\<forall>x \<in> set (w_queue (mon w)). excl (fst x) \<and> snd x < nxt w)"

definition mon_inv :: "mworld \<Rightarrow> bool" where
  "mon_inv w \<longleftrightarrow> fits w \<and> counters_ok (mon w) (live w) \<and> wakeups_ok w \<and> one_session w \<and> queue_ok w"

lemma of_nat_uptr_eq:
  "a < 2 ^ 64 \<Longrightarrow> b < 2 ^ 64 \<Longrightarrow> (of_nat a :: uptr) = of_nat b \<longleftrightarrow> a = b"
  using word_eq_of_nat_iff [of b "of_nat a :: uptr"] unat_of_nat_exact [of a, where 'a = 64] by simp

lemma of_nat_uptr_zero: "a < 2 ^ 64 \<Longrightarrow> (of_nat a :: uptr) = 0 \<longleftrightarrow> a = 0"
  using of_nat_uptr_eq [of a 0] by simp

text \<open>What the tests of the code mean.\<close>

lemma counters_tests:
  assumes "counters_ok m L" and "size L + length (u_queue m) < 2 ^ 64"
  shows "active_readers m = 0 \<longleftrightarrow> tokens ARead L = 0"
    and "upgrade_active m = 0 \<longleftrightarrow> tokens AUpgrade L = 0"
    and "active_writers m = 0 \<longleftrightarrow> tokens AWrite L = 0 \<and> tokens AUpgrade L = 0 \<and> u_queue m = []"
    and "active_writers m = upgrade_active m \<longleftrightarrow> tokens AWrite L = 0 \<and> u_queue m = []"
proof -
  have b: "tokens ARead L + tokens AWrite L + tokens AUpgrade L \<le> size L"
    by (rule tokens_sum) auto
  note eqs = assms(1) [unfolded counters_ok_def]
  show "active_readers m = 0 \<longleftrightarrow> tokens ARead L = 0"
    using eqs b assms(2) of_nat_uptr_zero [of "tokens ARead L"] by simp
  show "upgrade_active m = 0 \<longleftrightarrow> tokens AUpgrade L = 0"
    using eqs b assms(2) of_nat_uptr_zero [of "tokens AUpgrade L"] by simp
  have w: "active_writers m = of_nat (tokens AWrite L + tokens AUpgrade L + length (u_queue m))"
    using eqs by blast
  show "active_writers m = 0 \<longleftrightarrow> tokens AWrite L = 0 \<and> tokens AUpgrade L = 0 \<and> u_queue m = []"
    unfolding w using b assms(2)
      of_nat_uptr_zero [of "tokens AWrite L + tokens AUpgrade L + length (u_queue m)"]
    by (simp del: of_nat_add)
  have u: "upgrade_active m = of_nat (tokens AUpgrade L)" using eqs by blast
  show "active_writers m = upgrade_active m \<longleftrightarrow> tokens AWrite L = 0 \<and> u_queue m = []"
    unfolding w u using b assms(2)
      of_nat_uptr_eq [of "tokens AWrite L + tokens AUpgrade L + length (u_queue m)" "tokens AUpgrade L"]
    by (simp del: of_nat_add)
qed

text \<open>Writers in a monitor whose counters are right are never fewer than its upgraders.\<close>

lemma no_writer_no_upgrade:
  "counters_ok m L \<Longrightarrow> size L + length (u_queue m) < 2 ^ 64 \<Longrightarrow> active_writers m = 0 \<Longrightarrow> upgrade_active m = 0"
  using counters_tests(2,3) [of m L] by simp

section \<open>The counters count the tokens\<close>

lemma counters_add: "counters_ok m L \<Longrightarrow> counters_ok (add_m a m) (add_mset (a, q) L)"
  by (cases a) (auto simp: counters_ok_def add_m_def algebra_simps)

lemma counters_drop:
  assumes "counters_ok m L" and "(a, q) \<in># L"
  shows "counters_ok (drop_access a m) (L - {#(a, q)#})"
proof -
  obtain M where "L = add_mset (a, q) M" using assms(2) by (metis multi_member_split)
  then show ?thesis using assms(1)
    by (cases a) (auto simp: counters_ok_def drop_access_def)
qed

text \<open>The five ways through \<open>queue\<close>.\<close>

lemma monitor_queue_cases:
  assumes "monitor_queue p a m = Inr (gs, m')"
  obtains
    (none) "a = ANone" "gs = [(ANone, p)]" "m' = m"
  | (reader) "a = ARead" "gs = [(ARead, p)]" "m' = m\<lparr>active_readers := active_readers m + 1\<rparr>"
  | (exclusive) "excl a" "active_writers m = 0" "active_readers m = 0" "upgrade_active m = 0"
      "gs = [(a, p)]"
      "m' = m\<lparr>active_writers := 1, upgrade_active := (if a = AUpgrade then 1 else 0)\<rparr>"
  | (wait_reader) "a = ARead" "active_writers m \<noteq> 0" "gs = []" "m' = m\<lparr>r_queue := p # r_queue m\<rparr>"
  | (wait_writer) "excl a" "active_writers m \<noteq> 0 \<or> active_readers m \<noteq> 0" "gs = []"
      "m' = m\<lparr>w_queue := w_queue m @ [(a, p)]\<rparr>"
  using assms
  by (cases a) (auto simp: monitor_queue_def queue_m_def excl_def Let_def split: if_splits)

lemma counters_queue:
  assumes "counters_ok m L" and "monitor_queue p a m = Inr (gs, m')"
  shows "counters_ok m' (L + mset gs)"
  using assms by (cases a) (auto simp: monitor_queue_def queue_m_def counters_ok_def Let_def
      algebra_simps split: if_splits)

lemma counters_try:
  assumes "counters_ok m L" and "try_immediate a m = Inr (a', m')"
  shows "counters_ok m' (add_mset (a', q) L)"
  using assms by (cases a) (auto simp: try_immediate_def counters_ok_def algebra_simps split: if_splits)

lemma counters_lock:
  assumes "counters_ok m L"
  shows "try_lock m = Inr (True, m') \<Longrightarrow> counters_ok m' (add_mset (AWrite, q) L)"
    and "monitor_lock m = Inr (Some m') \<Longrightarrow> counters_ok m' (add_mset (AWrite, q) L)"
    and "try_lock_shared m = (True, m') \<Longrightarrow> counters_ok m' (add_mset (ARead, q) L)"
    and "lock_shared m = Inr (Some m') \<Longrightarrow> counters_ok m' (add_mset (ARead, q) L)"
  using assms
  by (auto simp: try_lock_def monitor_lock_def try_lock_shared_def lock_shared_def counters_ok_def
      algebra_simps split: if_splits)

lemma counters_readers:
  assumes "counters_ok m L" and "unlock_readers m = (gs, m')"
  shows "counters_ok m' (L + mset gs)"
  using assms by (auto simp: unlock_readers_def counters_ok_def algebra_simps split: if_splits)

text \<open>The four ways through \<open>unlock_\<close>.\<close>

lemma unlock_serve_cases:
  assumes "unlock_serve m = Inr (gs, again, m')"
  obtains
    (upgrades) "u_queue m \<noteq> []" "active_readers m = 0" "gs = map (Pair AWrite) (u_queue m)" "\<not> again"
      "m' = m\<lparr>u_queue := []\<rparr>"
  | (wait) "u_queue m \<noteq> []" "active_readers m \<noteq> 0" "gs = []" "\<not> again" "m' = m"
  | (writer) a q rest where "u_queue m = []" "w_queue m = (a, q) # rest" "active_writers m = 0"
      "upgrade_active m = 0" "gs = [(a, q)]" "again = (a \<noteq> AWrite)"
      "m' = m\<lparr>w_queue := rest, active_writers := 1, upgrade_active := (if a = AUpgrade then 1 else 0)\<rparr>"
  | (readers) "u_queue m = []" "w_queue m = [] \<or> active_writers m \<noteq> 0" "unlock_readers m = (gs, m')"
      "\<not> again"
proof (cases "u_queue m")
  case Nil
  then show ?thesis
  proof (cases "w_queue m")
    case (Cons ap rest)
    then show ?thesis
      using assms Nil writer [of "fst ap" "snd ap" rest] readers
      by (cases "active_writers m = 0")
         (auto simp: unlock_serve_def Let_def split: if_splits prod.splits)
  qed (use assms readers in \<open>auto simp: unlock_serve_def split: prod.splits\<close>)
next
  case (Cons x xs)
  then show ?thesis
    using assms upgrades wait by (auto simp: unlock_serve_def split: if_splits)
qed

lemma counters_serve:
  assumes "counters_ok m L" and "unlock_serve m = Inr (gs, again, m')"
    and "\<forall>x \<in> set (w_queue m). excl (fst x)"
  shows "counters_ok m' (L + mset gs)"
  using assms(2)
proof (cases rule: unlock_serve_cases)
  case upgrades
  then show ?thesis using assms(1) by (simp add: counters_ok_def algebra_simps)
next
  case (writer a q rest)
  then show ?thesis using assms(1,3) by (auto simp: counters_ok_def excl_def algebra_simps)
next
  case readers
  then show ?thesis using counters_readers [OF assms(1)] by blast
qed (use assms(1) in simp)

lemma counters_upgrade:
  assumes "counters_ok m L" and "upgrade_to_write_m q m = (gs, m')"
  shows "counters_ok m' (L + mset gs)"
  using assms by (auto simp: upgrade_to_write_m_def counters_ok_def Let_def algebra_simps split: if_splits)


section \<open>The invariant is kept\<close>

lemma mon_inv_init: "mon_inv mworld_init"
  by (auto simp: mon_inv_def mworld_init_def monitor_init_def fits_def counters_ok_def wakeups_ok_def
      one_session_def sole_def queue_ok_def)

lemma queue_excl: "queue_ok w \<Longrightarrow> \<forall>x \<in> set (w_queue (mon w)). excl (fst x)"
  by (auto simp: queue_ok_def)

lemma drop_access_queues [simp]:
  "w_queue (drop_access a m) = w_queue m" "r_queue (drop_access a m) = r_queue m"
  "u_queue (drop_access a m) = u_queue m"
  by (cases a; simp add: drop_access_def)+

lemma add_m_queues [simp]:
  "w_queue (add_m a m) = w_queue m" "r_queue (add_m a m) = r_queue m" "u_queue (add_m a m) = u_queue m"
  by (cases a; simp add: add_m_def)+

lemma step_counters:
  assumes "mon_step w w'" and "mon_inv w"
  shows "counters_ok (mon w') (live w')"
proof -
  have c: "counters_ok (mon w) (live w)" and q: "queue_ok w" using assms(2) by (auto simp: mon_inv_def)
  show ?thesis
    using assms(1)
  proof cases
    case (ms_release a q' gs again m')
    show ?thesis
    proof (cases "a = ANone")
      case True
      then show ?thesis
        using ms_release counters_drop [OF c ms_release(2)]
        by (simp add: unlock_first_def drop_access_def)
    next
      case False
      then have "unlock_serve (drop_access a (mon w)) = Inr (gs, again, m')"
        using ms_release(3) by (simp add: unlock_first_def)
      from counters_serve [OF counters_drop [OF c ms_release(2)] this] queue_excl [OF q] ms_release(1)
      show ?thesis by simp
    qed
  qed (use c in \<open>simp add: counters_queue counters_try counters_lock counters_readers
        counters_upgrade counters_add\<close>)+
qed

lemma release_tests:
  assumes "mon_inv w" and "(a, q) \<in># live w"
  shows "counters_ok (drop_access a (mon w)) (live w - {#(a, q)#})"
    and "size (live w - {#(a, q)#}) + length (u_queue (drop_access a (mon w))) < 2 ^ 64"
  using assms size_Diff1_le [of "live w" "(a, q)"]
  by (auto simp: mon_inv_def fits_def counters_drop)

lemma wakeups_add:
  assumes "wakeups_ok w" and "w_queue m' = w_queue (mon w)" "r_queue m' = r_queue (mon w)"
    "u_queue m' = u_queue (mon w)"
  shows "wakeups_ok (w\<lparr>mon := m', live := add_mset x (live w), nxt := n\<rparr>)"
    and "wakeups_ok (w\<lparr>mon := m', live := add_mset x (live w)\<rparr>)"
  using assms unfolding wakeups_ok_def by auto

lemma step_wakeups:
  assumes "mon_step w w'" and "mon_inv w"
  shows "wakeups_ok w'"
proof -
  have c: "counters_ok (mon w) (live w)" "size (live w) + length (u_queue (mon w)) < 2 ^ 64"
    and k: "wakeups_ok w" and q: "queue_ok w"
    using assms(2) by (auto simp: mon_inv_def fits_def)
  note t = counters_tests [OF c]
  show ?thesis
    using assms(1)
  proof cases
    case (ms_queue a gs m')
    from ms_queue(2) show ?thesis
      by (cases rule: monitor_queue_cases)
         (use ms_queue(1) k t(1,3) in \<open>auto simp: wakeups_ok_def excl_def\<close>)
  next
    case (ms_try a a' m')
    then show ?thesis using k t by (auto simp: try_immediate_def wakeups_ok_def split: if_splits)
  next
    case (ms_release a p gs again m')
    show ?thesis
    proof (cases "a = ANone")
      case True
      then have "live w' = live w - {#(ANone, p)#}" "mon w' = mon w" "pend w' = pend w"
        using ms_release by (simp_all add: unlock_first_def)
      moreover have "tokens b (live w - {#(ANone, p)#}) = tokens b (live w)" if "b \<noteq> ANone" for b
        using tokens_diff [of "(ANone, p)" "live w" b] ms_release(2) True that by simp
      ultimately show ?thesis using k by (simp add: wakeups_ok_def)
    next
      case False
      then have serve: "unlock_serve (drop_access a (mon w)) = Inr (gs, again, m')"
        using ms_release(3) by (simp add: unlock_first_def)
      note td = counters_tests [OF release_tests [OF assms(2) ms_release(2)]]
      from serve show ?thesis
      proof (cases rule: unlock_serve_cases)
        case (writer b q' rest)
        then have "excl b" using queue_excl [OF q] by simp
        then show ?thesis using writer ms_release(1) by (auto simp: wakeups_ok_def excl_def)
      next
        case upgrades
        then show ?thesis using ms_release(1) by (simp add: wakeups_ok_def)
      next
        case wait
        then show ?thesis using ms_release(1) td(1) by (simp add: wakeups_ok_def)
      next
        case readers
        have "w_queue (mon w) = [] \<or> tokens AWrite (live w - {#(a, p)#}) \<noteq> 0 \<or>
            tokens AUpgrade (live w - {#(a, p)#}) \<noteq> 0"
          using readers(1,2) td(3) by auto
        then show ?thesis using readers(1,3) ms_release(1) td(4)
          by (auto simp: wakeups_ok_def unlock_readers_def split: if_splits)
      qed
    qed
  next
    case (ms_release_readers gs m')
    then show ?thesis using k t by (auto simp: wakeups_ok_def unlock_readers_def split: if_splits)
  next
    case (ms_upgrade p gs m')
    then show ?thesis using k t
      by (auto simp: wakeups_ok_def upgrade_to_write_m_def Let_def dest: tokens_pos split: if_splits)
  qed (auto simp: try_lock_def monitor_lock_def try_lock_shared_def lock_shared_def
      intro!: wakeups_add [OF k] split: if_splits)
qed

lemma no_excl:
  "tokens AWrite L = 0 \<Longrightarrow> tokens AUpgrade L = 0 \<Longrightarrow> (a, q) \<in># L \<Longrightarrow> \<not> excl a"
  using tokens_pos [of AWrite q L] tokens_pos [of AUpgrade q L] by (auto simp: excl_def)

lemma step_queue:
  assumes "mon_step w w'" and "queue_ok w"
  shows "queue_ok w'"
  using assms(1)
proof cases
  case (ms_queue a gs m')
  from ms_queue(2) show ?thesis
    by (cases rule: monitor_queue_cases)
       (use ms_queue(1) assms(2) in \<open>auto simp: queue_ok_def sorted_wrt_append intro: less_SucI\<close>)
next
  case (ms_release a p gs again m')
  show ?thesis
  proof (cases "a = ANone")
    case False
    then have "unlock_serve (drop_access a (mon w)) = Inr (gs, again, m')"
      using ms_release(3) by (simp add: unlock_first_def)
    then show ?thesis
      by (cases rule: unlock_serve_cases)
         (use ms_release(1) assms(2) in \<open>auto simp: queue_ok_def unlock_readers_def split: if_splits\<close>)
  qed (use ms_release assms(2) in \<open>auto simp: unlock_first_def queue_ok_def\<close>)
qed (use assms(2) in \<open>auto simp: queue_ok_def try_immediate_def try_lock_def monitor_lock_def
      try_lock_shared_def lock_shared_def unlock_readers_def upgrade_to_write_m_def Let_def
      intro: less_SucI split: if_splits\<close>)

lemma sole_shared [simp]: "\<not> excl a \<Longrightarrow> sole (add_mset (a, q) L) U = sole L U"
  by (simp add: sole_def)

lemma sole_readers [simp]: "sole (L + image_mset (Pair ARead) M) U = sole L U"
proof -
  have "(\<forall>x \<in># L + image_mset (Pair ARead) M. excl (fst x) \<longrightarrow> snd x = s) =
      (\<forall>x \<in># L. excl (fst x) \<longrightarrow> snd x = s)" for s by auto
  then show ?thesis by (simp only: sole_def)
qed

lemma sole_diff: "sole L U \<Longrightarrow> sole (L - M) U"
  unfolding sole_def by (meson in_diffD)

lemma sole_fresh:
  assumes "tokens AWrite L = 0" and "tokens AUpgrade L = 0"
  shows "sole (add_mset x L) {}"
  unfolding sole_def
  by (rule exI [of _ "snd x"]) (use no_excl [OF assms] in \<open>auto\<close>)

lemma sole_same:
  assumes "sole L U" and "(a, q) \<in># L" and "excl a"
  shows "sole (add_mset (b, q) L) U" and "sole L (insert q U)"
  using assms unfolding sole_def by fastforce+

lemma sole_upgrades:
  "sole L (set qs) \<Longrightarrow> sole (L + image_mset (Pair AWrite) (mset qs)) {}"
  unfolding sole_def by (elim exE, rule_tac x = s in exI) auto

lemma step_session:
  assumes "mon_step w w'" and "mon_inv w"
  shows "one_session w'"
proof -
  have c: "counters_ok (mon w) (live w)" "size (live w) + length (u_queue (mon w)) < 2 ^ 64"
    and k: "sole (live w) (set (u_queue (mon w)))"
    using assms(2) by (auto simp: mon_inv_def fits_def one_session_def)
  have fresh: "sole (add_mset x (live w)) (set (u_queue (mon w)))" if "active_writers (mon w) = 0" for x
    using counters_tests(3) [OF c] that by (simp add: sole_fresh)
  show ?thesis
    unfolding one_session_def using assms(1)
  proof cases
    case (ms_queue a gs m')
    from ms_queue(2) show "sole (live w') (set (u_queue (mon w')))"
      by (cases rule: monitor_queue_cases) (use ms_queue(1) k fresh in simp_all)
  next
    case (ms_try a a' m')
    then show "sole (live w') (set (u_queue (mon w')))"
      using k fresh by (auto simp: try_immediate_def split: if_splits)
  next
    case (ms_release a p gs again m')
    have old: "sole (live w - {#(a, p)#}) (set (u_queue (mon w)))" by (rule sole_diff [OF k])
    show "sole (live w') (set (u_queue (mon w')))"
    proof (cases "a = ANone")
      case True
      then show ?thesis using ms_release old by (simp add: unlock_first_def)
    next
      case False
      then have serve: "unlock_serve (drop_access a (mon w)) = Inr (gs, again, m')"
        using ms_release(3) by (simp add: unlock_first_def)
      note td = counters_tests [OF release_tests [OF assms(2) ms_release(2)]]
      from serve show ?thesis
      proof (cases rule: unlock_serve_cases)
        case upgrades
        then show ?thesis using ms_release(1) sole_upgrades [OF old] by simp
      next
        case (writer b q' rest)
        then show ?thesis using ms_release(1) td(3) by (simp add: sole_fresh)
      qed (use ms_release(1) old in \<open>auto simp: unlock_readers_def split: if_splits\<close>)
    qed
  next
    case (ms_copy a q)
    then show "sole (live w') (set (u_queue (mon w')))"
      using k by (cases "excl a") (simp_all add: sole_same)
  next
    case (ms_upgrade q gs m')
    then show "sole (live w') (set (u_queue (mon w')))"
      using k sole_same [OF k, of AUpgrade q]
      by (auto simp: upgrade_to_write_m_def Let_def split: if_splits)
  next
    case (ms_downgrade_upgrade q)
    then show "sole (live w') (set (u_queue (mon w')))"
      using sole_same [OF k, of AWrite q] by simp
  qed (use k fresh in \<open>auto simp: try_lock_def monitor_lock_def try_lock_shared_def lock_shared_def
      unlock_readers_def split: if_splits\<close>)
qed

lemma mon_reachable_inv: "mon_reachable w \<Longrightarrow> mon_inv w"
proof (induction rule: mon_reachable.induct)
  case mr_init
  show ?case by (rule mon_inv_init)
next
  case (mr_next w w')
  then show ?case
    using step_counters step_wakeups step_session step_queue by (metis mon_inv_def)
qed

section \<open>Concrete runs\<close>

definition run_write :: mworld where
  "run_write = \<lparr>mon = monitor_init\<lparr>active_writers := 1\<rparr>, live = {#(AWrite, 0)#}, pend = 0, nxt = 1\<rparr>"

definition run_waiting :: mworld where
  "run_waiting = \<lparr>mon = monitor_init\<lparr>active_writers := 1, w_queue := [(AWrite, 1), (AUpgrade, 2)]\<rparr>,
     live = {#(AWrite, 0)#}, pend = 0, nxt = 3\<rparr>"

definition run_done :: mworld where
  "run_done = \<lparr>mon = monitor_init, live = {#}, pend = 0, nxt = 1\<rparr>"

lemma run_write_reachable: "mon_reachable run_write"
proof (rule mr_next [OF mr_init])
  have "monitor_queue (nxt mworld_init) AWrite (mon mworld_init) =
      Inr ([(AWrite, 0)], monitor_init\<lparr>active_writers := 1\<rparr>)"
    by (simp add: mworld_init_def monitor_init_def monitor_queue_def queue_m_def)
  from ms_queue [OF this] show "mon_step mworld_init run_write"
    by (simp add: run_write_def mworld_init_def)
qed (simp add: fits_def run_write_def monitor_init_def)

lemma run_waiting_reachable: "mon_reachable run_waiting"
proof -
  let ?w = "run_write\<lparr>mon := mon run_write\<lparr>w_queue := [(AWrite, 1)]\<rparr>, nxt := 2\<rparr>"
  have q1: "monitor_queue (nxt run_write) AWrite (mon run_write) = Inr ([], mon ?w)"
    and q2: "monitor_queue (nxt ?w) AUpgrade (mon ?w) = Inr ([], mon run_waiting)"
    by (simp_all add: run_write_def run_waiting_def monitor_init_def monitor_queue_def queue_m_def)
  have "mon_step run_write ?w"
    using ms_queue [OF q1] by (simp add: run_write_def numeral_2_eq_2)
  with run_write_reachable have "mon_reachable ?w"
    by (rule mr_next) (simp add: fits_def run_write_def monitor_init_def)
  moreover have "mon_step ?w run_waiting"
    using ms_queue [OF q2] by (simp add: run_write_def run_waiting_def)
  ultimately show ?thesis
    by (rule mr_next) (simp add: fits_def run_waiting_def monitor_init_def)
qed

lemma run_done_reachable: "mon_reachable run_done"
proof (rule mr_next [OF run_write_reachable])
  have "unlock_first AWrite (mon run_write) = Inr ([], False, monitor_init)"
    by (simp add: run_write_def monitor_init_def unlock_first_def unlock_serve_def drop_access_def
        unlock_readers_def)
  from ms_release [OF _ this, of 0] show "mon_step run_write run_done"
    by (simp add: run_done_def run_write_def)
qed (simp add: fits_def run_done_def monitor_init_def)

definition run_downgraded :: mworld where
  "run_downgraded = \<lparr>mon = monitor_init\<lparr>active_writers := 2, upgrade_active := 1\<rparr>,
     live = {#(AUpgrade, 0), (AWrite, 0)#}, pend = 0, nxt = 1\<rparr>"

lemma run_downgraded_reachable: "mon_reachable run_downgraded"
proof (rule mr_next [OF run_write_reachable])
  show "mon_step run_write run_downgraded"
    using ms_downgrade_upgrade [of 0 run_write]
    by (simp add: run_downgraded_def run_write_def add_m_def monitor_init_def)
qed (simp add: fits_def run_downgraded_def monitor_init_def)

section \<open>What holds of a monitor\<close>

text \<open>
  C18. The counters of a monitor count the tokens: in every reachable state \<open>active_readers_\<close>
  and \<open>upgrade_active_\<close> are the numbers of live tokens for reading and for upgradable reading,
  and \<open>active_writers_\<close> is the number of exclusive tokens plus the upgrades that wait.
\<close>

theorem monitor_counts_tokens:
  assumes "mon_reachable w"
  shows "unat (active_readers (mon w)) = tokens ARead (live w) \<and>
    unat (upgrade_active (mon w)) = tokens AUpgrade (live w) \<and>
    unat (active_writers (mon w)) =
      tokens AWrite (live w) + tokens AUpgrade (live w) + length (u_queue (mon w))"
proof -
  have inv: "counters_ok (mon w) (live w)" "size (live w) + length (u_queue (mon w)) < 2 ^ 64"
    using mon_reachable_inv [OF assms] by (auto simp: mon_inv_def fits_def)
  have b: "tokens ARead (live w) + tokens AWrite (live w) + tokens AUpgrade (live w) \<le> size (live w)"
    by (rule tokens_sum) auto
  have "unat (of_nat n :: uptr) = n" if "n < 2 ^ 64" for n using that by (simp add: unat_of_nat_exact)
  then show ?thesis
    using inv b by (simp add: counters_ok_def del: of_nat_add unat_of_nat)
qed

theorem monitor_counts_tokens_witness:
  "mon_reachable run_write \<and> unat (active_writers (mon run_write)) = 1"
  using monitor_counts_tokens [OF run_write_reachable] run_write_reachable
  by (simp add: run_write_def monitor_init_def)

text \<open>
  C7. Writers exclude each other: the live tokens for writing and for upgradable reading all
  come from one call (they are copies, upgrades and downgrades of one token).
\<close>

theorem monitor_one_writing_session:
  assumes "mon_reachable w" and "(a, q) \<in># live w" and "(b, r) \<in># live w" and "excl a" and "excl b"
  shows "q = r"
proof -
  obtain s where "\<forall>x \<in># live w. excl (fst x) \<longrightarrow> snd x = s"
    using mon_reachable_inv [OF assms(1)] by (auto simp: mon_inv_def one_session_def sole_def)
  from bspec [OF this assms(2)] bspec [OF this assms(3)] assms(4,5) show ?thesis by simp
qed

theorem monitor_one_writing_session_witness:
  "\<exists>q r. live run_downgraded = {#(AWrite, q), (AUpgrade, r)#} \<and> q = r"
proof -
  have "live run_downgraded = {#(AWrite, 0), (AUpgrade, 0)#}"
    by (simp add: run_downgraded_def add_mset_commute)
  then show ?thesis
    using monitor_one_writing_session [OF run_downgraded_reachable, of AWrite _ AUpgrade] by fastforce
qed

text \<open>
  C8. No promise is forgotten: while a writer waits some token is alive, while a reader waits
  an exclusive token is alive or a release is still running; so when all tokens are gone and
  no call is in progress, nobody waits and the assertions of the destructor hold.
\<close>

theorem monitor_no_lost_promise:
  assumes "mon_reachable w"
  shows "(w_queue (mon w) \<noteq> [] \<or> u_queue (mon w) \<noteq> [] \<longrightarrow> live w \<noteq> {#}) \<and>
    (r_queue (mon w) \<noteq> [] \<longrightarrow> live w \<noteq> {#} \<or> 0 < pend w) \<and>
    (live w = {#} \<and> pend w = 0 \<longrightarrow> monitor_dtor (mon w) = Inr ())"
proof -
  have inv: "counters_ok (mon w) (live w)" "wakeups_ok w"
    using mon_reachable_inv [OF assms] by (auto simp: mon_inv_def)
  show ?thesis
    using inv by (auto simp: wakeups_ok_def monitor_dtor_def counters_ok_def)
qed

theorem monitor_no_lost_promise_witness:
  "live run_waiting \<noteq> {#} \<and> monitor_dtor (mon run_done) = Inr ()"
  using monitor_no_lost_promise [OF run_waiting_reachable] monitor_no_lost_promise [OF run_done_reachable]
  by (simp add: run_waiting_def run_done_def)

text \<open>
  The assertions in \<open>queue_\<close>, \<open>try_immediate\<close>, \<open>try_lock\<close>, \<open>lock\<close> and \<open>unlock_\<close>
  (that no upgradable token exists when there is no writer) never fail.
\<close>

theorem monitor_assertions_hold:
  assumes "mon_reachable w"
  shows "monitor_queue p a (mon w) \<noteq> Inl e \<and> try_immediate a (mon w) \<noteq> Inl e \<and>
    try_lock (mon w) \<noteq> Inl e \<and> monitor_lock (mon w) \<noteq> Inl e \<and>
    ((a, q) \<in># live w \<longrightarrow> unlock_first a (mon w) \<noteq> Inl e)"
proof -
  have inv: "mon_inv w" by (rule mon_reachable_inv [OF assms])
  then have c: "counters_ok (mon w) (live w)" "size (live w) + length (u_queue (mon w)) < 2 ^ 64"
    by (auto simp: mon_inv_def fits_def)
  note n = no_writer_no_upgrade [OF c]
  have "unlock_first a (mon w) \<noteq> Inl e" if "(a, q) \<in># live w"
    using no_writer_no_upgrade [OF release_tests [OF inv that]]
    by (auto simp: unlock_first_def unlock_serve_def Let_def split: if_splits list.splits prod.splits)
  moreover have "monitor_queue p a (mon w) \<noteq> Inl e"
    using n by (cases a) (auto simp: monitor_queue_def queue_m_def Let_def)
  ultimately show ?thesis
    using n by (auto simp: try_immediate_def try_lock_def monitor_lock_def)
qed

theorem monitor_assertions_hold_witness:
  "try_lock (mon run_waiting) \<noteq> Inl Assertion_failed"
  using monitor_assertions_hold [OF run_waiting_reachable] by blast

text \<open>
  Admission of writers: \<open>queue\<close>, \<open>try_immediate\<close>, \<open>try_lock\<close> and \<open>lock\<close> give a
  token for writing at once exactly when no token of any kind but \<open>none\<close> is alive.
\<close>

theorem monitor_write_admission:
  assumes "mon_reachable w"
  shows "let free = (\<forall>a. a \<noteq> ANone \<longrightarrow> tokens a (live w) = 0) in
    ((AWrite, p) \<in> set (fst (projr (monitor_queue p AWrite (mon w)))) \<longleftrightarrow> free) \<and>
    (fst (projr (try_immediate AWrite (mon w))) = AWrite \<longleftrightarrow> free) \<and>
    (fst (projr (try_lock (mon w))) \<longleftrightarrow> free) \<and>
    (projr (monitor_lock (mon w)) \<noteq> None \<longleftrightarrow> free)"
proof -
  have inv: "mon_inv w" by (rule mon_reachable_inv [OF assms])
  then have c: "counters_ok (mon w) (live w)" "size (live w) + length (u_queue (mon w)) < 2 ^ 64"
    and k: "u_queue (mon w) \<noteq> [] \<longrightarrow> tokens ARead (live w) \<noteq> 0"
    by (auto simp: mon_inv_def fits_def wakeups_ok_def)
  have all: "(\<forall>a. a \<noteq> ANone \<longrightarrow> P a) \<longleftrightarrow> P ARead \<and> P AUpgrade \<and> P AWrite" for P :: "access \<Rightarrow> bool"
    by (metis access.exhaust access.distinct)
  let ?free = "active_writers (mon w) = 0 \<and> active_readers (mon w) = 0"
  have free: "(\<forall>a. a \<noteq> ANone \<longrightarrow> tokens a (live w) = 0) \<longleftrightarrow> ?free"
    unfolding all using counters_tests(1,3) [OF c] k by auto
  have u: "upgrade_active (mon w) = 0" if ?free
    using no_writer_no_upgrade [OF c] that by blast
  show ?thesis
    unfolding Let_def free
    using u by (auto simp: monitor_queue_def queue_m_def try_immediate_def try_lock_def monitor_lock_def Let_def)
qed

theorem monitor_write_admission_witness:
  "fst (projr (try_lock (mon run_done)))"
  using monitor_write_admission [OF run_done_reachable, of 0] by (simp add: Let_def run_done_def)

text \<open>
  Waiting writers are served in the order in which they called \<open>queue\<close>: a writer that a
  release serves from the queue called before everyone who is still in the queue.
\<close>

theorem monitor_writers_in_order:
  assumes "mon_reachable w" and "unlock_first a (mon w) = Inr (gs, again, m')"
    and "(b, r) \<in> set gs" and "excl b" and "u_queue (mon w) = []" and "(c, s) \<in> set (w_queue m')"
  shows "r < s"
proof -
  have q: "queue_ok w" using mon_reachable_inv [OF assms(1)] by (simp add: mon_inv_def)
  have "unlock_serve (drop_access a (mon w)) = Inr (gs, again, m')"
    using assms(2,3) by (auto simp: unlock_first_def split: if_splits)
  then show ?thesis
  proof (cases rule: unlock_serve_cases)
    case (writer b' r' rest)
    then show ?thesis using q assms(3,6) by (force simp: queue_ok_def)
  qed (use assms in \<open>auto simp: unlock_readers_def split: if_splits\<close>)
qed

theorem monitor_writers_in_order_witness:
  "fst (projr (unlock_first AWrite (mon run_waiting))) = [(AWrite, 1)] \<and> (1 :: nat) < 2"
proof -
  have "unlock_first AWrite (mon run_waiting) =
      Inr ([(AWrite, 1)], False, monitor_init\<lparr>active_writers := 1, w_queue := [(AUpgrade, 2)]\<rparr>)"
    by (simp add: run_waiting_def monitor_init_def unlock_first_def unlock_serve_def drop_access_def)
  with monitor_writers_in_order [OF run_waiting_reachable this, of AWrite 1 AUpgrade 2]
  show ?thesis by (simp add: run_waiting_def monitor_init_def)
qed

section \<open>Where readers and writers do meet\<close>

text \<open>
  \<open>unlock_\<close> serves a waiting writer as soon as \<open>active_writers_\<close> is 0, without a look at
  \<open>active_readers_\<close>: with two readers and a waiting writer, the release of one reader lets the
  writer in beside the other reader.
\<close>

lemma writer_served_beside_reader:
  "\<exists>w. mon_reachable w \<and> (ARead, 1) \<in># live w \<and> (AWrite, 2) \<in># live w"
proof -
  let ?m1 = "monitor_init\<lparr>active_readers := 1\<rparr>" and ?m2 = "monitor_init\<lparr>active_readers := 2\<rparr>"
  let ?m3 = "?m2\<lparr>w_queue := [(AWrite, 2)]\<rparr>"
  let ?w1 = "\<lparr>mon = ?m1, live = {#(ARead, 0)#}, pend = 0, nxt = 1\<rparr>"
  let ?w2 = "\<lparr>mon = ?m2, live = {#(ARead, 0), (ARead, 1)#}, pend = 0, nxt = 2\<rparr>"
  let ?w3 = "?w2\<lparr>mon := ?m3, nxt := 3\<rparr>"
  let ?w4 = "?w3\<lparr>mon := ?m1\<lparr>active_writers := 1\<rparr>, live := {#(ARead, 1), (AWrite, 2)#}\<rparr>"
  note evals = monitor_init_def monitor_queue_def queue_m_def mworld_init_def fits_def
  have "monitor_queue (nxt mworld_init) ARead (mon mworld_init) = Inr ([(ARead, 0)], ?m1)"
    "monitor_queue (nxt ?w1) ARead (mon ?w1) = Inr ([(ARead, 1)], ?m2)"
    "monitor_queue (nxt ?w2) AWrite (mon ?w2) = Inr ([], ?m3)"
    by (simp_all add: evals)
  note q = this
  have r: "unlock_first ARead (mon ?w3) = Inr ([(AWrite, 2)], False, ?m1\<lparr>active_writers := 1\<rparr>)"
    by (simp add: monitor_init_def unlock_first_def unlock_serve_def drop_access_def)
  have "mon_step mworld_init ?w1"
    using ms_queue [OF q(1)] by (simp add: mworld_init_def)
  with mr_init have "mon_reachable ?w1"
    by (rule mr_next) (simp add: evals)
  moreover have "mon_step ?w1 ?w2"
    using ms_queue [OF q(2)] by (simp add: numeral_2_eq_2 add_mset_commute)
  ultimately have "mon_reachable ?w2"
    by (rule mr_next) (simp add: evals)
  moreover have "mon_step ?w2 ?w3"
    using ms_queue [OF q(3)] by (simp add: numeral_3_eq_3 numeral_2_eq_2)
  ultimately have "mon_reachable ?w3"
    by (rule mr_next) (simp add: evals)
  moreover have "mon_step ?w3 ?w4"
    using ms_release [OF _ r, of 0] by (simp add: add_mset_commute)
  ultimately have "mon_reachable ?w4"
    by (rule mr_next) (simp add: evals)
  then show ?thesis by (intro exI [of _ ?w4]) simp
qed

text \<open>
  \<open>lock_shared\<close> waits while the number of readers differs from the number of upgraders, so it
  goes ahead beside a writer when there is no reader yet, and never beside a reader.
\<close>

lemma lock_shared_beside_writer:
  "mon_reachable run_write \<and> lock_shared (mon run_write) = Inr (Some ((mon run_write)\<lparr>active_readers := 1\<rparr>))"
  using run_write_reachable by (simp add: run_write_def monitor_init_def lock_shared_def)

lemma lock_shared_waits_for_readers:
  "upgrade_active m = 0 \<Longrightarrow> active_readers m \<noteq> 0 \<Longrightarrow> active_writers m = 0 \<Longrightarrow> lock_shared m = Inr None"
  by (simp add: lock_shared_def)

text \<open>\<open>operator<\<close> compares equal tokens as smaller, so it is no strict order.\<close>

lemma token_less_irreflexive_fails: "token_less t t"
  by (simp add: token_less_def)

text \<open>After a move assignment the source still holds its token.\<close>

lemma token_move_assign_keeps_source:
  "v \<noteq> u \<Longrightarrow> token_move_assign v u ts ms = Inr (ts', gs, ms') \<Longrightarrow> ts' u = ts u"
  by (auto simp: token_move_assign_def token_assign_def token_copy_ctor_def Let_def
      split: sum.splits)

end
