(* ===== verification/Msg_Fire.thy ===== *)
theory Msg_Fire
  imports Prelude
begin

text \<open>
  The events of a message queue: \<open>msg_queue_events\<close> and the typed \<open>msg_queue\<close> of
  \<open>include/ilias/msg_queue.h\<close>, run by any number of threads. A step is an atomic operation
  on \<open>m_state\<close> or a critical section of \<open>m_evmtx\<close>; a call made from inside of the callback
  is the call of another thread (\<open>_fire\<close> returns at once there, as the first lemma shows that
  \<open>m_state\<close> is not \<open>IDLE\<close> then). The list of messages is pushed and popped atomically.
\<close>

section \<open>The steps\<close>

datatype fire_state = FS_IDLE | FS_BUSY | FS_AGAIN

text \<open>
  The places of a thread: after the push in \<open>enqueue\<close>; inside \<open>_fire\<close> before the store of
  \<open>BUSY\<close>, before the critical section of \<open>_fire_event\<close>, while the callback runs, before the
  compare-exchange; inside \<open>callback\<close> before the test for messages and before \<open>_fire\<close>.
\<close>

datatype 'f fire_pc =
  F_Idle | F_Pushed | F_Store | F_Run | F_Inv 'f | F_Cas | F_RegCheck | F_RegFire

text \<open>
  \<open>m_list\<close> holds the messages. The last three fields follow the history: the callback that was
  registered last, whether an event was fired and no run of the callback has begun since, and
  whether a message or a callback came in and no callback was invoked since.
\<close>

record ('t, 'f, 'a) mqev =
  m_state :: fire_state
  m_ev :: "'f option"
  m_ev_restore :: bool
  m_list :: "'a list"
  fpc :: "'t \<Rightarrow> 'f fire_pc"
  registered :: "'f option"
  pending :: bool
  dirty :: bool

definition mqev_init :: "('t, 'f, 'a) mqev" where
  "mqev_init = \<lparr>m_state = FS_IDLE, m_ev = None, m_ev_restore = False, m_list = [],
     fpc = (\<lambda>_. F_Idle), registered = None, pending = False, dirty = False\<rparr>"

definition fgoto :: "'t \<Rightarrow> 'f fire_pc \<Rightarrow> ('t, 'f, 'a) mqev \<Rightarrow> ('t, 'f, 'a) mqev" where
  "fgoto t c s = s\<lparr>fpc := (fpc s)(t := c)\<rparr>"

lemma fgoto_sel [simp]:
  "m_state (fgoto t c s) = m_state s" "m_ev (fgoto t c s) = m_ev s"
  "m_ev_restore (fgoto t c s) = m_ev_restore s" "m_list (fgoto t c s) = m_list s"
  "registered (fgoto t c s) = registered s" "pending (fgoto t c s) = pending s"
  "dirty (fgoto t c s) = dirty s" "fpc (fgoto t c s) = (fpc s)(t := c)"
  by (simp_all add: fgoto_def)

definition ev_swap_out :: "'t \<Rightarrow> ('t, 'f, 'a) mqev \<Rightarrow> ('t, 'f, 'a) mqev" where
  "ev_swap_out t s = (case m_ev s of
     None \<Rightarrow> fgoto t F_Cas s
   | Some f \<Rightarrow> fgoto t (F_Inv f) (s\<lparr>m_ev := None, m_ev_restore := True, dirty := False\<rparr>))"

definition ev_swap_back :: "'f \<Rightarrow> ('t, 'f, 'a) mqev \<Rightarrow> ('t, 'f, 'a) mqev" where
  "ev_swap_back f s = (if m_ev_restore s then s\<lparr>m_ev := Some f, m_ev_restore := False\<rparr> else s)"

definition ev_callback :: "'f option \<Rightarrow> ('t, 'f, 'a) mqev \<Rightarrow> ('t, 'f, 'a) mqev" where
  "ev_callback fn s =
     (let s1 = s\<lparr>m_ev := fn, registered := fn, dirty := True\<rparr>
      in if m_ev_restore s1
         then s1\<lparr>m_ev_restore := False, m_state := FS_AGAIN, pending := True\<rparr> else s1)"

definition ev_callback_clear :: "('t, 'f, 'a) mqev \<Rightarrow> ('t, 'f, 'a) mqev" where
  "ev_callback_clear s = s\<lparr>m_ev := None, m_ev_restore := False, registered := None\<rparr>"

inductive fire_step :: "('t, 'f, 'a) mqev \<Rightarrow> ('t, 'f, 'a) mqev \<Rightarrow> bool" where
  \<comment> \<open>\<open>enqueue\<close> and \<open>dequeue\<close>\<close>
  fs_push: "fpc s t = F_Idle \<Longrightarrow>
    fire_step s (fgoto t F_Pushed (s\<lparr>m_list := m_list s @ [x], dirty := True\<rparr>))"
| fs_pop: "m_list s = x # xs \<Longrightarrow> fire_step s (s\<lparr>m_list := xs\<rparr>)"
  \<comment> \<open>\<open>_fire\<close>\<close>
| fs_first: "fpc s t = F_Pushed \<or> fpc s t = F_RegFire \<Longrightarrow> m_state s = FS_IDLE \<Longrightarrow>
    fire_step s (fgoto t F_Store (s\<lparr>m_state := FS_AGAIN, pending := True\<rparr>))"
| fs_other: "fpc s t = F_Pushed \<or> fpc s t = F_RegFire \<Longrightarrow> m_state s \<noteq> FS_IDLE \<Longrightarrow>
    fire_step s (fgoto t F_Idle (s\<lparr>m_state := FS_AGAIN, pending := True\<rparr>))"
| fs_store: "fpc s t = F_Store \<Longrightarrow>
    fire_step s (fgoto t F_Run (s\<lparr>m_state := FS_BUSY, pending := False\<rparr>))"
| fs_run: "fpc s t = F_Run \<Longrightarrow> fire_step s (ev_swap_out t s)"
| fs_returned: "fpc s t = F_Inv f \<Longrightarrow> fire_step s (fgoto t F_Cas (ev_swap_back f s))"
| fs_cas_ok: "fpc s t = F_Cas \<Longrightarrow> m_state s = FS_BUSY \<Longrightarrow>
    fire_step s (fgoto t F_Idle (s\<lparr>m_state := FS_IDLE\<rparr>))"
| fs_cas_again: "fpc s t = F_Cas \<Longrightarrow> m_state s \<noteq> FS_BUSY \<Longrightarrow> fire_step s (fgoto t F_Store s)"
  \<comment> \<open>\<open>callback\<close>\<close>
| fs_callback: "fpc s t = F_Idle \<Longrightarrow> fire_step s (fgoto t F_RegCheck (ev_callback fn s))"
| fs_callback_clear: "fpc s t = F_Idle \<Longrightarrow> fire_step s (ev_callback_clear s)"
| fs_check: "fpc s t = F_RegCheck \<Longrightarrow>
    fire_step s (fgoto t (if m_list s \<noteq> [] then F_RegFire else F_Idle) s)"

inductive fire_reachable :: "('t, 'f, 'a) mqev \<Rightarrow> bool" where
  fr_init: "fire_reachable mqev_init"
| fr_next: "fire_reachable s \<Longrightarrow> fire_step s s' \<Longrightarrow> fire_reachable s'"

section \<open>The invariant\<close>

fun runs :: "'f fire_pc \<Rightarrow> bool" where
  "runs F_Store = True" | "runs F_Run = True" | "runs (F_Inv f) = True" | "runs F_Cas = True"
| "runs _ = False"

definition runner_ok :: "('t, 'f, 'a) mqev \<Rightarrow> bool" where
  "runner_ok s \<longleftrightarrow> (\<forall>t u. runs (fpc s t) \<longrightarrow> runs (fpc s u) \<longrightarrow> t = u) \<and>
     (m_state s = FS_IDLE \<longleftrightarrow> (\<forall>t. \<not> runs (fpc s t)))"

text \<open>The registered callback is in \<open>m_ev\<close>, or with the running thread that will put it back.\<close>

definition callback_ok :: "('t, 'f, 'a) mqev \<Rightarrow> bool" where
  "callback_ok s \<longleftrightarrow>
     (if m_ev_restore s then m_ev s = None \<and> (\<exists>t f. fpc s t = F_Inv f \<and> registered s = Some f)
      else m_ev s = registered s)"

definition events_ok :: "('t, 'f, 'a) mqev \<Rightarrow> bool" where
  "events_ok s \<longleftrightarrow> (pending s \<longrightarrow> m_state s = FS_AGAIN \<or> (\<exists>t. fpc s t = F_Store))"

definition at_work :: "'f fire_pc \<Rightarrow> bool" where
  "at_work c \<longleftrightarrow> c = F_Pushed \<or> c = F_RegCheck \<or> c = F_RegFire \<or> c = F_Store \<or> c = F_Run"

definition messages_ok :: "('t, 'f, 'a) mqev \<Rightarrow> bool" where
  "messages_ok s \<longleftrightarrow> (dirty s \<longrightarrow> m_list s \<noteq> [] \<longrightarrow> registered s \<noteq> None \<longrightarrow>
     pending s \<or> (\<exists>t. at_work (fpc s t)))"

definition fire_inv :: "('t, 'f, 'a) mqev \<Rightarrow> bool" where
  "fire_inv s \<longleftrightarrow> runner_ok s \<and> callback_ok s \<and> events_ok s \<and> messages_ok s"

lemma fire_inv_init: "fire_inv mqev_init"
  by (simp add: fire_inv_def runner_ok_def callback_ok_def events_ok_def messages_ok_def mqev_init_def)

lemma runner_unique: "runner_ok s \<Longrightarrow> runs (fpc s t) \<Longrightarrow> runs (fpc s u) \<Longrightarrow> t = u"
  by (auto simp: runner_ok_def)

lemma runner_not_idle: "runner_ok s \<Longrightarrow> runs (fpc s t) \<Longrightarrow> m_state s \<noteq> FS_IDLE"
  by (auto simp: runner_ok_def)

text \<open>Steps of one thread \<open>t\<close>, that stays out of \<open>_fire\<close>, stays in, enters or leaves.\<close>

lemma runner_ok_stay:
  assumes "runner_ok s" and "\<And>u. runs (fpc s' u) = runs (fpc s u)"
    and "m_state s' = FS_IDLE \<longleftrightarrow> m_state s = FS_IDLE"
  shows "runner_ok s'"
  using assms by (simp add: runner_ok_def)

lemma runner_ok_enter:
  assumes "m_state s' \<noteq> FS_IDLE" and "\<And>u. runs (fpc s' u) = (u = t)"
  shows "runner_ok s'"
  using assms by (simp add: runner_ok_def)

lemma runner_ok_leave:
  assumes "runner_ok s" and "runs (fpc s t)" and "m_state s' = FS_IDLE"
    and "\<And>u. runs (fpc s' u) = (u \<noteq> t \<and> runs (fpc s u))"
  shows "runner_ok s'"
  unfolding runner_ok_def assms(3,4) using runner_unique [OF assms(1,2)] by metis

lemma no_store:
  "runner_ok s \<Longrightarrow> runs (fpc s t) \<Longrightarrow> fpc s t \<noteq> F_Store \<Longrightarrow> fpc s u \<noteq> F_Store"
  using runner_unique [of s t u] by auto

lemma runner_restore:
  assumes "callback_ok s" and "runner_ok s" and "m_ev_restore s"
  shows "m_state s \<noteq> FS_IDLE"
proof -
  obtain t f where "fpc s t = F_Inv f" using assms(1,3) by (auto simp: callback_ok_def)
  then show ?thesis using runner_not_idle [OF assms(2), of t] by simp
qed

lemma step_runner:
  assumes "fire_step s s'" and "runner_ok s" and "callback_ok s"
  shows "runner_ok s'"
  using assms(1)
proof cases
  case (fs_first t)
  then have "\<And>u. \<not> runs (fpc s u)" using assms(2) by (auto simp: runner_ok_def)
  then show ?thesis
    using fs_first by (intro runner_ok_enter [of _ t]) auto
next
  case (fs_other t)
  then show ?thesis by (intro runner_ok_stay [OF assms(2)]) auto
next
  case (fs_store t)
  then show ?thesis
    using runner_not_idle [OF assms(2), of t] by (intro runner_ok_stay [OF assms(2)]) auto
next
  case (fs_run t)
  then show ?thesis
    by (intro runner_ok_stay [OF assms(2)]) (auto simp: ev_swap_out_def split: option.splits)
next
  case (fs_cas_ok t)
  then show ?thesis by (intro runner_ok_leave [OF assms(2), of t]) auto
next
  case (fs_callback t fn)
  then show ?thesis
    using runner_restore [OF assms(3,2)]
    by (intro runner_ok_stay [OF assms(2)]) (auto simp: ev_callback_def Let_def)
qed (intro runner_ok_stay [OF assms(2)];
     auto simp: ev_swap_back_def ev_callback_clear_def split: if_splits)+

lemma callback_ok_keep:
  assumes "callback_ok s" and "m_ev s' = m_ev s" "m_ev_restore s' = m_ev_restore s"
    "registered s' = registered s" and "\<And>t f. fpc s t = F_Inv f \<Longrightarrow> fpc s' t = F_Inv f"
  shows "callback_ok s'"
  using assms unfolding callback_ok_def by metis

lemma no_restore_unless_inv:
  assumes "runner_ok s" and "callback_ok s" and "runs (fpc s t)" and "\<And>f. fpc s t \<noteq> F_Inv f"
  shows "\<not> m_ev_restore s"
proof
  assume "m_ev_restore s"
  then obtain u f where "fpc s u = F_Inv f" using assms(2) by (auto simp: callback_ok_def)
  moreover from this runner_unique [OF assms(1,3), of u] have "t = u" by simp
  ultimately show False using assms(4) by blast
qed

lemma step_callback:
  assumes "fire_step s s'" and "runner_ok s" and "callback_ok s"
  shows "callback_ok s'"
  using assms(1)
proof cases
  case (fs_run t)
  then have "m_ev s = registered s"
    using no_restore_unless_inv [OF assms(2,3), of t] assms(3) by (simp add: callback_ok_def)
  then show ?thesis
    using fs_run no_restore_unless_inv [OF assms(2,3), of t]
    by (auto simp: ev_swap_out_def callback_ok_def split: option.splits)
next
  case (fs_returned t f)
  show ?thesis
  proof (cases "m_ev_restore s")
    case True
    then obtain u g where u: "fpc s u = F_Inv g" "registered s = Some g"
      using assms(3) by (auto simp: callback_ok_def)
    with runner_unique [OF assms(2), of t u] fs_returned(2) have "g = f" by simp
    then show ?thesis using u True fs_returned by (simp add: callback_ok_def ev_swap_back_def)
  next
    case False
    then show ?thesis using assms(3) fs_returned by (simp add: callback_ok_def ev_swap_back_def)
  qed
next
  case (fs_callback t fn)
  then show ?thesis by (simp add: callback_ok_def ev_callback_def Let_def)
next
  case (fs_callback_clear t)
  then show ?thesis by (simp add: callback_ok_def ev_callback_clear_def)
qed (rule callback_ok_keep [OF assms(3)]; auto)+

lemma events_ok_keep:
  assumes "events_ok s" and "pending s' \<Longrightarrow> pending s" and "m_state s' = m_state s"
    and "\<And>t. fpc s t = F_Store \<Longrightarrow> fpc s' t = F_Store"
  shows "events_ok s'"
  using assms unfolding events_ok_def by metis

lemma step_events:
  assumes "fire_step s s'" and "runner_ok s" and "callback_ok s" and "events_ok s"
  shows "events_ok s'"
  using assms(1)
proof cases
  case (fs_store t)
  then show ?thesis by (simp add: events_ok_def)
next
  case (fs_run t)
  then have "fpc s u \<noteq> F_Store" for u using no_store [OF assms(2), of t] by simp
  then show ?thesis
    using assms(4) fs_run by (auto simp: events_ok_def ev_swap_out_def split: option.splits)
next
  case (fs_cas_ok t)
  then have "fpc s u \<noteq> F_Store" for u using no_store [OF assms(2), of t] by simp
  then show ?thesis using assms(4) fs_cas_ok by (auto simp: events_ok_def)
next
  case (fs_cas_again t)
  then show ?thesis by (auto simp: events_ok_def)
next
  case (fs_callback t fn)
  then show ?thesis
    by (cases "m_ev_restore s")
       (simp add: events_ok_def ev_callback_def, intro events_ok_keep [OF assms(4)],
        auto simp: ev_callback_def)
qed (simp add: events_ok_def; fail | rule events_ok_keep [OF assms(4)];
     auto simp: ev_swap_back_def ev_callback_clear_def split: if_splits)+

lemma messages_ok_keep:
  assumes "messages_ok s" and "dirty s' \<Longrightarrow> dirty s" and "m_list s' \<noteq> [] \<Longrightarrow> m_list s \<noteq> []"
    and "registered s' \<noteq> None \<Longrightarrow> registered s \<noteq> None" and "pending s \<Longrightarrow> pending s'"
    and "\<And>t. at_work (fpc s t) \<Longrightarrow> pending s' \<or> at_work (fpc s' t)"
  shows "messages_ok s'"
  using assms unfolding messages_ok_def by metis

lemma messages_ok_work:
  "pending s \<or> at_work (fpc s t) \<Longrightarrow> messages_ok s"
  by (auto simp: messages_ok_def)

lemma step_messages:
  assumes "fire_step s s'" and "runner_ok s" and "callback_ok s" and "messages_ok s"
  shows "messages_ok s'"
  using assms(1)
proof cases
  case (fs_push t x)
  then show ?thesis by (intro messages_ok_work [of _ t]) (simp add: at_work_def)
next
  case (fs_store t)
  then show ?thesis by (intro messages_ok_work [of _ t]) (simp add: at_work_def)
next
  case (fs_cas_again t)
  then show ?thesis by (intro messages_ok_work [of _ t]) (simp add: at_work_def)
next
  case (fs_callback t fn)
  then show ?thesis by (intro messages_ok_work [of _ t]) (simp add: at_work_def)
next
  case (fs_run t)
  then have "\<not> m_ev_restore s" using no_restore_unless_inv [OF assms(2,3), of t] by simp
  then have "m_ev s = registered s" using assms(3) by (simp add: callback_ok_def)
  then show ?thesis
    using fs_run by (auto simp: messages_ok_def ev_swap_out_def split: option.splits)
next
  case (fs_check t)
  then show ?thesis
    by (cases "m_list s = []") (auto simp: messages_ok_def at_work_def intro: exI [of _ t])
qed (rule messages_ok_keep [OF assms(4)];
     auto simp: at_work_def ev_swap_back_def ev_callback_clear_def split: if_splits)+

lemma fire_reachable_inv: "fire_reachable s \<Longrightarrow> fire_inv s"
proof (induction rule: fire_reachable.induct)
  case fr_init
  show ?case by (rule fire_inv_init)
next
  case (fr_next s s')
  then show ?case
    using step_runner step_callback step_events step_messages by (metis fire_inv_def)
qed

section \<open>A run\<close>

text \<open>
  Thread \<open>True\<close> registers the callback 5 on the empty queue; then thread \<open>False\<close> enqueues
  the message 9 and invokes the callback.
\<close>

definition at_false :: "nat fire_pc \<Rightarrow> bool \<Rightarrow> nat fire_pc" where
  "at_false c = (\<lambda>t. if t then F_Idle else c)"

definition run_registered :: "(bool, nat, nat) mqev" where
  "run_registered = mqev_init\<lparr>m_ev := Some 5, registered := Some 5, dirty := True\<rparr>"

definition run_invoking :: "(bool, nat, nat) mqev" where
  "run_invoking = run_registered\<lparr>m_list := [9], m_state := FS_BUSY, m_ev := None,
     m_ev_restore := True, dirty := False, fpc := at_false (F_Inv 5)\<rparr>"

definition run_finished :: "(bool, nat, nat) mqev" where
  "run_finished = run_registered\<lparr>m_list := [9], dirty := False\<rparr>"

lemma at_false_upd [simp]: "(at_false c)(False := d) = at_false d"
  by (auto simp: at_false_def)

lemma at_false_idle: "(\<lambda>_. F_Idle) = at_false F_Idle"
  by (auto simp: at_false_def)

lemma at_false_sel [simp]: "at_false c False = c"
  by (simp add: at_false_def)

lemma run_registered_reachable: "fire_reachable run_registered"
proof -
  let ?s = "fgoto True F_RegCheck (run_registered)"
  have "fire_step (mqev_init :: (bool, nat, nat) mqev) ?s"
    using fs_callback [of mqev_init True "Some 5"]
    by (simp add: ev_callback_def run_registered_def mqev_init_def)
  with fr_init have "fire_reachable ?s" by (rule fr_next)
  moreover have "fire_step ?s run_registered"
    using fs_check [of ?s True] by (simp add: fgoto_def run_registered_def mqev_init_def fun_upd_idem)
  ultimately show ?thesis by (rule fr_next)
qed

lemma run_invoking_reachable: "fire_reachable run_invoking"
proof -
  note e = run_registered_def mqev_init_def run_invoking_def fgoto_def at_false_idle
  let ?s1 = "run_registered\<lparr>m_list := [9], fpc := at_false F_Pushed\<rparr>"
  let ?s2 = "run_registered\<lparr>m_list := [9], m_state := FS_AGAIN, pending := True, fpc := at_false F_Store\<rparr>"
  let ?s3 = "run_registered\<lparr>m_list := [9], m_state := FS_BUSY, fpc := at_false F_Run\<rparr>"
  have "fire_step run_registered ?s1"
    using fs_push [of run_registered False 9] by (simp add: e)
  moreover have "fire_step ?s1 ?s2"
    using fs_first [of ?s1 False] by (simp add: e)
  moreover have "fire_step ?s2 ?s3"
    using fs_store [of ?s2 False] by (simp add: e)
  moreover have "fire_step ?s3 run_invoking"
    using fs_run [of ?s3 False] by (simp add: e ev_swap_out_def)
  ultimately show ?thesis
    using run_registered_reachable by (blast intro: fr_next)
qed

lemma run_finished_reachable: "fire_reachable run_finished"
proof -
  note e = run_registered_def mqev_init_def run_invoking_def run_finished_def fgoto_def at_false_idle
  let ?s = "run_registered\<lparr>m_list := [9], m_state := FS_BUSY, dirty := False, fpc := at_false F_Cas\<rparr>"
  have "fire_step run_invoking ?s"
    using fs_returned [of run_invoking False 5] by (simp add: e ev_swap_back_def)
  moreover have "fire_step ?s run_finished"
    using fs_cas_ok [of ?s False] by (simp add: e)
  ultimately show ?thesis
    using run_invoking_reachable by (blast intro: fr_next)
qed

section \<open>What holds of the events\<close>

text \<open>
  One thread at a time runs the event of a message queue, and \<open>m_state\<close> is \<open>IDLE\<close>
  exactly when none does, however many threads enqueue and register callbacks.
\<close>

theorem fire_single_runner:
  assumes "fire_reachable s"
  shows "(runs (fpc s t) \<and> runs (fpc s u) \<longrightarrow> t = u) \<and> (m_state s = FS_IDLE \<longleftrightarrow> (\<forall>t. \<not> runs (fpc s t)))"
  using fire_reachable_inv [OF assms] by (auto simp: fire_inv_def runner_ok_def)

theorem fire_single_runner_witness:
  "runs (fpc run_invoking False) \<and> m_state run_invoking \<noteq> FS_IDLE \<and> \<not> runs (fpc run_invoking True)"
  using fire_single_runner [OF run_invoking_reachable, of False True]
  by (auto simp: run_invoking_def at_false_def)

text \<open>
  C3. No event is lost and no message is missed. An event that was fired and has not been
  answered by a run of the callback leaves \<open>m_state\<close> at \<open>AGAIN\<close> or a thread about to run it,
  so it cannot rest at \<open>IDLE\<close>. And when all threads have returned, a registered callback
  has been invoked after the last message and after its own registration, unless the queue
  is empty.
\<close>

theorem fire_no_missed_wakeup:
  assumes "fire_reachable s" and "m_state s = FS_IDLE"
  shows "\<not> pending s \<and>
    ((\<forall>t. fpc s t = F_Idle) \<and> registered s \<noteq> None \<and> m_list s \<noteq> [] \<longrightarrow> \<not> dirty s)"
proof -
  have inv: "runner_ok s" "events_ok s" "messages_ok s"
    using fire_reachable_inv [OF assms(1)] by (auto simp: fire_inv_def)
  have "fpc s t \<noteq> F_Store" for t
    using inv(1) assms(2) runner_not_idle [of s t] by force
  then have np: "\<not> pending s"
    using inv(2) assms(2) by (auto simp: events_ok_def)
  then show ?thesis
    using inv(3) by (auto simp: messages_ok_def at_work_def)
qed

theorem fire_no_missed_wakeup_witness:
  "m_list run_finished = [9] \<and> registered run_finished = Some 5 \<and> \<not> dirty run_finished \<and>
   \<not> pending run_finished"
  using fire_no_missed_wakeup [OF run_finished_reachable]
  by (simp add: run_finished_def run_registered_def mqev_init_def)

text \<open>
  A registered callback is neither lost nor resurrected: while it is not being invoked,
  \<open>m_ev\<close> is the callback that was registered last (or none, after it was cleared); while
  one is being invoked and has not been replaced, the invoking thread holds it.
\<close>

theorem callback_kept:
  assumes "fire_reachable s"
  shows "(m_ev_restore s \<longrightarrow> m_ev s = None \<and> (\<exists>t f. fpc s t = F_Inv f \<and> registered s = Some f)) \<and>
    (\<not> m_ev_restore s \<longrightarrow> m_ev s = registered s)"
  using fire_reachable_inv [OF assms] by (auto simp: fire_inv_def callback_ok_def)

theorem callback_kept_witness:
  "m_ev run_invoking = None \<and> (\<exists>t f. fpc run_invoking t = F_Inv f \<and> registered run_invoking = Some f)"
  using callback_kept [OF run_invoking_reachable] by (simp add: run_invoking_def)

end
