(* ===== verification/Msg_Queue.thy ===== *)
theory Msg_Queue
  imports Prelude
begin

text \<open>
  Message queues: \<open>void_msg_queue\<close>, \<open>data_msg_queue\<close> and \<open>prepare_enqueue\<close> of
  \<open>include/ilias/msg_queue.h\<close> and \<open>src/msg_queue.cc\<close>, as they run without interference
  (the compare-exchange loop of \<open>_dequeue\<close> takes the values it observes). The lock-free list
  is a list here; its events are the subject of the theory \<open>Msg_Fire\<close>.
\<close>

section \<open>Untyped messages\<close>

record void_msg_queue =
  m_size :: uptr

definition void_mq_empty :: "void_msg_queue \<Rightarrow> bool" where
  "void_mq_empty q \<longleftrightarrow> m_size q = 0"

definition void_mq_move :: "void_msg_queue \<Rightarrow> void_msg_queue \<times> void_msg_queue" where
  "void_mq_move q = (\<lparr>m_size = m_size q\<rparr>, q\<lparr>m_size := 0\<rparr>)"

definition void_enqueue_n :: "uptr \<Rightarrow> void_msg_queue \<Rightarrow> void_msg_queue" where
  "void_enqueue_n n q = q\<lparr>m_size := m_size q + n\<rparr>"

text \<open>
  \<open>_dequeue\<close>: the first value is the one loaded, \<open>obs\<close> are the values that the successive
  exchanges find. The result is the number taken and the size stored, \<open>None\<close> when the
  observations end before the loop does.
\<close>

fun void_dequeue_loop :: "uptr \<Rightarrow> uptr \<Rightarrow> uptr list \<Rightarrow> (uptr \<times> uptr) option" where
  "void_dequeue_loop mx sz obs =
     (if sz = 0 then Some (0, 0)
      else let subtract = min sz mx in
        case obs of
          [] \<Rightarrow> None
        | v # obs' \<Rightarrow> if v = sz then Some (subtract, sz - subtract) else void_dequeue_loop mx v obs')"

declare void_dequeue_loop.simps [simp del]

definition void_dequeue_m :: "uptr \<Rightarrow> void_msg_queue \<Rightarrow> (uptr \<times> void_msg_queue) option" where
  "void_dequeue_m mx q =
     map_option (\<lambda>(n, sz). (n, q\<lparr>m_size := sz\<rparr>)) (void_dequeue_loop mx (m_size q) [m_size q])"

text \<open>
  \<open>dequeue\<close>: the functor acts on a state and may throw. \<open>serve\<close> is the loop over the \<open>i\<close>
  messages taken; it returns the exception and the number of messages left.
\<close>

type_synonym 's action = "'s \<Rightarrow> cxx_error option \<times> 's"

fun serve :: "'s action \<Rightarrow> nat \<Rightarrow> 's \<Rightarrow> cxx_error option \<times> nat \<times> 's" where
  "serve f 0 s = (None, 0, s)"
| "serve f (Suc i) s = (case f s of
     (Some e, s') \<Rightarrow> (Some e, i, s')
   | (None, s') \<Rightarrow> serve f i s')"

definition void_dequeue ::
    "'s action \<Rightarrow> uptr \<Rightarrow> void_msg_queue \<times> 's \<Rightarrow> (cxx_error option \<times> void_msg_queue \<times> 's) option" where
  "void_dequeue f n = (\<lambda>(q, s). case void_dequeue_m n q of
     None \<Rightarrow> None
   | Some (i, q1) \<Rightarrow> (case serve f (unat i) s of
       (None, _, s') \<Rightarrow> Some (None, q1, s')
     | (Some e, left, s') \<Rightarrow> Some (Some e, void_enqueue_n (of_nat left) q1, s')))"

text \<open>The exchange takes no more than there is, whatever the loop has observed before.\<close>

lemma void_dequeue_loop_sound:
  assumes "void_dequeue_loop mx sz obs = Some (n, sz')"
  shows "n \<le> mx \<and> unat n + unat sz' \<in> unat ` insert 0 (set obs) \<and>
    (sz' = 0 \<or> n = mx)"
  using assms
proof (induction mx sz obs rule: void_dequeue_loop.induct)
  case (1 mx sz obs)
  show ?case
  proof (cases "sz = 0")
    case True
    then show ?thesis using 1(2) by (auto simp: void_dequeue_loop.simps)
  next
    case nz: False
    show ?thesis
    proof (cases obs)
      case Nil
      then show ?thesis using 1(2) nz by (simp add: void_dequeue_loop.simps)
    next
      case (Cons v obs')
      show ?thesis
      proof (cases "v = sz")
        case True
        then have r: "n = min sz mx" "sz' = sz - min sz mx"
          using 1(2) nz Cons by (auto simp: void_dequeue_loop.simps Let_def)
        have "unat n + unat sz' = unat sz"
          unfolding r by (simp add: unat_minus_exact word_le_nat_alt [symmetric])
        then show ?thesis using r True Cons by (auto simp: min_def split: if_splits)
      next
        case False
        then have "void_dequeue_loop mx v obs' = Some (n, sz')"
          using 1(2) nz Cons by (subst (asm) void_dequeue_loop.simps) simp
        from 1(1) [OF nz refl Cons False this] show ?thesis using Cons by auto
      qed
    qed
  qed
qed

lemma void_dequeue_m_quiet:
  "void_dequeue_m mx q = Some (min (m_size q) mx, q\<lparr>m_size := m_size q - min (m_size q) mx\<rparr>)"
  by (auto simp: void_dequeue_m_def void_dequeue_loop.simps Let_def)

section \<open>Typed messages\<close>

text \<open>
  \<open>dm_live\<close> counts the elements that the allocator has handed out and not got back. A
  \<open>managed_pointer\<close> owns nothing, raw storage, or storage with a constructed element.
\<close>

record 'a data_msg_queue =
  dm_list :: "'a list"
  dm_live :: nat

datatype 'a managed = M_null | M_raw | M_elem 'a

definition dmq_init :: "'a data_msg_queue" where
  "dmq_init = \<lparr>dm_list = [], dm_live = 0\<rparr>"

text \<open>The argument \<open>ok\<close> says whether the allocator has memory.\<close>

definition dmq_allocate :: "bool \<Rightarrow> 'a data_msg_queue \<Rightarrow> ('a managed \<times> 'a data_msg_queue) result" where
  "dmq_allocate ok q = (if ok then Inr (M_raw, q\<lparr>dm_live := dm_live q + 1\<rparr>) else Inl Bad_alloc)"

definition managed_destroy :: "'a managed \<Rightarrow> 'a data_msg_queue \<Rightarrow> 'a data_msg_queue" where
  "managed_destroy p q = (case p of M_null \<Rightarrow> q | _ \<Rightarrow> q\<lparr>dm_live := dm_live q - 1\<rparr>)"

text \<open>\<open>v\<close> is the outcome of the constructor of the element.\<close>

definition dmq_create :: "'a managed \<Rightarrow> 'a result \<Rightarrow> 'a managed result" where
  "dmq_create p v = (case p of
     M_null \<Rightarrow> Inr M_null
   | M_elem x \<Rightarrow> Inl Assertion_failed
   | M_raw \<Rightarrow> (case v of Inl e \<Rightarrow> Inl e | Inr x \<Rightarrow> Inr (M_elem x)))"

definition dmq_push :: "'a managed \<Rightarrow> 'a data_msg_queue \<Rightarrow> 'a data_msg_queue result" where
  "dmq_push p q = (case p of M_elem x \<Rightarrow> Inr (q\<lparr>dm_list := dm_list q @ [x]\<rparr>) | _ \<Rightarrow> Inl Assertion_failed)"

definition dmq_empty :: "'a data_msg_queue \<Rightarrow> bool" where
  "dmq_empty q \<longleftrightarrow> dm_list q = []"

definition dmq_enqueue :: "bool \<Rightarrow> 'a result \<Rightarrow> 'a data_msg_queue \<Rightarrow> unit result \<times> 'a data_msg_queue" where
  "dmq_enqueue ok v q = (case dmq_allocate ok q of
     Inl e \<Rightarrow> (Inl e, q)
   | Inr (p, q1) \<Rightarrow> (case dmq_create p v of
       Inl e \<Rightarrow> (Inl e, managed_destroy p q1)
     | Inr p' \<Rightarrow> (case dmq_push p' q1 of
         Inl e \<Rightarrow> (Inl e, managed_destroy p' q1)
       | Inr q2 \<Rightarrow> (Inr (), q2))))"

fun dmq_dequeue ::
    "('a \<Rightarrow> 's action) \<Rightarrow> nat \<Rightarrow> 'a data_msg_queue \<times> 's \<Rightarrow>
     cxx_error option \<times> 'a data_msg_queue \<times> 's" where
  "dmq_dequeue f 0 (q, s) = (None, q, s)"
| "dmq_dequeue f (Suc i) (q, s) = (case dm_list q of
     [] \<Rightarrow> (None, q, s)
   | x # xs \<Rightarrow> (let q1 = managed_destroy (M_elem x) (q\<lparr>dm_list := xs\<rparr>) in
       case f x s of
         (Some e, s') \<Rightarrow> (Some e, q1, s')
       | (None, s') \<Rightarrow> dmq_dequeue f i (q1, s')))"

function dmq_clear :: "'a data_msg_queue \<Rightarrow> 'a data_msg_queue" where
  "dmq_clear q = (case dm_list q of
     [] \<Rightarrow> q | x # xs \<Rightarrow> dmq_clear (managed_destroy (M_elem x) (q\<lparr>dm_list := xs\<rparr>)))"
  by pat_completeness auto
termination by (relation "measure (\<lambda>q. length (dm_list q))") (auto simp: managed_destroy_def)

declare dmq_clear.simps [simp del]

text \<open>
  The move constructor: a new queue, then a loop that pops from the list of the new queue and
  pushes onto the same list. \<open>None\<close> is a loop that does not end.
\<close>

partial_function (option) move_loop :: "'a list \<Rightarrow> 'a list option" where
  "move_loop xs = (case xs of [] \<Rightarrow> Some [] | x # xs' \<Rightarrow> move_loop (xs' @ [x]))"

definition dmq_move :: "'a data_msg_queue \<Rightarrow> ('a data_msg_queue \<times> 'a data_msg_queue) option" where
  "dmq_move q = map_option (\<lambda>l. (dmq_init\<lparr>dm_list := l\<rparr>, q)) (move_loop (dm_list dmq_init))"

section \<open>Prepared messages\<close>

text \<open>\<open>pe_mq\<close> tells whether \<open>m_mq\<close> points to the queue.\<close>

record 'a prepare_enqueue =
  pe_mq :: bool
  pe_ptr :: "'a managed"

definition pe_null :: "'a prepare_enqueue" where
  "pe_null = \<lparr>pe_mq = False, pe_ptr = M_null\<rparr>"

definition pe_reset :: "'a prepare_enqueue \<Rightarrow> 'a data_msg_queue \<Rightarrow> 'a prepare_enqueue \<times> 'a data_msg_queue" where
  "pe_reset p q = (pe_null, managed_destroy (pe_ptr p) q)"

definition pe_new :: "bool \<Rightarrow> 'a data_msg_queue \<Rightarrow> ('a prepare_enqueue \<times> 'a data_msg_queue) result" where
  "pe_new ok q = (case dmq_allocate ok q of
     Inl e \<Rightarrow> Inl e | Inr (m, q1) \<Rightarrow> Inr (\<lparr>pe_mq = True, pe_ptr = m\<rparr>, q1))"

definition pe_assign :: "'a result \<Rightarrow> 'a prepare_enqueue \<Rightarrow> unit result \<times> 'a prepare_enqueue" where
  "pe_assign v p = (case pe_ptr p of
     M_null \<Rightarrow> (Inl Logic_error, p)
   | M_elem _ \<Rightarrow> (case v of Inl e \<Rightarrow> (Inl e, p) | Inr x \<Rightarrow> (Inr (), p\<lparr>pe_ptr := M_elem x\<rparr>))
   | M_raw \<Rightarrow> (case dmq_create M_raw v of Inl e \<Rightarrow> (Inl e, p) | Inr m \<Rightarrow> (Inr (), p\<lparr>pe_ptr := m\<rparr>)))"

definition pe_new_assigned ::
    "bool \<Rightarrow> 'a result \<Rightarrow> 'a data_msg_queue \<Rightarrow> 'a prepare_enqueue result \<times> 'a data_msg_queue" where
  "pe_new_assigned ok v q = (case pe_new ok q of
     Inl e \<Rightarrow> (Inl e, q)
   | Inr (p, q1) \<Rightarrow> (case pe_assign v p of
       (Inl e, p') \<Rightarrow> (Inl e, managed_destroy (pe_ptr p') q1)
     | (Inr _, p') \<Rightarrow> (Inr p', q1)))"

text \<open>\<open>commit\<close> also tells whether the event of the queue was fired.\<close>

definition pe_commit ::
    "'a prepare_enqueue \<Rightarrow> 'a data_msg_queue \<Rightarrow> (bool \<times> 'a prepare_enqueue \<times> 'a data_msg_queue) result" where
  "pe_commit p q = (case pe_ptr p of
     M_null \<Rightarrow> Inl Logic_error
   | M_raw \<Rightarrow> Inl Logic_error
   | M_elem x \<Rightarrow>
       if \<not> pe_mq p then Inl Assertion_failed
       else (case dmq_push (M_elem x) q of
          Inl e \<Rightarrow> Inl e
        | Inr q1 \<Rightarrow> (case pe_reset (p\<lparr>pe_ptr := M_null\<rparr>) q1 of (p', q2) \<Rightarrow> Inr (True, p', q2))))"

definition pe_move_assign ::
    "'a prepare_enqueue \<Rightarrow> 'a prepare_enqueue \<Rightarrow> 'a data_msg_queue \<Rightarrow>
     'a prepare_enqueue \<times> 'a prepare_enqueue \<times> 'a data_msg_queue" where
  "pe_move_assign p o' q = (case pe_reset p q of (p1, q1) \<Rightarrow> (o', p1, q1))"

text \<open>The prepared message of an untyped queue.\<close>

definition vpe_assign :: "bool \<Rightarrow> unit result" where
  "vpe_assign mq = (if \<not> mq then Inl Logic_error else Inr ())"

definition vpe_commit :: "bool \<Rightarrow> void_msg_queue \<Rightarrow> (bool \<times> bool \<times> void_msg_queue) result" where
  "vpe_commit mq q = (if \<not> mq then Inl Logic_error else Inr (True, False, void_enqueue_n 1 q))"

section \<open>What holds of the queues\<close>

lemma serve_steps:
  "serve f i s = (e, left, s') \<Longrightarrow>
     left \<le> i \<and> s' = ((\<lambda>s. snd (f s)) ^^ (i - left)) s \<and> (e = None \<longrightarrow> left = 0) \<and>
     (e \<noteq> None \<longrightarrow> left < i)"
proof (induction i arbitrary: s)
  case (Suc i)
  show ?case
  proof (cases "f s")
    case (Pair e' s1)
    show ?thesis
    proof (cases e')
      case None
      with Suc.prems Pair have r: "serve f i s1 = (e, left, s')" by simp
      from Suc.IH [OF this] have h: "left \<le> i" "s' = ((\<lambda>s. snd (f s)) ^^ (i - left)) s1"
          "(e = None \<longrightarrow> left = 0)" "(e \<noteq> None \<longrightarrow> left < i)" by blast+
      have "((\<lambda>s. snd (f s)) ^^ (Suc i - left)) s = ((\<lambda>s. snd (f s)) ^^ (i - left)) (snd (f s))"
        using h(1) by (simp add: Suc_diff_le funpow_Suc_right del: funpow.simps)
      then show ?thesis using h Pair by auto
    next
      case (Some a)
      with Suc.prems Pair show ?thesis by auto
    qed
  qed
qed simp

lemma serve_none: "serve f i s = (None, left, s') \<Longrightarrow> left = 0"
  using serve_steps [of f i s None left s'] by simp

text \<open>
  C19. Untyped messages are conserved: \<open>dequeue\<close> asks for at most \<open>n\<close> messages, calls the
  functor once for each message it takes for good, gives back the messages it did not feed to
  a functor that threw, and what stays in the queue and what was fed are what was there.
\<close>

theorem void_dequeue_conserves:
  "case void_dequeue f n (q, s) of
     None \<Rightarrow> False
   | Some (e, q', s') \<Rightarrow> \<exists>k. unat (m_size q') + k = unat (m_size q) \<and>
       s' = ((\<lambda>s. snd (f s)) ^^ k) s \<and> k \<le> unat n \<and>
       (case e of None \<Rightarrow> k = min (unat (m_size q)) (unat n)
        | Some err \<Rightarrow> 0 < k \<and> k \<le> min (unat (m_size q)) (unat n))"
proof -
  let ?i = "min (m_size q) n"
  have i: "unat ?i = min (unat (m_size q)) (unat n)" by (simp add: min_def word_le_nat_alt)
  have sub: "unat (m_size q - ?i) = unat (m_size q) - unat ?i"
    by (rule unat_minus_exact) (simp add: i)
  obtain e left s' where sv: "serve f (unat ?i) s = (e, left, s')" by (cases "serve f (unat ?i) s")
  note st = serve_steps [OF sv]
  have l: "unat (of_nat left :: uptr) = left"
    using st unat_bound [of ?i] by (simp add: unat_of_nat_exact)
  show ?thesis
  proof (cases e)
    case None
    then have "left = 0" using st by simp
    then show ?thesis
      using None st sv sub i
      by (auto simp: void_dequeue_def void_dequeue_m_quiet intro!: exI [of _ "unat ?i"])
  next
    case (Some x)
    have "left \<le> unat ?i" "unat ?i \<le> unat (m_size q)" using st i by simp_all
    then have "unat (m_size q - ?i) + unat (of_nat left :: uptr) \<le> unat (m_size q)"
      unfolding sub l by linarith
    then have "unat (m_size q - ?i) + unat (of_nat left :: uptr) < 2 ^ 64"
      using unat_bound [of "m_size q"] by simp
    then have "unat (m_size q - ?i + of_nat left) = unat (m_size q) - unat ?i + left"
      using unat_plus_exact [of "m_size q - ?i" "of_nat left"] sub l by simp
    then show ?thesis
      using Some st sv i
      by (auto simp: void_dequeue_def void_dequeue_m_quiet void_enqueue_n_def
          intro!: exI [of _ "unat ?i - left"])
  qed
qed

text \<open>
  C20. Typed messages leave the queue in the order they came: \<open>dequeue\<close> feeds the first messages
  to the functor, one after the other, up to \<open>n\<close> or until it throws; the message it threw on
  is consumed as well, every later one stays, and the storage of each consumed one is freed.
\<close>

theorem dmq_dequeue_in_order:
  "case dmq_dequeue f n (q, s) of (e, q', s') \<Rightarrow>
     \<exists>k \<le> n. dm_list q' = drop k (dm_list q) \<and> dm_live q' = dm_live q - min k (length (dm_list q)) \<and>
       s' = fold (\<lambda>x s. snd (f x s)) (take k (dm_list q)) s \<and>
       (case e of
          None \<Rightarrow> k = n
        | Some err \<Rightarrow> 0 < k \<and> k \<le> length (dm_list q) \<and>
            fst (f (dm_list q ! (k - 1)) (fold (\<lambda>x s. snd (f x s)) (take (k - 1) (dm_list q)) s)) = e)"
proof (induction n arbitrary: q s)
  case (Suc n)
  show ?case
  proof (cases "dm_list q")
    case (Cons x xs)
    define q1 where "q1 = managed_destroy (M_elem x) (q\<lparr>dm_list := xs\<rparr>)"
    have q1: "dm_list q1 = xs" "dm_live q1 = dm_live q - 1" by (simp_all add: q1_def managed_destroy_def)
    obtain e s1 where fx: "f x s = (e, s1)" by (cases "f x s")
    show ?thesis
    proof (cases e)
      case None
      obtain e' q' s' where r: "dmq_dequeue f n (q1, s1) = (e', q', s')"
        by (cases "dmq_dequeue f n (q1, s1)")
      with Suc.IH [of q1 s1] q1 obtain k where k: "k \<le> n" "dm_list q' = drop k xs"
          "dm_live q' = dm_live q - 1 - min k (length xs)"
          "s' = fold (\<lambda>x s. snd (f x s)) (take k xs) s1"
          "case e' of None \<Rightarrow> k = n | Some err \<Rightarrow> 0 < k \<and> k \<le> length xs \<and>
            fst (f (xs ! (k - 1)) (fold (\<lambda>x s. snd (f x s)) (take (k - 1) xs) s1)) = e'"
        by auto
      have "take (Suc k - 1) (x # xs) = x # take (k - 1) xs" if "0 < k"
        using that by (cases k) auto
      then show ?thesis
        using k r Cons None fx
        by (intro case_prodI2 exI [of _ "Suc k"])
           (auto simp: q1_def [symmetric] Let_def nth_Cons' split: option.splits)
    next
      case (Some err)
      then show ?thesis
        using Cons fx q1 by (auto simp: q1_def [symmetric] Let_def intro!: exI [of _ 1])
    qed
  qed (auto intro!: exI [of _ "Suc n"])
qed simp

text \<open>
  C21. A prepared message: \<open>enqueue\<close> does what preparing, assigning and committing do; all
  that can fail (the allocation, the constructor) fails before \<open>commit\<close>, leaves the queue as
  it was and frees the storage.
\<close>

theorem prepared_enqueue:
  "case pe_new_assigned ok v q of
     (Inl e, q1) \<Rightarrow> q1 = q \<and> dmq_enqueue ok v q = (Inl e, q)
   | (Inr p, q1) \<Rightarrow> \<exists>x q2. v = Inr x \<and> dmq_enqueue ok v q = (Inr (), q2) \<and>
       dm_list q2 = dm_list q @ [x] \<and> pe_commit p q1 = Inr (True, pe_null, q2)"
  by (cases ok; cases v)
     (simp_all add: pe_new_assigned_def pe_new_def pe_assign_def pe_commit_def pe_reset_def
       dmq_enqueue_def dmq_allocate_def dmq_create_def dmq_push_def managed_destroy_def)

lemma pe_commit_unprepared: "pe_ptr p = M_null \<or> pe_ptr p = M_raw \<Longrightarrow> pe_commit p q = Inl Logic_error"
  by (auto simp: pe_commit_def)

lemma dmq_clear_empty: "dm_list (dmq_clear q) = [] \<and> dm_live (dmq_clear q) = dm_live q - length (dm_list q)"
proof (induction q rule: dmq_clear.induct)
  case (1 q)
  show ?case
    by (subst (1 2) dmq_clear.simps) (use 1 in \<open>auto simp: managed_destroy_def split: list.splits\<close>)
qed

text \<open>The move constructor moves no message: the new queue is empty and the old one keeps all.\<close>

lemma dmq_move_moves_nothing: "dmq_move q = Some (dmq_init, q)"
  by (simp add: dmq_move_def dmq_init_def move_loop.simps)

end
