(* ===== verification/MQ_Ptr.thy ===== *)
theory MQ_Ptr
  imports Refcount_Inv Msg_Queue
begin

text \<open>
  Counted message queues: \<open>include/ilias/mq_ptr.h\<close>. The two counters of a queue, the two
  policies that work on them, and the operations of \<open>mq_in_ptr\<close> and \<open>mq_out_ptr\<close> that go
  beyond those of \<open>refpointer\<close>. The policy for output pointers is an instance of the contract
  of \<open>Refcount\<close>; the one for input pointers is not, as the last section shows.
\<close>

section \<open>The counters\<close>

text \<open>
  \<open>mq_out\<close> is \<open>count\<close> and \<open>mq_in\<close> is \<open>in\<close>; \<open>mq_deleted\<close> counts the deletions, and
  \<open>mq_assert\<close> becomes false when an assertion fails.
\<close>

record mq_refcount =
  mq_out :: uptr
  mq_in :: uptr
  mq_deleted :: nat
  mq_assert :: bool

definition mq_refcount_init :: mq_refcount where
  "mq_refcount_init = \<lparr>mq_out = 0, mq_in = 0, mq_deleted = 0, mq_assert = True\<rparr>"

definition mq_has_input :: "mq_refcount \<Rightarrow> bool" where
  "mq_has_input r \<longleftrightarrow> 0 < mq_in r"

definition out_acquire1 :: "uptr \<Rightarrow> mq_refcount \<Rightarrow> mq_refcount" where
  "out_acquire1 n r = (let old = mq_out r in
     r\<lparr>mq_out := old + n, mq_assert := mq_assert r \<and> old < old + n\<rparr>)"

definition out_release1 :: "uptr \<Rightarrow> mq_refcount \<Rightarrow> mq_refcount" where
  "out_release1 n r = (let old = mq_out r;
       r1 = r\<lparr>mq_out := old - n, mq_assert := mq_assert r \<and> n \<le> old\<rparr>
     in if old = n then r1\<lparr>mq_deleted := mq_deleted r1 + 1\<rparr> else r1)"

definition in_acquire1 :: "uptr \<Rightarrow> mq_refcount \<Rightarrow> mq_refcount" where
  "in_acquire1 n r = (let old = mq_in r;
       r1 = r\<lparr>mq_in := old + n, mq_assert := mq_assert r \<and> old < old + n\<rparr>
     in if old = n then out_acquire1 1 r1 else r1)"

text \<open>
  The last release of the input side fires the event of the queue. The event takes a
  \<open>mq_out_ptr\<close> by value: it is made from the address of the queue, which acquires a reference
  (with the policy that \<open>mq_out_ptr\<close> names, the one for input pointers), and destroyed after
  the event. \<open>ev\<close> is what the event does to the counters in between. \<open>None\<close> is a release
  that does not return.
\<close>

partial_function (option) in_release1 ::
    "(mq_refcount \<Rightarrow> mq_refcount) \<Rightarrow> uptr \<Rightarrow> mq_refcount \<Rightarrow> mq_refcount option" where
  "in_release1 ev n r =
     (let old = mq_in r;
          r1 = r\<lparr>mq_in := old - n, mq_assert := mq_assert r \<and> n \<le> old\<rparr>
      in if old = n
         then Option.bind (in_release1 ev 1 (ev (in_acquire1 1 r1))) (\<lambda>r2. Some (out_release1 1 r2))
         else Some r1)"

section \<open>The policy for output pointers\<close>

type_synonym mq_objects = "addr \<Rightarrow> mq_refcount"

definition out_acquire :: "addr \<Rightarrow> nat \<Rightarrow> mq_objects \<Rightarrow> mq_objects" where
  "out_acquire p n s = s(p := out_acquire1 (of_nat n) (s p))"

definition out_release :: "addr \<Rightarrow> nat \<Rightarrow> mq_objects \<Rightarrow> mq_objects" where
  "out_release p n s = s(p := out_release1 (of_nat n) (s p))"

definition out_count :: "mq_objects \<Rightarrow> addr \<Rightarrow> nat" where
  "out_count s p = unat (mq_out (s p))"

definition out_dead :: "mq_objects \<Rightarrow> addr \<Rightarrow> bool" where
  "out_dead s p \<longleftrightarrow> 0 < mq_deleted (s p)"

lemma out_acquire1_count:
  "unat (mq_out r) + n < 2 ^ 64 \<Longrightarrow> unat (mq_out (out_acquire1 (of_nat n) r)) = unat (mq_out r) + n"
  by (simp add: out_acquire1_def Let_def unat_plus_exact unat_of_nat_exact)

lemma out_release1_count:
  "n \<le> unat (mq_out r) \<Longrightarrow> unat (mq_out (out_release1 (of_nat n) r)) = unat (mq_out r) - n \<and>
    (mq_deleted (out_release1 (of_nat n) r) \<noteq> mq_deleted r \<longrightarrow> n = unat (mq_out r))"
  using unat_bound [of "mq_out r"]
  by (simp add: out_release1_def Let_def unat_minus_exact unat_of_nat_exact word_eq_of_nat_iff)

interpretation out_mgr: refcount_mgr out_acquire out_release out_count out_dead "2 ^ 64"
proof (unfold_locales, goal_cases)
  case (1 s p n q)
  then show ?case by (simp add: out_count_def out_acquire_def out_acquire1_count)
next
  case (2 n s p q)
  then show ?case using out_release1_count [of n "s p"] by (simp add: out_count_def out_release_def)
next
  case (3 p n s q)
  then show ?case by (simp add: out_dead_def out_acquire_def out_acquire1_def Let_def)
next
  case (4 n s p q)
  then show ?case
    using out_release1_count [of n "s p"]
    by (auto simp: out_dead_def out_release_def out_count_def split: if_splits)
qed

text \<open>
  The output counter counts: every program of \<open>refpointer\<close> operations with the policy
  \<open>out_refcount_mgr\<close> keeps the counter of each queue at the number of its references, and no
  pointer refers to a deleted queue.
\<close>

theorem out_pointers_safe:
  assumes "rp_inv out_count out_dead (2 ^ 64) ext (w :: ('v::finite, mq_objects) rp_world)"
    and "rp_run out_acquire out_release out_dead ops ext w = Some (ext', w')"
    and "\<And>q. card (UNIV :: 'v set) + ext q + length ops + 1 < 2 ^ 64"
  shows "unat (mq_out (objs w' a)) = refs (m_ptr w') a + ext' a \<and>
    (m_ptr w' v = Some a \<longrightarrow> mq_deleted (objs w' a) = 0)"
proof -
  have inv: "rp_inv out_count out_dead (2 ^ 64) ext' w'" by (rule out_mgr.inv_run [OF assms])
  show ?thesis
    using inv out_mgr.inv_no_dangling [OF inv]
    by (fastforce simp: rp_inv_def out_count_def out_dead_def)
qed

section \<open>The pointers\<close>

text \<open>
  \<open>mq_in_ptr\<close>: the messages go through \<open>enqueue\<close> of the queue, an argument here; a null
  pointer throws.
\<close>

definition in_ptr_enqueue :: "(addr \<Rightarrow> 's \<Rightarrow> unit result \<times> 's) \<Rightarrow> ptr \<Rightarrow> 's \<Rightarrow> unit result \<times> 's" where
  "in_ptr_enqueue enq p s = (case p of None \<Rightarrow> (Inl Runtime_error, s) | Some a \<Rightarrow> enq a s)"

text \<open>
  \<open>mq_out_ptr\<close>: after \<open>dequeue\<close>, \<open>empty\<close> and \<open>callback\<close> the destructor of \<open>post_check\<close>
  clears the callback of a queue that has no input and no message.
\<close>

record 'a counted_mq =
  cq_refs :: mq_refcount
  cq_data :: "'a data_msg_queue"
  cq_callback :: "nat option"

type_synonym 'a cqs = "addr \<Rightarrow> 'a counted_mq"

definition post_check :: "ptr \<Rightarrow> 'a cqs \<Rightarrow> 'a cqs" where
  "post_check p s = (case p of
     None \<Rightarrow> s
   | Some a \<Rightarrow> if \<not> mq_has_input (cq_refs (s a)) \<and> dmq_empty (cq_data (s a))
               then s(a := (s a)\<lparr>cq_callback := None\<rparr>) else s)"

definition out_ptr_dequeue ::
    "('a \<Rightarrow> 's action) \<Rightarrow> nat \<Rightarrow> ptr \<Rightarrow> 'a cqs \<times> 's \<Rightarrow> cxx_error option \<times> 'a cqs \<times> 's" where
  "out_ptr_dequeue f n p = (\<lambda>(s, st). case p of
     None \<Rightarrow> (Some Runtime_error, s, st)
   | Some a \<Rightarrow> (case dmq_dequeue f n (cq_data (s a), st) of
       (e, q', st') \<Rightarrow> (e, post_check p (s(a := (s a)\<lparr>cq_data := q'\<rparr>)), st')))"

definition out_ptr_empty :: "ptr \<Rightarrow> 'a cqs \<Rightarrow> bool \<times> 'a cqs" where
  "out_ptr_empty p s =
     ((case p of None \<Rightarrow> True | Some a \<Rightarrow> dmq_empty (cq_data (s a))), post_check p s)"

definition out_ptr_callback :: "nat option \<Rightarrow> ptr \<Rightarrow> 'a cqs \<Rightarrow> unit result \<times> 'a cqs" where
  "out_ptr_callback fn p s = (case p of
     None \<Rightarrow> (Inl Runtime_error, s)
   | Some a \<Rightarrow>
       let s1 = s(a := (s a)\<lparr>cq_callback := fn\<rparr>)
       in (Inr (), case fn of None \<Rightarrow> s1 | Some _ \<Rightarrow> post_check p s1))"

lemma post_check_clears:
  "snd (out_ptr_dequeue f n (Some a) (s, st)) = (s', st') \<Longrightarrow>
   dm_list (cq_data (s' a)) = [] \<Longrightarrow> mq_in (cq_refs (s a)) = 0 \<Longrightarrow> cq_callback (s' a) = None"
  by (auto simp: out_ptr_dequeue_def post_check_def mq_has_input_def dmq_empty_def
      split: prod.splits if_splits)

section \<open>The policy for input pointers\<close>

text \<open>
  \<open>acquire\<close> compares the old value of \<open>in\<close> with \<open>n\<close> instead of 0: the first input pointer
  takes no reference on the queue, the second one does.
\<close>

lemma first_input_takes_no_reference: "mq_out (in_acquire1 1 mq_refcount_init) = 0"
  by (simp add: in_acquire1_def mq_refcount_init_def)

lemma second_input_takes_the_reference:
  "mq_out (in_acquire1 1 (in_acquire1 1 mq_refcount_init)) = 1"
  by (simp add: in_acquire1_def out_acquire1_def mq_refcount_init_def Let_def)

text \<open>
  The event that the last release fires makes an output pointer with the same policy, whose
  destruction is a last release again: the last release of an input pointer does not return,
  whatever events do that leave the input counter alone.
\<close>

lemma in_release1_result:
  "in_release1 ev n r = Some y \<Longrightarrow> (\<forall>r. mq_in (ev r) = mq_in r) \<longrightarrow> mq_in r \<noteq> n"
proof (erule in_release1.raw_induct [where P = "\<lambda>ev n r y. (\<forall>r. mq_in (ev r) = mq_in r) \<longrightarrow> mq_in r \<noteq> n", rotated],
    intro impI notI, goal_cases)
  case (1 rec ev n r y)
  define r1 where "r1 = r\<lparr>mq_in := mq_in r - n, mq_assert := mq_assert r \<and> n \<le> mq_in r\<rparr>"
  have "mq_in r1 = 0" using 1(4) by (simp add: r1_def)
  then have one: "mq_in (ev (in_acquire1 1 r1)) = 1"
    using 1(3) by (simp add: in_acquire1_def Let_def)
  obtain z where "rec ev 1 (ev (in_acquire1 1 r1)) = Some z"
    using 1(2,4) by (auto simp: r1_def Let_def bind_eq_Some_conv)
  from 1(1) [OF this] 1(3) one show False by blast
qed

lemma last_input_release_never_returns:
  assumes "\<And>r. mq_in (ev r) = mq_in r" and "mq_in r = n"
  shows "in_release1 ev n r = None"
  using in_release1_result [of ev n r] assms by (cases "in_release1 ev n r") auto

end
