(* ===== verification/LL_Smart.thy ===== *)
theory LL_Smart
  imports Prelude "HOL-Library.Monad_Syntax"
begin

text \<open>
  The list of counted pointers: \<open>ll_smartptr_list\<close> and its iterators of
  \<open>include/ilias/ll_list.h\<close> and \<open>include/ilias/ll_list-inl.h\<close>, without interference. The
  concurrent list below it (\<open>LL_List\<close>, \<open>LL_Pos\<close>) is the sequence of what is linked in its ring:
  elements, and the two links of each iterator, \<open>Back\<close> before and \<open>Front\<close> after the element it
  denotes. Iterators are named; a name stands for the \<open>pos_\<close> of one object. \<open>None\<close> is a failed
  assertion or an exception that leaves a \<open>noexcept\<close> function. That an element on the list holds
  a reference is left to \<open>LL_Queue\<close>.
\<close>

section \<open>The ring\<close>

datatype item = Elem addr | Back nat | Front nat

type_synonym items = "item list"

fun elems :: "items \<Rightarrow> addr list" where
  "elems [] = []"
| "elems (Elem a # L) = a # elems L"
| "elems (Back k # L) = elems L"
| "elems (Front k # L) = elems L"

definition upto_item :: "item \<Rightarrow> items \<Rightarrow> items" where "upto_item x L = takeWhile (\<lambda>i. i \<noteq> x) L"
definition past_item :: "item \<Rightarrow> items \<Rightarrow> items" where "past_item x L = tl (dropWhile (\<lambda>i. i \<noteq> x) L)"

definition put_after :: "item \<Rightarrow> item \<Rightarrow> items \<Rightarrow> items" where
  "put_after x i L = upto_item x L @ x # i # past_item x L"

definition put_before :: "item \<Rightarrow> item \<Rightarrow> items \<Rightarrow> items" where
  "put_before x i L = upto_item x L @ i # x # past_item x L"

section \<open>Positions\<close>

definition pos_linked :: "nat \<Rightarrow> items \<Rightarrow> bool" where
  "pos_linked k L \<longleftrightarrow> Back k \<in> set L \<and> Front k \<in> set L"

definition pos_clear :: "nat \<Rightarrow> items \<Rightarrow> items" where
  "pos_clear k L = filter (\<lambda>i. i \<noteq> Back k \<and> i \<noteq> Front k) L"

definition pos_end :: "nat \<Rightarrow> items \<Rightarrow> items" where
  "pos_end k L = Front k # pos_clear k L @ [Back k]"

definition pos_around :: "nat \<Rightarrow> addr \<Rightarrow> items \<Rightarrow> items" where
  "pos_around k e L = put_before (Elem e) (Back k) (put_after (Elem e) (Front k) (pos_clear k L))"

text \<open>
  \<open>init_begin\<close>: the front link goes after the first element or, when there is none, the head; the
  back link goes to the start of the list.
\<close>

definition pos_begin :: "nat \<Rightarrow> items \<Rightarrow> items \<times> ptr" where
  "pos_begin k L = (case elems L of
     [] \<Rightarrow> (Back k # Front k # pos_clear k L, None)
   | e # _ \<Rightarrow> (Back k # put_after (Elem e) (Front k) (pos_clear k L), Some e))"

text \<open>
  The rear link goes over the next element, or to the other side of the head, and becomes the front.
\<close>

definition retire_front :: "nat \<Rightarrow> items \<Rightarrow> items" where
  "retire_front k L = map (\<lambda>i. if i = Front k then Back k else i) L"

definition retire_back :: "nat \<Rightarrow> items \<Rightarrow> items" where
  "retire_back k L = map (\<lambda>i. if i = Back k then Front k else i) L"

definition pos_forward :: "nat \<Rightarrow> items \<Rightarrow> items \<times> ptr" where
  "pos_forward k L =
     (if Back k \<notin> set L then (L, None)
      else let M = remove1 (Back k) L; next_e = elems (past_item (Front k) M);
               M = retire_front k M
           in case next_e of
                [] \<Rightarrow> (Front k # M, None)
              | e # _ \<Rightarrow> (put_after (Elem e) (Front k) M, Some e))"

definition pos_backward :: "nat \<Rightarrow> items \<Rightarrow> items \<times> ptr" where
  "pos_backward k L =
     (if Front k \<notin> set L then (L, None)
      else let M = remove1 (Front k) L; prev_e = rev (elems (upto_item (Back k) M));
               M = retire_back k M
           in case prev_e of
                [] \<Rightarrow> (M @ [Back k], None)
              | e # _ \<Rightarrow> (put_before (Elem e) (Back k) M, Some e))"

text \<open>Copies of a position are linked right after it; an assertion fails when it is not linked.\<close>

definition pos_copy :: "nat \<Rightarrow> nat \<Rightarrow> items \<Rightarrow> items option" where
  "pos_copy k j L =
     (if pos_linked j L then Some (put_after (Front j) (Front k) (put_after (Back j) (Back k) L)) else None)"

definition pos_assign :: "nat \<Rightarrow> nat \<Rightarrow> items \<Rightarrow> items" where
  "pos_assign k j L =
     (let M = pos_clear k L
      in if pos_linked j M then put_after (Front j) (Front k) (put_after (Back j) (Back k) M) else M)"

text \<open>
  Two positions are equal when no element lies between their back links. The walk from the back
  link of a linked position only looks for the other link behind its start: such a position is not
  equal to itself.
\<close>

definition same_pos :: "nat \<Rightarrow> nat \<Rightarrow> items \<Rightarrow> bool" where
  "same_pos k j L =
     (if Back k \<notin> set L \<and> Back j \<notin> set L then True
      else if Back k \<notin> set L \<or> Back j \<notin> set L then False
      else k \<noteq> j \<and> elems (upto_item (Back k) L) = elems (upto_item (Back j) L))"

section \<open>Iterators\<close>

text \<open>An iterator is its position and \<open>ptr_\<close>, a reference to the element it was moved to.\<close>

record siter =
  it_pos :: nat
  it_ptr :: ptr

text \<open>The default constructor: the links of the new position are not in the ring.\<close>

definition iter_ctor :: "nat \<Rightarrow> siter" where "iter_ctor k = \<lparr>it_pos = k, it_ptr = None\<rparr>"

definition iter_copy :: "nat \<Rightarrow> siter \<Rightarrow> items \<Rightarrow> (siter \<times> items) option" where
  "iter_copy k it L = map_option (\<lambda>M. (it\<lparr>it_pos := k\<rparr>, M)) (pos_copy k (it_pos it) L)"

definition iter_assign :: "siter \<Rightarrow> siter \<Rightarrow> items \<Rightarrow> siter \<times> items" where
  "iter_assign it o' L = (it\<lparr>it_ptr := it_ptr o'\<rparr>, pos_assign (it_pos it) (it_pos o') L)"

definition iter_eq :: "siter \<Rightarrow> siter \<Rightarrow> items \<Rightarrow> bool" where
  "iter_eq i j L \<longleftrightarrow> same_pos (it_pos i) (it_pos j) L"

definition iter_deref :: "siter \<Rightarrow> addr option" where "iter_deref it = it_ptr it"

definition iter_release :: "siter \<Rightarrow> ptr \<times> siter" where
  "iter_release it = (it_ptr it, it\<lparr>it_ptr := None\<rparr>)"

definition iter_inc :: "siter \<Rightarrow> items \<Rightarrow> siter \<times> items" where
  "iter_inc it L = (let (M, e) = pos_forward (it_pos it) L in (it\<lparr>it_ptr := e\<rparr>, M))"

definition iter_dec :: "siter \<Rightarrow> items \<Rightarrow> siter \<times> items" where
  "iter_dec it L = (let (M, e) = pos_backward (it_pos it) L in (it\<lparr>it_ptr := e\<rparr>, M))"

text \<open>
  The postfix forms move the copy and return it (with the position \<open>k\<close>): the iterator itself
  stays where it was.
\<close>

definition iter_post_inc :: "nat \<Rightarrow> siter \<Rightarrow> items \<Rightarrow> (siter \<times> items) option" where
  "iter_post_inc k it L = do { (clone, M) \<leftarrow> iter_copy k it L; Some (iter_inc clone M) }"

definition iter_post_dec :: "nat \<Rightarrow> siter \<Rightarrow> items \<Rightarrow> (siter \<times> items) option" where
  "iter_post_dec k it L = do { (clone, M) \<leftarrow> iter_copy k it L; Some (iter_dec clone M) }"

section \<open>The list\<close>

definition sl_empty :: "items \<Rightarrow> bool" where "sl_empty L \<longleftrightarrow> elems L = []"
definition sl_size :: "items \<Rightarrow> nat" where "sl_size L = length (elems L)"

definition sl_pop_front :: "items \<Rightarrow> ptr \<times> items" where
  "sl_pop_front L = (case elems L of [] \<Rightarrow> (None, L) | e # _ \<Rightarrow> (Some e, remove1 (Elem e) L))"

definition sl_pop_back :: "items \<Rightarrow> ptr \<times> items" where
  "sl_pop_back L = (case rev (elems L) of [] \<Rightarrow> (None, L) | e # _ \<Rightarrow> (Some e, remove1 (Elem e) L))"

definition sl_link_front :: "ptr \<Rightarrow> items \<Rightarrow> (bool \<times> items) result" where
  "sl_link_front p L = (case p of
     None \<Rightarrow> Inl Invalid_argument
   | Some e \<Rightarrow> Inr (if Elem e \<in> set L then (False, L) else (True, Elem e # L)))"

definition sl_link_back :: "ptr \<Rightarrow> items \<Rightarrow> (bool \<times> items) result" where
  "sl_link_back p L = (case p of
     None \<Rightarrow> Inl Invalid_argument
   | Some e \<Rightarrow> Inr (if Elem e \<in> set L then (False, L) else (True, L @ [Elem e])))"

definition sl_begin :: "nat \<Rightarrow> items \<Rightarrow> siter \<times> items" where
  "sl_begin k L = (let (M, e) = pos_begin k L in (\<lparr>it_pos = k, it_ptr = e\<rparr>, M))"

definition sl_end :: "nat \<Rightarrow> items \<Rightarrow> siter \<times> items" where
  "sl_end k L = (iter_ctor k, pos_end k L)"

text \<open>\<open>begin\<close> of a constant list converts the head as well: its assertion fails on an empty list.\<close>

definition sl_const_begin :: "nat \<Rightarrow> items \<Rightarrow> (siter \<times> items) option" where
  "sl_const_begin k L = (let (M, e) = pos_begin k L in
     case e of None \<Rightarrow> None | Some a \<Rightarrow> Some (\<lparr>it_pos = k, it_ptr = Some a\<rparr>, M))"

definition sl_const_end :: "nat \<Rightarrow> items \<Rightarrow> siter \<times> items" where
  "sl_const_end k L = (iter_ctor k, pos_end k L)"

definition sl_cend :: "nat \<Rightarrow> items \<Rightarrow> (siter \<times> items) option" where "sl_cend k L = sl_const_begin k L"

definition sl_iterator_to :: "nat \<Rightarrow> addr \<Rightarrow> items \<Rightarrow> siter \<times> items" where
  "sl_iterator_to k e L =
     (\<lparr>it_pos = k, it_ptr = Some e\<rparr>, if Elem e \<in> set L then pos_around k e L else pos_end k L)"

definition sl_iterator_to_ptr :: "nat \<Rightarrow> ptr \<Rightarrow> items \<Rightarrow> (siter \<times> items) result" where
  "sl_iterator_to_ptr k p L = (case p of None \<Rightarrow> Inl Invalid_argument | Some e \<Rightarrow> Inr (sl_iterator_to k e L))"

text \<open>\<open>link\<close> before an iterator; the position \<open>k\<close> is that of the result.\<close>

definition sl_link :: "nat \<Rightarrow> siter \<Rightarrow> addr \<Rightarrow> items \<Rightarrow> (siter \<times> items) option" where
  "sl_link k it e L =
     (let M = pos_assign k (it_pos it) L
      in if \<not> pos_linked (it_pos it) M then None
         else Some (it\<lparr>it_pos := k\<rparr>, if Elem e \<in> set M then M else put_before (Back (it_pos it)) (Elem e) M))"

text \<open>
  \<open>erase_and_dispose\<close>: the links of the result go around the element before it is taken out. The
  element that was disposed of is returned, if it was this call that took it out. An iterator
  without an element is an exception that leaves a \<open>noexcept\<close> function.
\<close>

definition take_out :: "nat \<Rightarrow> addr \<Rightarrow> items \<Rightarrow> items" where
  "take_out k e L = remove1 (Elem e) (pos_around k e L)"

definition sl_erase_and_dispose :: "nat \<Rightarrow> siter \<Rightarrow> items \<Rightarrow> (siter \<times> ptr \<times> items) option" where
  "sl_erase_and_dispose k it L = (case it_ptr it of
     None \<Rightarrow> None
   | Some e \<Rightarrow>
       let found = Elem e \<in> set L;
           M = (if found then take_out k e L else pos_assign k (it_pos it) L);
           (r, N) = iter_inc (iter_ctor k) M
       in Some (r, if found then Some e else None, N))"

text \<open>\<open>erase\<close>; its result is dropped by all callers of the library.\<close>

definition sl_erase :: "nat \<Rightarrow> siter \<Rightarrow> items \<Rightarrow> items option" where
  "sl_erase k it L = map_option (\<lambda>(_, _, N). pos_clear k N) (sl_erase_and_dispose k it L)"

text \<open>The loops take fuel; the lists of what was disposed of and visited are in order.\<close>

fun sl_clear_loop :: "nat \<Rightarrow> items \<Rightarrow> (addr list \<times> items) option" where
  "sl_clear_loop 0 L = None"
| "sl_clear_loop (Suc n) L = (case sl_pop_front L of
     (None, M) \<Rightarrow> Some ([], M)
   | (Some e, M) \<Rightarrow> map_option (\<lambda>(es, N). (e # es, N)) (sl_clear_loop n M))"

definition sl_clear_and_dispose :: "items \<Rightarrow> (addr list \<times> items) option" where
  "sl_clear_and_dispose L = sl_clear_loop (length L + 1) L"

fun sl_remove_loop ::
    "nat \<Rightarrow> (addr \<Rightarrow> bool) \<Rightarrow> nat \<Rightarrow> siter \<Rightarrow> siter \<Rightarrow> items \<Rightarrow> (addr list \<times> siter \<times> items) option"
where
  "sl_remove_loop 0 pred k i e L = None"
| "sl_remove_loop (Suc n) pred k i e L =
     (if iter_eq i e L then Some ([], i, L)
      else do {
        a \<leftarrow> iter_deref i;
        (if pred a then do {
           (r, d, M) \<leftarrow> sl_erase_and_dispose k i L;
           let (i, M) = iter_assign i r M;
           let M = pos_clear k M;
           let (i, M) = (if d = None then iter_inc i M else (i, M));
           (ds, i, M) \<leftarrow> sl_remove_loop n pred k i e M;
           Some (case d of None \<Rightarrow> ds | Some x \<Rightarrow> x # ds, i, M)
         }
         else do { let (i, M) = iter_inc i L; sl_remove_loop n pred k i e M })
      })"

definition sl_remove_and_dispose_if ::
    "(addr \<Rightarrow> bool) \<Rightarrow> nat \<Rightarrow> nat \<Rightarrow> nat \<Rightarrow> items \<Rightarrow> (addr list \<times> items) option"
where
  "sl_remove_and_dispose_if pred i0 e0 k L =
     (let (i, L) = sl_begin i0 L; (e, L) = sl_end e0 L
      in map_option (\<lambda>(ds, _, M). (ds, pos_clear i0 (pos_clear e0 M)))
           (sl_remove_loop (length (elems L) + 1) pred k i e L))"

definition sl_remove_if :: "(addr \<Rightarrow> bool) \<Rightarrow> nat \<Rightarrow> nat \<Rightarrow> nat \<Rightarrow> items \<Rightarrow> items option" where
  "sl_remove_if pred i0 e0 k L = map_option snd (sl_remove_and_dispose_if pred i0 e0 k L)"

text \<open>\<open>eqv\<close> is \<open>operator==\<close> of the values.\<close>

definition sl_remove_and_dispose ::
    "(addr \<Rightarrow> addr \<Rightarrow> bool) \<Rightarrow> addr \<Rightarrow> nat \<Rightarrow> nat \<Rightarrow> nat \<Rightarrow> items \<Rightarrow> (addr list \<times> items) option"
where
  "sl_remove_and_dispose eqv v = sl_remove_and_dispose_if (\<lambda>x. eqv x v)"

fun sl_visit_loop :: "nat \<Rightarrow> siter \<Rightarrow> siter \<Rightarrow> items \<Rightarrow> (addr list \<times> items) option" where
  "sl_visit_loop 0 i e L = None"
| "sl_visit_loop (Suc n) i e L =
     (if iter_eq i e L then Some ([], L)
      else do {
        a \<leftarrow> iter_deref i;
        let (i, M) = iter_inc i L;
        (as, M) \<leftarrow> sl_visit_loop n i e M;
        Some (a # as, M)
      })"

definition sl_visit :: "nat \<Rightarrow> nat \<Rightarrow> items \<Rightarrow> (addr list \<times> items) option" where
  "sl_visit i0 e0 L =
     (let (i, L) = sl_begin i0 L; (e, L) = sl_end e0 L
      in map_option (\<lambda>(as, M). (as, pos_clear i0 (pos_clear e0 M)))
           (sl_visit_loop (length (elems L) + 1) i e L))"

section \<open>What the operations do to the ring\<close>

lemma elems_append [simp]: "elems (xs @ ys) = elems xs @ elems ys"
  by (induction xs rule: elems.induct) simp_all

lemma elems_member: "a \<in> set (elems L) \<longleftrightarrow> Elem a \<in> set L"
  by (induction L rule: elems.induct) auto

lemma elems_distinct: "distinct L \<Longrightarrow> distinct (elems L)"
  by (induction L rule: elems.induct) (auto simp: elems_member)

lemma elems_first: "elems L = y # ys \<Longrightarrow> \<exists>us vs. L = us @ Elem y # vs \<and> elems us = [] \<and> elems vs = ys"
proof (induction L rule: elems.induct)
  case (2 a L)
  then show ?case by (intro exI [of _ "[]"] exI [of _ L]) simp
next
  case (3 k L)
  then obtain us vs where "L = us @ Elem y # vs" "elems us = []" "elems vs = ys" by auto
  then show ?case by (intro exI [of _ "Back k # us"] exI [of _ vs]) simp
next
  case (4 k L)
  then obtain us vs where "L = us @ Elem y # vs" "elems us = []" "elems vs = ys" by auto
  then show ?case by (intro exI [of _ "Front k # us"] exI [of _ vs]) simp
qed simp

lemma upto_split [simp]: "x \<notin> set us \<Longrightarrow> upto_item x (us @ x # vs) = us"
  by (induction us) (auto simp: upto_item_def)

lemma past_split [simp]: "x \<notin> set us \<Longrightarrow> past_item x (us @ x # vs) = vs"
  by (induction us) (auto simp: past_item_def)

lemma put_after_split: "x \<notin> set us \<Longrightarrow> put_after x i (us @ x # vs) = us @ x # i # vs"
  by (simp add: put_after_def)

lemma put_before_split: "x \<notin> set us \<Longrightarrow> put_before x i (us @ x # vs) = us @ i # x # vs"
  by (simp add: put_before_def)

lemma pos_clear_simps [simp]:
  "pos_clear k [] = []" "pos_clear k (xs @ ys) = pos_clear k xs @ pos_clear k ys"
  "pos_clear k (Elem a # L) = Elem a # pos_clear k L"
  "pos_clear k (Back j # L) = (if j = k then pos_clear k L else Back j # pos_clear k L)"
  "pos_clear k (Front j # L) = (if j = k then pos_clear k L else Front j # pos_clear k L)"
  by (simp_all add: pos_clear_def)

lemma pos_clear_other: "Back k \<notin> set L \<Longrightarrow> Front k \<notin> set L \<Longrightarrow> pos_clear k L = L"
  unfolding pos_clear_def by (rule filter_True) auto

lemma pos_clear_elems [simp]: "elems (pos_clear k L) = elems L"
  by (induction L rule: elems.induct) simp_all

lemma remove_split: "x \<notin> set us \<Longrightarrow> remove1 x (us @ x # vs) = us @ vs"
  by (simp add: remove1_append)

lemma retire_split:
  assumes "Front k \<notin> set us" "Front k \<notin> set vs"
  shows "retire_front k (us @ Front k # vs) = us @ Back k # vs"
proof -
  have "map (\<lambda>i. if i = Front k then Back k else i) L = L" if "Front k \<notin> set L" for L
    using that by (induction L) auto
  then show ?thesis using assms by (simp add: retire_front_def)
qed

lemma pos_forward_any:
  assumes d: "distinct L" "Back k \<in> set L" and r: "remove1 (Back k) L = A @ Front k # B"
  shows "elems B = [] \<Longrightarrow> pos_forward k L = (Front k # A @ Back k # B, None)"
    and "B = its @ Elem y # B' \<Longrightarrow> elems its = [] \<Longrightarrow>
       pos_forward k L = (A @ Back k # its @ Elem y # Front k # B', Some y)"
proof -
  have "distinct (A @ Front k # B)" "Back k \<notin> set (A @ Front k # B)"
    using d unfolding r [symmetric] by auto
  then have n: "Front k \<notin> set A" "Front k \<notin> set B" "distinct (A @ Back k # B)" by auto
  have 1: "past_item (Front k) (A @ Front k # B) = B" by (rule past_split [OF n(1)])
  have 2: "retire_front k (A @ Front k # B) = A @ Back k # B" by (rule retire_split [OF n(1,2)])
  show "pos_forward k L = (Front k # A @ Back k # B, None)" if "elems B = []"
    unfolding pos_forward_def r using d(2) that by (simp add: 1 2 Let_def)
  assume B: "B = its @ Elem y # B'" "elems its = []"
  have "put_after (Elem y) (Front k) (A @ Back k # B) = A @ Back k # its @ Elem y # Front k # B'"
    using put_after_split [of "Elem y" "A @ Back k # its"] n(3) B(1) by simp
  moreover have "elems B = y # elems B'" by (simp add: B)
  ultimately show "pos_forward k L = (A @ Back k # its @ Elem y # Front k # B', Some y)"
    unfolding pos_forward_def r Let_def 1 2 using d(2) by simp
qed

lemma pos_forward_next:
  assumes "distinct (us @ Back k # mid @ Front k # vs @ Elem y # ws)" and "elems vs = []"
  shows "pos_forward k (us @ Back k # mid @ Front k # vs @ Elem y # ws) =
     (us @ mid @ Back k # vs @ Elem y # Front k # ws, Some y)"
  using pos_forward_any(2) [OF assms(1), of k "us @ mid" "vs @ Elem y # ws"] assms
  by (simp add: remove_split)

lemma pos_forward_end:
  assumes "distinct (us @ Back k # mid @ Front k # vs)" and "elems vs = []"
  shows "pos_forward k (us @ Back k # mid @ Front k # vs) = (Front k # us @ mid @ Back k # vs, None)"
  using pos_forward_any(1) [OF assms(1), of k "us @ mid" vs] assms by (simp add: remove_split)

lemma take_out_split:
  assumes "distinct (us @ Elem x # vs)" and "Back k \<notin> set (us @ vs)" "Front k \<notin> set (us @ vs)"
  shows "take_out k x (us @ Elem x # vs) = us @ Back k # Front k # vs"
proof -
  have "pos_clear k (us @ Elem x # vs) = us @ Elem x # vs"
    using assms(2,3) by (simp add: pos_clear_other)
  then have "pos_around k x (us @ Elem x # vs) = us @ Back k # Elem x # Front k # vs"
    using assms(1) by (simp add: pos_around_def put_after_split put_before_split)
  then show ?thesis
    using remove_split [of "Elem x" "us @ [Back k]"] assms(1) by (simp add: take_out_def)
qed

lemma pos_assign_at:
  assumes "i \<noteq> k" and "distinct (us @ Back k # mid @ Front k # vs)"
    and "Back i \<notin> set (us @ mid @ vs)" "Front i \<notin> set (us @ mid @ vs)"
    and "pos_clear i L = us @ Back k # mid @ Front k # vs"
  shows "pos_assign i k L = us @ Back k # Back i # mid @ Front k # Front i # vs"
proof -
  have 1: "put_after (Back k) (Back i) (us @ Back k # mid @ Front k # vs) =
      us @ Back k # Back i # mid @ Front k # vs"
    using assms(2) by (simp add: put_after_split)
  have 2: "put_after (Front k) (Front i) (us @ Back k # Back i # mid @ Front k # vs) =
      us @ Back k # Back i # mid @ Front k # Front i # vs"
    using put_after_split [of "Front k" "us @ Back k # Back i # mid"] assms(2) by simp
  show ?thesis unfolding pos_assign_def assms(5) by (simp add: 1 2 pos_linked_def Let_def)
qed

lemma pos_assign_end:
  assumes "i \<noteq> k" and "distinct (Front k # us @ Back k # vs)"
    and "Back i \<notin> set (us @ vs)" "Front i \<notin> set (us @ vs)"
    and "pos_clear i L = Front k # us @ Back k # vs"
  shows "pos_assign i k L = Front k # Front i # us @ Back k # Back i # vs"
proof -
  have 1: "put_after (Back k) (Back i) (Front k # us @ Back k # vs) = Front k # us @ Back k # Back i # vs"
    using put_after_split [of "Back k" "Front k # us"] assms(2) by simp
  have 2: "put_after (Front k) (Front i) (Front k # us @ Back k # Back i # vs) =
      Front k # Front i # us @ Back k # Back i # vs"
    using put_after_split [of "Front k" "[]"] by simp
  show ?thesis unfolding pos_assign_def assms(5) by (simp add: 1 2 pos_linked_def Let_def)
qed

section \<open>Loops over the list\<close>

text \<open>
  The iterator \<open>i\<close> is at the element \<open>x\<close> between \<open>us\<close> and \<open>vs\<close>, and \<open>e\<close> is the end.
\<close>

definition at_item :: "nat \<Rightarrow> nat \<Rightarrow> items \<Rightarrow> items \<Rightarrow> addr \<Rightarrow> items \<Rightarrow> items \<Rightarrow> bool" where
  "at_item i e us its x vs L \<longleftrightarrow>
     L = us @ Back i # its @ Elem x # Front i # vs \<and> distinct L \<and> elems its = [] \<and> i \<noteq> e \<and>
     (\<exists>ws zs. vs = ws @ Back e # zs \<and> elems zs = [])"

lemma at_item_not_end:
  assumes "at_item i e us its x vs L"
  shows "\<not> iter_eq \<lparr>it_pos = i, it_ptr = p\<rparr> \<lparr>it_pos = e, it_ptr = q\<rparr> L"
proof -
  obtain ws zs where L: "L = us @ Back i # its @ Elem x # Front i # ws @ Back e # zs" "distinct L" "i \<noteq> e"
    using assms unfolding at_item_def by blast
  have "upto_item (Back i) L = us" using L(1,2) by simp
  moreover have "upto_item (Back e) L = us @ Back i # its @ Elem x # Front i # ws"
    using upto_split [of "Back e" "us @ Back i # its @ Elem x # Front i # ws" zs] L by simp
  ultimately show ?thesis using L(1) by (simp add: iter_eq_def same_pos_def)
qed

lemma at_end:
  assumes "L = A @ Back i # B" "distinct L" "elems B = []" and "Back e \<in> set L" and "i \<noteq> e"
    and "\<exists>ws zs. L = ws @ Back e # zs \<and> elems zs = []"
  shows "iter_eq \<lparr>it_pos = i, it_ptr = p\<rparr> \<lparr>it_pos = e, it_ptr = q\<rparr> L"
proof -
  obtain ws zs where w: "L = ws @ Back e # zs" "elems zs = []" using assms(6) by blast
  have "elems ws = elems A"
    using arg_cong [OF trans [OF w(1) [symmetric] assms(1)], of elems] w(2) assms(3) by simp
  moreover have "upto_item (Back e) L = ws" using upto_split [of "Back e" ws zs] w(1) assms(2) by auto
  moreover have "upto_item (Back i) L = A"
    unfolding assms(1) using upto_split [of "Back i" A B] assms(1,2) by auto
  ultimately show ?thesis using assms(1,4,5) by (simp add: iter_eq_def same_pos_def)
qed

text \<open>The iterator moves on.\<close>

lemma at_item_inc:
  assumes a: "at_item i e us its x vs L" and v: "elems vs = y # ys"
  obtains us' its' vs' M where
    "iter_inc \<lparr>it_pos = i, it_ptr = p\<rparr> L = (\<lparr>it_pos = i, it_ptr = Some y\<rparr>, M)"
    "at_item i e us' its' y vs' M" "elems vs' = ys"
    "us' = us @ its @ [Elem x]" "its' @ Elem y # vs' = vs"
proof -
  obtain v1 v2 where v12: "vs = v1 @ Elem y # v2" "elems v1 = []" "elems v2 = ys"
    using elems_first [OF v] by blast
  obtain ws zs where w: "vs = ws @ Back e # zs" "elems zs = []" using a unfolding at_item_def by blast
  have "distinct L" using a unfolding at_item_def by blast
  then have L: "L = us @ Back i # (its @ [Elem x]) @ Front i # v1 @ Elem y # v2" "distinct L" "i \<noteq> e"
    using a v12(1) unfolding at_item_def by simp_all
  let ?M = "us @ (its @ [Elem x]) @ Back i # v1 @ Elem y # Front i # v2"
  have f: "pos_forward i L = (?M, Some y)"
    using pos_forward_next [OF L(2) [unfolded L(1)] v12(2)] L(1) by simp
  have "Back e \<in> set vs" using w(1) by simp
  moreover have "\<exists>ws zs. v2 = ws @ Back e # zs \<and> elems zs = []"
  proof -
    have "elems zs = []" "v1 @ Elem y # v2 = ws @ Back e # zs" using w v12(1) by simp_all
    then show ?thesis by (auto simp: append_eq_append_conv2 append_eq_Cons_conv Cons_eq_append_conv)
  qed
  moreover have "distinct ?M" using L by auto
  ultimately have "at_item i e (us @ its @ [Elem x]) v1 y v2 ?M"
    using v12(2) L(3) by (simp add: at_item_def)
  then show ?thesis using that f v12 by (simp add: iter_inc_def)
qed

lemma at_item_inc_end:
  assumes a: "at_item i e us its x vs L" and v: "elems vs = []"
  obtains M where "iter_inc \<lparr>it_pos = i, it_ptr = p\<rparr> L = (\<lparr>it_pos = i, it_ptr = None\<rparr>, M)"
    "M = Front i # us @ its @ Elem x # Back i # vs"
    "iter_eq \<lparr>it_pos = i, it_ptr = None\<rparr> \<lparr>it_pos = e, it_ptr = q\<rparr> M"
proof -
  obtain ws zs where w: "vs = ws @ Back e # zs" "elems zs = []" using a unfolding at_item_def by blast
  have "distinct L" using a unfolding at_item_def by blast
  then have L: "L = us @ Back i # (its @ [Elem x]) @ Front i # vs" "distinct L" "i \<noteq> e"
    using a unfolding at_item_def by simp_all
  let ?M = "(Front i # us @ its @ [Elem x]) @ Back i # vs"
  have "pos_forward i L = (?M, None)" using pos_forward_end [OF L(2) [unfolded L(1)] v] L(1) by simp
  moreover have "iter_eq \<lparr>it_pos = i, it_ptr = None\<rparr> \<lparr>it_pos = e, it_ptr = q\<rparr> ?M"
  proof (rule at_end [OF refl _ v _ L(3)])
    show "distinct ?M" using L by auto
    show "\<exists>ws zs. ?M = ws @ Back e # zs \<and> elems zs = []"
      using w by (intro exI [of _ "(Front i # us @ its @ [Elem x]) @ Back i # ws"] exI [of _ zs]) simp
  qed (simp add: w)
  ultimately show ?thesis using that by (simp add: iter_inc_def)
qed

text \<open>The element is taken out, and the iterator is set to the result.\<close>

lemma erased_ring:
  assumes "at_item i e us its x vs L" and "Back k \<notin> set L" "Front k \<notin> set L"
  shows "Elem x \<in> set L" "take_out k x L = us @ Back i # its @ Back k # Front k # Front i # vs"
    "distinct (us @ Back i # its @ Back k # Front k # Front i # vs)" "distinct L"
    "L = us @ Back i # its @ Elem x # Front i # vs"
proof -
  show d: "distinct L" and L: "L = us @ Back i # its @ Elem x # Front i # vs"
    using assms(1) unfolding at_item_def by blast+
  show "Elem x \<in> set L" using L by simp
  show "take_out k x L = us @ Back i # its @ Back k # Front k # Front i # vs"
    using take_out_split [of "us @ Back i # its" x "Front i # vs" k] assms(2,3) d by (simp add: L)
  show "distinct (us @ Back i # its @ Back k # Front k # Front i # vs)"
    using d assms(2,3) by (simp add: L)
qed

lemma at_item_erase:
  assumes a: "at_item i e us its x vs L" and v: "elems vs = y # ys"
    and k: "Back k \<notin> set L" "Front k \<notin> set L" "i \<noteq> k"
  obtains us' its' vs' M r N where
    "sl_erase_and_dispose k \<lparr>it_pos = i, it_ptr = Some x\<rparr> L = Some (r, Some x, N)"
    "iter_assign \<lparr>it_pos = i, it_ptr = Some x\<rparr> r N = (\<lparr>it_pos = i, it_ptr = Some y\<rparr>, M)"
    "at_item i e us' its' y vs' (pos_clear k M)" "elems vs' = ys"
    "us' = us @ its" "its' @ Elem y # vs' = vs"
proof -
  note r = erased_ring [OF a k(1,2)]
  obtain v1 v2 where v12: "vs = v1 @ Elem y # v2" "elems v1 = []" "elems v2 = ys"
    using elems_first [OF v] by blast
  have ie: "i \<noteq> e" "elems its = []" "\<exists>ws zs. vs = ws @ Back e # zs \<and> elems zs = []"
    using a unfolding at_item_def by blast+
  let ?N = "us @ Back i # its @ Back k # Front i # v1 @ Elem y # Front k # v2"
  have "pos_forward k (take_out k x L) = (?N, Some y)"
    using pos_forward_next [of "us @ Back i # its" k "[]" "Front i # v1" y v2] r(2,3) v12 by simp
  then have 1: "sl_erase_and_dispose k \<lparr>it_pos = i, it_ptr = Some x\<rparr> L =
      Some (\<lparr>it_pos = k, it_ptr = Some y\<rparr>, Some x, ?N)"
    using r(1) by (simp add: sl_erase_and_dispose_def iter_inc_def iter_ctor_def)
  let ?M = "us @ its @ Back k # Back i # v1 @ Elem y # Front k # Front i # v2"
  have n: "Back i \<notin> set (us @ its @ v1 @ v2)" "Front i \<notin> set (us @ its @ v1 @ v2)"
    "Back k \<notin> set (us @ its @ v1 @ v2)" "Front k \<notin> set (us @ its @ v1 @ v2)"
    using r(3) v12(1) by auto
  have "pos_clear i ?N = (us @ its) @ Back k # (v1 @ [Elem y]) @ Front k # v2"
    using n k(3) by (simp add: pos_clear_other)
  moreover have "distinct ((us @ its) @ Back k # (v1 @ [Elem y]) @ Front k # v2)"
    using r(3) v12(1) by auto
  ultimately have "pos_assign i k ?N = ?M"
    using pos_assign_at [of i k "us @ its" "v1 @ [Elem y]" v2 ?N] n k(3) by simp
  then have 2: "iter_assign \<lparr>it_pos = i, it_ptr = Some x\<rparr> \<lparr>it_pos = k, it_ptr = Some y\<rparr> ?N =
      (\<lparr>it_pos = i, it_ptr = Some y\<rparr>, ?M)" by (simp add: iter_assign_def)
  have "pos_clear k ?M = (us @ its) @ Back i # v1 @ Elem y # Front i # v2"
    using n k(3) by (simp add: pos_clear_other)
  moreover have "distinct ((us @ its) @ Back i # v1 @ Elem y # Front i # v2)" using r(3) v12(1) by auto
  moreover have "\<exists>ws zs. v2 = ws @ Back e # zs \<and> elems zs = []"
    using ie(3) v12(1) by (auto simp: append_eq_append_conv2 append_eq_Cons_conv Cons_eq_append_conv)
  ultimately have "at_item i e (us @ its) v1 y v2 (pos_clear k ?M)"
    using v12(2) ie(1) by (simp add: at_item_def)
  then show ?thesis using that [OF 1 2] v12 by simp
qed

lemma at_item_erase_end:
  assumes a: "at_item i e us its x vs L" and v: "elems vs = []"
    and k: "Back k \<notin> set L" "Front k \<notin> set L" "i \<noteq> k"
  obtains M r N where
    "sl_erase_and_dispose k \<lparr>it_pos = i, it_ptr = Some x\<rparr> L = Some (r, Some x, N)"
    "iter_assign \<lparr>it_pos = i, it_ptr = Some x\<rparr> r N = (\<lparr>it_pos = i, it_ptr = None\<rparr>, M)"
    "pos_clear k M = Front i # us @ its @ Back i # vs"
    "iter_eq \<lparr>it_pos = i, it_ptr = None\<rparr> \<lparr>it_pos = e, it_ptr = q\<rparr> (pos_clear k M)"
proof -
  note r = erased_ring [OF a k(1,2)]
  have ie: "i \<noteq> e" using a unfolding at_item_def by blast
  obtain ws zs where w: "vs = ws @ Back e # zs" "elems zs = []" using a unfolding at_item_def by blast
  let ?N = "Front k # us @ Back i # its @ Back k # Front i # vs"
  have "pos_forward k (take_out k x L) = (?N, None)"
    using pos_forward_end [of "us @ Back i # its" k "[]" "Front i # vs"] r(2,3) v by simp
  then have 1: "sl_erase_and_dispose k \<lparr>it_pos = i, it_ptr = Some x\<rparr> L =
      Some (\<lparr>it_pos = k, it_ptr = None\<rparr>, Some x, ?N)"
    using r(1) by (simp add: sl_erase_and_dispose_def iter_inc_def iter_ctor_def)
  let ?M = "Front k # Front i # us @ its @ Back k # Back i # vs"
  have n: "Back i \<notin> set (us @ its @ vs)" "Front i \<notin> set (us @ its @ vs)"
    "Back k \<notin> set (us @ its @ vs)" "Front k \<notin> set (us @ its @ vs)"
    using r(3) by auto
  have "pos_clear i ?N = Front k # (us @ its) @ Back k # vs" using n k(3) by (simp add: pos_clear_other)
  moreover have "distinct (Front k # (us @ its) @ Back k # vs)" using r(3) by auto
  ultimately have "pos_assign i k ?N = ?M"
    using pos_assign_end [of i k "us @ its" vs ?N] n k(3) by simp
  then have 2: "iter_assign \<lparr>it_pos = i, it_ptr = Some x\<rparr> \<lparr>it_pos = k, it_ptr = None\<rparr> ?N =
      (\<lparr>it_pos = i, it_ptr = None\<rparr>, ?M)" by (simp add: iter_assign_def)
  have 3: "pos_clear k ?M = Front i # us @ its @ Back i # vs"
    using n k(3) by (simp add: pos_clear_other)
  have "iter_eq \<lparr>it_pos = i, it_ptr = None\<rparr> \<lparr>it_pos = e, it_ptr = q\<rparr> ((Front i # us @ its) @ Back i # vs)"
  proof (rule at_end [OF refl _ v _ ie])
    show "distinct ((Front i # us @ its) @ Back i # vs)" using r(3) by auto
    show "\<exists>ws zs. (Front i # us @ its) @ Back i # vs = ws @ Back e # zs \<and> elems zs = []"
      using w by (intro exI [of _ "(Front i # us @ its) @ Back i # ws"] exI [of _ zs]) simp
  qed (simp add: w)
  then show ?thesis using that [OF 1 2 3] 3 by simp
qed

text \<open>What remains after the removal: the elements that do not satisfy \<open>pred\<close>, and all links.\<close>

fun keeps :: "(addr \<Rightarrow> bool) \<Rightarrow> item \<Rightarrow> bool" where
  "keeps pred (Elem a) \<longleftrightarrow> \<not> pred a"
| "keeps pred _ \<longleftrightarrow> True"

lemma keeps_links: "elems its = [] \<Longrightarrow> filter (keeps pred) its = its"
  by (induction its rule: elems.induct) auto

lemma elems_keeps [simp]: "elems (filter (keeps pred) L) = filter (\<lambda>a. \<not> pred a) (elems L)"
  by (induction L rule: elems.induct) auto

lemma at_item_fresh:
  assumes "at_item i e us its x vs L"
  shows "Back i \<notin> set (us @ its @ vs)" "Front i \<notin> set (us @ its @ vs)" "elems its = []"
  using assms unfolding at_item_def by auto

lemma sl_remove_loop_ok:
  assumes "at_item i e us its x vs L" and "elems vs = ys" and "length ys + 2 \<le> n"
    and "Back k \<notin> set L" "Front k \<notin> set L" "i \<noteq> k"
  shows "\<exists>it M. sl_remove_loop n pred k \<lparr>it_pos = i, it_ptr = Some x\<rparr> \<lparr>it_pos = e, it_ptr = q\<rparr> L =
       Some (filter pred (x # ys), it, M) \<and>
     pos_clear i M = us @ its @ filter (keeps pred) (Elem x # vs)"
  using assms
proof (induction ys arbitrary: us its x vs L n)
  case Nil
  obtain j where j: "n = Suc (Suc j)" using that [of "n - 2"] Nil.prems(3) by simp
  note ne = at_item_not_end [OF Nil.prems(1)]
  note fr = at_item_fresh [OF Nil.prems(1)]
  show ?case
  proof (cases "pred x")
    case True
    obtain M r N where m: "sl_erase_and_dispose k \<lparr>it_pos = i, it_ptr = Some x\<rparr> L = Some (r, Some x, N)"
      "iter_assign \<lparr>it_pos = i, it_ptr = Some x\<rparr> r N = (\<lparr>it_pos = i, it_ptr = None\<rparr>, M)"
      "pos_clear k M = Front i # us @ its @ Back i # vs"
      "iter_eq \<lparr>it_pos = i, it_ptr = None\<rparr> \<lparr>it_pos = e, it_ptr = q\<rparr> (pos_clear k M)"
      by (rule at_item_erase_end [OF Nil.prems(1,2,4-6)])
    have "pos_clear i (pos_clear k M) = us @ its @ vs" unfolding m(3) using fr by (simp add: pos_clear_other)
    then show ?thesis using True j m(1,2,4) ne Nil.prems(2) by (simp add: iter_deref_def keeps_links)
  next
    case False
    obtain M where m: "iter_inc \<lparr>it_pos = i, it_ptr = Some x\<rparr> L = (\<lparr>it_pos = i, it_ptr = None\<rparr>, M)"
      "M = Front i # us @ its @ Elem x # Back i # vs"
      "iter_eq \<lparr>it_pos = i, it_ptr = None\<rparr> \<lparr>it_pos = e, it_ptr = q\<rparr> M"
      by (rule at_item_inc_end [OF Nil.prems(1,2)])
    have "pos_clear i M = us @ its @ Elem x # vs" unfolding m(2) using fr by (simp add: pos_clear_other)
    then show ?thesis using False j m(1,3) ne Nil.prems(2) by (simp add: iter_deref_def keeps_links)
  qed
next
  case (Cons y ys)
  obtain j where j: "n = Suc j" "length ys + 2 \<le> j" using that [of "n - 1"] Cons.prems(3) by auto
  note ne = at_item_not_end [OF Cons.prems(1)]
  note fr = at_item_fresh [OF Cons.prems(1)]
  show ?case
  proof (cases "pred x")
    case True
    obtain us' its' vs' M r N where
      m: "sl_erase_and_dispose k \<lparr>it_pos = i, it_ptr = Some x\<rparr> L = Some (r, Some x, N)"
      "iter_assign \<lparr>it_pos = i, it_ptr = Some x\<rparr> r N = (\<lparr>it_pos = i, it_ptr = Some y\<rparr>, M)"
      "at_item i e us' its' y vs' (pos_clear k M)" "elems vs' = ys"
      "us' = us @ its" "its' @ Elem y # vs' = vs"
      by (rule at_item_erase [OF Cons.prems(1,2,4-6)])
    have "Back k \<notin> set (pos_clear k M)" "Front k \<notin> set (pos_clear k M)" by (simp_all add: pos_clear_def)
    from Cons.IH [OF m(3,4) j(2) this Cons.prems(6)] obtain it M' where
      ih: "sl_remove_loop j pred k \<lparr>it_pos = i, it_ptr = Some y\<rparr> \<lparr>it_pos = e, it_ptr = q\<rparr> (pos_clear k M) =
         Some (filter pred (y # ys), it, M')"
      "pos_clear i M' = us' @ its' @ filter (keeps pred) (Elem y # vs')" by blast
    have "pos_clear i M' = us @ its @ filter (keeps pred) vs"
      using ih(2) m(5) keeps_links [OF at_item_fresh(3) [OF m(3)], of pred] unfolding m(6) [symmetric] by simp
    then show ?thesis using True j(1) m(1,2) ne ih(1) by (simp add: iter_deref_def)
  next
    case False
    obtain us' its' vs' M where
      m: "iter_inc \<lparr>it_pos = i, it_ptr = Some x\<rparr> L = (\<lparr>it_pos = i, it_ptr = Some y\<rparr>, M)"
      "at_item i e us' its' y vs' M" "elems vs' = ys"
      "us' = us @ its @ [Elem x]" "its' @ Elem y # vs' = vs"
      by (rule at_item_inc [OF Cons.prems(1,2)])
    have M: "M = us' @ Back i # its' @ Elem y # Front i # vs'" using m(2) unfolding at_item_def by blast
    have L: "L = us @ Back i # its @ Elem x # Front i # vs" using Cons.prems(1) unfolding at_item_def by blast
    have "Back k \<notin> set M" "Front k \<notin> set M"
      using Cons.prems(4-6) unfolding M L m(4) m(5) [symmetric] by auto
    from Cons.IH [OF m(2,3) j(2) this Cons.prems(6)] obtain it M' where
      ih: "sl_remove_loop j pred k \<lparr>it_pos = i, it_ptr = Some y\<rparr> \<lparr>it_pos = e, it_ptr = q\<rparr> M =
         Some (filter pred (y # ys), it, M')"
      "pos_clear i M' = us' @ its' @ filter (keeps pred) (Elem y # vs')" by blast
    have "pos_clear i M' = us @ its @ filter (keeps pred) (Elem x # vs)"
      using ih(2) m(4) keeps_links [OF at_item_fresh(3) [OF m(2)], of pred] False unfolding m(5) [symmetric] by simp
    then show ?thesis using False j(1) m(1) ne ih(1) by (simp add: iter_deref_def)
  qed
qed

lemma sl_visit_loop_ok:
  assumes "at_item i e us its x vs L" and "elems vs = ys" and "length ys + 2 \<le> n"
  shows "\<exists>M. sl_visit_loop n \<lparr>it_pos = i, it_ptr = Some x\<rparr> \<lparr>it_pos = e, it_ptr = q\<rparr> L = Some (x # ys, M) \<and>
     pos_clear i M = us @ its @ Elem x # vs"
  using assms
proof (induction ys arbitrary: us its x vs L n)
  case Nil
  obtain j where j: "n = Suc (Suc j)" using that [of "n - 2"] Nil.prems(3) by simp
  obtain M where m: "iter_inc \<lparr>it_pos = i, it_ptr = Some x\<rparr> L = (\<lparr>it_pos = i, it_ptr = None\<rparr>, M)"
    "M = Front i # us @ its @ Elem x # Back i # vs"
    "iter_eq \<lparr>it_pos = i, it_ptr = None\<rparr> \<lparr>it_pos = e, it_ptr = q\<rparr> M"
    by (rule at_item_inc_end [OF Nil.prems(1,2)])
  have "pos_clear i M = us @ its @ Elem x # vs"
    unfolding m(2) using at_item_fresh [OF Nil.prems(1)] by (simp add: pos_clear_other)
  then show ?case using j m(1,3) at_item_not_end [OF Nil.prems(1)] by (simp add: iter_deref_def)
next
  case (Cons y ys)
  obtain j where j: "n = Suc j" "length ys + 2 \<le> j" using that [of "n - 1"] Cons.prems(3) by auto
  obtain us' its' vs' M where
    m: "iter_inc \<lparr>it_pos = i, it_ptr = Some x\<rparr> L = (\<lparr>it_pos = i, it_ptr = Some y\<rparr>, M)"
    "at_item i e us' its' y vs' M" "elems vs' = ys"
    "us' = us @ its @ [Elem x]" "its' @ Elem y # vs' = vs"
    by (rule at_item_inc [OF Cons.prems(1,2)])
  from Cons.IH [OF m(2,3) j(2)] obtain M' where
    "sl_visit_loop j \<lparr>it_pos = i, it_ptr = Some y\<rparr> \<lparr>it_pos = e, it_ptr = q\<rparr> M = Some (y # ys, M')"
    "pos_clear i M' = us' @ its' @ Elem y # vs'" by blast
  then show ?case
    using j(1) m(1,4,5) at_item_not_end [OF Cons.prems(1)] by (simp add: iter_deref_def)
qed

text \<open>The start of both loops; \<open>i\<close> and \<open>e\<close> are new names.\<close>

definition new_pos :: "nat \<Rightarrow> items \<Rightarrow> bool" where
  "new_pos k L \<longleftrightarrow> Back k \<notin> set L \<and> Front k \<notin> set L"

lemma begin_empty:
  assumes "elems L = []" "new_pos i L" "new_pos e L" "i \<noteq> e" "distinct L"
  obtains M M' where "sl_begin i L = (\<lparr>it_pos = i, it_ptr = None\<rparr>, M)"
    "sl_end e M = (\<lparr>it_pos = e, it_ptr = None\<rparr>, M')"
    "iter_eq \<lparr>it_pos = i, it_ptr = None\<rparr> \<lparr>it_pos = e, it_ptr = None\<rparr> M'"
    "pos_clear i (pos_clear e M') = L"
proof -
  let ?M = "[Front e] @ Back i # Front i # L @ [Back e]"
  have c: "pos_clear i L = L" "pos_clear e L = L" using assms(2,3) by (simp_all add: new_pos_def pos_clear_other)
  have "iter_eq \<lparr>it_pos = i, it_ptr = None\<rparr> \<lparr>it_pos = e, it_ptr = None\<rparr> ?M"
  proof (rule at_end [OF refl])
    show "distinct ?M" using assms(2-5) by (auto simp: new_pos_def)
    show "\<exists>ws zs. ?M = ws @ Back e # zs \<and> elems zs = []"
      by (intro exI [of _ "[Front e] @ Back i # Front i # L"] exI [of _ "[]"]) simp
  qed (simp_all add: assms(1,4))
  then show ?thesis
    using that [of "Back i # Front i # L" ?M] assms(1,4) c
    by (simp add: sl_begin_def pos_begin_def pos_end_def sl_end_def iter_ctor_def)
qed

lemma begin_at:
  assumes "elems L = x # ys" "new_pos i L" "new_pos e L" "i \<noteq> e" "distinct L"
  obtains M M' us vs where "sl_begin i L = (\<lparr>it_pos = i, it_ptr = Some x\<rparr>, M)"
    "sl_end e M = (\<lparr>it_pos = e, it_ptr = None\<rparr>, M')"
    "at_item i e [Front e] us x (vs @ [Back e]) M'" "elems vs = ys" "elems us = []"
    "L = us @ Elem x # vs" "elems M' = x # ys"
proof -
  obtain us vs where L: "L = us @ Elem x # vs" "elems us = []" "elems vs = ys"
    using elems_first [OF assms(1)] by blast
  let ?M = "Back i # us @ Elem x # Front i # vs"
  have n: "Back i \<notin> set (us @ vs)" "Front i \<notin> set (us @ vs)" "Back e \<notin> set (us @ vs)" "Front e \<notin> set (us @ vs)"
    using assms(2,3) L(1) by (simp_all add: new_pos_def)
  have "pos_clear i L = us @ Elem x # vs" using n L(1) by (simp add: pos_clear_other)
  then have 1: "sl_begin i L = (\<lparr>it_pos = i, it_ptr = Some x\<rparr>, ?M)"
    using assms(1,5) L(1) by (simp add: sl_begin_def pos_begin_def put_after_split)
  have 2: "sl_end e ?M = (\<lparr>it_pos = e, it_ptr = None\<rparr>, Front e # ?M @ [Back e])"
    using n assms(4) by (simp add: sl_end_def pos_end_def iter_ctor_def pos_clear_other)
  have "distinct (Front e # ?M @ [Back e])" using n assms(4,5) L(1) by auto
  then have 3: "at_item i e [Front e] us x (vs @ [Back e]) (Front e # ?M @ [Back e])"
    using assms(4) L(2) by (simp add: at_item_def) (intro exI [of _ vs] exI [of _ "[]"], simp)
  show ?thesis by (rule that [OF 1 2 3 L(3,2,1)]) (simp add: L(2,3))
qed

lemma clear_both: "pos_clear i (pos_clear e N) = pos_clear e (pos_clear i N)"
  by (simp add: pos_clear_def conj_commute)

lemma remove_if_result:
  assumes "distinct L" and "new_pos i L" "new_pos e L" "new_pos k L" and "i \<noteq> e" "i \<noteq> k" "e \<noteq> k"
  shows "sl_remove_and_dispose_if pred i e k L = Some (filter pred (elems L), filter (keeps pred) L)"
proof (cases "elems L")
  case Nil
  obtain M' M where m: "sl_begin i L = (\<lparr>it_pos = i, it_ptr = None\<rparr>, M')"
    "sl_end e M' = (\<lparr>it_pos = e, it_ptr = None\<rparr>, M)"
    "iter_eq \<lparr>it_pos = i, it_ptr = None\<rparr> \<lparr>it_pos = e, it_ptr = None\<rparr> M"
    "pos_clear i (pos_clear e M) = L" by (rule begin_empty [OF Nil assms(2,3,5,1)])
  have "length (elems M) + 1 = Suc 0"
    using arg_cong [OF m(4), of elems] Nil by simp
  then show ?thesis
    unfolding sl_remove_and_dispose_if_def m(1) Let_def prod.case m(2)
    using m(3,4) Nil keeps_links [OF Nil, of pred] by simp
next
  case (Cons x ys)
  obtain M M' us vs where m: "sl_begin i L = (\<lparr>it_pos = i, it_ptr = Some x\<rparr>, M)"
    "sl_end e M = (\<lparr>it_pos = e, it_ptr = None\<rparr>, M')"
    "at_item i e [Front e] us x (vs @ [Back e]) M'" "elems vs = ys" "elems us = []"
    "L = us @ Elem x # vs" "elems M' = x # ys" by (rule begin_at [OF Cons assms(2,3,5,1)])
  have k: "Back k \<notin> set M'" "Front k \<notin> set M'"
    using m(3,6) assms(4,6,7) unfolding at_item_def new_pos_def by auto
  have v: "elems (vs @ [Back e]) = ys" by (simp add: m(4))
  have n: "length ys + 2 \<le> length (elems M') + 1" by (simp add: m(7))
  obtain it N where r: "sl_remove_loop (length (elems M') + 1) pred k \<lparr>it_pos = i, it_ptr = Some x\<rparr>
      \<lparr>it_pos = e, it_ptr = None\<rparr> M' = Some (filter pred (x # ys), it, N)"
    "pos_clear i N = [Front e] @ us @ filter (keeps pred) (Elem x # vs @ [Back e])"
    using sl_remove_loop_ok [OF m(3) v n k assms(6)] by blast
  have "pos_clear e (filter (keeps pred) L) = filter (keeps pred) L"
    using assms(3) by (intro pos_clear_other) (auto simp: new_pos_def)
  moreover have "pos_clear i N = Front e # filter (keeps pred) L @ [Back e]"
    using m(6) keeps_links [OF m(5), of pred] unfolding r(2) by simp
  ultimately have c: "pos_clear i (pos_clear e N) = filter (keeps pred) L"
    unfolding clear_both [of i] by simp
  show ?thesis
    unfolding sl_remove_and_dispose_if_def m(1) Let_def prod.case m(2) r(1) Cons
    by (simp only: option.map prod.case c)
qed

lemma visit_result:
  assumes "distinct L" and "new_pos i L" "new_pos e L" and "i \<noteq> e"
  shows "sl_visit i e L = Some (elems L, L)"
proof (cases "elems L")
  case Nil
  obtain M' M where m: "sl_begin i L = (\<lparr>it_pos = i, it_ptr = None\<rparr>, M')"
    "sl_end e M' = (\<lparr>it_pos = e, it_ptr = None\<rparr>, M)"
    "iter_eq \<lparr>it_pos = i, it_ptr = None\<rparr> \<lparr>it_pos = e, it_ptr = None\<rparr> M"
    "pos_clear i (pos_clear e M) = L" by (rule begin_empty [OF Nil assms(2-4,1)])
  have "length (elems M) + 1 = Suc 0"
    using arg_cong [OF m(4), of elems] Nil by simp
  then show ?thesis unfolding sl_visit_def m(1) Let_def prod.case m(2) using m(3,4) Nil by simp
next
  case (Cons x ys)
  obtain M M' us vs where m: "sl_begin i L = (\<lparr>it_pos = i, it_ptr = Some x\<rparr>, M)"
    "sl_end e M = (\<lparr>it_pos = e, it_ptr = None\<rparr>, M')"
    "at_item i e [Front e] us x (vs @ [Back e]) M'" "elems vs = ys" "elems us = []"
    "L = us @ Elem x # vs" "elems M' = x # ys" by (rule begin_at [OF Cons assms(2-4,1)])
  have v: "elems (vs @ [Back e]) = ys" by (simp add: m(4))
  have n: "length ys + 2 \<le> length (elems M') + 1" by (simp add: m(7))
  obtain N where r: "sl_visit_loop (length (elems M') + 1) \<lparr>it_pos = i, it_ptr = Some x\<rparr>
      \<lparr>it_pos = e, it_ptr = None\<rparr> M' = Some (x # ys, N)"
    "pos_clear i N = [Front e] @ us @ Elem x # vs @ [Back e]"
    using sl_visit_loop_ok [OF m(3) v n] by blast
  have "pos_clear e L = L" using assms(3) by (simp add: new_pos_def pos_clear_other)
  then have c: "pos_clear i (pos_clear e N) = L"
    using m(6) unfolding clear_both [of i] r(2) by simp
  show ?thesis
    unfolding sl_visit_def m(1) Let_def prod.case m(2) r(1) Cons by (simp only: option.map prod.case c)
qed

lemma clear_result:
  assumes "length (elems L) < n" and "distinct L"
  shows "sl_clear_loop n L = Some (elems L, filter (keeps (\<lambda>_. True)) L)"
  using assms
proof (induction "elems L" arbitrary: L n)
  case Nil
  then show ?case by (cases n) (simp_all add: sl_pop_front_def keeps_links)
next
  case (Cons x ys)
  obtain us vs where L: "L = us @ Elem x # vs" "elems us = []" "elems vs = ys"
    using elems_first [OF Cons.hyps(2) [symmetric]] by blast
  obtain j where j: "n = Suc j" "length ys < j" using Cons.prems(1) Cons.hyps(2) [symmetric] by (cases n) auto
  have p: "sl_pop_front L = (Some x, us @ vs)"
    using Cons.prems(2) by (simp add: sl_pop_front_def L remove_split)
  have "sl_clear_loop j (us @ vs) = Some (elems (us @ vs), filter (keeps (\<lambda>_. True)) (us @ vs))"
    using Cons.hyps(1) [of "us @ vs" j] L j(2) Cons.prems(2) by simp
  then show ?case using j(1) p L by simp
qed

text \<open>
  C31. \<open>remove_and_dispose_if\<close> returns, disposes of exactly the elements that satisfy the predicate,
  in the order of the list, and keeps the others and the links of all iterators in their places;
  its own links are gone. \<open>visit\<close> returns, calls the function on every element in order and
  leaves the ring as it was. \<open>clear_and_dispose\<close> returns and disposes of all elements in order.
\<close>

theorem list_loops:
  assumes "distinct L" and "new_pos i L" "new_pos e L" "new_pos k L" and "i \<noteq> e" "i \<noteq> k" "e \<noteq> k"
  shows "sl_remove_and_dispose_if pred i e k L = Some (filter pred (elems L), filter (keeps pred) L) \<and>
     sl_visit i e L = Some (elems L, L) \<and>
     sl_clear_and_dispose L = Some (elems L, filter (keeps (\<lambda>_. True)) L)"
proof (intro conjI)
  have "length (elems L) \<le> length L" by (induction L rule: elems.induct) simp_all
  then show "sl_clear_and_dispose L = Some (elems L, filter (keeps (\<lambda>_. True)) L)"
    using clear_result [OF _ assms(1), of "length L + 1"] by (simp add: sl_clear_and_dispose_def)
qed (simp_all only: remove_if_result [OF assms] visit_result [OF assms(1-3,5)])

theorem list_loops_witness:
  "sl_remove_and_dispose_if (\<lambda>a. 5 < a) 1 2 3 [Elem 7, Front 0, Elem 4, Back 0, Elem 6] =
     Some ([7, 6], [Front 0, Elem 4, Back 0]) \<and>
   sl_visit 1 2 [Elem 7, Front 0, Elem 4, Back 0, Elem 6] =
     Some ([7, 4, 6], [Elem 7, Front 0, Elem 4, Back 0, Elem 6])"
  using list_loops [of "[Elem 7, Front 0, Elem 4, Back 0, Elem 6]" 1 2 3 "\<lambda>a. 5 < a"]
  by (simp add: new_pos_def)

section \<open>Defects\<close>

text \<open>The postfix operators do not move the iterator: its links stay in the same gaps.\<close>

lemma post_inc_stays:
  "iter_post_inc 2 \<lparr>it_pos = 1, it_ptr = Some 4\<rparr> [Back 1, Elem 4, Front 1, Elem 6] =
     Some (\<lparr>it_pos = 2, it_ptr = Some 6\<rparr>, [Back 1, Elem 4, Front 1, Back 2, Elem 6, Front 2])"
  by code_simp

text \<open>A linked iterator is not equal to itself, one that is not linked is.\<close>

lemma iter_not_equal_itself: "iter_eq it it L \<longleftrightarrow> Back (it_pos it) \<notin> set L"
  by (simp add: iter_eq_def same_pos_def)

text \<open>\<open>begin\<close> of a constant list fails when it is empty, and \<open>cend\<close> is the first element.\<close>

lemma const_begin_empty: "elems L = [] \<Longrightarrow> sl_const_begin k L = None"
  by (simp add: sl_const_begin_def pos_begin_def)

lemma cend_is_begin: "sl_cend k L = sl_const_begin k L" "elems L = e # es \<Longrightarrow> sl_cend k L \<noteq> Some (sl_const_end k L)"
  by (simp_all add: sl_cend_def sl_const_begin_def pos_begin_def sl_const_end_def iter_ctor_def)

text \<open>
  When another thread takes out the element 9 that the loop of \<open>remove_and_dispose_if\<close> is at, the
  failed \<open>erase_and_dispose\<close> moves on and the loop does so once more: 4 is never looked at.
\<close>

lemma remove_if_skips_element:
  "sl_remove_loop 9 (\<lambda>_. True) 3 \<lparr>it_pos = 1, it_ptr = Some 9\<rparr> \<lparr>it_pos = 2, it_ptr = None\<rparr>
       [Front 2, Back 1, Front 1, Elem 4, Elem 6, Back 2] =
     Some ([6], \<lparr>it_pos = 1, it_ptr = None\<rparr>, [Front 1, Front 2, Elem 4, Back 1, Back 2])"
  by code_simp

end
