(* ===== verification/Workq.thy ===== *)
theory Workq
  imports LL_Smart
begin

unbundle bit_operations_syntax

text \<open>
  Work queues: \<open>include/ilias/workq.h\<close> and \<open>src/workq.cc\<close>, as they run without
  interference. Jobs, work queues and co-routine jobs live at addresses; the lists of jobs that
  are ready are lists of addresses. The reference counts that keep the objects alive are those
  of \<open>Refcount\<close>. \<open>Workq_Conc\<close> has the interleaved execution of the state of jobs.
\<close>

section \<open>Jobs\<close>

definition STATE_RUNNING :: u32 where "STATE_RUNNING = 0x1"
definition STATE_HAS_RUN :: u32 where "STATE_HAS_RUN = 0x2"
definition STATE_ACTIVE :: u32 where "STATE_ACTIVE = 0x4"

definition TYPE_ONCE :: u32 where "TYPE_ONCE = 0x1"
definition TYPE_PERSIST :: u32 where "TYPE_PERSIST = 0x2"
definition TYPE_PARALLEL :: u32 where "TYPE_PARALLEL = 0x4"
definition TYPE_NO_AID :: u32 where "TYPE_NO_AID = 0x10"

definition TYPE_MASK :: u32 where
  "TYPE_MASK = (TYPE_ONCE OR TYPE_PERSIST OR TYPE_PARALLEL OR TYPE_NO_AID)"

definition ACT_IMMED :: u32 where "ACT_IMMED = 0x1"
definition ACT_IMMED_MAX_STACK :: nat where "ACT_IMMED_MAX_STACK = 64"

definition flag :: "u32 \<Rightarrow> u32 \<Rightarrow> bool" where "flag w b \<longleftrightarrow> w AND b \<noteq> 0"

datatype job_lck = JOB_RUNNING | JOB_BUSY
datatype wq_lck = RUN_SINGLE | RUN_PARALLEL

text \<open>
  The members of \<open>wq_run_lock\<close>: what it holds and at which level. (It comes first because a
  co-routine job keeps one.)
\<close>

record wq_run_lock =
  rl_wq :: ptr
  rl_job :: ptr
  rl_co :: ptr
  rl_wq_lck :: wq_lck
  rl_job_lck :: job_lck
  rl_commited :: bool

definition run_lock_init :: wq_run_lock where
  "run_lock_init = \<lparr>rl_wq = None, rl_job = None, rl_co = None, rl_wq_lck = RUN_SINGLE,
     rl_job_lck = JOB_BUSY, rl_commited = False\<rparr>"

text \<open>
  \<open>job_is_co\<close> is the dynamic type of the job (a \<open>co_runnable\<close> or not), \<open>co_runcount\<close> and
  \<open>co_rlck\<close> are the members that a \<open>co_runnable\<close> adds, \<open>co_idx\<close> and \<open>co_size\<close> (how many
  functions it has) those of \<open>coroutine_job\<close>.
\<close>

record workq_job =
  m_type :: u32
  m_run_gen :: u32
  m_state :: u32
  job_wq :: addr
  job_is_co :: bool
  co_runcount :: uptr
  co_rlck :: wq_run_lock
  co_idx :: uptr
  co_size :: nat

definition workq_job_ctor :: "ptr \<Rightarrow> u32 \<Rightarrow> bool \<Rightarrow> workq_job result" where
  "workq_job_ctor wq type is_co = (case wq of
     None \<Rightarrow> Inl Invalid_argument
   | Some q \<Rightarrow>
       if flag type TYPE_ONCE \<and> flag type TYPE_PERSIST then Inl Invalid_argument
       else if type AND TYPE_MASK \<noteq> type then Inl Invalid_argument
       else Inr \<lparr>m_type = type, m_run_gen = 0, m_state = 0, job_wq = q, job_is_co = is_co,
                 co_runcount = 0, co_rlck = run_lock_init, co_idx = 0, co_size = 0\<rparr>)"

definition workq_job_dtor :: "workq_job \<Rightarrow> unit result" where
  "workq_job_dtor j = (if flag (m_state j) STATE_RUNNING then Inl Assertion_failed else Inr ())"

text \<open>
  The decision of \<open>lock_run\<close> on the state \<open>s\<close> that it has read: \<open>None\<close> for \<open>BUSY\<close>, else the
  state to store.
\<close>

definition lock_run_next :: "u32 \<Rightarrow> u32 \<Rightarrow> u32 option" where
  "lock_run_next type s =
     (if \<not> flag s STATE_ACTIVE then None
      else if flag s STATE_RUNNING then None
      else if flag type TYPE_ONCE \<and> flag s STATE_HAS_RUN then None
      else let new_s = s OR STATE_RUNNING
           in Some (if \<not> flag type TYPE_PERSIST then new_s AND NOT STATE_ACTIVE else new_s))"

definition job_lock_run :: "workq_job \<Rightarrow> job_lck \<times> workq_job" where
  "job_lock_run j = (case lock_run_next (m_type j) (m_state j) of
     None \<Rightarrow> (JOB_BUSY, j)
   | Some s \<Rightarrow> (JOB_RUNNING, j\<lparr>m_state := s, m_run_gen := m_run_gen j + 1\<rparr>))"

definition job_is_running :: "workq_job \<Rightarrow> bool" where
  "job_is_running j \<longleftrightarrow> flag (m_state j) STATE_RUNNING"

text \<open>Whether \<open>unlock_run\<close> and \<open>activate\<close> put the job on the queue, from the old state.\<close>

definition unlock_requeues :: "u32 \<Rightarrow> u32 \<Rightarrow> bool" where
  "unlock_requeues type s \<longleftrightarrow> \<not> flag type TYPE_ONCE \<and> flag s STATE_ACTIVE"

definition activate_queues :: "u32 \<Rightarrow> bool" where
  "activate_queues s \<longleftrightarrow> \<not> flag s (STATE_RUNNING OR STATE_ACTIVE)"

section \<open>Work queues\<close>

record workq =
  m_runq :: "addr list"
  m_p_runq :: "addr list"
  m_run_single :: bool
  m_run_parallel :: u32

definition workq_init :: workq where
  "workq_init = \<lparr>m_runq = [], m_p_runq = [], m_run_single = False, m_run_parallel = 0\<rparr>"

definition workq_ctor :: "ptr \<Rightarrow> workq result" where
  "workq_ctor wqs = (case wqs of None \<Rightarrow> Inl Invalid_argument | Some _ \<Rightarrow> Inr workq_init)"

definition workq_dtor :: "workq \<Rightarrow> unit result" where
  "workq_dtor q =
     (if m_runq q = [] \<and> \<not> m_run_single q \<and> m_run_parallel q = 0 then Inr () else Inl Assertion_failed)"

definition wq_lock_run :: "workq \<Rightarrow> wq_lck \<times> workq" where
  "wq_lock_run q =
     (if \<not> m_run_single q then (RUN_SINGLE, q\<lparr>m_run_single := True\<rparr>)
      else (RUN_PARALLEL, q\<lparr>m_run_parallel := m_run_parallel q + 1\<rparr>))"

definition wq_lock_run_parallel :: "workq \<Rightarrow> wq_lck \<times> workq" where
  "wq_lock_run_parallel q = (RUN_PARALLEL, q\<lparr>m_run_parallel := m_run_parallel q + 1\<rparr>)"

definition wq_unlock_run :: "wq_lck \<Rightarrow> workq \<Rightarrow> workq result" where
  "wq_unlock_run rl q = (case rl of
     RUN_SINGLE \<Rightarrow> if m_run_single q then Inr (q\<lparr>m_run_single := False\<rparr>) else Inl Assertion_failed
   | RUN_PARALLEL \<Rightarrow> if 0 < m_run_parallel q then Inr (q\<lparr>m_run_parallel := m_run_parallel q - 1\<rparr>)
                     else Inl Assertion_failed)"

definition wq_lock_run_downgrade :: "wq_lck \<Rightarrow> workq \<Rightarrow> (wq_lck \<times> workq) result" where
  "wq_lock_run_downgrade rl q = (case rl of
     RUN_SINGLE \<Rightarrow>
       let q1 = q\<lparr>m_run_parallel := m_run_parallel q + 1\<rparr>
       in if m_run_single q1 then Inr (RUN_PARALLEL, q1\<lparr>m_run_single := False\<rparr>) else Inl Assertion_failed
   | RUN_PARALLEL \<Rightarrow> Inr (RUN_PARALLEL, q))"

section \<open>The objects together\<close>

text \<open>
  One service and what it reaches. The position 0 of \<open>m_wq_runq\<close> is the iterator that the calling
  thread keeps in its thread-local storage; it is in the ring when its \<open>tls\<close> pair names this
  service. \<open>wakeup_cb\<close> is \<open>m_wakeup_cb\<close>: none, or a client with or without a service, and
  \<open>wakeups\<close> are the calls made to it, the last one first.
\<close>

record wq_world =
  jobs :: "addr \<Rightarrow> workq_job"
  wqs :: "addr \<Rightarrow> workq"
  m_wq_runq :: items
  m_co_runq :: items
  wakeup_cb :: "bool option"
  wakeups :: "nat list"

definition upd_job :: "addr \<Rightarrow> (workq_job \<Rightarrow> workq_job) \<Rightarrow> wq_world \<Rightarrow> wq_world" where
  "upd_job a f w = w\<lparr>jobs := (jobs w)(a := f (jobs w a))\<rparr>"

definition upd_wq :: "addr \<Rightarrow> (workq \<Rightarrow> workq) \<Rightarrow> wq_world \<Rightarrow> wq_world" where
  "upd_wq a f w = w\<lparr>wqs := (wqs w)(a := f (wqs w a))\<rparr>"

text \<open>\<open>link_back\<close> refuses an element that is on the list.\<close>

definition link_back :: "addr \<Rightarrow> addr list \<Rightarrow> bool \<times> addr list" where
  "link_back a xs = (if a \<in> set xs then (False, xs) else (True, xs @ [a]))"

definition WAKE_ALL :: nat where "WAKE_ALL = 2 ^ 32 - 1"

definition service_wakeup :: "nat \<Rightarrow> wq_world \<Rightarrow> wq_world" where
  "service_wakeup count w = (case wakeup_cb w of
     None \<Rightarrow> w
   | Some has_service \<Rightarrow>
       if has_service then w\<lparr>wakeups := min count WAKE_ALL # wakeups w\<rparr> else w\<lparr>wakeup_cb := None\<rparr>)"

text \<open>The iterator of the thread is assigned \<open>begin\<close>, a temporary at the position 1.\<close>

definition runq_restart :: "items \<Rightarrow> ptr \<times> items" where
  "runq_restart L =
     (let (b, M) = sl_begin 1 L; (i, M) = iter_assign (iter_ctor 0) b M in (it_ptr i, pos_clear 1 M))"

definition get_runq_iterpos :: "wq_world \<Rightarrow> wq_world" where
  "get_runq_iterpos w =
     (if pos_linked 0 (m_wq_runq w) then w else w\<lparr>m_wq_runq := snd (runq_restart (m_wq_runq w))\<rparr>)"

text \<open>\<open>ipos\<close> is the position 1, a copy of that of the thread; \<open>link\<close> puts the element before it.\<close>

definition wq_to_runq :: "addr \<Rightarrow> wq_world \<Rightarrow> wq_world" where
  "wq_to_runq a w =
     (let w1 = get_runq_iterpos w;
          L = fst (pos_forward 1 (pos_assign 1 0 (m_wq_runq w1)));
          L = (if Elem a \<in> set L then L else put_before (Back 1) (Elem a) L)
      in service_wakeup 1 (w1\<lparr>m_wq_runq := pos_clear 1 L\<rparr>))"

definition co_to_runq :: "addr \<Rightarrow> nat \<Rightarrow> wq_world \<Rightarrow> wq_world result" where
  "co_to_runq c max_threads w =
     (if max_threads = 0 then Inl Assertion_failed
      else if Elem c \<in> set (m_co_runq w) then Inl Assertion_failed
      else Inr (service_wakeup max_threads (w\<lparr>m_co_runq := m_co_runq w @ [Elem c]\<rparr>)))"

definition job_to_runq :: "addr \<Rightarrow> wq_world \<Rightarrow> wq_world" where
  "job_to_runq j w =
     (let a = job_wq (jobs w j); q = wqs w a;
          (act1, pq) = (if flag (m_type (jobs w j)) TYPE_PARALLEL
                        then link_back j (m_p_runq q) else (False, m_p_runq q));
          (act2, rq) = link_back j (m_runq q);
          w1 = upd_wq a (\<lambda>q. q\<lparr>m_p_runq := pq, m_runq := rq\<rparr>) w
      in if act1 \<or> act2 then wq_to_runq a w1 else w1)"

text \<open>\<open>unlock_run\<close> of a job; a \<open>co_runnable\<close> overrides it and does nothing for \<open>RUNNING\<close>.\<close>

definition job_unlock_run :: "job_lck \<Rightarrow> addr \<Rightarrow> wq_world \<Rightarrow> wq_world result" where
  "job_unlock_run rl j w = (case rl of
     JOB_BUSY \<Rightarrow> Inr w
   | JOB_RUNNING \<Rightarrow>
       if job_is_co (jobs w j) then Inr w
       else let s = m_state (jobs w j);
                w1 = upd_job j (\<lambda>o'. o'\<lparr>m_state := s AND NOT STATE_RUNNING\<rparr>) w
            in if \<not> flag s STATE_RUNNING then Inl Assertion_failed
               else if unlock_requeues (m_type (jobs w j)) s then Inr (job_to_runq j w1) else Inr w1)"

section \<open>Run locks\<close>

definition rl_is_locked :: "wq_run_lock \<Rightarrow> bool" where
  "rl_is_locked l \<longleftrightarrow> rl_job_lck l \<noteq> JOB_BUSY \<and> rl_job l \<noteq> None"

definition rl_wq_is_single :: "wq_run_lock \<Rightarrow> bool" where
  "rl_wq_is_single l \<longleftrightarrow> rl_wq l \<noteq> None \<and> rl_wq_lck l = RUN_SINGLE"

definition rl_commit :: "wq_run_lock \<Rightarrow> wq_run_lock result" where
  "rl_commit l = (if rl_is_locked l \<and> \<not> rl_commited l then Inr (l\<lparr>rl_commited := True\<rparr>) else Inl Assertion_failed)"

definition wq_release :: "ptr \<Rightarrow> wq_lck \<Rightarrow> wq_world \<Rightarrow> wq_world result" where
  "wq_release p lck w = (case p of
     None \<Rightarrow> Inr w
   | Some a \<Rightarrow> (case wq_unlock_run lck (wqs w a) of
       Inl e \<Rightarrow> Inl e | Inr q \<Rightarrow> Inr (upd_wq a (\<lambda>_. q) w)))"

definition rl_unlock :: "wq_run_lock \<Rightarrow> wq_world \<Rightarrow> (wq_run_lock \<times> wq_world) result" where
  "rl_unlock l w =
     (if rl_is_locked l \<and> \<not> rl_commited l then Inl Assertion_failed
      else case (case rl_job l of
                   None \<Rightarrow> Inr w
                 | Some j \<Rightarrow> if rl_job_lck l \<noteq> JOB_BUSY then job_unlock_run (rl_job_lck l) j w else Inr w) of
        Inl e \<Rightarrow> Inl e
      | Inr w1 \<Rightarrow> (case wq_release (rl_wq l) (rl_wq_lck l) w1 of
          Inl e \<Rightarrow> Inl e
        | Inr w2 \<Rightarrow>
            let w3 = when_ptr (\<lambda>c. upd_job c (\<lambda>o'. o'\<lparr>co_runcount := co_runcount o' - 1\<rparr>)) (rl_co l) w2
            in Inr (l\<lparr>rl_wq := None, rl_job := None, rl_co := None, rl_commited := False\<rparr>, w3)))"

definition rl_unlock_wq :: "wq_run_lock \<Rightarrow> wq_world \<Rightarrow> (wq_run_lock \<times> wq_world) result" where
  "rl_unlock_wq l w = (case wq_release (rl_wq l) (rl_wq_lck l) w of
     Inl e \<Rightarrow> Inl e | Inr w1 \<Rightarrow> Inr (l\<lparr>rl_wq := None\<rparr>, w1))"

text \<open>The search for a job that can run: jobs that are busy are dropped from the queue.\<close>

fun pop_runnable :: "addr list \<Rightarrow> (addr \<Rightarrow> workq_job) \<Rightarrow> ptr \<times> addr list \<times> (addr \<Rightarrow> workq_job)" where
  "pop_runnable [] js = (None, [], js)"
| "pop_runnable (a # rest) js = (case job_lock_run (js a) of
     (JOB_BUSY, _) \<Rightarrow> pop_runnable rest js
   | (JOB_RUNNING, j) \<Rightarrow> (Some a, rest, js(a := j)))"

definition erase :: "addr \<Rightarrow> addr list \<Rightarrow> addr list" where
  "erase a xs = removeAll a xs"

text \<open>\<open>lock\<close>; the flag tells whether a job was locked.\<close>

definition rl_lock_workq :: "addr \<Rightarrow> wq_world \<Rightarrow> (bool \<times> wq_run_lock \<times> wq_world) result" where
  "rl_lock_workq a w =
     (let (lck, q) = wq_lock_run (wqs w a);
          l = run_lock_init\<lparr>rl_wq := Some a, rl_wq_lck := lck\<rparr>;
          attempt = (case lck of
            RUN_SINGLE \<Rightarrow>
              (case pop_runnable (m_runq q) (jobs w) of
                 (None, rq, js) \<Rightarrow> Inr (l, q\<lparr>m_runq := rq\<rparr>, js)
               | (Some j, rq, js) \<Rightarrow>
                   let q1 = q\<lparr>m_runq := rq\<rparr>; l1 = l\<lparr>rl_job := Some j, rl_job_lck := JOB_RUNNING\<rparr>
                   in if flag (m_type (js j)) TYPE_PARALLEL
                      then (case wq_lock_run_downgrade lck (q1\<lparr>m_p_runq := erase j (m_p_runq q1)\<rparr>) of
                              Inl e \<Rightarrow> Inl e
                            | Inr (lck', q2) \<Rightarrow> Inr (l1\<lparr>rl_wq_lck := lck'\<rparr>, q2, js))
                      else Inr (l1, q1, js))
          | RUN_PARALLEL \<Rightarrow>
              (case pop_runnable (m_p_runq q) (jobs w) of
                 (None, pq, js) \<Rightarrow> Inr (l, q\<lparr>m_p_runq := pq\<rparr>, js)
               | (Some j, pq, js) \<Rightarrow>
                   Inr (l\<lparr>rl_job := Some j, rl_job_lck := JOB_RUNNING\<rparr>,
                        q\<lparr>m_p_runq := pq, m_runq := erase j (m_runq q)\<rparr>, js)))
      in case attempt of
           Inl e \<Rightarrow> Inl e
         | Inr (l', q', js) \<Rightarrow>
             let w1 = w\<lparr>jobs := js, wqs := (wqs w)(a := q')\<rparr>
             in if rl_is_locked l' then Inr (True, l', w1)
                else (case rl_unlock l' w1 of Inl e \<Rightarrow> Inl e | Inr (l2, w2) \<Rightarrow> Inr (False, l2, w2)))"

text \<open>\<open>lock\<close>.\<close>

definition rl_lock_job :: "addr \<Rightarrow> wq_world \<Rightarrow> (bool \<times> wq_run_lock \<times> wq_world) result" where
  "rl_lock_job j w =
     (let a = job_wq (jobs w j);
          want = (if flag (m_type (jobs w j)) TYPE_PARALLEL then RUN_PARALLEL else RUN_SINGLE);
          (lck, q) = (if want = RUN_PARALLEL then wq_lock_run_parallel (wqs w a) else wq_lock_run (wqs w a));
          l = run_lock_init\<lparr>rl_wq := Some a, rl_wq_lck := lck\<rparr>;
          w1 = upd_wq a (\<lambda>_. q) w;
          give_up = (\<lambda>l w. case rl_unlock l w of Inl e \<Rightarrow> Inl e | Inr (l2, w2) \<Rightarrow> Inr (False, l2, w2))
      in if lck \<noteq> want then give_up l w1
         else let (jl, job) = job_lock_run (jobs w j);
                  l1 = l\<lparr>rl_job := Some j, rl_job_lck := jl\<rparr>;
                  w2 = upd_job j (\<lambda>_. job) w1
              in if \<not> rl_is_locked l1 then give_up l1 w2
                 else Inr (True, l1, upd_wq a (\<lambda>q. q\<lparr>m_runq := erase j (m_runq q),
                        m_p_runq := (if flag (m_type job) TYPE_PARALLEL then erase j (m_p_runq q)
                                     else m_p_runq q)\<rparr>) w2))"

text \<open>
  \<open>lock_wq\<close> tries until it gets the level it wants: \<open>None\<close> when it waits for another thread.
\<close>

definition rl_lock_wq :: "addr \<Rightarrow> wq_lck \<Rightarrow> wq_run_lock \<Rightarrow> wq_world \<Rightarrow> (wq_run_lock \<times> wq_world) option result" where
  "rl_lock_wq a how l w =
     (if rl_wq l \<noteq> None then Inl Assertion_failed
      else let (lck, q) = (case how of RUN_SINGLE \<Rightarrow> wq_lock_run (wqs w a) | RUN_PARALLEL \<Rightarrow> wq_lock_run_parallel (wqs w a))
           in if lck = how then Inr (Some (l\<lparr>rl_wq := Some a, rl_wq_lck := lck\<rparr>, upd_wq a (\<lambda>_. q) w))
              else Inr None)"

definition rl_downgrade :: "wq_run_lock \<Rightarrow> wq_world \<Rightarrow> (wq_run_lock \<times> wq_world) result" where
  "rl_downgrade l w = (case rl_wq l of
     None \<Rightarrow> Inl Assertion_failed
   | Some a \<Rightarrow>
       if rl_wq_lck l \<noteq> RUN_SINGLE then Inl Assertion_failed
       else (case wq_lock_run_downgrade (rl_wq_lck l) (wqs w a) of
          Inl e \<Rightarrow> Inl e
        | Inr (_, q) \<Rightarrow> Inr (l\<lparr>rl_wq_lck := RUN_PARALLEL\<rparr>, upd_wq a (\<lambda>_. q) w)))"

section \<open>The stack of a thread\<close>

text \<open>\<open>wq_tls\<close>: the run locks of the jobs that the thread is inside of, the innermost first.\<close>

record wq_tls =
  tls_wqs :: ptr
  tls_stack :: "wq_run_lock list"

definition publish_wqs :: "addr \<Rightarrow> wq_tls \<Rightarrow> wq_tls result" where
  "publish_wqs a t = (if tls_wqs t \<noteq> None then Inl Publish_wqs_busy else Inr (t\<lparr>tls_wqs := Some a\<rparr>))"

definition unpublish_wqs :: "addr \<Rightarrow> wq_tls \<Rightarrow> wq_tls result" where
  "unpublish_wqs a t = (if tls_wqs t = Some a then Inr (t\<lparr>tls_wqs := None\<rparr>) else Inl Assertion_failed)"

definition tls_find_job :: "addr \<Rightarrow> wq_tls \<Rightarrow> bool" where
  "tls_find_job j t \<longleftrightarrow> list_ex (\<lambda>l. rl_job l = Some j) (tls_stack t)"

definition tls_push :: "wq_run_lock \<Rightarrow> wq_tls \<Rightarrow> wq_tls" where
  "tls_push l t = t\<lparr>tls_stack := l # tls_stack t\<rparr>"

definition tls_get_wq :: "wq_tls \<Rightarrow> ptr" where
  "tls_get_wq t = (case tls_stack t of [] \<Rightarrow> None | l # _ \<Rightarrow> rl_wq l)"

text \<open>A \<open>workq_pop_state\<close> is a work queue (or none) and a level.\<close>

type_synonym pop_state = "ptr \<times> wq_lck"

definition ps_is_single :: "pop_state \<Rightarrow> bool" where
  "ps_is_single p \<longleftrightarrow> fst p \<noteq> None \<and> snd p = RUN_SINGLE"

text \<open>\<open>None\<close> is a switch that waits for a lock that another thread holds.\<close>

definition workq_switch :: "pop_state \<Rightarrow> wq_tls \<Rightarrow> wq_world \<Rightarrow> (pop_state \<times> wq_tls \<times> wq_world) option result" where
  "workq_switch dst t w = (case tls_stack t of
     [] \<Rightarrow> Inl Workq_stack_error
   | lck # pred \<Rightarrow>
       let rv = (rl_wq lck, if rl_wq_is_single lck then RUN_SINGLE else RUN_PARALLEL);
           finish = (\<lambda>(l, w'). Inr (Some (rv, t\<lparr>tls_stack := l # pred\<rparr>, w')))
       in case fst dst of
            None \<Rightarrow> (case rl_unlock_wq lck w of Inl e \<Rightarrow> Inl e | Inr r \<Rightarrow> finish r)
          | Some a \<Rightarrow>
              if rl_wq lck = fst dst \<and> ps_is_single dst = rl_wq_is_single lck then finish (lck, w)
              else if rl_wq lck = fst dst \<and> \<not> ps_is_single dst
              then (case rl_downgrade lck w of Inl e \<Rightarrow> Inl e | Inr r \<Rightarrow> finish r)
              else if ps_is_single dst \<and> list_ex (\<lambda>s. rl_wq s = fst dst \<and> rl_wq_is_single s) pred
              then Inl Workq_deadlock
              else (case rl_unlock_wq lck w of
                      Inl e \<Rightarrow> Inl e
                    | Inr (l1, w1) \<Rightarrow>
                        (case rl_lock_wq a (if ps_is_single dst then RUN_SINGLE else RUN_PARALLEL) l1 w1 of
                           Inl e \<Rightarrow> Inl e
                         | Inr None \<Rightarrow> Inr None
                         | Inr (Some r) \<Rightarrow> finish r)))"

section \<open>Activation and running\<close>

text \<open>
  \<open>run\<close> of the jobs is an argument: what a job does to the stack of its thread and to the
  world. A job runs under its lock, which is on the stack meanwhile and released afterwards.
\<close>

type_synonym job_run = "addr \<Rightarrow> wq_tls \<Rightarrow> wq_world \<Rightarrow> (wq_tls \<times> wq_world) result"

definition run_locked :: "job_run \<Rightarrow> addr \<Rightarrow> wq_run_lock \<Rightarrow> wq_tls \<Rightarrow> wq_world \<Rightarrow> (wq_tls \<times> wq_world) result" where
  "run_locked run j l t w = (case rl_commit l of
     Inl e \<Rightarrow> Inl e
   | Inr l1 \<Rightarrow> (case run j (tls_push l1 t) w of
       Inl e \<Rightarrow> Inl e
     | Inr (t1, w1) \<Rightarrow> (case tls_stack t1 of
         [] \<Rightarrow> Inl Assertion_failed
       | l2 # rest \<Rightarrow> (case rl_unlock l2 w1 of
           Inl e \<Rightarrow> Inl e | Inr (_, w2) \<Rightarrow> Inr (t1\<lparr>tls_stack := rest\<rparr>, w2)))))"

definition job_activate :: "job_run \<Rightarrow> u32 \<Rightarrow> addr \<Rightarrow> wq_tls \<Rightarrow> wq_world \<Rightarrow> (wq_tls \<times> wq_world) result" where
  "job_activate run flags j t w =
     (let s = m_state (jobs w j);
          w1 = upd_job j (\<lambda>o'. o'\<lparr>m_state := s OR STATE_ACTIVE\<rparr>) w;
          w2 = (if activate_queues s then job_to_runq j w1 else w1)
      in if flag flags ACT_IMMED \<and> \<not> flag (m_type (jobs w j)) TYPE_NO_AID \<and>
            length (tls_stack t) < ACT_IMMED_MAX_STACK
         then (case rl_lock_job j w2 of
                 Inl e \<Rightarrow> Inl e
               | Inr (False, _, w3) \<Rightarrow> Inr (t, w3)
               | Inr (True, l, w3) \<Rightarrow> run_locked run j l t w3)
         else Inr (t, w2))"

text \<open>\<open>deactivate\<close>; \<open>None\<close> when it waits for the end of a run of another thread.\<close>

definition job_deactivate :: "addr \<Rightarrow> wq_tls \<Rightarrow> wq_world \<Rightarrow> wq_world option" where
  "job_deactivate j t w =
     (let s = m_state (jobs w j);
          w1 = upd_job j (\<lambda>o'. o'\<lparr>m_state := s AND NOT STATE_ACTIVE\<rparr>) w
      in if flag s STATE_RUNNING \<and> \<not> tls_find_job j t then None else Some w1)"

fun workq_aid :: "job_run \<Rightarrow> nat \<Rightarrow> nat \<Rightarrow> addr \<Rightarrow> wq_tls \<Rightarrow> wq_world \<Rightarrow> (bool \<times> wq_tls \<times> wq_world) result" where
  "workq_aid run i 0 a t w = Inr (0 < i, t, w)"
| "workq_aid run i (Suc left) a t w = (case rl_lock_workq a w of
     Inl e \<Rightarrow> Inl e
   | Inr (False, _, w1) \<Rightarrow> Inr (0 < i, t, w1)
   | Inr (True, l, w1) \<Rightarrow> (case rl_job l of
       None \<Rightarrow> Inl Assertion_failed
     | Some j \<Rightarrow> (case run_locked run j l t w1 of
         Inl e \<Rightarrow> Inl e | Inr (t2, w2) \<Rightarrow> workq_aid run (Suc i) left a t2 w2)))"

section \<open>Co-routine jobs\<close>

text \<open>A run lock for a thread that helps with a co-routine job.\<close>

definition rl_lock_co :: "addr \<Rightarrow> wq_world \<Rightarrow> wq_run_lock \<times> wq_world" where
  "rl_lock_co c w =
     (let a = job_wq (jobs w c); (lck, q) = wq_lock_run_parallel (wqs w a)
      in (run_lock_init\<lparr>rl_co := Some c, rl_wq := Some a, rl_wq_lck := lck\<rparr>,
          upd_wq a (\<lambda>_. q) (upd_job c (\<lambda>o'. o'\<lparr>co_runcount := co_runcount o' + 1\<rparr>) w)))"

definition rl_co_unlock :: "wq_run_lock \<Rightarrow> wq_world \<Rightarrow> (bool \<times> wq_run_lock \<times> wq_world) result" where
  "rl_co_unlock l w = (case rl_co l of
     None \<Rightarrow> Inl Assertion_failed
   | Some c \<Rightarrow>
       let old = co_runcount (jobs w c);
           w1 = upd_job c (\<lambda>o'. o'\<lparr>co_runcount := old - 1\<rparr>) w
       in (case rl_unlock (l\<lparr>rl_co := None\<rparr>) w1 of
             Inl e \<Rightarrow> Inl e | Inr (l2, w2) \<Rightarrow> Inr (old = 1, l2, w2)))"

text \<open>
  \<open>co_publish\<close>: the lock of the stack moves into the job (whose own lock must be empty), and the
  job to the service.
\<close>

definition co_publish :: "nat \<Rightarrow> addr \<Rightarrow> wq_tls \<Rightarrow> wq_world \<Rightarrow> (wq_tls \<times> wq_world) result" where
  "co_publish n c t w =
     (if n = 0 then Inr (t, w)
      else case tls_stack t of
        [] \<Rightarrow> Inl Assertion_failed
      | l # rest \<Rightarrow>
          if \<not> ((rl_job l = Some c \<or> rl_co l = Some c) \<and> (rl_is_locked l \<or> rl_co l = Some c))
          then Inl Assertion_failed
          else if rl_wq (co_rlck (jobs w c)) \<noteq> None \<or> rl_job (co_rlck (jobs w c)) \<noteq> None
          then Inl Assertion_failed
          else (case co_to_runq c n (upd_job c (\<lambda>o'. o'\<lparr>co_rlck := l, co_runcount := of_nat n\<rparr>) w) of
                  Inl e \<Rightarrow> Inl e
                | Inr w1 \<Rightarrow>
                    Inr (t\<lparr>tls_stack := l\<lparr>rl_wq := None, rl_job := None, rl_co := None\<rparr> # rest\<rparr>, w1)))"

text \<open>
  \<open>release\<close> takes the job off the list of the service; the last thread to leave takes the lock of
  the job back to its stack.
\<close>

definition co_release :: "addr \<Rightarrow> wq_run_lock \<Rightarrow> wq_world \<Rightarrow> (bool \<times> wq_run_lock \<times> wq_world) result" where
  "co_release c l w =
     (let w = w\<lparr>m_co_runq := removeAll (Elem c) (m_co_runq w)\<rparr>
      in if \<not> rl_is_locked (co_rlck (jobs w c)) then Inl Assertion_failed
         else case rl_co_unlock l w of
           Inl e \<Rightarrow> Inl e
         | Inr (True, _, w1) \<Rightarrow>
             Inr (True, co_rlck (jobs w1 c),
                  upd_job c (\<lambda>o'. o'\<lparr>co_rlck := (co_rlck o')\<lparr>rl_wq := None, rl_job := None, rl_co := None\<rparr>\<rparr>) w1)
         | Inr (False, l1, w1) \<Rightarrow> Inr (False, l1, w1))"

definition coroutine_job_ctor :: "ptr \<Rightarrow> bool list \<Rightarrow> u32 \<Rightarrow> workq_job result" where
  "coroutine_job_ctor wq fns type = (case workq_job_ctor wq type True of
     Inl e \<Rightarrow> Inl e
   | Inr j \<Rightarrow> if fns = [] then Inl Invalid_argument
              else if list_ex Not fns then Inl Invalid_argument
              else Inr (j\<lparr>co_size := length fns\<rparr>))"

definition job_single_ctor :: "ptr \<Rightarrow> bool \<Rightarrow> u32 \<Rightarrow> workq_job result" where
  "job_single_ctor wq fn type = (case workq_job_ctor wq type False of
     Inl e \<Rightarrow> Inl e | Inr j \<Rightarrow> if fn then Inr j else Inl Invalid_argument)"

text \<open>\<open>new_job\<close> for a vector of functions (each true when it is callable).\<close>

definition workq_new_job :: "ptr \<Rightarrow> bool list \<Rightarrow> u32 \<Rightarrow> workq_job result" where
  "workq_new_job wq fns type = (case fns of
     [] \<Rightarrow> Inl Invalid_argument
   | [fn] \<Rightarrow> job_single_ctor wq fn type
   | _ \<Rightarrow> coroutine_job_ctor wq fns type)"

section \<open>The bits of the state\<close>

lemma flag_simps [simp]:
  "flag (v OR STATE_ACTIVE) STATE_ACTIVE" "flag (v OR STATE_ACTIVE) STATE_RUNNING = flag v STATE_RUNNING"
  "flag (v AND NOT STATE_ACTIVE) STATE_RUNNING = flag v STATE_RUNNING"
  "\<not> flag (v AND NOT STATE_ACTIVE) STATE_ACTIVE"
  "\<not> flag (v AND NOT STATE_RUNNING) STATE_RUNNING"
  "flag (v AND NOT STATE_RUNNING) STATE_ACTIVE = flag v STATE_ACTIVE"
  "flag (v OR STATE_RUNNING) STATE_RUNNING"
  "flag (v OR STATE_RUNNING) STATE_ACTIVE = flag v STATE_ACTIVE"
  "\<not> flag 0 b"
proof -
  have ar: "STATE_ACTIVE AND STATE_RUNNING = 0" "STATE_RUNNING AND STATE_ACTIVE = 0"
    "NOT STATE_ACTIVE AND STATE_RUNNING = STATE_RUNNING" "NOT STATE_RUNNING AND STATE_ACTIVE = STATE_ACTIVE"
    and nz: "STATE_ACTIVE \<noteq> 0" "STATE_RUNNING \<noteq> 0"
    by (simp_all add: STATE_ACTIVE_def STATE_RUNNING_def)
  show "flag (v OR STATE_ACTIVE) STATE_ACTIVE"
    using nz by (simp add: flag_def bit.conj_disj_distrib2 or_eq_0_iff)
  show "flag (v OR STATE_ACTIVE) STATE_RUNNING = flag v STATE_RUNNING"
    using ar by (simp add: flag_def bit.conj_disj_distrib2)
  show "flag (v AND NOT STATE_ACTIVE) STATE_RUNNING = flag v STATE_RUNNING"
    using ar by (simp add: flag_def and.assoc)
  show "\<not> flag (v AND NOT STATE_ACTIVE) STATE_ACTIVE" by (simp add: flag_def and.assoc)
  show "\<not> flag (v AND NOT STATE_RUNNING) STATE_RUNNING" by (simp add: flag_def and.assoc)
  show "flag (v AND NOT STATE_RUNNING) STATE_ACTIVE = flag v STATE_ACTIVE"
    using ar by (simp add: flag_def and.assoc)
  show "flag (v OR STATE_RUNNING) STATE_RUNNING"
    using nz by (simp add: flag_def bit.conj_disj_distrib2 or_eq_0_iff)
  show "flag (v OR STATE_RUNNING) STATE_ACTIVE = flag v STATE_ACTIVE"
    using ar by (simp add: flag_def bit.conj_disj_distrib2)
  show "\<not> flag 0 b" by (simp add: flag_def)
qed

lemma activate_queues_iff: "activate_queues v \<longleftrightarrow> \<not> flag v STATE_RUNNING \<and> \<not> flag v STATE_ACTIVE"
  by (simp add: activate_queues_def flag_def bit.conj_disj_distrib or_eq_0_iff)

lemma lock_run_next_Some:
  "lock_run_next ty v = Some v' \<Longrightarrow>
     flag v STATE_ACTIVE \<and> \<not> flag v STATE_RUNNING \<and> flag v' STATE_RUNNING \<and>
     (flag v' STATE_ACTIVE \<longleftrightarrow> flag ty TYPE_PERSIST)"
  by (auto simp: lock_run_next_def Let_def split: if_splits)

lemma lock_run_next_None:
  "lock_run_next ty v = None \<Longrightarrow> \<not> flag ty TYPE_ONCE \<Longrightarrow> \<not> flag v STATE_ACTIVE \<or> flag v STATE_RUNNING"
  by (auto simp: lock_run_next_def Let_def split: if_splits)

end
