(* ===== verification/Workq_Conc.thy ===== *)
theory Workq_Conc
  imports Workq
begin

unbundle bit_operations_syntax

text \<open>
  The interleaved execution of work queues (\<open>src/workq.cc\<close>), one atomic operation per step, for
  any number of threads. The first machine is the pair \<open>m_run_single\<close>, \<open>m_run_parallel\<close> of a
  work queue; the second one is the state word of the jobs of a work queue with the list of
  jobs that are ready.
\<close>

section \<open>The levels of a work queue\<close>

text \<open>
  A thread holds nothing, holds a level, has failed to get \<open>m_run_single\<close> in \<open>lock_run\<close>, or is
  between the two atomic operations of \<open>lock_run_downgrade\<close>.
\<close>

datatype lv_pc = LV_Idle | LV_Single | LV_Trying | LV_Parallel | LV_Down

record 't levels =
  lv_single :: bool
  lv_parallel :: u32
  lv_pc :: "'t \<Rightarrow> lv_pc"

definition levels_init :: "'t levels" where
  "levels_init = \<lparr>lv_single = False, lv_parallel = 0, lv_pc = (\<lambda>_. LV_Idle)\<rparr>"

inductive lv_step :: "'t levels \<Rightarrow> 't levels \<Rightarrow> bool" where
  lv_lock: "lv_pc s t = LV_Idle \<Longrightarrow>
    lv_step s (s\<lparr>lv_single := True, lv_pc := (lv_pc s)(t := if lv_single s then LV_Trying else LV_Single)\<rparr>)"
| lv_lock_parallel: "lv_pc s t = LV_Idle \<or> lv_pc s t = LV_Trying \<Longrightarrow>
    lv_step s (s\<lparr>lv_parallel := lv_parallel s + 1, lv_pc := (lv_pc s)(t := LV_Parallel)\<rparr>)"
| lv_unlock_single: "lv_pc s t = LV_Single \<Longrightarrow>
    lv_step s (s\<lparr>lv_single := False, lv_pc := (lv_pc s)(t := LV_Idle)\<rparr>)"
| lv_unlock_parallel: "lv_pc s t = LV_Parallel \<Longrightarrow>
    lv_step s (s\<lparr>lv_parallel := lv_parallel s - 1, lv_pc := (lv_pc s)(t := LV_Idle)\<rparr>)"
| lv_down1: "lv_pc s t = LV_Single \<Longrightarrow>
    lv_step s (s\<lparr>lv_parallel := lv_parallel s + 1, lv_pc := (lv_pc s)(t := LV_Down)\<rparr>)"
| lv_down2: "lv_pc s t = LV_Down \<Longrightarrow>
    lv_step s (s\<lparr>lv_single := False, lv_pc := (lv_pc s)(t := LV_Parallel)\<rparr>)"

inductive lv_reachable :: "'t levels \<Rightarrow> bool" where
  lv_init: "lv_reachable levels_init"
| lv_next: "lv_reachable s \<Longrightarrow> lv_step s s' \<Longrightarrow> lv_reachable s'"

definition has_single :: "lv_pc \<Rightarrow> bool" where "has_single c \<longleftrightarrow> c = LV_Single \<or> c = LV_Down"
definition has_parallel :: "lv_pc \<Rightarrow> bool" where "has_parallel c \<longleftrightarrow> c = LV_Parallel \<or> c = LV_Down"

definition n_parallel :: "'t::finite levels \<Rightarrow> nat" where
  "n_parallel s = (\<Sum>t \<in> UNIV. if has_parallel (lv_pc s t) then 1 else 0)"

definition lv_inv :: "'t::finite levels \<Rightarrow> bool" where
  "lv_inv s \<longleftrightarrow> (lv_single s \<longleftrightarrow> (\<exists>t. has_single (lv_pc s t))) \<and>
     (\<forall>t u. has_single (lv_pc s t) \<longrightarrow> has_single (lv_pc s u) \<longrightarrow> t = u) \<and>
     lv_parallel s = of_nat (n_parallel s)"

lemma has_level_simps [simp]:
  "has_single LV_Single" "has_single LV_Down" "\<not> has_single LV_Idle" "\<not> has_single LV_Trying"
  "\<not> has_single LV_Parallel" "has_parallel LV_Parallel" "has_parallel LV_Down"
  "\<not> has_parallel LV_Idle" "\<not> has_parallel LV_Trying" "\<not> has_parallel LV_Single"
  by (simp_all add: has_single_def has_parallel_def)

lemma n_parallel_upd:
  "n_parallel (s\<lparr>lv_pc := (lv_pc s)(t := c)\<rparr>) + (if has_parallel (lv_pc s t) then 1 else 0) =
   n_parallel s + (if has_parallel c then 1 else 0)"
  unfolding n_parallel_def
  using sum_change_one [of t "\<lambda>u. if has_parallel (((lv_pc s)(t := c)) u) then 1 else 0"
      "\<lambda>u. if has_parallel (lv_pc s u) then 1 else 0"] by simp

lemma n_parallel_eq [simp]:
  "n_parallel (s\<lparr>lv_single := b\<rparr>) = n_parallel s" "n_parallel (s\<lparr>lv_parallel := n\<rparr>) = n_parallel s"
  "n_parallel (s\<lparr>lv_single := b, lv_pc := f\<rparr>) = n_parallel (s\<lparr>lv_pc := f\<rparr>)"
  "n_parallel (s\<lparr>lv_parallel := n, lv_pc := f\<rparr>) = n_parallel (s\<lparr>lv_pc := f\<rparr>)"
  by (simp_all add: n_parallel_def)

lemma lv_inv_stay:
  assumes "lv_inv s" and "\<And>u. has_single (lv_pc s' u) = has_single (lv_pc s u)"
    and "lv_single s' = lv_single s" and "lv_parallel s' = of_nat (n_parallel s')"
  shows "lv_inv s'"
  using assms by (simp add: lv_inv_def)

lemma lv_step_inv:
  assumes "lv_step s s'" and "lv_inv s"
  shows "lv_inv s'"
proof -
  have sg: "lv_single s \<longleftrightarrow> (\<exists>t. has_single (lv_pc s t))"
    and un: "\<And>t u. has_single (lv_pc s t) \<Longrightarrow> has_single (lv_pc s u) \<Longrightarrow> t = u"
    and np: "lv_parallel s = of_nat (n_parallel s)"
    using assms(2) by (auto simp: lv_inv_def)
  show ?thesis
    using assms(1)
  proof cases
    case (lv_lock t)
    show ?thesis
    proof (cases "lv_single s")
      case True
      then show ?thesis
        using lv_lock np n_parallel_upd [of s t LV_Trying]
        by (intro lv_inv_stay [OF assms(2)]) auto
    next
      case False
      then show ?thesis
        using lv_lock sg np n_parallel_upd [of s t LV_Single] by (auto simp: lv_inv_def)
    qed
  next
    case (lv_lock_parallel t)
    then show ?thesis
      using np n_parallel_upd [of s t LV_Parallel] by (intro lv_inv_stay [OF assms(2)]) auto
  next
    case (lv_unlock_single t)
    then have "\<not> has_single (lv_pc s u)" if "u \<noteq> t" for u using un [of t u] that by auto
    then show ?thesis
      using lv_unlock_single np n_parallel_upd [of s t LV_Idle] by (auto simp: lv_inv_def)
  next
    case (lv_unlock_parallel t)
    have "n_parallel s = Suc (n_parallel (s\<lparr>lv_pc := (lv_pc s)(t := LV_Idle)\<rparr>))"
      using n_parallel_upd [of s t LV_Idle] lv_unlock_parallel by simp
    then have "of_nat (n_parallel (s\<lparr>lv_pc := (lv_pc s)(t := LV_Idle)\<rparr>)) = lv_parallel s - (1 :: u32)"
      using np by simp
    then show ?thesis using lv_unlock_parallel by (intro lv_inv_stay [OF assms(2)]) auto
  next
    case (lv_down1 t)
    then show ?thesis
      using np n_parallel_upd [of s t LV_Down] by (intro lv_inv_stay [OF assms(2)]) auto
  next
    case (lv_down2 t)
    then have "\<not> has_single (lv_pc s u)" if "u \<noteq> t" for u using un [of t u] that by auto
    then show ?thesis
      using lv_down2 np n_parallel_upd [of s t LV_Parallel] by (auto simp: lv_inv_def)
  qed
qed

lemma lv_reachable_inv: "lv_reachable s \<Longrightarrow> lv_inv s"
proof (induction rule: lv_reachable.induct)
  case lv_init
  show ?case by (simp add: lv_inv_def levels_init_def n_parallel_def)
qed (rule lv_step_inv)

text \<open>
  C6. A work queue is run at level single by one thread at most, whatever the threads lock,
  unlock and downgrade: \<open>m_run_single\<close> is set exactly while some thread holds that level,
  \<open>m_run_parallel\<close> is the number of threads at level parallel, so the assertions of
  \<open>unlock_run\<close> hold, and so do those of the destructor when no thread holds a level.
\<close>

theorem workq_levels_exclusive:
  assumes "lv_reachable (s :: 't::finite levels)" and "card (UNIV :: 't set) < 2 ^ 32"
  shows "(has_single (lv_pc s t) \<and> has_single (lv_pc s u) \<longrightarrow> t = u) \<and>
    (lv_single s \<longleftrightarrow> (\<exists>t. has_single (lv_pc s t))) \<and>
    unat (lv_parallel s) = card {t. has_parallel (lv_pc s t)} \<and>
    (has_parallel (lv_pc s t) \<longrightarrow> 0 < lv_parallel s)"
proof -
  have inv: "lv_inv s" by (rule lv_reachable_inv [OF assms(1)])
  have n: "n_parallel s = card {t. has_parallel (lv_pc s t)}"
    by (simp add: n_parallel_def sum.If_cases Collect_conj_eq)
  have "card {t. has_parallel (lv_pc s t)} \<le> card (UNIV :: 't set)" by (rule card_mono) auto
  then have u: "unat (lv_parallel s) = card {t. has_parallel (lv_pc s t)}"
    using inv assms(2) n by (simp add: lv_inv_def unat_of_nat_exact)
  have "0 < unat (lv_parallel s)" if "has_parallel (lv_pc s t)"
    unfolding u using that by (auto simp: card_gt_0_iff)
  then have p: "has_parallel (lv_pc s t) \<longrightarrow> 0 < lv_parallel s" by (simp add: word_less_nat_alt)
  show ?thesis using inv u p by (simp add: lv_inv_def)
qed

theorem workq_levels_exclusive_witness:
  "\<exists>s :: bool levels. lv_reachable s \<and> lv_pc s True = LV_Single \<and> lv_pc s False = LV_Parallel \<and>
     unat (lv_parallel s) = card {t. has_parallel (lv_pc s t)}"
proof -
  let ?s1 = "levels_init\<lparr>lv_single := True, lv_pc := (\<lambda>_. LV_Idle)(True := LV_Single)\<rparr>"
  let ?s2 = "?s1\<lparr>lv_pc := (lv_pc ?s1)(False := LV_Trying)\<rparr>"
  let ?s3 = "?s2\<lparr>lv_parallel := 1, lv_pc := (lv_pc ?s2)(False := LV_Parallel)\<rparr>"
  have "lv_step (levels_init :: bool levels) ?s1"
    using lv_lock [of levels_init True] by (simp add: levels_init_def)
  moreover have "lv_step ?s1 ?s2" using lv_lock [of ?s1 False] by (simp add: levels_init_def)
  moreover have "lv_step ?s2 ?s3"
    using lv_lock_parallel [of ?s2 False] by (simp add: levels_init_def)
  ultimately have r: "lv_reachable ?s3" by (blast intro: lv_init lv_next)
  then show ?thesis
    using workq_levels_exclusive [OF r] by (intro exI [of _ ?s3]) simp
qed

section \<open>The state of the jobs\<close>

text \<open>
  The places of a thread: about to call \<open>job_to_runq\<close> (in \<open>activate\<close> or \<open>unlock_run\<close>); in
  \<open>lock_run\<close> of a job taken off the queue, before the load and with the value loaded; after
  the exchange, before \<open>m_run_gen\<close> is raised; running the job; in \<open>deactivate\<close>, with the
  generation read, and in its waiting loop.
\<close>

datatype 'j job_pc =
  J_Idle
| J_Link 'j
| J_Popped 'j
| J_Loaded 'j u32
| J_Gen 'j
| J_Run 'j
| J_DGen 'j u32
| J_DWait 'j u32 u32

text \<open>
  \<open>js_type\<close> is \<open>m_type\<close> of the jobs. \<open>js_wanted\<close> follows the history: whether the job was
  activated and has neither started nor been deactivated since.
\<close>

record ('j, 't) jobs_state =
  js_type :: "'j \<Rightarrow> u32"
  js_state :: "'j \<Rightarrow> u32"
  js_gen :: "'j \<Rightarrow> u32"
  js_runq :: "'j list"
  js_pc :: "'t \<Rightarrow> 'j job_pc"
  js_wanted :: "'j \<Rightarrow> bool"

definition jobs_init :: "('j \<Rightarrow> u32) \<Rightarrow> ('j, 't) jobs_state" where
  "jobs_init ty = \<lparr>js_type = ty, js_state = (\<lambda>_. 0), js_gen = (\<lambda>_. 0), js_runq = [],
     js_pc = (\<lambda>_. J_Idle), js_wanted = (\<lambda>_. False)\<rparr>"

definition jgoto :: "'t \<Rightarrow> 'j job_pc \<Rightarrow> ('j, 't) jobs_state \<Rightarrow> ('j, 't) jobs_state" where
  "jgoto t c s = s\<lparr>js_pc := (js_pc s)(t := c)\<rparr>"

definition jset :: "'j \<Rightarrow> u32 \<Rightarrow> ('j, 't) jobs_state \<Rightarrow> ('j, 't) jobs_state" where
  "jset j v s = s\<lparr>js_state := (js_state s)(j := v)\<rparr>"

definition jwant :: "'j \<Rightarrow> bool \<Rightarrow> ('j, 't) jobs_state \<Rightarrow> ('j, 't) jobs_state" where
  "jwant j b s = s\<lparr>js_wanted := (js_wanted s)(j := b)\<rparr>"

lemma jobs_sel [simp]:
  "js_type (jgoto t c s) = js_type s" "js_state (jgoto t c s) = js_state s"
  "js_runq (jgoto t c s) = js_runq s" "js_wanted (jgoto t c s) = js_wanted s"
  "js_pc (jgoto t c s) = (js_pc s)(t := c)" "js_gen (jgoto t c s) = js_gen s"
  "js_type (jset j v s) = js_type s" "js_state (jset j v s) = (js_state s)(j := v)"
  "js_runq (jset j v s) = js_runq s" "js_wanted (jset j v s) = js_wanted s"
  "js_pc (jset j v s) = js_pc s" "js_gen (jset j v s) = js_gen s"
  "js_type (jwant j b s) = js_type s" "js_state (jwant j b s) = js_state s"
  "js_runq (jwant j b s) = js_runq s" "js_wanted (jwant j b s) = (js_wanted s)(j := b)"
  "js_pc (jwant j b s) = js_pc s" "js_gen (jwant j b s) = js_gen s"
  by (simp_all add: jgoto_def jset_def jwant_def)

inductive job_step :: "('j, 't) jobs_state \<Rightarrow> ('j, 't) jobs_state \<Rightarrow> bool" where
  \<comment> \<open>\<open>activate\<close>\<close>
  js_activate: "js_pc s t = J_Idle \<Longrightarrow>
    job_step s (jgoto t (if activate_queues (js_state s j) then J_Link j else J_Idle)
      (jwant j True (jset j (js_state s j OR STATE_ACTIVE) s)))"
| js_link: "js_pc s t = J_Link j \<Longrightarrow>
    job_step s (jgoto t J_Idle (if j \<in> set (js_runq s) then s else s\<lparr>js_runq := js_runq s @ [j]\<rparr>))"
  \<comment> \<open>take a job and lock it\<close>
| js_pop: "js_pc s t = J_Idle \<Longrightarrow> js_runq s = j # rest \<Longrightarrow>
    job_step s (jgoto t (J_Popped j) (s\<lparr>js_runq := rest\<rparr>))"
| js_load: "js_pc s t = J_Popped j \<Longrightarrow> job_step s (jgoto t (J_Loaded j (js_state s j)) s)"
| js_busy: "js_pc s t = J_Loaded j v \<Longrightarrow> lock_run_next (js_type s j) v = None \<Longrightarrow>
    job_step s (jgoto t J_Idle s)"
| js_locked: "js_pc s t = J_Loaded j v \<Longrightarrow> lock_run_next (js_type s j) v = Some v' \<Longrightarrow> js_state s j = v \<Longrightarrow>
    job_step s (jgoto t (J_Gen j) (jwant j False (jset j v' s)))"
| js_retry: "js_pc s t = J_Loaded j v \<Longrightarrow> lock_run_next (js_type s j) v \<noteq> None \<Longrightarrow>
    job_step s (jgoto t (J_Loaded j (js_state s j)) s)"
| js_gen: "js_pc s t = J_Gen j \<Longrightarrow>
    job_step s (jgoto t (J_Run j) (s\<lparr>js_gen := (js_gen s)(j := js_gen s j + 1)\<rparr>))"
  \<comment> \<open>\<open>unlock_run\<close>\<close>
| js_unlock: "js_pc s t = J_Run j \<Longrightarrow>
    job_step s (jgoto t (if unlock_requeues (js_type s j) (js_state s j) then J_Link j else J_Idle)
      (jset j (js_state s j AND NOT STATE_RUNNING) s))"
  \<comment> \<open>\<open>deactivate\<close>\<close>
| js_dgen: "js_pc s t = J_Idle \<Longrightarrow> job_step s (jgoto t (J_DGen j (js_gen s j)) s)"
| js_deactivate: "js_pc s t = J_DGen j g \<Longrightarrow>
    job_step s (jgoto t (J_DWait j g (js_state s j))
      (jwant j False (jset j (js_state s j AND NOT STATE_ACTIVE) s)))"
| js_dwait: "js_pc s t = J_DWait j g v \<Longrightarrow> flag v STATE_RUNNING \<Longrightarrow> g = js_gen s j \<Longrightarrow>
    job_step s (jgoto t (J_DWait j g (js_state s j)) s)"
| js_dreturn: "js_pc s t = J_DWait j g v \<Longrightarrow> \<not> (flag v STATE_RUNNING \<and> g = js_gen s j) \<Longrightarrow>
    job_step s (jgoto t J_Idle s)"

inductive jobs_reachable :: "('j \<Rightarrow> u32) \<Rightarrow> ('j, 't) jobs_state \<Rightarrow> bool" for ty where
  jr_init: "jobs_reachable ty (jobs_init ty)"
| jr_next: "jobs_reachable ty s \<Longrightarrow> job_step s s' \<Longrightarrow> jobs_reachable ty s'"

end
