(* ===== verification/Workq_Jobs.thy ===== *)
theory Workq_Jobs
  imports Workq_Conc
begin

unbundle bit_operations_syntax

text \<open>
  What holds of the jobs of a work queue, in every interleaving of the machine of \<open>Workq_Conc\<close>:
  a job runs once at a time and no activation is lost. The last section has the run in which
  \<open>deactivate\<close> returns while the job is running.
\<close>

section \<open>The invariant\<close>

fun runs_job :: "'j job_pc \<Rightarrow> 'j \<Rightarrow> bool" where
  "runs_job (J_Gen i) j \<longleftrightarrow> i = j"
| "runs_job (J_Run i) j \<longleftrightarrow> i = j"
| "runs_job _ j \<longleftrightarrow> False"

text \<open>Threads that will put the job on the queue, or will lock it.\<close>

fun owes :: "u32 \<Rightarrow> 'j job_pc \<Rightarrow> 'j \<Rightarrow> bool" where
  "owes ty (J_Link i) j \<longleftrightarrow> i = j"
| "owes ty (J_Popped i) j \<longleftrightarrow> i = j"
| "owes ty (J_Loaded i v) j \<longleftrightarrow> i = j \<and> lock_run_next ty v \<noteq> None"
| "owes ty _ j \<longleftrightarrow> False"

definition ready :: "u32 \<Rightarrow> bool" where
  "ready v \<longleftrightarrow> flag v STATE_ACTIVE \<and> \<not> flag v STATE_RUNNING"

definition owed :: "('j, 't) jobs_state \<Rightarrow> 'j \<Rightarrow> bool" where
  "owed s j \<longleftrightarrow> j \<in> set (js_runq s) \<or> (\<exists>t. owes (js_type s j) (js_pc s t) j)"

definition running_ok :: "('j, 't) jobs_state \<Rightarrow> bool" where
  "running_ok s \<longleftrightarrow>
     (\<forall>j. flag (js_state s j) STATE_RUNNING \<longleftrightarrow> (\<exists>t. runs_job (js_pc s t) j)) \<and>
     (\<forall>j t u. runs_job (js_pc s t) j \<longrightarrow> runs_job (js_pc s u) j \<longrightarrow> t = u)"

definition queued_ok :: "('j, 't) jobs_state \<Rightarrow> bool" where
  "queued_ok s \<longleftrightarrow> (\<forall>j. ready (js_state s j) \<longrightarrow> \<not> flag (js_type s j) TYPE_ONCE \<longrightarrow> owed s j)"

definition wanted_ok :: "('j, 't) jobs_state \<Rightarrow> bool" where
  "wanted_ok s \<longleftrightarrow> (\<forall>j. js_wanted s j \<longrightarrow> flag (js_state s j) STATE_ACTIVE)"

definition jobs_inv :: "('j \<Rightarrow> u32) \<Rightarrow> ('j, 't) jobs_state \<Rightarrow> bool" where
  "jobs_inv ty s \<longleftrightarrow> js_type s = ty \<and> distinct (js_runq s) \<and> running_ok s \<and> queued_ok s \<and> wanted_ok s"

lemma jobs_inv_init: "jobs_inv ty (jobs_init ty)"
  by (simp add: jobs_inv_def jobs_init_def running_ok_def queued_ok_def wanted_ok_def ready_def)

lemma running_ok_stay:
  assumes "running_ok s"
    and "\<And>j. flag (js_state s' j) STATE_RUNNING = flag (js_state s j) STATE_RUNNING"
    and "\<And>t j. runs_job (js_pc s' t) j = runs_job (js_pc s t) j"
  shows "running_ok s'"
  using assms by (simp add: running_ok_def)

lemma running_unique:
  "running_ok s \<Longrightarrow> runs_job (js_pc s t) j \<Longrightarrow> runs_job (js_pc s u) j \<Longrightarrow> u = t"
  unfolding running_ok_def by metis

lemma running_ok_start:
  assumes "running_ok s" and "\<not> flag (js_state s j) STATE_RUNNING"
    and "\<And>i. flag (js_state s' i) STATE_RUNNING = (i = j \<or> flag (js_state s i) STATE_RUNNING)"
    and "\<And>u i. runs_job (js_pc s' u) i = (if u = t then i = j else runs_job (js_pc s u) i)"
    and "\<And>i. \<not> runs_job (js_pc s t) i"
  shows "running_ok s'"
proof -
  have no: "\<not> runs_job (js_pc s u) j" for u using assms(1,2) by (auto simp: running_ok_def)
  have "flag (js_state s' i) STATE_RUNNING \<longleftrightarrow> (\<exists>u. runs_job (js_pc s' u) i)" for i
    using assms(1,5) unfolding assms(3,4) running_ok_def by metis
  moreover have "u = v" if "runs_job (js_pc s' u) i" "runs_job (js_pc s' v) i" for i u v
    using that no running_unique [OF assms(1)] unfolding assms(4) by (metis (full_types))
  ultimately show ?thesis by (auto simp: running_ok_def)
qed

lemma running_ok_end:
  assumes "running_ok s" and "runs_job (js_pc s t) j" and "\<And>i. runs_job (js_pc s t) i = (i = j)"
    and "\<And>i. flag (js_state s' i) STATE_RUNNING = (i \<noteq> j \<and> flag (js_state s i) STATE_RUNNING)"
    and "\<And>u i. runs_job (js_pc s' u) i = (u \<noteq> t \<and> runs_job (js_pc s u) i)"
  shows "running_ok s'"
proof -
  have "flag (js_state s' i) STATE_RUNNING \<longleftrightarrow> (\<exists>u. runs_job (js_pc s' u) i)" for i
    using assms(1-3) running_unique [OF assms(1,2)] unfolding assms(4,5) running_ok_def by metis
  moreover have "u = v" if "runs_job (js_pc s' u) i" "runs_job (js_pc s' v) i" for i u v
    using that running_unique [OF assms(1)] unfolding assms(5) by metis
  ultimately show ?thesis by (auto simp: running_ok_def)
qed

lemma step_running:
  assumes "job_step s s'" and "running_ok s"
  shows "running_ok s'"
  using assms(1)
proof cases
  case (js_locked t j v v')
  then show ?thesis
    using lock_run_next_Some [OF js_locked(3)]
    by (intro running_ok_start [OF assms(2), of j _ t]) auto
next
  case (js_unlock t j)
  then show ?thesis
    by (intro running_ok_end [OF assms(2), of t j]) auto
qed (intro running_ok_stay [OF assms(2)]; auto)+

lemma queued_ok_keep:
  assumes "queued_ok s" and "js_type s' = js_type s"
    and "\<And>j. ready (js_state s' j) \<Longrightarrow> owed s' j \<or> flag (js_type s j) TYPE_ONCE \<or>
      (ready (js_state s j) \<and> (owed s j \<longrightarrow> owed s' j))"
  shows "queued_ok s'"
  using assms unfolding queued_ok_def by metis

lemma owedI:
  "j \<in> set (js_runq s) \<Longrightarrow> owed s j" "owes (js_type s j) (js_pc s t) j \<Longrightarrow> owed s j"
  by (auto simp: owed_def)

lemma owed_mono:
  assumes "owed s j" and "js_type s' = js_type s"
    and "j \<in> set (js_runq s) \<Longrightarrow> owed s' j"
    and "\<And>t. owes (js_type s j) (js_pc s t) j \<Longrightarrow> owed s' j"
  shows "owed s' j"
  using assms by (auto simp: owed_def)

text \<open>A step of thread \<open>t\<close> that owed nothing.\<close>

lemma owed_other:
  assumes "owed s j" and "js_type s' = js_type s" and "set (js_runq s) \<subseteq> set (js_runq s')"
    and "\<not> owes (js_type s j) (js_pc s t) j" and "\<And>u. u \<noteq> t \<Longrightarrow> js_pc s' u = js_pc s u"
  shows "owed s' j"
  using assms unfolding owed_def by (metis subsetD)

lemma queued_ok_other:
  assumes "queued_ok s" and "js_type s' = js_type s" and "set (js_runq s) \<subseteq> set (js_runq s')"
    and "\<And>j. ready (js_state s' j) \<Longrightarrow> ready (js_state s j)"
    and "\<And>j. \<not> owes (js_type s j) (js_pc s t) j" and "\<And>u. u \<noteq> t \<Longrightarrow> js_pc s' u = js_pc s u"
  shows "queued_ok s'"
  by (rule queued_ok_keep [OF assms(1,2)]) (use assms(4) owed_other [OF _ assms(2,3,5,6)] in blast)

lemma ready_next: "ready v \<Longrightarrow> \<not> flag ty TYPE_ONCE \<Longrightarrow> lock_run_next ty v \<noteq> None"
  using lock_run_next_None by (auto simp: ready_def)

lemma step_queued:
  assumes "job_step s s'" and "queued_ok s"
  shows "queued_ok s'"
  using assms(1)
proof cases
  case (js_activate t j)
  show ?thesis
  proof (rule queued_ok_keep [OF assms(2)])
    fix i assume r: "ready (js_state s' i)"
    show "owed s' i \<or> flag (js_type s i) TYPE_ONCE \<or> ready (js_state s i) \<and> (owed s i \<longrightarrow> owed s' i)"
    proof (cases "i = j \<and> activate_queues (js_state s j)")
      case True
      then have "owed s' i" using js_activate by (intro owedI(2) [of _ _ t]) simp
      then show ?thesis by blast
    next
      case False
      then have "ready (js_state s i)"
        using r js_activate(1) by (auto simp: ready_def activate_queues_iff split: if_splits)
      moreover have "owed s i \<longrightarrow> owed s' i"
        by (intro impI owed_other [of s i s' t]) (use js_activate in simp_all)
      ultimately show ?thesis by blast
    qed
  qed (simp add: js_activate)
next
  case (js_link t j)
  show ?thesis
  proof (rule queued_ok_keep [OF assms(2)])
    fix i assume r: "ready (js_state s' i)"
    have "owed s' j" using js_link by (intro owedI(1)) auto
    moreover have "i \<noteq> j \<Longrightarrow> owed s i \<longrightarrow> owed s' i"
      by (intro impI owed_other [of s i s' t]) (use js_link in auto)
    moreover have "ready (js_state s i)" using r js_link by (simp split: if_splits)
    ultimately show "owed s' i \<or> flag (js_type s i) TYPE_ONCE \<or> ready (js_state s i) \<and> (owed s i \<longrightarrow> owed s' i)"
      by blast
  qed (simp add: js_link)
next
  case (js_pop t j rest)
  show ?thesis
  proof (rule queued_ok_keep [OF assms(2)])
    fix i assume r: "ready (js_state s' i)"
    have "owed s' j" using js_pop by (intro owedI(2) [of _ _ t]) simp
    moreover have "i \<noteq> j \<Longrightarrow> owed s i \<longrightarrow> owed s' i"
    proof (intro impI, erule owed_mono)
      fix u assume "owes (js_type s i) (js_pc s u) i"
      then show "owed s' i" using js_pop by (intro owedI(2) [of _ _ u]) auto
    qed (use js_pop in \<open>auto intro: owedI(1)\<close>)
    moreover have "ready (js_state s i)" using r js_pop by simp
    ultimately show "owed s' i \<or> flag (js_type s i) TYPE_ONCE \<or> ready (js_state s i) \<and> (owed s i \<longrightarrow> owed s' i)"
      by blast
  qed (simp add: js_pop)
next
  case (js_load t j)
  show ?thesis
  proof (rule queued_ok_keep [OF assms(2)])
    fix i assume r: "ready (js_state s' i)"
    have "owed s' i" if "i = j" "\<not> flag (js_type s i) TYPE_ONCE"
      using ready_next [of "js_state s j" "js_type s j"] that js_load r by (intro owedI(2) [of _ _ t]) simp
    moreover have "i \<noteq> j \<Longrightarrow> owed s i \<longrightarrow> owed s' i"
      by (intro impI owed_other [of s i s' t]) (use js_load in simp_all)
    moreover have "ready (js_state s i)" using r js_load by simp
    ultimately show "owed s' i \<or> flag (js_type s i) TYPE_ONCE \<or> ready (js_state s i) \<and> (owed s i \<longrightarrow> owed s' i)"
      by blast
  qed (simp add: js_load)
next
  case (js_retry t j v)
  show ?thesis
  proof (rule queued_ok_keep [OF assms(2)])
    fix i assume r: "ready (js_state s' i)"
    have "owed s' i" if "i = j" "\<not> flag (js_type s i) TYPE_ONCE"
      using ready_next [of "js_state s j" "js_type s j"] that js_retry r by (intro owedI(2) [of _ _ t]) simp
    moreover have "i \<noteq> j \<Longrightarrow> owed s i \<longrightarrow> owed s' i"
      by (intro impI owed_other [of s i s' t]) (use js_retry in simp_all)
    moreover have "ready (js_state s i)" using r js_retry by simp
    ultimately show "owed s' i \<or> flag (js_type s i) TYPE_ONCE \<or> ready (js_state s i) \<and> (owed s i \<longrightarrow> owed s' i)"
      by blast
  qed (simp add: js_retry)
next
  case (js_busy t j v)
  then show ?thesis by (intro queued_ok_other [OF assms(2), of _ t]) auto
next
  case (js_locked t j v v')
  show ?thesis
  proof (rule queued_ok_keep [OF assms(2)])
    fix i assume r: "ready (js_state s' i)"
    then have "i \<noteq> j" using lock_run_next_Some [OF js_locked(3)] js_locked(1) by (auto simp: ready_def)
    then show "owed s' i \<or> flag (js_type s i) TYPE_ONCE \<or> ready (js_state s i) \<and> (owed s i \<longrightarrow> owed s' i)"
      using r js_locked(1) owed_other [of s i s' t] js_locked by auto
  qed (simp add: js_locked)
next
  case (js_unlock t j)
  show ?thesis
  proof (rule queued_ok_keep [OF assms(2)])
    fix i assume r: "ready (js_state s' i)"
    have "owed s' i" if "i = j" "\<not> flag (js_type s i) TYPE_ONCE"
      using that js_unlock r by (intro owedI(2) [of _ _ t]) (simp add: unlock_requeues_def ready_def)
    moreover have "i \<noteq> j \<Longrightarrow> owed s i \<longrightarrow> owed s' i"
      by (intro impI owed_other [of s i s' t]) (use js_unlock in simp_all)
    moreover have "i \<noteq> j \<Longrightarrow> ready (js_state s i)" using r js_unlock by simp
    ultimately show "owed s' i \<or> flag (js_type s i) TYPE_ONCE \<or> ready (js_state s i) \<and> (owed s i \<longrightarrow> owed s' i)"
      by blast
  qed (simp add: js_unlock)
next
  case (js_deactivate t j g)
  then show ?thesis
    by (intro queued_ok_other [OF assms(2), of _ t]) (auto simp: ready_def split: if_splits)
next
  case (js_gen t j)
  then show ?thesis by (intro queued_ok_other [OF assms(2), of _ t]) auto
next
  case (js_dgen t j)
  then show ?thesis by (intro queued_ok_other [OF assms(2), of _ t]) auto
next
  case (js_dwait t j g v)
  then show ?thesis by (intro queued_ok_other [OF assms(2), of _ t]) auto
next
  case (js_dreturn t j g v)
  then show ?thesis by (intro queued_ok_other [OF assms(2), of _ t]) auto
qed

lemma step_wanted:
  assumes "job_step s s'" and "wanted_ok s"
  shows "wanted_ok s'"
  using assms
  by (induction rule: job_step.induct) (auto simp: wanted_ok_def split: if_splits)

lemma step_distinct:
  assumes "job_step s s'" and "distinct (js_runq s)"
  shows "js_type s' = js_type s \<and> distinct (js_runq s')"
  using assms by (induction rule: job_step.induct) auto

lemma jobs_reachable_inv: "jobs_reachable ty s \<Longrightarrow> jobs_inv ty s"
proof (induction rule: jobs_reachable.induct)
  case jr_init
  show ?case by (rule jobs_inv_init)
next
  case (jr_next s s')
  then show ?case
    using step_running step_queued step_wanted step_distinct unfolding jobs_inv_def by metis
qed

section \<open>Runs with one job and two threads\<close>

text \<open>The state word, the generation, the queue, the places of the threads and what is wanted.\<close>

definition one_job ::
    "u32 \<Rightarrow> u32 \<Rightarrow> u32 \<Rightarrow> unit list \<Rightarrow> unit job_pc \<Rightarrow> unit job_pc \<Rightarrow> bool \<Rightarrow> (unit, bool) jobs_state" where
  "one_job ty v g q c1 c2 wt = \<lparr>js_type = (\<lambda>_. ty), js_state = (\<lambda>_. v), js_gen = (\<lambda>_. g), js_runq = q,
     js_pc = (\<lambda>b. if b then c1 else c2), js_wanted = (\<lambda>_. wt)\<rparr>"

lemma one_job_sel [simp]:
  "js_type (one_job ty v g q c1 c2 wt) = (\<lambda>_. ty)" "js_state (one_job ty v g q c1 c2 wt) = (\<lambda>_. v)"
  "js_gen (one_job ty v g q c1 c2 wt) = (\<lambda>_. g)" "js_runq (one_job ty v g q c1 c2 wt) = q"
  "js_pc (one_job ty v g q c1 c2 wt) b = (if b then c1 else c2)"
  "js_wanted (one_job ty v g q c1 c2 wt) = (\<lambda>_. wt)"
  by (simp_all add: one_job_def)

lemma one_job_upd [simp]:
  "jgoto True c (one_job ty v g q c1 c2 wt) = one_job ty v g q c c2 wt"
  "jgoto False c (one_job ty v g q c1 c2 wt) = one_job ty v g q c1 c wt"
  "jset j v' (one_job ty v g q c1 c2 wt) = one_job ty v' g q c1 c2 wt"
  "jwant j b (one_job ty v g q c1 c2 wt) = one_job ty v g q c1 c2 b"
  "js_runq_update (\<lambda>_. q') (one_job ty v g q c1 c2 wt) = one_job ty v g q' c1 c2 wt"
  "js_gen_update (\<lambda>_ _. g') (one_job ty v g q c1 c2 wt) = one_job ty v g' q c1 c2 wt"
  by (auto simp: one_job_def jgoto_def jset_def jwant_def)

lemma one_job_init: "jobs_init (\<lambda>_. ty) = one_job ty 0 0 [] J_Idle J_Idle False"
  by (simp add: jobs_init_def one_job_def)

lemma one_job_start: "jobs_reachable (\<lambda>_. ty) (one_job ty 0 0 [] J_Idle J_Idle False)"
  unfolding one_job_init [symmetric] by (rule jr_init)

lemma unit_fun_upd [simp]: "f(() := x) = (\<lambda>_. x)"
  by auto

lemmas state_bits = flag_def STATE_ACTIVE_def STATE_RUNNING_def STATE_HAS_RUN_def
lemmas type_bits = TYPE_ONCE_def TYPE_PERSIST_def

text \<open>The steps of thread \<open>True\<close> from an activation to the running job.\<close>

lemma one_job_activated:
  assumes "jobs_reachable (\<lambda>_. ty) (one_job ty v g [] J_Idle J_Idle wt)"
    and "\<not> flag v STATE_RUNNING" "\<not> flag v STATE_ACTIVE"
  shows "jobs_reachable (\<lambda>_. ty) (one_job ty (v OR STATE_ACTIVE) g [()] J_Idle J_Idle True)"
proof -
  let ?s1 = "one_job ty (v OR STATE_ACTIVE) g [] (J_Link ()) J_Idle True"
  have "job_step (one_job ty v g [] J_Idle J_Idle wt) ?s1"
    using js_activate [of "one_job ty v g [] J_Idle J_Idle wt" True "()"] assms(2,3)
    by (simp add: activate_queues_iff)
  with assms(1) have "jobs_reachable (\<lambda>_. ty) ?s1" by (rule jr_next)
  moreover have "job_step ?s1 (one_job ty (v OR STATE_ACTIVE) g [()] J_Idle J_Idle True)"
    using js_link [of ?s1 True "()"] by simp
  ultimately show ?thesis by (rule jr_next)
qed

lemma one_job_locked:
  assumes "jobs_reachable (\<lambda>_. ty) (one_job ty v g [()] J_Idle c2 wt)" and "lock_run_next ty v = Some v'"
  shows "jobs_reachable (\<lambda>_. ty) (one_job ty v' g [] (J_Gen ()) c2 False)"
proof -
  let ?s1 = "one_job ty v g [] (J_Popped ()) c2 wt" and ?s2 = "one_job ty v g [] (J_Loaded () v) c2 wt"
  have "job_step (one_job ty v g [()] J_Idle c2 wt) ?s1"
    using js_pop [of "one_job ty v g [()] J_Idle c2 wt" True "()" "[]"] by simp
  moreover have "job_step ?s1 ?s2" using js_load [of ?s1 True "()"] by simp
  moreover have "job_step ?s2 (one_job ty v' g [] (J_Gen ()) c2 False)"
    using js_locked [of ?s2 True "()" v v'] assms(2) by simp
  ultimately show ?thesis using assms(1) by (blast intro: jr_next)
qed

lemma one_job_runs:
  assumes "jobs_reachable (\<lambda>_. ty) (one_job ty v g q (J_Gen ()) c2 wt)"
  shows "jobs_reachable (\<lambda>_. ty) (one_job ty v (g + 1) q (J_Run ()) c2 wt)"
  using jr_next [OF assms js_gen [of _ True "()"]] by simp

text \<open>An active job that is queued, of the default type.\<close>

lemma queued_reachable: "jobs_reachable (\<lambda>_. 0) (one_job 0 4 0 [()] J_Idle J_Idle True)"
  using one_job_activated [OF one_job_start [of 0]] by (simp add: STATE_ACTIVE_def)

lemma running_reachable: "jobs_reachable (\<lambda>_. 0) (one_job 0 1 1 [] (J_Run ()) J_Idle False)"
  using one_job_runs [OF one_job_locked [OF queued_reachable, of 1]]
  by (simp add: lock_run_next_def state_bits type_bits Let_def)

section \<open>What holds of jobs\<close>

text \<open>
  C5. A job runs once at a time: in every interleaving of activations, deactivations and runs
  by any number of threads, \<open>STATE_RUNNING\<close> is set exactly while some thread runs the job, and
  only one thread does (parallel and persistent jobs included).
\<close>

theorem job_runs_once_at_a_time:
  assumes "jobs_reachable ty s"
  shows "(runs_job (js_pc s t) j \<and> runs_job (js_pc s u) j \<longrightarrow> t = u) \<and>
    (flag (js_state s j) STATE_RUNNING \<longleftrightarrow> (\<exists>t. runs_job (js_pc s t) j))"
  using jobs_reachable_inv [OF assms] by (auto simp: jobs_inv_def running_ok_def)

theorem job_runs_once_at_a_time_witness:
  "flag (js_state (one_job 0 1 1 [] (J_Run ()) J_Idle False) ()) STATE_RUNNING"
  using job_runs_once_at_a_time [OF running_reachable, of True "()" True] by (auto intro: exI [of _ True])

text \<open>
  C4. No activation is lost: a job (not of \<open>TYPE_ONCE\<close>) that was activated and has neither
  started nor been deactivated since is running, on the queue, or about to be queued or locked
  by some thread; so when all threads are back, it is on the queue.
\<close>

theorem no_lost_activation:
  assumes "jobs_reachable ty s" and "js_wanted s j" and "\<not> flag (ty j) TYPE_ONCE"
  shows "((\<exists>t. runs_job (js_pc s t) j) \<or> j \<in> set (js_runq s) \<or> (\<exists>t. owes (ty j) (js_pc s t) j)) \<and>
    ((\<forall>t. js_pc s t = J_Idle) \<longrightarrow> j \<in> set (js_runq s))"
proof -
  have inv: "js_type s = ty" "running_ok s" "queued_ok s" "wanted_ok s"
    using jobs_reachable_inv [OF assms(1)] by (auto simp: jobs_inv_def)
  have "flag (js_state s j) STATE_ACTIVE" using inv(4) assms(2) by (simp add: wanted_ok_def)
  then have "(\<exists>t. runs_job (js_pc s t) j) \<or> owed s j"
    using inv(1-3) assms(3) by (auto simp: running_ok_def queued_ok_def ready_def)
  then have "(\<exists>t. runs_job (js_pc s t) j) \<or> j \<in> set (js_runq s) \<or> (\<exists>t. owes (ty j) (js_pc s t) j)"
    using inv(1) by (simp add: owed_def)
  then show ?thesis by auto
qed

theorem no_lost_activation_witness:
  "() \<in> set (js_runq (one_job 0 4 0 [()] J_Idle J_Idle True))"
  using no_lost_activation [OF queued_reachable, of "()"] by (simp add: type_bits flag_def)

section \<open>Where the code departs from its promise\<close>

text \<open>
  \<open>m_run_gen\<close> is raised after the job is marked as running. When \<open>deactivate\<close> reads the
  generation in between, it sees it change and returns while the job runs.
\<close>

lemma deactivate_returns_while_running:
  "\<exists>g. jobs_reachable (\<lambda>_. 0) (one_job 0 1 1 [] (J_Run ()) (J_DWait () g 1) False) \<and>
    job_step (one_job 0 1 1 [] (J_Run ()) (J_DWait () g 1) False) (one_job 0 1 1 [] (J_Run ()) J_Idle False)"
proof -
  let ?s1 = "one_job 0 1 0 [] (J_Gen ()) J_Idle False"
  let ?s2 = "one_job 0 1 0 [] (J_Gen ()) (J_DGen () 0) False"
  let ?s3 = "one_job 0 1 0 [] (J_Gen ()) (J_DWait () 0 1) False"
  let ?s4 = "one_job 0 1 1 [] (J_Run ()) (J_DWait () 0 1) False"
  have "jobs_reachable (\<lambda>_. 0) ?s1"
    using one_job_locked [OF queued_reachable, of 1]
    by (simp add: lock_run_next_def state_bits type_bits Let_def)
  moreover have "job_step ?s1 ?s2" using js_dgen [of ?s1 False "()"] by simp
  moreover have "job_step ?s2 ?s3"
    using js_deactivate [of ?s2 False "()" 0] by (simp add: STATE_ACTIVE_def)
  moreover have "job_step ?s3 ?s4" using js_gen [of ?s3 True "()"] by simp
  moreover have "job_step ?s4 (one_job 0 1 1 [] (J_Run ()) J_Idle False)"
    using js_dreturn [of ?s4 False "()" 0 1] by simp
  ultimately show ?thesis by (blast intro: jr_next)
qed

text \<open>\<open>STATE_HAS_RUN\<close> is never set, so a job of \<open>TYPE_ONCE\<close> that is activated again runs again.\<close>

lemma once_job_runs_twice:
  "jobs_reachable (\<lambda>_. TYPE_ONCE) (one_job TYPE_ONCE 1 2 [] (J_Run ()) J_Idle False)"
proof -
  have l: "lock_run_next TYPE_ONCE 4 = Some 1"
    by (simp add: lock_run_next_def state_bits type_bits Let_def)
  have "jobs_reachable (\<lambda>_. TYPE_ONCE) (one_job TYPE_ONCE 4 0 [()] J_Idle J_Idle True)"
    using one_job_activated [OF one_job_start [of TYPE_ONCE]] by (simp add: STATE_ACTIVE_def)
  from one_job_runs [OF one_job_locked [OF this l]]
  have "jobs_reachable (\<lambda>_. TYPE_ONCE) (one_job TYPE_ONCE 1 1 [] (J_Run ()) J_Idle False)" by simp
  moreover have "job_step (one_job TYPE_ONCE 1 1 [] (J_Run ()) J_Idle False)
      (one_job TYPE_ONCE 0 1 [] J_Idle J_Idle False)"
    using js_unlock [of "one_job TYPE_ONCE 1 1 [] (J_Run ()) J_Idle False" True "()"]
    by (simp add: unlock_requeues_def state_bits type_bits)
  ultimately have "jobs_reachable (\<lambda>_. TYPE_ONCE) (one_job TYPE_ONCE 0 1 [] J_Idle J_Idle False)"
    by (rule jr_next)
  from one_job_activated [OF this]
  have "jobs_reachable (\<lambda>_. TYPE_ONCE) (one_job TYPE_ONCE 4 1 [()] J_Idle J_Idle True)"
    by (simp add: STATE_ACTIVE_def)
  from one_job_runs [OF one_job_locked [OF this l]] show ?thesis by simp
qed

end
