(* ===== verification/Workq_Props.thy ===== *)
theory Workq_Props
  imports Workq
begin

unbundle bit_operations_syntax

text \<open>
  What holds of run locks, of \<open>workq_switch\<close> and of co-routine jobs, without interference.
\<close>

section \<open>Run locks\<close>

lemma pop_runnable_None: "pop_runnable xs js = (None, rest, js') \<Longrightarrow> rest = [] \<and> js' = js"
  by (induction xs js rule: pop_runnable.induct) (auto split: prod.splits job_lck.splits)

lemma pop_runnable_Some:
  "pop_runnable xs js = (Some j, rest, js') \<Longrightarrow>
     \<exists>pre o'. xs = pre @ j # rest \<and> job_lock_run (js j) = (JOB_RUNNING, o') \<and> js' = js(j := o')"
proof (induction xs js rule: pop_runnable.induct)
  case (2 a rest' js)
  obtain lck o' where l: "job_lock_run (js a) = (lck, o')" by (cases "job_lock_run (js a)")
  show ?case
  proof (cases lck)
    case JOB_RUNNING
    then show ?thesis using l 2(2) by (auto intro: exI [of _ "[]"])
  next
    case JOB_BUSY
    then have "pop_runnable rest' js = (Some j, rest, js')" using l 2(2) by simp
    from 2(1) [OF l [symmetric] JOB_BUSY this] obtain pre o2 where
      "rest' = pre @ j # rest" "job_lock_run (js j) = (JOB_RUNNING, o2)" "js' = js(j := o2)" by blast
    then show ?thesis by (intro exI [of _ "a # pre"]) simp
  qed
qed simp

lemma job_locked_running:
  "job_lock_run o1 = (JOB_RUNNING, o2) \<Longrightarrow> job_is_running o2 \<and> m_type o2 = m_type o1"
  by (auto simp: job_lock_run_def job_is_running_def dest: lock_run_next_Some split: option.splits)

text \<open>
  C28. \<open>lock\<close> of a work queue takes a job that can run together with the right level: a parallel
  job is run at level parallel, any other job at level single, so never beside another thread
  at that level; the job is marked as running and off the queues. When there is no such job, all
  that was taken is given back.
\<close>

theorem run_lock_takes_right_level:
  assumes "list_all (\<lambda>j. flag (m_type (jobs w j)) TYPE_PARALLEL) (m_p_runq (wqs w a))"
    and "distinct (m_runq (wqs w a))" and "unat (m_run_parallel (wqs w a)) + 1 < 2 ^ 32"
  shows "case rl_lock_workq a w of
     Inl e \<Rightarrow> False
   | Inr (True, l, w') \<Rightarrow> (\<exists>j. rl_wq l = Some a \<and> rl_job l = Some j \<and> job_is_running (jobs w' j) \<and>
       j \<notin> set (m_runq (wqs w' a)) \<and>
       rl_wq_lck l = (if flag (m_type (jobs w j)) TYPE_PARALLEL then RUN_PARALLEL else RUN_SINGLE) \<and>
       (if flag (m_type (jobs w j)) TYPE_PARALLEL
        then m_run_single (wqs w' a) = m_run_single (wqs w a) \<and>
          m_run_parallel (wqs w' a) = m_run_parallel (wqs w a) + 1
        else \<not> m_run_single (wqs w a) \<and> m_run_single (wqs w' a) \<and>
          m_run_parallel (wqs w' a) = m_run_parallel (wqs w a)))
   | Inr (False, l, w') \<Rightarrow> rl_wq l = None \<and> rl_job l = None \<and> jobs w' = jobs w \<and>
       m_run_single (wqs w' a) = m_run_single (wqs w a) \<and>
       m_run_parallel (wqs w' a) = m_run_parallel (wqs w a)"
proof -
  have par: "0 < m_run_parallel (wqs w a) + 1"
    using assms(3) unat_inc [of "m_run_parallel (wqs w a)"] by (simp add: word_less_nat_alt)
  show ?thesis
  proof (cases "m_run_single (wqs w a)")
    case False
    obtain p rq js where pop: "pop_runnable (m_runq (wqs w a)) (jobs w) = (p, rq, js)"
      by (cases "pop_runnable (m_runq (wqs w a)) (jobs w)")
    show ?thesis
    proof (cases p)
      case None
      with pop_runnable_None [of "m_runq (wqs w a)" "jobs w" rq js] pop have "rq = []" "js = jobs w" by auto
      with None pop False show ?thesis
        by (simp add: rl_lock_workq_def wq_lock_run_def Let_def rl_is_locked_def rl_unlock_def
            run_lock_init_def wq_release_def wq_unlock_run_def upd_wq_def)
    next
      case (Some j)
      with pop_runnable_Some [of "m_runq (wqs w a)" "jobs w" j rq js] pop obtain pre o' where
        j: "m_runq (wqs w a) = pre @ j # rq" "job_lock_run (jobs w j) = (JOB_RUNNING, o')" "js = (jobs w)(j := o')"
        by auto
      have "j \<notin> set rq" using assms(2) j(1) by simp
      with Some pop False j(3) job_locked_running [OF j(2)] show ?thesis
        by (simp add: rl_lock_workq_def wq_lock_run_def Let_def rl_is_locked_def run_lock_init_def
            wq_lock_run_downgrade_def)
    qed
  next
    case True
    obtain p pq js where pop: "pop_runnable (m_p_runq (wqs w a)) (jobs w) = (p, pq, js)"
      by (cases "pop_runnable (m_p_runq (wqs w a)) (jobs w)")
    show ?thesis
    proof (cases p)
      case None
      with pop_runnable_None [of "m_p_runq (wqs w a)" "jobs w" pq js] pop have "pq = []" "js = jobs w" by auto
      with None pop True par show ?thesis
        by (simp add: rl_lock_workq_def wq_lock_run_def Let_def rl_is_locked_def rl_unlock_def
            run_lock_init_def wq_release_def wq_unlock_run_def upd_wq_def)
    next
      case (Some j)
      with pop_runnable_Some [of "m_p_runq (wqs w a)" "jobs w" j pq js] pop obtain pre o' where
        j: "m_p_runq (wqs w a) = pre @ j # pq" "job_lock_run (jobs w j) = (JOB_RUNNING, o')" "js = (jobs w)(j := o')"
        by auto
      have "flag (m_type (jobs w j)) TYPE_PARALLEL" using assms(1) j(1) by simp
      with Some pop True j(3) job_locked_running [OF j(2)] show ?thesis
        by (simp add: rl_lock_workq_def wq_lock_run_def Let_def rl_is_locked_def run_lock_init_def erase_def)
    qed
  qed
qed

text \<open>Two jobs on the work queue 1: the plain job 10, which is not active, and the parallel job 11.\<close>

definition two_jobs :: wq_world where
  "two_jobs = \<lparr>jobs = (\<lambda>j. \<lparr>m_type = (if j = 11 then TYPE_PARALLEL else 0), m_run_gen = 0,
       m_state = (if j = 11 then STATE_ACTIVE else 0), job_wq = 1, job_is_co = False, co_runcount = 0,
       co_rlck = run_lock_init, co_idx = 0, co_size = 0\<rparr>),
     wqs = (\<lambda>_. workq_init\<lparr>m_runq := [10, 11], m_p_runq := [11]\<rparr>), m_wq_runq = [Elem 1],
     m_co_runq = [], wakeup_cb = None, wakeups = []\<rparr>"

theorem run_lock_takes_right_level_witness:
  "\<exists>l w'. rl_lock_workq 1 two_jobs = Inr (True, l, w') \<and> rl_job l = Some 11 \<and>
     rl_wq_lck l = RUN_PARALLEL \<and> m_run_single (wqs w' 1) = m_run_single (wqs two_jobs 1)"
proof -
  have t: "flag TYPE_PARALLEL TYPE_PARALLEL" "flag STATE_ACTIVE STATE_ACTIVE"
    "\<not> flag STATE_ACTIVE STATE_RUNNING" "\<not> flag 0 STATE_ACTIVE"
    "\<not> flag TYPE_PARALLEL TYPE_ONCE" "\<not> flag TYPE_PARALLEL TYPE_PERSIST"
    by (simp_all add: flag_def TYPE_PARALLEL_def TYPE_ONCE_def TYPE_PERSIST_def STATE_ACTIVE_def STATE_RUNNING_def)
  obtain l w' where r: "rl_lock_workq 1 two_jobs = Inr (True, l, w')" "rl_job l = Some 11"
    by (simp add: two_jobs_def rl_lock_workq_def wq_lock_run_def workq_init_def job_lock_run_def
        lock_run_next_def wq_lock_run_downgrade_def rl_is_locked_def run_lock_init_def erase_def t Let_def)
  have "list_all (\<lambda>j. flag (m_type (jobs two_jobs j)) TYPE_PARALLEL) (m_p_runq (wqs two_jobs 1))"
    "distinct (m_runq (wqs two_jobs 1))" "unat (m_run_parallel (wqs two_jobs 1)) + 1 < 2 ^ 32"
    by (simp_all add: two_jobs_def workq_init_def t)
  from run_lock_takes_right_level [OF this] r t show ?thesis
    by (simp add: two_jobs_def split: if_splits)
qed

section \<open>Switching work queues\<close>

text \<open>The level that a run lock names is held.\<close>

definition level_held :: "wq_run_lock \<Rightarrow> wq_world \<Rightarrow> bool" where
  "level_held l w \<longleftrightarrow> (case rl_wq l of
     None \<Rightarrow> True
   | Some a \<Rightarrow> (case rl_wq_lck l of
       RUN_SINGLE \<Rightarrow> m_run_single (wqs w a) | RUN_PARALLEL \<Rightarrow> 0 < m_run_parallel (wqs w a)))"

text \<open>
  From \<open>w\<close> to \<open>w'\<close> the level \<open>old\<close> of a work queue was given back and the level \<open>new\<close> taken;
  everything else is as before.
\<close>

definition levels_moved :: "pop_state \<Rightarrow> pop_state \<Rightarrow> wq_world \<Rightarrow> wq_world \<Rightarrow> bool" where
  "levels_moved old new w w' \<longleftrightarrow>
     jobs w' = jobs w \<and> m_wq_runq w' = m_wq_runq w \<and> m_co_runq w' = m_co_runq w \<and>
     wakeup_cb w' = wakeup_cb w \<and> wakeups w' = wakeups w \<and>
     (\<forall>q. m_runq (wqs w' q) = m_runq (wqs w q) \<and> m_p_runq (wqs w' q) = m_p_runq (wqs w q) \<and>
        (m_run_single (wqs w' q) \<longleftrightarrow>
           new = (Some q, RUN_SINGLE) \<or> m_run_single (wqs w q) \<and> old \<noteq> (Some q, RUN_SINGLE)) \<and>
        m_run_parallel (wqs w' q) + (if old = (Some q, RUN_PARALLEL) then 1 else 0) =
          m_run_parallel (wqs w q) + (if new = (Some q, RUN_PARALLEL) then 1 else 0))"

text \<open>The level that a run lock holds, as a \<open>workq_pop_state\<close>.\<close>

definition lock_level :: "wq_run_lock \<Rightarrow> pop_state" where
  "lock_level l = (rl_wq l, if rl_wq_is_single l then RUN_SINGLE else RUN_PARALLEL)"

lemma lock_level_eq:
  "lock_level l = (Some q, RUN_SINGLE) \<longleftrightarrow> rl_wq l = Some q \<and> rl_wq_lck l = RUN_SINGLE"
  "lock_level l = (Some q, RUN_PARALLEL) \<longleftrightarrow> rl_wq l = Some q \<and> rl_wq_lck l = RUN_PARALLEL"
  by (cases "rl_wq_lck l"; auto simp: lock_level_def rl_wq_is_single_def)+

lemma unlock_moves:
  assumes "level_held l w"
  shows "\<exists>w'. rl_unlock_wq l w = Inr (l\<lparr>rl_wq := None\<rparr>, w') \<and> levels_moved (lock_level l) (None, x) w w'"
proof (cases "rl_wq l")
  case None
  then show ?thesis by (simp add: rl_unlock_wq_def wq_release_def levels_moved_def lock_level_def)
next
  case (Some a)
  then show ?thesis
    using assms
    by (cases "rl_wq_lck l")
      (auto simp: rl_unlock_wq_def wq_release_def levels_moved_def lock_level_eq level_held_def
        wq_unlock_run_def upd_wq_def)
qed

lemma lock_moves:
  assumes "rl_wq l = None"
  shows "case rl_lock_wq a how l w of
     Inl e \<Rightarrow> False
   | Inr None \<Rightarrow> how = RUN_SINGLE \<and> m_run_single (wqs w a)
   | Inr (Some (l', w')) \<Rightarrow> l' = l\<lparr>rl_wq := Some a, rl_wq_lck := how\<rparr> \<and>
       levels_moved (None, x) (Some a, how) w w' \<and> (how = RUN_SINGLE \<longrightarrow> \<not> m_run_single (wqs w a))"
  using assms
  by (cases how)
    (auto simp: rl_lock_wq_def wq_lock_run_def wq_lock_run_parallel_def levels_moved_def upd_wq_def Let_def)

lemma levels_moved_trans:
  assumes "levels_moved old (None, x) w w1" and "levels_moved (None, y) new w1 w2"
  shows "levels_moved old new w w2"
  using assms by (auto simp: levels_moved_def)

lemma downgrade_moves:
  assumes "level_held l w" "rl_wq l = Some a" "rl_wq_lck l = RUN_SINGLE"
  shows "\<exists>w'. rl_downgrade l w = Inr (l\<lparr>rl_wq_lck := RUN_PARALLEL\<rparr>, w') \<and>
     levels_moved (lock_level l) (Some a, RUN_PARALLEL) w w'"
  using assms
  by (auto simp: rl_downgrade_def wq_lock_run_downgrade_def level_held_def levels_moved_def lock_level_def
      rl_wq_is_single_def upd_wq_def Let_def)

text \<open>
  C29. \<open>workq_switch\<close> replaces the level of the innermost frame and no other, and returns the
  level that it replaced. In the work queues it gives this level back (\<open>m_run_single\<close> is cleared or
  \<open>m_run_parallel\<close> lowered by one) and takes the new one, and changes nothing else. It throws
  \<open>workq_deadlock\<close> only when single is asked for on a work queue that an outer frame of the same
  thread holds at that level, and does so unless the frame has that very level; it waits only when
  single is asked for on a work queue that somebody else holds at that level.
\<close>

theorem workq_switch_effect:
  assumes "tls_stack t = lck # pred" and "level_held lck w"
  shows "let deadlock = ps_is_single dst \<and> list_ex (\<lambda>s. rl_wq s = fst dst \<and> rl_wq_is_single s) pred \<and>
      lock_level lck \<noteq> dst
    in case workq_switch dst t w of
     Inl e \<Rightarrow> e = Workq_deadlock \<and> deadlock
   | Inr None \<Rightarrow> \<not> deadlock \<and> ps_is_single dst \<and> lock_level lck \<noteq> dst \<and>
       (\<exists>a. fst dst = Some a \<and> m_run_single (wqs w a))
   | Inr (Some (old, t', w')) \<Rightarrow> \<not> deadlock \<and> old = lock_level lck \<and>
       levels_moved old dst w w' \<and>
       (\<exists>l'. t' = t\<lparr>tls_stack := l' # pred\<rparr> \<and> rl_wq l' = fst dst \<and>
          rl_wq_is_single l' = ps_is_single dst \<and> rl_job l' = rl_job lck)"
proof -
  obtain p how where dst: "dst = (p, how)" by force
  note rv = lock_level_def [of lck, symmetric]
  show ?thesis
  proof (cases p)
    case None
    obtain w' where w': "rl_unlock_wq lck w = Inr (lck\<lparr>rl_wq := None\<rparr>, w')"
      "levels_moved (lock_level lck) dst w w'" using unlock_moves [OF assms(2), of how] dst None by blast
    then have "workq_switch dst t w =
        Inr (Some (lock_level lck, t\<lparr>tls_stack := lck\<lparr>rl_wq := None\<rparr> # pred\<rparr>, w'))"
      using assms(1) dst None by (simp add: workq_switch_def rv Let_def)
    moreover have "\<not> ps_is_single dst" using dst None by (simp add: ps_is_single_def)
    ultimately show ?thesis
      using w'(2) dst None by (auto simp: rl_wq_is_single_def intro!: exI [of _ "lck\<lparr>rl_wq := None\<rparr>"])
  next
    case (Some a)
    obtain w1 where u: "rl_unlock_wq lck w = Inr (lck\<lparr>rl_wq := None\<rparr>, w1)"
      "levels_moved (lock_level lck) (None, how) w w1"
      using unlock_moves [OF assms(2)] by blast
    have sg: "ps_is_single dst \<longleftrightarrow> how = RUN_SINGLE" using dst Some by (simp add: ps_is_single_def)
    consider (same) "lock_level lck = dst" | (down) "rl_wq lck = Some a" "rl_wq_lck lck = RUN_SINGLE" "how = RUN_PARALLEL"
      | (move) "lock_level lck \<noteq> dst" "\<not> (rl_wq lck = Some a \<and> how = RUN_PARALLEL)"
      using dst Some lock_level_eq [of lck a] by (cases how; cases "rl_wq_lck lck") auto
    then show ?thesis
    proof cases
      case same
      then have "rl_wq lck = Some a" "rl_wq_is_single lck = ps_is_single dst"
        using dst Some sg by (auto simp: lock_level_def split: if_splits)
      moreover from this have "workq_switch dst t w = Inr (Some (lock_level lck, t\<lparr>tls_stack := lck # pred\<rparr>, w))"
        using assms(1) dst Some by (simp add: workq_switch_def lock_level_def Let_def)
      moreover have "levels_moved dst dst w w"
        using assms(2) same Some dst lock_level_eq [of lck a]
        by (cases how) (auto simp: levels_moved_def level_held_def)
      ultimately show ?thesis using same dst Some by (auto intro!: exI [of _ lck])
    next
      case down
      obtain w2 where d: "rl_downgrade lck w = Inr (lck\<lparr>rl_wq_lck := RUN_PARALLEL\<rparr>, w2)"
        "levels_moved (lock_level lck) dst w w2"
        using downgrade_moves [OF assms(2) down(1,2)] dst Some down(3) by blast
      moreover have "\<not> ps_is_single dst" "rl_wq_is_single lck"
        using sg down by (simp_all add: rl_wq_is_single_def)
      moreover from this have "workq_switch dst t w =
          Inr (Some (lock_level lck, t\<lparr>tls_stack := lck\<lparr>rl_wq_lck := RUN_PARALLEL\<rparr> # pred\<rparr>, w2))"
        using assms(1) dst Some down d(1) by (simp add: workq_switch_def lock_level_def Let_def)
      ultimately show ?thesis
        using dst Some down(1)
        by (auto simp: rl_wq_is_single_def intro!: exI [of _ "lck\<lparr>rl_wq_lck := RUN_PARALLEL\<rparr>"])
    next
      case move
      let ?dead = "how = RUN_SINGLE \<and> list_ex (\<lambda>s. rl_wq s = Some a \<and> rl_wq_is_single s) pred"
      have "\<not> (rl_wq lck = Some a \<and> ps_is_single dst = rl_wq_is_single lck)"
        using move dst Some sg by (cases how; cases "rl_wq_lck lck") (auto simp: lock_level_def rl_wq_is_single_def)
      then have s: "workq_switch dst t w =
          (if ?dead then Inl Workq_deadlock
           else case rl_lock_wq a how (lck\<lparr>rl_wq := None\<rparr>) w1 of
             Inl e \<Rightarrow> Inl e | Inr None \<Rightarrow> Inr None
           | Inr (Some (l, w')) \<Rightarrow> Inr (Some (lock_level lck, t\<lparr>tls_stack := l # pred\<rparr>, w')))"
        using move dst Some assms(1) u(1) sg
        by (cases how) (auto simp: workq_switch_def rv Let_def split: sum.splits option.splits)
      have ms: "m_run_single (wqs w1 a) \<Longrightarrow> m_run_single (wqs w a)" using u(2) by (simp add: levels_moved_def)
      show ?thesis
      proof (cases ?dead)
        case True
        then show ?thesis using s move(1) dst Some sg by (simp add: Let_def)
      next
        case False
        consider "rl_lock_wq a how (lck\<lparr>rl_wq := None\<rparr>) w1 = Inr None" "how = RUN_SINGLE" "m_run_single (wqs w1 a)"
          | w2 where "rl_lock_wq a how (lck\<lparr>rl_wq := None\<rparr>) w1 =
              Inr (Some (lck\<lparr>rl_wq := Some a, rl_wq_lck := how\<rparr>, w2))" "levels_moved (None, how) dst w1 w2"
          using lock_moves [where l = "lck\<lparr>rl_wq := None\<rparr>" and a = a and how = how and w = w1 and x = how] dst Some
          by (auto split: sum.splits option.splits)
        then show ?thesis
        proof cases
          case 1
          then show ?thesis using s False move(1) dst Some sg ms by (simp add: Let_def)
        next
          case (2 w2)
          then have "workq_switch dst t w = Inr (Some (lock_level lck,
              t\<lparr>tls_stack := lck\<lparr>rl_wq := Some a, rl_wq_lck := how\<rparr> # pred\<rparr>, w2))"
            using s False by simp
          then show ?thesis
            using levels_moved_trans [OF u(2) 2(2)] False dst Some sg
            by (auto simp: rl_wq_is_single_def Let_def
                intro!: exI [of _ "lck\<lparr>rl_wq := Some a, rl_wq_lck := how\<rparr>"])
        qed
      qed
    qed
  qed
qed

theorem workq_switch_effect_witness:
  "\<exists>t' w'. workq_switch (Some 2, RUN_SINGLE)
      \<lparr>tls_wqs = None, tls_stack = [run_lock_init\<lparr>rl_wq := Some 1\<rparr>]\<rparr>
      (two_jobs\<lparr>wqs := (\<lambda>a. workq_init\<lparr>m_run_single := (a = 1)\<rparr>)\<rparr>) = Inr (Some ((Some 1, RUN_SINGLE), t', w')) \<and>
    rl_wq (hd (tls_stack t')) = Some 2 \<and> \<not> m_run_single (wqs w' 1) \<and> m_run_single (wqs w' 2)"
proof -
  let ?l = "run_lock_init\<lparr>rl_wq := Some 1\<rparr>"
  let ?t = "\<lparr>tls_wqs = None, tls_stack = [?l]\<rparr>"
  let ?w = "two_jobs\<lparr>wqs := (\<lambda>a. workq_init\<lparr>m_run_single := (a = 1)\<rparr>)\<rparr>"
  obtain t' w' where r: "workq_switch (Some 2, RUN_SINGLE) ?t ?w = Inr (Some ((Some 1, RUN_SINGLE), t', w'))"
    by (simp add: workq_switch_def rl_wq_is_single_def ps_is_single_def run_lock_init_def rl_unlock_wq_def
        wq_release_def wq_unlock_run_def rl_lock_wq_def wq_lock_run_def upd_wq_def workq_init_def Let_def)
  have "level_held ?l ?w" by (simp add: level_held_def run_lock_init_def)
  from workq_switch_effect [where t = ?t and lck = ?l and pred = "[]" and w = ?w and dst = "(Some 2, RUN_SINGLE)",
      OF _ this] r
  have "levels_moved (Some 1, RUN_SINGLE) (Some 2, RUN_SINGLE) ?w w'" "rl_wq (hd (tls_stack t')) = Some 2" by auto
  then show ?thesis using r by (auto simp: levels_moved_def)
qed

lemma workq_switch_no_frame: "tls_stack t = [] \<Longrightarrow> workq_switch dst t w = Inl Workq_stack_error"
  by (simp add: workq_switch_def)

section \<open>Co-routine jobs\<close>

text \<open>
  \<open>co_publish\<close> sets \<open>m_runcount\<close> to the number of functions, each helping thread adds one and
  takes one off again, and nobody takes off the rest (\<open>release\<close> ignores its argument): no
  thread is the last one, and the lock that the job keeps is never released.
\<close>

lemma co_release_is_never_last:
  assumes "co_runcount (jobs w c) \<noteq> 0" and "rl_lock_co c w = (l, w1)"
    and "co_release c l w1 = Inr (is_last, l2, w2)"
  shows "\<not> is_last \<and> co_runcount (jobs w2 c) = co_runcount (jobs w c)"
  using assms
  by (auto simp: rl_lock_co_def co_release_def rl_co_unlock_def rl_unlock_def wq_release_def wq_unlock_run_def
      wq_lock_run_parallel_def upd_job_def upd_wq_def run_lock_init_def rl_is_locked_def Let_def
      split: if_splits bool.splits sum.splits)

text \<open>A co-routine job that ran once keeps \<open>STATE_RUNNING\<close>, so it cannot be locked again.\<close>

lemma co_unlock_keeps_running: "job_is_co (jobs w j) \<Longrightarrow> job_unlock_run rl j w = Inr w"
  by (simp add: job_unlock_run_def split: job_lck.splits)

end
