(* ===== verification/Workq_Service.thy ===== *)
theory Workq_Service
  imports Workq_Props
begin

text \<open>
  The service of \<open>src/workq.cc\<close>: the walk over the work queues that are ready, co-routine jobs,
  \<open>aid\<close>, the client of the thread pool and the deleter of jobs. A thread runs alone, except that
  \<open>lock_service\<close> takes what other threads do before and between the steps of its loop.
\<close>

section \<open>Locking the next work queue\<close>

text \<open>
  A result \<open>None\<close> is a loop that has not ended. For each round \<open>env\<close> has what other threads do before
  the first attempt, between it and \<open>erase\<close>, and between \<open>erase\<close> and the second attempt. The
  iterator of the thread is the position 0.
\<close>

type_synonym others = "wq_world \<Rightarrow> wq_world"

definition alone :: "others \<times> others \<times> others" where "alone = (\<lambda>w. w, \<lambda>w. w, \<lambda>w. w)"

definition runq_iter :: "ptr \<Rightarrow> siter" where "runq_iter p = \<lparr>it_pos = 0, it_ptr = p\<rparr>"

fun lock_service_loop ::
    "(others \<times> others \<times> others) list \<Rightarrow> addr \<Rightarrow> wq_world \<Rightarrow> (wq_run_lock \<times> wq_world) result option"
where
  "lock_service_loop [] a w = None"
| "lock_service_loop ((f, g, h) # env) a w = (case rl_lock_workq a (f w) of
     Inl e \<Rightarrow> Some (Inl e)
   | Inr (True, l, w1) \<Rightarrow> Some (Inr (l, w1))
   | Inr (False, _, w1) \<Rightarrow> (case sl_erase 2 (runq_iter (Some a)) (m_wq_runq (g w1)) of
       None \<Rightarrow> Some (Inl Assertion_failed)
     | Some L \<Rightarrow> (case rl_lock_workq a (h ((g w1)\<lparr>m_wq_runq := L\<rparr>)) of
         Inl e \<Rightarrow> Some (Inl e)
       | Inr (True, l, w2) \<Rightarrow> (case sl_link 2 (runq_iter (Some a)) a (m_wq_runq w2) of
           None \<Rightarrow> Some (Inl Assertion_failed)
         | Some (_, M) \<Rightarrow> Some (Inr (l, service_wakeup 1 (w2\<lparr>m_wq_runq := pos_clear 2 M\<rparr>))))
       | Inr (False, _, w2) \<Rightarrow> lock_service_loop env a w2)))"

text \<open>The next work queue; at the end of the list the iterator starts again.\<close>

definition runq_next :: "items \<Rightarrow> ptr \<times> items" where
  "runq_next L =
     (let (it, M) = iter_inc (runq_iter None) L
      in case it_ptr it of Some a \<Rightarrow> (Some a, M) | None \<Rightarrow> runq_restart M)"

definition lock_service ::
    "(others \<times> others \<times> others) list \<Rightarrow> wq_world \<Rightarrow> (wq_run_lock \<times> wq_world) result option"
where
  "lock_service env w =
     (let w1 = get_runq_iterpos w; (p, L) = runq_next (m_wq_runq w1)
      in case p of
           None \<Rightarrow> Some (Inr (run_lock_init, w1\<lparr>m_wq_runq := L\<rparr>))
         | Some a \<Rightarrow> lock_service_loop env a (w1\<lparr>m_wq_runq := L\<rparr>))"

section \<open>Running jobs\<close>

text \<open>
  \<open>fn\<close> is the function of a \<open>job_single\<close>, \<open>cof\<close> those of a \<open>coroutine_job\<close>; they act on the stack of
  the thread and on the world. The loops take fuel, \<open>None\<close> is a loop that has not ended.
\<close>

type_synonym co_fn = "addr \<Rightarrow> nat \<Rightarrow> wq_tls \<Rightarrow> wq_world \<Rightarrow> (wq_tls \<times> wq_world) result"

definition coroutine_run :: "addr \<Rightarrow> wq_tls \<Rightarrow> wq_world \<Rightarrow> (wq_tls \<times> wq_world) result" where
  "coroutine_run c t w = co_publish (co_size (jobs w c)) c t (upd_job c (\<lambda>o'. o'\<lparr>co_idx := 0\<rparr>) w)"

text \<open>\<open>run\<close> is virtual.\<close>

definition run_job :: "job_run \<Rightarrow> job_run" where
  "run_job fn j t w = (if job_is_co (jobs w j) then coroutine_run j t w else fn j t w)"

fun co_run_loop :: "nat \<Rightarrow> co_fn \<Rightarrow> addr \<Rightarrow> nat \<Rightarrow> wq_tls \<Rightarrow> wq_world \<Rightarrow> (nat \<times> wq_tls \<times> wq_world) result option" where
  "co_run_loop 0 cof c cnt t w = None"
| "co_run_loop (Suc n) cof c cnt t w =
     (let idx = co_idx (jobs w c); w1 = upd_job c (\<lambda>o'. o'\<lparr>co_idx := idx + 1\<rparr>) w
      in if unat idx < co_size (jobs w c)
         then (case cof c (unat idx) t w1 of
                 Inl e \<Rightarrow> Some (Inl e) | Inr (t2, w2) \<Rightarrow> co_run_loop n cof c (cnt + 1) t2 w2)
         else Some (Inr (cnt, t, w1)))"

definition co_run :: "nat \<Rightarrow> co_fn \<Rightarrow> addr \<Rightarrow> wq_tls \<Rightarrow> wq_world \<Rightarrow> (bool \<times> wq_tls \<times> wq_world) result option" where
  "co_run n cof c t w = (case co_run_loop n cof c 0 t w of
     None \<Rightarrow> None
   | Some (Inl e) \<Rightarrow> Some (Inl e)
   | Some (Inr (cnt, t1, w1)) \<Rightarrow> (case tls_stack t1 of
       [] \<Rightarrow> Some (Inl Assertion_failed)
     | l # rest \<Rightarrow>
         if rl_co l \<noteq> Some c then Some (Inl Assertion_failed)
         else (case co_release c l w1 of
                 Inl e \<Rightarrow> Some (Inl e)
               | Inr (_, l2, w2) \<Rightarrow> Some (Inr (0 < cnt, t1\<lparr>tls_stack := l2 # rest\<rparr>, w2)))))"

definition pop_stack :: "wq_tls \<Rightarrow> wq_world \<Rightarrow> (wq_tls \<times> wq_world) result" where
  "pop_stack t w = (case tls_stack t of
     [] \<Rightarrow> Inl Assertion_failed
   | l # rest \<Rightarrow> (case rl_unlock l w of Inl e \<Rightarrow> Inl e | Inr (_, w1) \<Rightarrow> Inr (t\<lparr>tls_stack := rest\<rparr>, w1)))"

section \<open>Aid\<close>

text \<open>
  The phase for co-routine jobs; its iterator is a position of \<open>m_co_runq\<close> that is named by the
  depth of the stack. \<open>i\<close> counts up to \<open>count\<close>.
\<close>

fun aid_co ::
    "nat \<Rightarrow> co_fn \<Rightarrow> nat \<Rightarrow> nat \<Rightarrow> siter \<Rightarrow> wq_tls \<Rightarrow> wq_world \<Rightarrow> (nat \<times> wq_tls \<times> wq_world) result option"
where
  "aid_co 0 cof i count co t w = None"
| "aid_co (Suc n) cof i count co t w =
     (let finish = Some (Inr (i, t, w\<lparr>m_co_runq := pos_clear (it_pos co) (m_co_runq w)\<rparr>))
      in case it_ptr co of
           None \<Rightarrow> finish
         | Some c \<Rightarrow>
             if count \<le> i then finish
             else (let (l, w1) = rl_lock_co c w in case co_run n cof c (tls_push l t) w1 of
                 None \<Rightarrow> None
               | Some (Inl e) \<Rightarrow> Some (Inl e)
               | Some (Inr (did, t2, w2)) \<Rightarrow>
                   let (co2, M) = iter_inc co (m_co_runq w2)
                   in (case pop_stack t2 (w2\<lparr>m_co_runq := M\<rparr>) of
                         Inl e \<Rightarrow> Some (Inl e)
                       | Inr (t3, w3) \<Rightarrow> aid_co n cof (if did then i + 1 else i) count co2 t3 w3)))"

definition aid_co_phase :: "nat \<Rightarrow> co_fn \<Rightarrow> nat \<Rightarrow> nat \<Rightarrow> wq_tls \<Rightarrow> wq_world \<Rightarrow> (nat \<times> wq_tls \<times> wq_world) result option" where
  "aid_co_phase n cof i count t w =
     (let (co, L) = sl_begin (length (tls_stack t)) (m_co_runq w)
      in aid_co n cof i count co t (w\<lparr>m_co_runq := L\<rparr>))"

fun service_aid ::
    "nat \<Rightarrow> job_run \<Rightarrow> co_fn \<Rightarrow> nat \<Rightarrow> nat \<Rightarrow> wq_tls \<Rightarrow> wq_world \<Rightarrow> (bool \<times> wq_tls \<times> wq_world) result option"
where
  "service_aid 0 run cof i count t w = None"
| "service_aid (Suc n) run cof i count t w =
     (if count \<le> i then Some (Inr (0 < i, t, w))
      else if \<not> sl_empty (m_co_runq w) then
        (case aid_co_phase n cof i count t w of
           None \<Rightarrow> None
         | Some (Inl e) \<Rightarrow> Some (Inl e)
         | Some (Inr (i2, t2, w2)) \<Rightarrow> service_aid n run cof (i2 + 1) count t2 w2)
      else (case lock_service (replicate (Suc n) alone) w of
           None \<Rightarrow> None
         | Some (Inl e) \<Rightarrow> Some (Inl e)
         | Some (Inr (l, w1)) \<Rightarrow>
             if \<not> rl_is_locked l then Some (Inr (0 < i, t, w1))
             else (case rl_job l of
                     None \<Rightarrow> Some (Inl Assertion_failed)
                   | Some j \<Rightarrow> (case run_locked (run_job run) j l t w1 of
                       Inl e \<Rightarrow> Some (Inl e)
                     | Inr (t2, w2) \<Rightarrow> service_aid n run cof (i + 1) count t2 w2))))"

definition service_empty :: "wq_world \<Rightarrow> bool" where
  "service_empty w \<longleftrightarrow> sl_empty (m_wq_runq w) \<and> sl_empty (m_co_runq w)"

section \<open>The client of the thread pool\<close>

text \<open>\<open>has_client\<close> is the answer of the combiner (\<open>TP_Intf\<close>), \<open>a\<close> the address of the service.\<close>

definition service_attach :: "bool option \<Rightarrow> wq_world \<Rightarrow> wq_world result" where
  "service_attach p w = (case p of
     None \<Rightarrow> Inl Invalid_argument
   | Some has_service \<Rightarrow>
       if wakeup_cb w \<noteq> None then Inl Runtime_error else Inr (w\<lparr>wakeup_cb := Some has_service\<rparr>))"

definition service_do_work ::
    "nat \<Rightarrow> job_run \<Rightarrow> co_fn \<Rightarrow> bool \<Rightarrow> addr \<Rightarrow> wq_tls \<Rightarrow> wq_world \<Rightarrow> (bool \<times> wq_tls \<times> wq_world) result option"
where
  "service_do_work n run cof has_client a t w =
     (if \<not> has_client then Some (Inr (False, t, w))
      else case publish_wqs a t of
        Inl _ \<Rightarrow> Some (Inr (False, t, w))
      | Inr t1 \<Rightarrow> (case service_aid n run cof 0 32 t1 w of
          None \<Rightarrow> None
        | Some (Inl e) \<Rightarrow> Some (Inl e)
        | Some (Inr (r, t2, w2)) \<Rightarrow> (case unpublish_wqs a t2 of
            Inl e \<Rightarrow> Some (Inl e) | Inr t3 \<Rightarrow> Some (Inr (r, t3, w2)))))"

definition service_has_work :: "bool \<Rightarrow> wq_world \<Rightarrow> bool" where
  "service_has_work has_client w \<longleftrightarrow> has_client \<and> \<not> service_empty w"

section \<open>Jobs that are made and deleted\<close>

text \<open>
  \<open>once\<close>: a job of type once, made at the address \<open>j\<close>, is activated. Its reference to itself ends
  when it runs.
\<close>

definition workq_once_single :: "job_run \<Rightarrow> addr \<Rightarrow> ptr \<Rightarrow> bool \<Rightarrow> wq_tls \<Rightarrow> wq_world \<Rightarrow> (wq_tls \<times> wq_world) result" where
  "workq_once_single run j wq fn t w = (case job_single_ctor wq fn TYPE_ONCE of
     Inl e \<Rightarrow> Inl e | Inr job \<Rightarrow> job_activate (run_job run) 0 j t (upd_job j (\<lambda>_. job) w))"

definition workq_once_co :: "job_run \<Rightarrow> addr \<Rightarrow> ptr \<Rightarrow> bool list \<Rightarrow> wq_tls \<Rightarrow> wq_world \<Rightarrow> (wq_tls \<times> wq_world) result" where
  "workq_once_co run j wq fns t w = (case coroutine_job_ctor wq fns TYPE_ONCE of
     Inl e \<Rightarrow> Inl e | Inr job \<Rightarrow> job_activate (run_job run) 0 j t (upd_job j (\<lambda>_. job) w))"

text \<open>
  The deleter of a job: \<open>None\<close> waits for a run by another thread; else the flag tells whether the
  job is deleted here (once \<open>wait_unreferenced\<close> returns) or left to the internal references.
\<close>

definition job_deleter :: "addr \<Rightarrow> wq_tls \<Rightarrow> wq_world \<Rightarrow> (bool \<times> wq_world) option" where
  "job_deleter j t w =
     (let a = job_wq (jobs w j);
          w1 = upd_wq a (\<lambda>q. q\<lparr>m_runq := erase j (m_runq q), m_p_runq := erase j (m_p_runq q)\<rparr>) w
      in case job_deactivate j t w1 of
           None \<Rightarrow> None | Some w2 \<Rightarrow> Some (\<not> tls_find_job j t, w2))"

section \<open>The order of the work queues\<close>

text \<open>
  The work queues in the order in which the thread will reach them: those behind its iterator and
  then, from the start of the list, those up to it.
\<close>

definition order_from :: "items \<Rightarrow> addr list" where
  "order_from L = elems (past_item (Front 0) L) @ elems (upto_item (Front 0) L)"

definition turns :: "wq_world \<Rightarrow> addr list" where
  "turns w = order_from (m_wq_runq (get_runq_iterpos w))"

definition runq_ok :: "wq_world \<Rightarrow> bool" where
  "runq_ok w \<longleftrightarrow> distinct (m_wq_runq w) \<and> new_pos 1 (m_wq_runq w) \<and>
     (pos_linked 0 (m_wq_runq w) \<or> new_pos 0 (m_wq_runq w))"

lemma put_after_Elem: "Elem e \<in> set L \<Longrightarrow> distinct L \<Longrightarrow>
    \<exists>us vs. L = us @ Elem e # vs \<and> (\<forall>i. put_after (Elem e) i L = us @ Elem e # i # vs)"
  by (metis not_distinct_conv_prefix put_after_split split_list_first)

lemma restart_begin:
  assumes "distinct L" and "new_pos 1 L"
  shows "runq_restart L = (snd (pos_begin 0 L), fst (pos_begin 0 L))"
proof -
  let ?L = "pos_clear 0 L"
  have d: "distinct ?L" using assms(1) by (simp add: pos_clear_def)
  have n: "Back 1 \<notin> set L" "Front 1 \<notin> set L" "Back 1 \<notin> set ?L" "Front 1 \<notin> set ?L"
      "Back 0 \<notin> set ?L" "Front 0 \<notin> set ?L"
    using assms(2) by (auto simp: new_pos_def pos_clear_def)
  have c: "pos_clear 1 L = L" "pos_clear 1 ?L = ?L" using n by (simp_all add: pos_clear_other)
  show ?thesis
  proof (cases "elems L")
    case Nil
    have "pos_assign 0 1 (Back 1 # Front 1 # L) = [] @ Back 1 # Back 0 # [] @ Front 1 # Front 0 # ?L"
      by (rule pos_assign_at) (use n d in auto)
    then show ?thesis
      using Nil c by (simp add: runq_restart_def sl_begin_def pos_begin_def iter_assign_def iter_ctor_def)
  next
    case (Cons e es)
    then have e: "Elem e \<in> set L" by (metis elems_member list.set_intros(1))
    obtain us vs where L: "L = us @ Elem e # vs" "\<And>i. put_after (Elem e) i L = us @ Elem e # i # vs"
      using put_after_Elem [OF e assms(1)] by blast
    have u: "Elem e \<notin> set (pos_clear 0 us)" using d L(1) by simp
    have "pos_assign 0 1 (Back 1 # us @ Elem e # Front 1 # vs) =
        [] @ Back 1 # Back 0 # (pos_clear 0 us @ [Elem e]) @ Front 1 # Front 0 # pos_clear 0 vs"
      by (rule pos_assign_at) (use n d L(1) in auto)
    then show ?thesis
      using Cons c L u put_after_split [OF u, of "Front 0"] n
      by (auto simp: runq_restart_def sl_begin_def pos_begin_def iter_assign_def iter_ctor_def pos_clear_other)
  qed
qed

text \<open>The iterator before a search, and after it has moved to the next work queue.\<close>

lemma iterpos_linked:
  assumes "runq_ok w"
  shows "pos_linked 0 (m_wq_runq (get_runq_iterpos w))" "distinct (m_wq_runq (get_runq_iterpos w))"
    "new_pos 1 (m_wq_runq (get_runq_iterpos w))" "get_runq_iterpos w = w\<lparr>m_wq_runq := m_wq_runq (get_runq_iterpos w)\<rparr>"
proof -
  let ?L = "m_wq_runq w"
  have d: "distinct ?L" "new_pos 1 ?L" using assms by (auto simp: runq_ok_def)
  show 4: "get_runq_iterpos w = w\<lparr>m_wq_runq := m_wq_runq (get_runq_iterpos w)\<rparr>"
    by (simp add: get_runq_iterpos_def)
  have "pos_linked 0 M \<and> distinct M \<and> new_pos 1 M" if "M = fst (pos_begin 0 ?L)" "new_pos 0 ?L" for M
  proof (cases "elems ?L")
    case Nil
    then show ?thesis using that d by (auto simp: pos_begin_def new_pos_def pos_linked_def pos_clear_other)
  next
    case (Cons e es)
    then have "Elem e \<in> set ?L" by (metis elems_member list.set_intros(1))
    from put_after_Elem [OF this d(1)] obtain us vs where
      "?L = us @ Elem e # vs" "\<And>i. put_after (Elem e) i ?L = us @ Elem e # i # vs" by blast
    then show ?thesis
      using that Cons d by (auto simp: pos_begin_def new_pos_def pos_linked_def pos_clear_other)
  qed
  then have "pos_linked 0 (m_wq_runq (get_runq_iterpos w)) \<and> distinct (m_wq_runq (get_runq_iterpos w)) \<and>
      new_pos 1 (m_wq_runq (get_runq_iterpos w))"
    using assms d restart_begin [OF d] by (auto simp: get_runq_iterpos_def runq_ok_def)
  then show "pos_linked 0 (m_wq_runq (get_runq_iterpos w))" "distinct (m_wq_runq (get_runq_iterpos w))"
    "new_pos 1 (m_wq_runq (get_runq_iterpos w))" by blast+
qed

lemma elems_link [simp]:
  "elems (remove1 (Back k) L) = elems L"
  by (induction L rule: elems.induct) auto

lemma order_from_split: "Front 0 \<notin> set A \<Longrightarrow> order_from (A @ Front 0 # B) = elems B @ elems A"
  by (simp add: order_from_def)

lemma order_from_remove:
  assumes "distinct L" "Front 0 \<in> set L"
  shows "order_from (remove1 (Back 0) L) = order_from L"
proof -
  obtain A B where L: "L = A @ Front 0 # B" using assms(2) by (metis split_list)
  then have n: "Front 0 \<notin> set A" "Front 0 \<notin> set (remove1 (Back 0) A)" using assms(1) by auto
  show ?thesis
    by (cases "Back 0 \<in> set A")
       (simp_all add: L remove1_append order_from_split [OF n(1)] order_from_split [OF n(2)])
qed

lemma runq_next_order:
  assumes d: "distinct L" "pos_linked 0 L" "new_pos 1 L"
  shows "case order_from L of
       [] \<Rightarrow> fst (runq_next L) = None
     | a # rest \<Rightarrow> \<exists>us its vs. let M = us @ Back 0 # its @ Elem a # Front 0 # vs in
         runq_next L = (Some a, M) \<and> elems its = [] \<and> rest = elems vs @ elems us \<and>
         distinct M \<and> pos_linked 0 M \<and> new_pos 1 M"
proof -
  have b: "Back 0 \<in> set L" "Front 0 \<in> set L" using d(2) by (simp_all add: pos_linked_def)
  then have "Front 0 \<in> set (remove1 (Back 0) L)" by simp
  then obtain A B where AB: "remove1 (Back 0) L = A @ Front 0 # B" by (metis split_list)
  have s: "distinct (A @ Front 0 # B)" "set (A @ Front 0 # B) = set L - {Back 0}"
    using d(1) unfolding AB [symmetric] by simp_all
  then have n: "Front 0 \<notin> set A" "Front 0 \<notin> set B" "Back 0 \<notin> set A" "Back 0 \<notin> set B"
    "new_pos 1 (A @ B)" "distinct (A @ B)"
    using d(3) by (auto simp: new_pos_def)
  have o: "order_from L = elems B @ elems A"
    using order_from_remove [OF d(1) b(2)] n(1) unfolding AB by (simp add: order_from_split)
  show ?thesis
  proof (cases "elems B")
    case (Cons y ys)
    obtain its B' where B: "B = its @ Elem y # B'" "elems its = []" "elems B' = ys"
      using elems_first [OF Cons] by blast
    let ?M = "A @ Back 0 # its @ Elem y # Front 0 # B'"
    have "pos_forward 0 L = (?M, Some y)" using pos_forward_any(2) [OF d(1) b(1) AB B(1,2)] by simp
    then have "runq_next L = (Some y, ?M)" by (simp add: runq_next_def iter_inc_def runq_iter_def)
    moreover have "distinct ?M" "pos_linked 0 ?M" "new_pos 1 ?M"
      using n B(1) by (auto simp: pos_linked_def new_pos_def)
    ultimately show ?thesis
      unfolding o Cons append_Cons list.case Let_def
      by - (rule exI [of _ A], rule exI [of _ its], rule exI [of _ B'], simp add: B(2,3))
  next
    case Nil
    let ?N = "Front 0 # A @ Back 0 # B"
    have N: "distinct ?N" "new_pos 1 ?N" using n by (auto simp: new_pos_def)
    have f: "runq_next L = (snd (pos_begin 0 ?N), fst (pos_begin 0 ?N))"
      using pos_forward_any(1) [OF d(1) b(1) AB Nil] restart_begin [OF N]
      by (simp add: runq_next_def iter_inc_def runq_iter_def)
    have c: "pos_clear 0 ?N = A @ B" using n by (simp add: pos_clear_other)
    show ?thesis
    proof (cases "elems A")
      case Nil
      then show ?thesis unfolding o f by (simp add: pos_begin_def \<open>elems B = []\<close>)
    next
      case (Cons y ys)
      obtain us vs where A: "A = us @ Elem y # vs" "elems us = []" "elems vs = ys"
        using elems_first [OF Cons] by blast
      let ?M = "[] @ Back 0 # us @ Elem y # Front 0 # vs @ B"
      have "put_after (Elem y) (Front 0) (us @ Elem y # vs @ B) = us @ Elem y # Front 0 # vs @ B"
        by (rule put_after_split) (use n(6) A(1) in auto)
      then have "runq_next L = (Some y, ?M)" unfolding f pos_begin_def c using Cons Nil A by simp
      moreover have "distinct ?M" "pos_linked 0 ?M" "new_pos 1 ?M"
        using n A(1) by (auto simp: pos_linked_def new_pos_def)
      ultimately show ?thesis
        unfolding o Cons Nil append_Nil list.case Let_def
        by - (rule exI [of _ "[]"], rule exI [of _ us], rule exI [of _ "vs @ B"], simp add: A(2,3) Nil)
    qed
  qed
qed

text \<open>A copy of the iterator, moved on: a new element before it is the next one in turn.\<close>

lemma copy_forward:
  assumes d: "distinct L" "pos_linked 0 L" "new_pos 1 L" and a: "Elem a \<notin> set L"
  defines "M \<equiv> fst (pos_forward 1 (pos_assign 1 0 L))"
  shows "set M = set L \<union> {Back 1, Front 1}"
    and "\<exists>A B. L = A @ Front 0 # B \<and> pos_clear 1 (put_before (Back 1) (Elem a) M) = A @ Front 0 # Elem a # B \<and>
      pos_clear 1 M = L"
proof -
  have n: "Back 1 \<notin> set L" "Front 1 \<notin> set L" using d(3) by (simp_all add: new_pos_def)
  obtain A B where L: "L = A @ Front 0 # B" using d(2) by (metis pos_linked_def split_list)
  have f: "Front 0 \<notin> set A" "Front 0 \<notin> set B" using d(1) L by auto
  let ?K = "put_after (Front 0) (Front 1) (put_after (Back 0) (Back 1) L)"
  have k: "pos_assign 1 0 L = ?K" using d(2) n by (simp add: pos_assign_def pos_clear_other Let_def)
  have K: "remove1 (Back 1) ?K = (A @ [Front 0]) @ Front 1 # B \<and> distinct ?K \<and> Back 1 \<in> set ?K"
  proof (cases "Back 0 \<in> set A")
    case True
    then obtain A1 A2 where A: "A = A1 @ Back 0 # A2" by (metis split_list)
    have "?K = (A1 @ Back 0 # Back 1 # A2) @ Front 0 # Front 1 # B"
      using put_after_split [of "Back 0" A1 "Back 1" "A2 @ Front 0 # B"]
        put_after_split [of "Front 0" "A1 @ Back 0 # Back 1 # A2" "Front 1" B] d(1) f by (simp add: L A)
    then show ?thesis using remove_split [of "Back 1" "A1 @ [Back 0]"] n d(1) by (auto simp: L A)
  next
    case False
    then have "Back 0 \<in> set B" using d(2) L by (auto simp: pos_linked_def)
    then obtain B1 B2 where B: "B = B1 @ Back 0 # B2" by (metis split_list)
    have "?K = A @ Front 0 # Front 1 # B1 @ Back 0 # Back 1 # B2"
      using put_after_split [of "Back 0" "A @ Front 0 # B1" "Back 1" B2] d(1)
        put_after_split [of "Front 0" A "Front 1" "B1 @ Back 0 # Back 1 # B2"] f by (simp add: L B)
    then show ?thesis using remove_split [of "Back 1" "A @ Front 0 # Front 1 # B1 @ [Back 0]"] n d(1)
      by (auto simp: L B)
  qed
  have c: "pos_clear 1 A = A" "pos_clear 1 B = B" using n L by (simp_all add: pos_clear_other)
  have r: "remove1 (Back 1) ?K = (A @ [Front 0]) @ Front 1 # B" "distinct ?K" "Back 1 \<in> set ?K" using K by auto
  have "set M = set L \<union> {Back 1, Front 1} \<and> L = A @ Front 0 # B \<and>
      pos_clear 1 (put_before (Back 1) (Elem a) M) = A @ Front 0 # Elem a # B \<and> pos_clear 1 M = L"
  proof (cases "elems B")
    case Nil
    have "M = (Front 1 # A @ [Front 0]) @ Back 1 # B"
      unfolding M_def k using pos_forward_any(1) [OF r(2,3,1) Nil] by simp
    then show ?thesis
      using put_before_split [of "Back 1" "Front 1 # A @ [Front 0]" "Elem a" B] n c by (auto simp: L)
  next
    case (Cons y ys)
    obtain its B' where B: "B = its @ Elem y # B'" "elems its = []" using elems_first [OF Cons] by blast
    have M: "M = (A @ [Front 0]) @ Back 1 # its @ Elem y # Front 1 # B'"
      unfolding M_def k using pos_forward_any(2) [OF r(2,3,1) B] by simp
    have "pos_clear 1 its = its" "pos_clear 1 B' = B'" using n L B(1) by (simp_all add: pos_clear_other)
    then show ?thesis
      using put_before_split [of "Back 1" "A @ [Front 0]" "Elem a" "its @ Elem y # Front 1 # B'"] n c(1) f
      by (auto simp: L B(1) M)
  qed
  then show "set M = set L \<union> {Back 1, Front 1}" "\<exists>A B. L = A @ Front 0 # B \<and>
      pos_clear 1 (put_before (Back 1) (Elem a) M) = A @ Front 0 # Elem a # B \<and> pos_clear 1 M = L" by blast+
qed

text \<open>A work queue that becomes ready is the next in turn of the thread that made it so.\<close>

lemma order_put_after:
  "Front 0 \<notin> set A \<Longrightarrow> order_from (A @ Front 0 # Elem a # B) = a # order_from (A @ Front 0 # B)"
  by (simp add: order_from_split)

lemma set_order: "Front 0 \<notin> set A \<Longrightarrow> set (order_from (A @ Front 0 # B)) = set (elems (A @ Front 0 # B))"
  by (auto simp: order_from_split)

lemma service_wakeup_runq [simp]:
  "m_wq_runq (service_wakeup n w) = m_wq_runq w" "jobs (service_wakeup n w) = jobs w" "wqs (service_wakeup n w) = wqs w"
  by (simp_all add: service_wakeup_def split: option.splits)

lemma turns_linked: "pos_linked 0 (m_wq_runq w) \<Longrightarrow> turns w = order_from (m_wq_runq w)"
  by (simp add: turns_def get_runq_iterpos_def)

lemma ready_workq_next:
  assumes "runq_ok w"
  shows "turns (wq_to_runq a w) = (if a \<in> set (turns w) then turns w else a # turns w)"
    and "runq_ok (wq_to_runq a w)"
proof -
  let ?L = "m_wq_runq (get_runq_iterpos w)"
  note i = iterpos_linked [OF assms]
  let ?M = "fst (pos_forward 1 (pos_assign 1 0 ?L))"
  obtain A B where L: "?L = A @ Front 0 # B" using i(1) by (metis pos_linked_def split_list)
  have f: "Front 0 \<notin> set A" "Front 0 \<notin> set B" using i(2) unfolding L by auto
  have mem: "a \<in> set (turns w) \<longleftrightarrow> Elem a \<in> set ?L"
    using set_order [OF f(1), of B] unfolding turns_def L by (simp add: elems_member)
  obtain b where b: "Elem b \<notin> set ?L"
    using ex_new_if_finite [of "set (elems ?L)"] by (auto simp: elems_member)
  have s: "set ?M = set ?L \<union> {Back 1, Front 1}" "pos_clear 1 ?M = ?L"
    using copy_forward [OF i(2,1,3) b] by blast+
  have r: "m_wq_runq (wq_to_runq a w) =
      (if Elem a \<in> set ?L then ?L else A @ Front 0 # Elem a # B)"
  proof (cases "Elem a \<in> set ?L")
    case True
    then have "Elem a \<in> set ?M" using s(1) by simp
    then show ?thesis using True s(2) by (simp add: wq_to_runq_def Let_def)
  next
    case False
    then have "Elem a \<notin> set ?M" using s(1) by simp
    moreover obtain A' B' where "?L = A' @ Front 0 # B'"
        "pos_clear 1 (put_before (Back 1) (Elem a) ?M) = A' @ Front 0 # Elem a # B'"
      using copy_forward(2) [OF i(2,1,3) False] by blast
    moreover have "A' = A \<and> B' = B"
      using calculation(2) L f i(2) by (metis append_eq_append_conv2 append_Cons_eq_iff distinct.simps(2) distinct_append not_distinct_conv_prefix)
    ultimately show ?thesis using False by (simp add: wq_to_runq_def Let_def)
  qed
  have k: "pos_linked 0 (m_wq_runq (wq_to_runq a w))"
    using i(1) unfolding r by (auto simp: pos_linked_def L)
  have "turns (wq_to_runq a w) = order_from (m_wq_runq (wq_to_runq a w))" by (rule turns_linked [OF k])
  then show "turns (wq_to_runq a w) = (if a \<in> set (turns w) then turns w else a # turns w)"
    unfolding r mem using order_put_after [OF f(1), of a B] by (simp add: turns_def L)
  have "distinct (m_wq_runq (wq_to_runq a w))" "new_pos 1 (m_wq_runq (wq_to_runq a w))"
    using i(2,3) unfolding r by (auto simp: new_pos_def L)
  then show "runq_ok (wq_to_runq a w)" using k by (simp add: runq_ok_def)
qed

section \<open>What a search does\<close>

lemmas lock_workq_defs = rl_lock_workq_def wq_lock_run_def rl_is_locked_def run_lock_init_def
  rl_unlock_def wq_release_def wq_unlock_run_def wq_lock_run_downgrade_def upd_wq_def Let_def

lemma lock_workq_runq:
  "rl_lock_workq a (w\<lparr>m_wq_runq := L\<rparr>) = (case rl_lock_workq a w of
     Inl e \<Rightarrow> Inl e | Inr (b, l, w1) \<Rightarrow> Inr (b, l, w1\<lparr>m_wq_runq := L\<rparr>))"
proof (cases "m_run_single (wqs w a)")
  case True
  obtain p pq js where "pop_runnable (m_p_runq (wqs w a)) (jobs w) = (p, pq, js)" by (metis prod_cases3)
  then show ?thesis using True by (cases p) (simp_all add: lock_workq_defs)
next
  case False
  obtain p pq js where "pop_runnable (m_runq (wqs w a)) (jobs w) = (p, pq, js)" by (metis prod_cases3)
  then show ?thesis using False by (cases p) (simp_all add: lock_workq_defs)
qed

text \<open>A work queue that has nothing to run is the same afterwards, and has nothing to run again.\<close>

lemma lock_workq_fails_again:
  assumes "rl_lock_workq a w = Inr (False, l, w1)"
  shows "\<exists>l2 w2. rl_lock_workq a w1 = Inr (False, l2, w2)"
proof (cases "m_run_single (wqs w a)")
  case True
  obtain p pq js where p: "pop_runnable (m_p_runq (wqs w a)) (jobs w) = (p, pq, js)" by (metis prod_cases3)
  then have "p = None" using True assms by (cases p) (simp_all add: lock_workq_defs)
  then show ?thesis using True p pop_runnable_None [of "m_p_runq (wqs w a)" "jobs w" pq js] assms
    by (auto simp: lock_workq_defs split: if_splits)
next
  case False
  obtain p rq js where p: "pop_runnable (m_runq (wqs w a)) (jobs w) = (p, rq, js)" by (metis prod_cases3)
  then have "p = None" using False assms by (cases p) (auto simp: lock_workq_defs split: if_splits)
  then show ?thesis using False p pop_runnable_None [of "m_runq (wqs w a)" "jobs w" rq js] assms
    by (auto simp: lock_workq_defs split: if_splits)
qed

text \<open>The work queue is taken off the list, and put back where it was.\<close>

lemma erase_iter_Some: "\<exists>M. sl_erase k (runq_iter (Some a)) L = Some M"
  by (simp add: sl_erase_def sl_erase_and_dispose_def runq_iter_def Let_def split: prod.splits)

lemma erase_turn:
  assumes d: "distinct (us @ Back 0 # its @ Elem a # Front 0 # vs)"
  shows "sl_erase 2 (runq_iter (Some a)) (us @ Back 0 # its @ Elem a # Front 0 # vs) =
     Some (pos_clear 2 us @ Back 0 # pos_clear 2 its @ Front 0 # pos_clear 2 vs)"
proof -
  let ?u = "pos_clear 2 us" and ?i = "pos_clear 2 its" and ?v = "pos_clear 2 vs"
  let ?L = "us @ Back 0 # its @ Elem a # Front 0 # vs"
  have n: "Back 2 \<notin> set (?u @ ?i @ ?v)" "Front 2 \<notin> set (?u @ ?i @ ?v)" by (auto simp: pos_clear_def)
  have d': "distinct ((?u @ Back 0 # ?i) @ Elem a # Front 0 # ?v)" using d by (auto simp: pos_clear_def)
  have c: "pos_clear 2 ?L = (?u @ Back 0 # ?i) @ Elem a # Front 0 # ?v"
    "pos_clear 2 (pos_clear 2 ?L) = pos_clear 2 ?L" by (simp, simp add: pos_clear_def)
  have t: "take_out 2 a ?L = (?u @ Back 0 # ?i) @ Back 2 # [] @ Front 2 # Front 0 # ?v"
  proof -
    have "take_out 2 a ?L = take_out 2 a (pos_clear 2 ?L)" by (simp only: take_out_def pos_around_def c(2))
    then show ?thesis unfolding c(1) using take_out_split [OF d'] n by simp
  qed
  let ?T = "(?u @ Back 0 # ?i) @ Back 2 # [] @ Front 2 # Front 0 # ?v"
  have dT: "distinct ?T" using d' n by auto
  have p: "pos_clear 2 (fst (pos_forward 2 ?T)) = ?u @ Back 0 # ?i @ Front 0 # ?v"
  proof (cases "elems ?v")
    case Nil
    then show ?thesis using pos_forward_end [OF dT] n by (simp add: pos_clear_other)
  next
    case (Cons y ys)
    obtain v1 v2 where v: "?v = v1 @ Elem y # v2" "elems v1 = []" using elems_first [OF Cons] by blast
    have "pos_forward 2 ?T = ((?u @ Back 0 # ?i) @ [] @ Back 2 # (Front 0 # v1) @ Elem y # Front 2 # v2, Some y)"
      using pos_forward_next [of "?u @ Back 0 # ?i" 2 "[]" "Front 0 # v1" y v2] dT v by simp
    then show ?thesis using n v(1) by (simp add: pos_clear_other)
  qed
  have "Elem a \<in> set ?L" by simp
  then show ?thesis
    using p unfolding sl_erase_def sl_erase_and_dispose_def t [symmetric]
    by (cases "pos_forward 2 (take_out 2 a ?L)") (simp add: runq_iter_def iter_ctor_def iter_inc_def)
qed

lemma link_turn:
  assumes d: "distinct (us @ Back 0 # its @ Front 0 # vs)" "Elem a \<notin> set (us @ its @ vs)"
    and n: "Back 2 \<notin> set (us @ its @ vs)" "Front 2 \<notin> set (us @ its @ vs)"
  shows "\<exists>it K. sl_link 2 (runq_iter (Some a)) a (us @ Back 0 # its @ Front 0 # vs) = Some (it, K) \<and>
     pos_clear 2 K = us @ Elem a # Back 0 # its @ Front 0 # vs"
proof -
  have c: "pos_clear 2 us = us" "pos_clear 2 its = its" "pos_clear 2 vs = vs" using n by (simp_all add: pos_clear_other)
  have "pos_assign 2 0 (us @ Back 0 # its @ Front 0 # vs) =
      us @ Back 0 # Back 2 # its @ Front 0 # Front 2 # vs"
    using n d(1) c by (intro pos_assign_at) simp_all
  moreover have "put_before (Back 0) (Elem a) (us @ Back 0 # Back 2 # its @ Front 0 # Front 2 # vs) =
      us @ Elem a # Back 0 # Back 2 # its @ Front 0 # Front 2 # vs"
    using put_before_split [of "Back 0" us] d(1) by simp
  ultimately show ?thesis
    using d(2) c by (simp add: sl_link_def runq_iter_def pos_linked_def)
qed

text \<open>The list behind and before the iterator gives the turns.\<close>

lemma turns_split:
  "distinct (us @ Back 0 # its @ Front 0 # vs) \<Longrightarrow> m_wq_runq w = us @ Back 0 # its @ Front 0 # vs \<Longrightarrow>
     turns w = elems vs @ elems us @ elems its"
  using order_from_split [of "us @ Back 0 # its" vs] by (simp add: turns_linked pos_linked_def)

lemma runq_ok_split:
  "distinct (us @ Back 0 # its @ Front 0 # vs) \<Longrightarrow> new_pos 1 (us @ its @ vs) \<Longrightarrow>
     m_wq_runq w = us @ Back 0 # its @ Front 0 # vs \<Longrightarrow> runq_ok w"
  by (auto simp: runq_ok_def pos_linked_def new_pos_def)

definition same_runq :: "others \<Rightarrow> bool" where
  "same_runq f \<longleftrightarrow> (\<forall>w. m_wq_runq (f w) = m_wq_runq w)"

lemma lock_workq_same_runq: "rl_lock_workq a w = Inr (b, l, w1) \<Longrightarrow> m_wq_runq w1 = m_wq_runq w"
proof -
  assume "rl_lock_workq a w = Inr (b, l, w1)"
  then have e: "w1 = w1\<lparr>m_wq_runq := m_wq_runq w\<rparr>" using lock_workq_runq [of a "m_wq_runq w" w] by simp
  show "m_wq_runq w1 = m_wq_runq w" by (subst e) simp
qed

text \<open>The first round, from the moment at which the iterator has moved on.\<close>

lemma lock_service_start:
  assumes "runq_ok w" and "turns w = a # rest"
  obtains us its vs w0 where
    "w0 = w\<lparr>m_wq_runq := us @ Back 0 # its @ Elem a # Front 0 # vs\<rparr>"
    "\<And>env. lock_service env w = lock_service_loop env a w0"
    "elems its = []" "rest = elems vs @ elems us" "turns w0 = rest @ [a]" "runq_ok w0"
    "distinct (us @ Back 0 # its @ Elem a # Front 0 # vs)" "new_pos 1 (us @ its @ vs)"
proof -
  let ?L = "m_wq_runq (get_runq_iterpos w)"
  note i = iterpos_linked [OF assms(1)]
  have "order_from ?L = a # rest" using assms(2) by (simp add: turns_def)
  then obtain us its vs where M: "runq_next ?L = (Some a, us @ Back 0 # its @ Elem a # Front 0 # vs)"
      "elems its = []" "rest = elems vs @ elems us" "distinct (us @ Back 0 # its @ Elem a # Front 0 # vs)"
      "new_pos 1 (us @ Back 0 # its @ Elem a # Front 0 # vs)"
    using runq_next_order [OF i(2,1,3)] by (auto simp: Let_def)
  let ?w = "w\<lparr>m_wq_runq := us @ Back 0 # its @ Elem a # Front 0 # vs\<rparr>"
  have s: "lock_service env w = lock_service_loop env a ?w" for env
    unfolding lock_service_def Let_def M(1) by (subst i(4)) simp
  have d: "distinct (us @ Back 0 # (its @ [Elem a]) @ Front 0 # vs)" using M(4) by simp
  have n: "new_pos 1 (us @ its @ vs)" using M(5) by (auto simp: new_pos_def)
  have "turns ?w = rest @ [a]" using turns_split [OF d, of ?w] M(2,3) by simp
  moreover have "runq_ok ?w"
    by (rule runq_ok_split [OF d]) (use n in \<open>auto simp: new_pos_def\<close>)
  ultimately show ?thesis using that [OF refl s M(2,3) _ _ M(4) n] by blast
qed

text \<open>The second attempt, when the first has failed and nobody else moves the list.\<close>

lemma lock_service_retry:
  assumes M: "m_wq_runq w1 = us @ Back 0 # its @ Elem a # Front 0 # vs"
      "distinct (us @ Back 0 # its @ Elem a # Front 0 # vs)" "elems its = []" "new_pos 1 (us @ its @ vs)"
    and f: "rl_lock_workq a (f w0) = Inr (False, l, w1)" and "same_runq g" "same_runq h"
  shows "\<exists>w3. w3 = (g w1)\<lparr>m_wq_runq := m_wq_runq w3\<rparr> \<and> turns w3 = elems vs @ elems us \<and> runq_ok w3 \<and>
     (\<forall>l2 w2. rl_lock_workq a (h w3) = Inr (True, l2, w2) \<longrightarrow>
       (\<exists>w'. lock_service_loop ((f, g, h) # env) a w0 = Some (Inr (l2, w')) \<and> jobs w' = jobs w2 \<and> wqs w' = wqs w2 \<and>
         turns w' = elems vs @ elems us @ [a] \<and> runq_ok w'))"
proof -
  let ?u = "pos_clear 2 us" and ?i = "pos_clear 2 its" and ?v = "pos_clear 2 vs"
  let ?L = "?u @ Back 0 # ?i @ Front 0 # ?v" and ?N = "?u @ Elem a # Back 0 # ?i @ Front 0 # ?v"
  let ?w = "(g w1)\<lparr>m_wq_runq := ?L\<rparr>"
  have e: "sl_erase 2 (runq_iter (Some a)) (m_wq_runq (g w1)) = Some ?L"
    using erase_turn [OF M(2)] assms(6) M(1) by (simp add: same_runq_def)
  have d: "distinct ?L" "distinct ((?u @ [Elem a]) @ Back 0 # ?i @ Front 0 # ?v)" "Elem a \<notin> set (?u @ ?i @ ?v)"
    using M(2) by (auto simp: pos_clear_def)
  have n: "new_pos 1 (?u @ ?i @ ?v)" "new_pos 1 ((?u @ [Elem a]) @ ?i @ ?v)"
    "Back 2 \<notin> set (?u @ ?i @ ?v)" "Front 2 \<notin> set (?u @ ?i @ ?v)"
    using M(4) by (auto simp: new_pos_def pos_clear_def)
  have t: "turns ?w = elems vs @ elems us" "runq_ok ?w"
    using turns_split [OF d(1), of ?w] runq_ok_split [OF d(1) n(1), of ?w] M(3) by simp_all
  have "\<exists>w'. lock_service_loop ((f, g, h) # env) a w0 = Some (Inr (l2, w')) \<and> jobs w' = jobs w2 \<and> wqs w' = wqs w2 \<and>
      turns w' = elems vs @ elems us @ [a] \<and> runq_ok w'"
    if 2: "rl_lock_workq a (h ?w) = Inr (True, l2, w2)" for l2 w2
  proof -
    have m: "m_wq_runq w2 = ?L" using lock_workq_same_runq [OF 2] assms(7) by (simp add: same_runq_def)
    obtain it K where K: "sl_link 2 (runq_iter (Some a)) a ?L = Some (it, K)" "pos_clear 2 K = ?N"
      using link_turn [OF d(1,3) n(3,4)] by blast
    let ?r = "service_wakeup 1 (w2\<lparr>m_wq_runq := pos_clear 2 K\<rparr>)"
    have "lock_service_loop ((f, g, h) # env) a w0 = Some (Inr (l2, ?r))"
      using f e 2 K(1) m by simp
    moreover have "turns ?r = elems vs @ elems us @ [a]" "runq_ok ?r"
      using turns_split [OF d(2), of ?r] runq_ok_split [OF d(2) n(2), of ?r] M(3) K(2) by simp_all
    ultimately show ?thesis by auto
  qed
  then show ?thesis using t by (intro exI [of _ ?w]) auto
qed

lemma alone_round:
  "lock_service_loop (alone # env) a w = (case rl_lock_workq a w of
     Inl e \<Rightarrow> Some (Inl e)
   | Inr (True, l, w1) \<Rightarrow> Some (Inr (l, w1))
   | Inr (False, _, w1) \<Rightarrow> (case sl_erase 2 (runq_iter (Some a)) (m_wq_runq w1) of
       None \<Rightarrow> Some (Inl Assertion_failed)
     | Some L \<Rightarrow> (case rl_lock_workq a (w1\<lparr>m_wq_runq := L\<rparr>) of
         Inl e \<Rightarrow> Some (Inl e)
       | Inr (True, l, w2) \<Rightarrow> (case sl_link 2 (runq_iter (Some a)) a (m_wq_runq w2) of
           None \<Rightarrow> Some (Inl Assertion_failed)
         | Some (_, M) \<Rightarrow> Some (Inr (l, service_wakeup 1 (w2\<lparr>m_wq_runq := pos_clear 2 M\<rparr>))))
       | Inr (False, _, w2) \<Rightarrow> lock_service_loop env a w2)))"
  by (simp add: alone_def)

text \<open>
  A thread that is alone does not come back from a work queue that has nothing to run: every round
  tries the same work queue again.
\<close>

lemma service_lock_loop_stuck:
  "rl_lock_workq a w = Inr (False, l, w1) \<Longrightarrow> lock_service_loop (replicate n alone) a w = None"
proof (induction n arbitrary: w l w1)
  case (Suc n w l w1)
  obtain M where M: "sl_erase 2 (runq_iter (Some a)) (m_wq_runq w1) = Some M" using erase_iter_Some by blast
  obtain l2 w2 where "rl_lock_workq a w1 = Inr (False, l2, w2)" using lock_workq_fails_again [OF Suc.prems] by blast
  then have 2: "rl_lock_workq a (w1\<lparr>m_wq_runq := M\<rparr>) = Inr (False, l2, w2\<lparr>m_wq_runq := M\<rparr>)"
    by (simp add: lock_workq_runq)
  obtain l3 w3 where "rl_lock_workq a (w2\<lparr>m_wq_runq := M\<rparr>) = Inr (False, l3, w3)"
    using lock_workq_fails_again [OF 2] by blast
  from Suc.IH [OF this] show ?case using Suc.prems M 2 by (simp add: alone_round)
qed simp

lemma service_lock_alone:
  assumes "runq_ok w" and "turns w = a # rest" and "rl_lock_workq a w = Inr (b, l, w1)"
  shows "if b then \<exists>w'. lock_service (replicate (Suc n) alone) w = Some (Inr (l, w')) \<and>
       turns w' = rest @ [a] \<and> runq_ok w' \<and> jobs w' = jobs w1 \<and> wqs w' = wqs w1 \<and> m_co_runq w' = m_co_runq w1
     else lock_service (replicate n alone) w = None"
proof -
  obtain us its vs w0 where s: "w0 = w\<lparr>m_wq_runq := us @ Back 0 # its @ Elem a # Front 0 # vs\<rparr>"
    "\<And>env. lock_service env w = lock_service_loop env a w0" "turns w0 = rest @ [a]" "runq_ok w0"
    using lock_service_start [OF assms(1,2)] by metis
  let ?w = "w1\<lparr>m_wq_runq := m_wq_runq w0\<rparr>"
  have l: "rl_lock_workq a w0 = Inr (b, l, ?w)" using assms(3) by (simp add: s(1) lock_workq_runq)
  have "turns ?w = turns w0" "runq_ok ?w = runq_ok w0"
    by (simp_all add: turns_def get_runq_iterpos_def runq_ok_def)
  then show ?thesis
    using l service_lock_loop_stuck [of a w0 l ?w n] s(3,4) by (cases b) (simp_all add: s(2) alone_round)
qed

text \<open>
  C27. The search of a thread for work. When no work queue is ready, nothing is locked. Otherwise the
  thread moves on: the next work queue in turn becomes the last. The search then does what the
  attempt to lock a job of this work queue says, in the world that the other threads have made until
  then (\<open>f\<close>): an error or the job that is locked. When the attempt fails, the work queue is taken off the
  list; if other threads have made it runnable before (\<open>g\<close>) or after that (\<open>h\<close>), the second attempt
  locks a job and the work queue is back on the list, as the last in turn.
\<close>

theorem service_lock_turns:
  assumes "runq_ok w"
  shows "case turns w of
     [] \<Rightarrow> \<exists>w'. lock_service env w = Some (Inr (run_lock_init, w')) \<and> jobs w' = jobs w \<and> wqs w' = wqs w
   | a # rest \<Rightarrow> \<exists>w0. w0 = w\<lparr>m_wq_runq := m_wq_runq w0\<rparr> \<and> turns w0 = rest @ [a] \<and> runq_ok w0 \<and>
       (\<forall>f g h env. case rl_lock_workq a (f w0) of
          Inl e \<Rightarrow> lock_service ((f, g, h) # env) w = Some (Inl e)
        | Inr (True, l, w1) \<Rightarrow>
            lock_service ((f, g, h) # env) w = Some (Inr (l, w1)) \<and> m_wq_runq w1 = m_wq_runq (f w0)
        | Inr (False, _, w1) \<Rightarrow> same_runq f \<and> same_runq g \<and> same_runq h \<longrightarrow>
            (\<exists>w3. w3 = (g w1)\<lparr>m_wq_runq := m_wq_runq w3\<rparr> \<and> turns w3 = rest \<and> runq_ok w3 \<and>
               (\<forall>l2 w2. rl_lock_workq a (h w3) = Inr (True, l2, w2) \<longrightarrow>
                  (\<exists>w'. lock_service ((f, g, h) # env) w = Some (Inr (l2, w')) \<and>
                     jobs w' = jobs w2 \<and> wqs w' = wqs w2 \<and> turns w' = rest @ [a] \<and> runq_ok w'))))"
proof (cases "turns w")
  case Nil
  note i = iterpos_linked [OF assms]
  have "fst (runq_next (m_wq_runq (get_runq_iterpos w))) = None"
    using runq_next_order [OF i(2,1,3)] Nil by (simp add: turns_def)
  then obtain M where "runq_next (m_wq_runq (get_runq_iterpos w)) = (None, M)" by (metis prod.collapse)
  then have "lock_service env w = Some (Inr (run_lock_init, w\<lparr>m_wq_runq := M\<rparr>))"
    unfolding lock_service_def Let_def by (subst i(4)) simp
  then show ?thesis using Nil by simp
next
  case (Cons a rest)
  obtain us its vs w0 where s: "w0 = w\<lparr>m_wq_runq := us @ Back 0 # its @ Elem a # Front 0 # vs\<rparr>"
    "\<And>env. lock_service env w = lock_service_loop env a w0" "elems its = []" "rest = elems vs @ elems us"
    "turns w0 = rest @ [a]" "runq_ok w0" "distinct (us @ Back 0 # its @ Elem a # Front 0 # vs)"
    "new_pos 1 (us @ its @ vs)"
    using lock_service_start [OF assms Cons] by metis
  have "case rl_lock_workq a (f w0) of
      Inl e \<Rightarrow> lock_service ((f, g, h) # env) w = Some (Inl e)
    | Inr (True, l, w1) \<Rightarrow>
        lock_service ((f, g, h) # env) w = Some (Inr (l, w1)) \<and> m_wq_runq w1 = m_wq_runq (f w0)
    | Inr (False, _, w1) \<Rightarrow> same_runq f \<and> same_runq g \<and> same_runq h \<longrightarrow>
        (\<exists>w3. w3 = (g w1)\<lparr>m_wq_runq := m_wq_runq w3\<rparr> \<and> turns w3 = rest \<and> runq_ok w3 \<and>
           (\<forall>l2 w2. rl_lock_workq a (h w3) = Inr (True, l2, w2) \<longrightarrow>
              (\<exists>w'. lock_service ((f, g, h) # env) w = Some (Inr (l2, w')) \<and>
                 jobs w' = jobs w2 \<and> wqs w' = wqs w2 \<and> turns w' = rest @ [a] \<and> runq_ok w')))" for f g h env
  proof -
    consider e where "rl_lock_workq a (f w0) = Inl e" | l w1 where "rl_lock_workq a (f w0) = Inr (True, l, w1)"
      | l w1 where "rl_lock_workq a (f w0) = Inr (False, l, w1)"
      by (metis (full_types) obj_sumE prod_cases3)
    then show ?thesis
    proof cases
      case 2
      then show ?thesis using lock_workq_same_runq by (simp add: s(2))
    next
      case 3
      have m: "m_wq_runq w1 = us @ Back 0 # its @ Elem a # Front 0 # vs" if "same_runq f"
        using lock_workq_same_runq [OF 3] that by (simp add: same_runq_def s(1))
      note r = lock_service_retry [where us = us and its = its and vs = vs and f = f and g = g and h = h and
          env = env and ?w0.0 = w0, OF _ s(7,3,8) 3]
      show ?thesis using r m 3 by (simp add: s(2,4))
    qed (simp add: s(2))
  qed
  then show ?thesis using s(1,5,6) Cons by (auto intro!: exI [of _ w0])
qed

lemma turns_cong: "m_wq_runq w = m_wq_runq w' \<Longrightarrow> turns w = turns w'" "m_wq_runq w = m_wq_runq w' \<Longrightarrow> runq_ok w = runq_ok w'"
  by (simp_all add: turns_def get_runq_iterpos_def runq_ok_def)

lemma flag_values:
  "flag STATE_ACTIVE STATE_ACTIVE" "\<not> flag STATE_ACTIVE STATE_RUNNING" "\<not> flag 0 TYPE_ONCE"
  "\<not> flag 0 TYPE_PERSIST" "\<not> flag 0 STATE_ACTIVE" "\<not> flag 0 TYPE_PARALLEL"
  "flag ((STATE_ACTIVE OR STATE_RUNNING) AND NOT STATE_ACTIVE) STATE_RUNNING"
  "\<not> flag ((STATE_ACTIVE OR STATE_RUNNING) AND NOT STATE_ACTIVE) STATE_ACTIVE"
  by (simp_all add: flag_def STATE_ACTIVE_def STATE_RUNNING_def TYPE_ONCE_def TYPE_PERSIST_def TYPE_PARALLEL_def)

lemma attempt_locks:
  "(case r of Inl e \<Rightarrow> A e | Inr (True, l, w1) \<Rightarrow> B l w1 | Inr (False, _, w1) \<Rightarrow> C w1) \<Longrightarrow>
     r = Inr (True, l, w1) \<Longrightarrow> B l w1"
  by simp

text \<open>A service with the ready work queues 1 and 3, each with the active job 10 or 30.\<close>

definition ready_job :: "addr \<Rightarrow> workq_job" where
  "ready_job j = \<lparr>m_type = 0, m_run_gen = 0, m_state = STATE_ACTIVE, job_wq = j div 10, job_is_co = False,
     co_runcount = 0, co_rlck = run_lock_init, co_idx = 0, co_size = 0\<rparr>"

definition ready_service :: "items \<Rightarrow> wq_world" where
  "ready_service L = \<lparr>jobs = ready_job, wqs = (\<lambda>a. workq_init\<lparr>m_runq := [10 * a]\<rparr>), m_wq_runq = L,
     m_co_runq = [], wakeup_cb = None, wakeups = []\<rparr>"

lemma ready_lock:
  "\<exists>w1. rl_lock_workq a (ready_service L) =
     Inr (True, run_lock_init\<lparr>rl_wq := Some a, rl_job := Some (10 * a), rl_job_lck := JOB_RUNNING\<rparr>, w1) \<and>
     m_state (jobs w1 (10 * a)) = (STATE_ACTIVE OR STATE_RUNNING) AND NOT STATE_ACTIVE \<and>
     m_type (jobs w1 (10 * a)) = 0 \<and> \<not> job_is_co (jobs w1 (10 * a)) \<and> m_runq (wqs w1 a) = [] \<and>
     m_run_single (wqs w1 a) \<and> m_co_runq w1 = []"
  by (simp add: lock_workq_defs ready_service_def workq_init_def job_lock_run_def lock_run_next_def
      ready_job_def flag_values)

theorem service_lock_turns_witness:
  "\<exists>l w'. lock_service [alone] (ready_service [Elem 1, Elem 3]) = Some (Inr (l, w')) \<and>
     rl_job l = Some 30 \<and> turns w' = [1, 3]"
proof -
  let ?w = "ready_service [Elem 1, Elem 3]"
  have "runq_restart [Elem 1, Elem 3] = (Some 1, [Back 0, Elem 1, Front 0, Elem 3])" by code_simp
  then have "get_runq_iterpos ?w = ?w\<lparr>m_wq_runq := [Back 0, Elem 1, Front 0, Elem 3]\<rparr>"
    by (simp add: get_runq_iterpos_def ready_service_def pos_linked_def)
  then have t: "turns ?w = [3, 1]"
    by (simp add: turns_def order_from_def past_item_def upto_item_def)
  have "runq_ok ?w" by (simp add: runq_ok_def ready_service_def new_pos_def)
  from service_lock_turns [OF this, of "[]", unfolded t list.case append.simps] obtain w0 where
    w0: "w0 = ?w\<lparr>m_wq_runq := m_wq_runq w0\<rparr>" "turns w0 = [1, 3]"
    and l: "\<And>l w1. rl_lock_workq 3 w0 = Inr (True, l, w1) \<Longrightarrow>
      lock_service [(\<lambda>w. w, \<lambda>w. w, \<lambda>w. w)] ?w = Some (Inr (l, w1)) \<and> m_wq_runq w1 = m_wq_runq w0"
    by (elim exE conjE) (rule that, assumption+, drule spec [where x = "\<lambda>w. w"], drule spec [where x = "\<lambda>w. w"],
        drule spec [where x = "\<lambda>w. w"], drule spec [where x = "[]"], drule (1) attempt_locks, assumption)
  have r: "w0 = ready_service (m_wq_runq w0)" by (subst w0(1)) (simp add: ready_service_def)
  obtain l1 w1 where k: "rl_lock_workq 3 w0 = Inr (True, l1, w1)" "rl_job l1 = Some 30"
    using ready_lock [of 3 "m_wq_runq w0"] unfolding r [symmetric] by auto
  show ?thesis using l [OF k(1)] k(2) w0(2) turns_cong(1) unfolding alone_def by metis
qed

section \<open>Defects\<close>

text \<open>
  \<open>aid\<close> of a service whose only job is on its only work queue runs the job and does not come back:
  the search for a second one finds the work queue, takes it off the list and tries it for ever.
\<close>

lemma empty_workq_fails:
  "m_runq (wqs w a) = [] \<Longrightarrow> \<not> m_run_single (wqs w a) \<Longrightarrow> \<exists>l w1. rl_lock_workq a w = Inr (False, l, w1)"
  by (simp add: lock_workq_defs)

lemma run_plain_job:
  assumes l: "rl_job l = Some j" "rl_job_lck l = JOB_RUNNING" "rl_wq l = Some a" "rl_wq_lck l = RUN_SINGLE"
      "rl_co l = None" "\<not> rl_commited l"
    and j: "\<not> job_is_co (jobs w j)" "flag (m_state (jobs w j)) STATE_RUNNING" "\<not> flag (m_state (jobs w j)) STATE_ACTIVE"
    and a: "m_run_single (wqs w a)"
  shows "\<exists>w2. run_locked (run_job (\<lambda>_ t w. Inr (t, w))) j l t w = Inr (t, w2) \<and>
     wqs w2 a = (wqs w a)\<lparr>m_run_single := False\<rparr> \<and> m_wq_runq w2 = m_wq_runq w \<and> m_co_runq w2 = m_co_runq w"
  using assms
  by (simp add: run_locked_def rl_commit_def rl_is_locked_def run_job_def tls_push_def rl_unlock_def
      job_unlock_run_def unlock_requeues_def wq_release_def wq_unlock_run_def upd_job_def upd_wq_def Let_def)

lemma aid_never_returns:
  "service_aid n (\<lambda>_ t w. Inr (t, w)) cof 0 2 \<lparr>tls_wqs = None, tls_stack = []\<rparr> (ready_service [Elem 1]) = None"
proof (cases n)
  case (Suc m)
  let ?w = "ready_service [Elem 1]" and ?t = "\<lparr>tls_wqs = None, tls_stack = []\<rparr>"
  have "runq_restart [Elem 1] = (Some 1, [Back 0, Elem 1, Front 0])" by code_simp
  then have "get_runq_iterpos ?w = ?w\<lparr>m_wq_runq := [Back 0, Elem 1, Front 0]\<rparr>"
    by (simp add: get_runq_iterpos_def ready_service_def pos_linked_def)
  then have t: "turns ?w = [1]" by (simp add: turns_def order_from_def past_item_def upto_item_def)
  have ok: "runq_ok ?w" by (simp add: runq_ok_def ready_service_def new_pos_def)
  let ?l = "run_lock_init\<lparr>rl_wq := Some 1, rl_job := Some 10, rl_job_lck := JOB_RUNNING\<rparr>"
  obtain w1 where w1: "rl_lock_workq 1 ?w = Inr (True, ?l, w1)"
    "m_state (jobs w1 10) = (STATE_ACTIVE OR STATE_RUNNING) AND NOT STATE_ACTIVE"
    "\<not> job_is_co (jobs w1 10)" "m_runq (wqs w1 1) = []" "m_run_single (wqs w1 1)" "m_co_runq w1 = []"
    using ready_lock [of 1 "[Elem 1]"] by auto
  obtain w2 where w2: "lock_service (replicate (Suc m) alone) ?w = Some (Inr (?l, w2))"
    "turns w2 = [1]" "runq_ok w2" and j: "jobs w2 = jobs w1" "wqs w2 = wqs w1" "m_co_runq w2 = m_co_runq w1"
    using service_lock_alone [OF ok t w1(1), of m] by auto
  obtain w3 where w3: "run_locked (run_job (\<lambda>_ t w. Inr (t, w))) 10 ?l ?t w2 = Inr (?t, w3)"
    "wqs w3 1 = (wqs w2 1)\<lparr>m_run_single := False\<rparr>" "m_wq_runq w3 = m_wq_runq w2" "m_co_runq w3 = m_co_runq w2"
    using run_plain_job [of ?l 10 1 w2 ?t] w1(2,3,5) by (auto simp: j run_lock_init_def flag_values)
  have t3: "turns w3 = [1]" "runq_ok w3" using w2(2,3) turns_cong [OF w3(3)] by simp_all
  obtain l4 w4 where "rl_lock_workq 1 w3 = Inr (False, l4, w4)"
    using empty_workq_fails [of w3 1] w3(2) j w1(4) by auto
  then have stuck: "lock_service (replicate k alone) w3 = None" for k
    using service_lock_alone [OF t3(2,1), of False l4 w4 k] by simp
  have e: "sl_empty (m_co_runq ?w)" "sl_empty (m_co_runq w3)"
    using w1(6) j(3) w3(4) by (simp_all add: ready_service_def sl_empty_def)
  have "service_aid m (\<lambda>_ t w. Inr (t, w)) cof 1 2 ?t w3 = None"
    using e(2) stuck by (cases m) (simp_all del: replicate_Suc)
  then show ?thesis
    using Suc e(1) w2(1) w3(1) by (simp add: rl_is_locked_def run_lock_init_def del: replicate_Suc)
qed simp

text \<open>
  Work that is stranded. The level single of work queue 3 is held by another thread, and the jobs 30
  and 31 wait. A thread that looks for work takes the queue off the list, fails again, and goes
  round; now the other thread is done, the first attempt of the second round succeeds, and the
  queue is not put back: job 31 is ready on a work queue that no thread will find.
\<close>

definition busy_service :: wq_world where
  "busy_service = (ready_service [Front 0, Elem 3, Back 0])
     \<lparr>wqs := (\<lambda>_. workq_init\<lparr>m_runq := [30, 31], m_run_single := True\<rparr>)\<rparr>"

definition give_up_single :: "wq_world \<Rightarrow> wq_world" where
  "give_up_single = upd_wq 3 (\<lambda>q. q\<lparr>m_run_single := False\<rparr>)"

lemma ready_work_stranded:
  "\<exists>l w'. lock_service [alone, (give_up_single, id, id)] busy_service = Some (Inr (l, w')) \<and> rl_job l = Some 30 \<and>
     m_runq (wqs w' 3) = [31] \<and> flag (m_state (jobs w' 31)) STATE_ACTIVE \<and> m_wq_runq w' = [Back 0, Front 0]"
proof -
  have n: "runq_next [Front 0, Elem 3, Back 0] = (Some 3, [Back 0, Elem 3, Front 0])" by code_simp
  have e: "sl_erase 2 (runq_iter (Some 3)) [Back 0, Elem 3, Front 0] = Some [Back 0, Front 0]" by code_simp
  show ?thesis
    by (simp add: lock_service_def alone_def busy_service_def ready_service_def get_runq_iterpos_def pos_linked_def n
        lock_workq_defs workq_init_def e give_up_single_def job_lock_run_def lock_run_next_def ready_job_def
        flag_values)
qed

end
