(* ===== verification/Workq_Intref.thy ===== *)
theory Workq_Intref
  imports Prelude
begin

text \<open>
  The internal references of a work queue (\<open>workq_int\<close> and \<open>workq_intref_mgr\<close> of
  \<open>include/ilias/workq.h\<close>) and the deleter of \<open>src/workq.cc\<close>, interleaved. Any number of threads
  hold one internal reference each, taken while others existed; one thread runs the deleter when
  the last external reference is gone. A step is one atomic operation.
\<close>

datatype ref_pc =
    R_idle
  | R_holds
  | R_last  \<comment> \<open>its \<open>fetch_sub\<close> gave 1: about to read \<open>int_suicide\<close>\<close>
  | R_delete  \<comment> \<open>the deleter, before it takes its reference\<close>
  | R_acquired

record ref_state =
  int_refcnt :: nat
  int_suicide :: bool
  deletes :: nat
  r_pc :: "nat \<Rightarrow> ref_pc"

definition ref_init :: "nat set \<Rightarrow> ref_state" where
  "ref_init T = \<lparr>int_refcnt = card T, int_suicide = False, deletes = 0,
     r_pc = (\<lambda>t. if t \<in> T then R_holds else R_idle)\<rparr>"

definition rgoto :: "nat \<Rightarrow> ref_pc \<Rightarrow> ref_state \<Rightarrow> ref_state" where
  "rgoto t c s = s\<lparr>r_pc := (r_pc s)(t := c)\<rparr>"

inductive ref_step :: "nat \<Rightarrow> ref_state \<Rightarrow> ref_state \<Rightarrow> bool" where
  r_copy: "r_pc s u = R_holds \<Longrightarrow> r_pc s t = R_idle \<Longrightarrow>
    ref_step t s (rgoto t R_holds (s\<lparr>int_refcnt := int_refcnt s + 1\<rparr>))"
| r_release: "r_pc s t = R_holds \<Longrightarrow>
    ref_step t s (rgoto t (if int_refcnt s = 1 then R_last else R_idle) (s\<lparr>int_refcnt := int_refcnt s - 1\<rparr>))"
| r_test: "r_pc s t = R_last \<Longrightarrow>
    ref_step t s (rgoto t R_idle (if int_suicide s then s\<lparr>deletes := deletes s + 1\<rparr> else s))"
| r_acquire: "r_pc s t = R_delete \<Longrightarrow>
    ref_step t s (rgoto t R_acquired (s\<lparr>int_refcnt := int_refcnt s + 1\<rparr>))"
| r_suicide: "r_pc s t = R_acquired \<Longrightarrow> ref_step t s (rgoto t R_holds (s\<lparr>int_suicide := True\<rparr>))"

text \<open>The deleter starts once, in a thread \<open>d\<close> that holds no internal reference.\<close>

inductive ref_reachable :: "nat set \<Rightarrow> nat \<Rightarrow> ref_state \<Rightarrow> bool" for T d where
  ref_start: "d \<notin> T \<Longrightarrow> ref_reachable T d (rgoto d R_delete (ref_init T))"
| ref_next: "ref_reachable T d s \<Longrightarrow> ref_step t s s' \<Longrightarrow> ref_reachable T d s'"

lemma rgoto_sel [simp]:
  "int_refcnt (rgoto t c s) = int_refcnt s" "int_suicide (rgoto t c s) = int_suicide s"
  "deletes (rgoto t c s) = deletes s" "r_pc (rgoto t c s) = (r_pc s)(t := c)"
  by (simp_all add: rgoto_def)

definition owners :: "(nat \<Rightarrow> ref_pc) \<Rightarrow> nat set" where
  "owners f = {t. f t = R_holds \<or> f t = R_acquired}"

lemma owners_upd:
  "owners (f(t := c)) = (if c = R_holds \<or> c = R_acquired then insert t (owners f) else owners f - {t})"
  by (auto simp: owners_def)

lemma owner_cases [simp]: "t \<in> owners f \<longleftrightarrow> f t = R_holds \<or> f t = R_acquired"
  by (simp add: owners_def)

text \<open>The counter is the number of owners, and the deleter is the thread \<open>d\<close>.\<close>

definition ref_inv :: "nat \<Rightarrow> ref_state \<Rightarrow> bool" where
  "ref_inv d s \<longleftrightarrow> finite (owners (r_pc s)) \<and> int_refcnt s = card (owners (r_pc s)) \<and>
     (\<forall>t. r_pc s t = R_delete \<or> r_pc s t = R_acquired \<longrightarrow> t = d \<and> \<not> int_suicide s) \<and>
     (int_suicide s \<longrightarrow> 0 < deletes s \<or> (\<exists>t. r_pc s t = R_holds \<or> r_pc s t = R_last))"

lemma ref_step_inv:
  assumes "ref_step t s s'" and i: "ref_inv d s"
  shows "ref_inv d s'"
  using assms
proof (induction rule: ref_step.induct)
  case (r_release s t)
  then have f: "finite (owners (r_pc s))" "int_refcnt s = card (owners (r_pc s))" "t \<in> owners (r_pc s)"
    by (auto simp: ref_inv_def)
  have c: "card (owners (r_pc s) - {t}) = int_refcnt s - 1" using f by simp
  show ?case
  proof (cases "int_refcnt s = 1")
    case False
    have "owners (r_pc s) \<noteq> {t}" using False f(2) by auto
    then obtain u where u: "u \<noteq> t" "u \<in> owners (r_pc s)" using f(3) by blast
    have "r_pc s u = R_holds" if "int_suicide s" using that u(2) r_release(2) by (auto simp: ref_inv_def)
    then show ?thesis using False f c u r_release by (auto simp: ref_inv_def owners_upd)
  qed (use f c r_release in \<open>auto simp: ref_inv_def owners_upd\<close>)
next
  case (r_suicide s t)
  then have "insert t (owners (r_pc s)) = owners (r_pc s)" by (intro insert_absorb) simp
  then show ?case using r_suicide by (auto simp: ref_inv_def owners_upd)
qed (auto simp: ref_inv_def owners_upd)

text \<open>No leak: when the deleter has set the flag and all references are gone, the queue was deleted.\<close>

lemma suicide_deletes:
  assumes "ref_reachable T d s" "finite T" and "int_suicide s" and "\<forall>t. r_pc s t = R_idle"
  shows "0 < deletes s"
proof -
  have "ref_inv d s" using assms(1)
  proof (induction rule: ref_reachable.induct)
    case ref_start
    have "owners (r_pc (ref_init T)) = T" by (auto simp: ref_init_def owners_def)
    then show ?case using ref_start assms(2) by (auto simp: ref_inv_def ref_init_def owners_upd split: if_splits)
  qed (rule ref_step_inv)
  then show ?thesis using assms(3,4) by (auto simp: ref_inv_def)
qed

text \<open>
  Double deletion: the last internal reference goes (its thread is about to read the flag), the
  deleter takes a new one and sets the flag, both threads now find the flag set.
\<close>

definition ref_run :: "nat \<Rightarrow> bool \<Rightarrow> nat \<Rightarrow> ref_pc \<Rightarrow> ref_pc \<Rightarrow> ref_state" where
  "ref_run n b k c0 c1 = \<lparr>int_refcnt = n, int_suicide = b, deletes = k,
     r_pc = (\<lambda>t. if t = 0 then c0 else if t = 2 then c1 else R_idle)\<rparr>"

lemma ref_run_upd [simp]:
  "(\<lambda>t::nat. if t = 0 then c0 else if t = 2 then c1 else R_idle)(0 := c) =
     (\<lambda>t. if t = 0 then c else if t = 2 then c1 else R_idle)"
  "(\<lambda>t::nat. if t = 0 then c0 else if t = 2 then c1 else R_idle)(2 := c) =
     (\<lambda>t. if t = 0 then c0 else if t = 2 then c else R_idle)"
  by (simp_all add: fun_eq_iff)

lemma deleted_twice: "ref_reachable {0} 2 (ref_run 0 True (Suc 1) R_idle R_idle)"
proof -
  have "ref_reachable {0} 2 (rgoto 2 R_delete (ref_init {0}))" by (rule ref_start) simp
  moreover have "rgoto 2 R_delete (ref_init {0}) = ref_run 1 False 0 R_holds R_delete"
    by (simp add: rgoto_def ref_init_def ref_run_def fun_eq_iff)
  ultimately have s0: "ref_reachable {0} 2 (ref_run 1 False 0 R_holds R_delete)" by simp
  have s1: "ref_step 0 (ref_run 1 False 0 R_holds R_delete) (ref_run 0 False 0 R_last R_delete)"
    using r_release [of "ref_run 1 False 0 R_holds R_delete" 0] by (simp add: ref_run_def rgoto_def)
  have s2: "ref_step 2 (ref_run 0 False 0 R_last R_delete) (ref_run 1 False 0 R_last R_acquired)"
    using r_acquire [of "ref_run 0 False 0 R_last R_delete" 2] by (simp add: ref_run_def rgoto_def)
  have s3: "ref_step 2 (ref_run 1 False 0 R_last R_acquired) (ref_run 1 True 0 R_last R_holds)"
    using r_suicide [of "ref_run 1 False 0 R_last R_acquired" 2] by (simp add: ref_run_def rgoto_def)
  have s4: "ref_step 0 (ref_run 1 True 0 R_last R_holds) (ref_run 1 True 1 R_idle R_holds)"
    using r_test [of "ref_run 1 True 0 R_last R_holds" 0] by (simp add: ref_run_def rgoto_def)
  have s5: "ref_step 2 (ref_run 1 True 1 R_idle R_holds) (ref_run 0 True 1 R_idle R_last)"
    using r_release [of "ref_run 1 True 1 R_idle R_holds" 2] by (simp add: ref_run_def rgoto_def)
  have s6: "ref_step 2 (ref_run 0 True 1 R_idle R_last) (ref_run 0 True (Suc 1) R_idle R_idle)"
    using r_test [of "ref_run 0 True 1 R_idle R_last" 2] by (simp add: ref_run_def rgoto_def)
  show ?thesis by (rule s0 [THEN ref_next, OF s1, THEN ref_next, OF s2, THEN ref_next, OF s3,
    THEN ref_next, OF s4, THEN ref_next, OF s5, THEN ref_next, OF s6])
qed

section \<open>The locks of shared pointers\<close>

text \<open>
  \<open>atomic_lock_jobptr\<close>, for libraries without atomic shared pointers: the loop repeats while the
  compare-exchange succeeds. The argument is the flag of the lock; the result is the flag when the
  loop ends (\<open>None\<close> for a loop that has not). \<open>atomic_unlock_jobptr\<close> asserts that the flag was set.
\<close>

fun atomic_lock_jobptr :: "nat \<Rightarrow> bool \<Rightarrow> bool option" where
  "atomic_lock_jobptr 0 atom = None"
| "atomic_lock_jobptr (Suc n) atom = (if \<not> atom then atomic_lock_jobptr n True else Some atom)"

definition atomic_unlock_jobptr :: "bool \<Rightarrow> bool option" where
  "atomic_unlock_jobptr atom = (if atom then Some False else None)"

text \<open>A thread passes a lock that another thread holds, and the second unlock then fails its assertion.\<close>

lemma held_lock_is_passed:
  "atomic_lock_jobptr 2 False = Some True \<and> atomic_lock_jobptr 1 True = Some True \<and>
   Option.bind (atomic_unlock_jobptr True) atomic_unlock_jobptr = None"
  by (simp add: numeral_2_eq_2 atomic_unlock_jobptr_def)

end
