(* ===== verification/WQ_Callback.thy ===== *)
theory WQ_Callback
  imports Workq_Jobs
begin

text \<open>
  Callbacks that run on a work queue (\<open>include/ilias/wq_callback.h\<close>): an event stores its argument
  in a job and activates it, and the job passes the argument that it finds to the function. Any
  number of threads raise events while others run the jobs of the work queue, which move as
  \<open>Workq_Conc\<close> says; the job \<open>j\<close> of the callback is one of them.
\<close>

datatype 'a cb_pc =
    C_none
  | C_stored  \<comment> \<open>in \<open>do_callback\<close>, before \<open>activate\<close>\<close>
  | C_got "'a option"  \<comment> \<open>in \<open>run\<close>, with a copy of \<open>m_arg\<close>\<close>
  | C_done

record ('j, 't, 'a) cb_state =
  cb_jobs :: "('j, 't) jobs_state"
  m_arg :: "'a option"
  cb_pc :: "'t \<Rightarrow> 'a cb_pc"
  cb_calls :: "'a list"


definition cgo :: "'t \<Rightarrow> 'a cb_pc \<Rightarrow> ('j, 't, 'a) cb_state \<Rightarrow> ('j, 't, 'a) cb_state" where
  "cgo t c s = s\<lparr>cb_pc := (cb_pc s)(t := c)\<rparr>"

text \<open>The steps of the job \<open>j\<close> that belong to the callback.\<close>

definition activated_by :: "'t \<Rightarrow> 'j \<Rightarrow> ('j, 't) jobs_state \<Rightarrow> ('j, 't) jobs_state" where
  "activated_by t j s = jgoto t (if activate_queues (js_state s j) then J_Link j else J_Idle)
     (jwant j True (jset j (js_state s j OR STATE_ACTIVE) s))"

definition unlocked_by :: "'t \<Rightarrow> 'j \<Rightarrow> ('j, 't) jobs_state \<Rightarrow> ('j, 't) jobs_state" where
  "unlocked_by t j s = jgoto t (if unlock_requeues (js_type s j) (js_state s j) then J_Link j else J_Idle)
     (jset j (js_state s j AND NOT STATE_RUNNING) s)"



lemma cgo_sel [simp]:
  "cb_jobs (cgo t c s) = cb_jobs s" "m_arg (cgo t c s) = m_arg s" "cb_calls (cgo t c s) = cb_calls s"
  "cb_pc (cgo t c s) = (cb_pc s)(t := c)"
  by (simp_all add: cgo_def)

lemma by_sel [simp]:
  "js_pc (activated_by t j s) = (js_pc s)(t := if activate_queues (js_state s j) then J_Link j else J_Idle)"
  "js_wanted (activated_by t j s) = (js_wanted s)(j := True)"
  "js_pc (unlocked_by t j s) =
     (js_pc s)(t := if unlock_requeues (js_type s j) (js_state s j) then J_Link j else J_Idle)"
  "js_wanted (unlocked_by t j s) = js_wanted s"
  by (simp_all add: activated_by_def unlocked_by_def)

section \<open>The invariant\<close>













section \<open>The latest argument\<close>


text \<open>One event with the argument 7, and one run, both by the thread \<open>True\<close>.\<close>

definition one_cb :: "(unit, bool) jobs_state \<Rightarrow> nat cb_pc \<Rightarrow> nat list \<Rightarrow> (unit, bool, nat) cb_state" where
  "one_cb js c calls = \<lparr>cb_jobs = js, m_arg = Some 7, cb_pc = (\<lambda>b. if b then c else C_none), cb_calls = calls\<rparr>"

lemma one_cb_sel [simp]:
  "cb_jobs (one_cb js c calls) = js" "m_arg (one_cb js c calls) = Some 7"
  "cb_pc (one_cb js c calls) b = (if b then c else C_none)" "cb_calls (one_cb js c calls) = calls"
  "cgo True c' (one_cb js c calls) = one_cb js c' calls"
  "cb_jobs_update (\<lambda>_. js') (one_cb js c calls) = one_cb js' c calls"
  "cb_calls_update (\<lambda>_. calls') (one_cb js c calls) = one_cb js c calls'"
  by (auto simp: one_cb_def cgo_def)




end
