(* ===== verification/LL_List.thy ===== *)
theory LL_List
  imports Prelude "HOL-Library.Monad_Syntax"
begin

unbundle bit_operations_syntax

text \<open>
  The intrusive doubly linked list of \<open>src/ll_list.cc\<close>: elements with a successor pointer that
  carries two flags, a predecessor pointer that carries one, and operations that finish the
  removals which other threads have begun. The definitions run one operation on a heap of
  elements; the heap may hold removals that are stalled half way, since each operation can start
  from any such heap. Loops take fuel. The result \<open>None\<close> means that the operation does not
  return: the fuel is used up, an \<open>assert\<close> fails, or it waits for another thread.
  \<open>LL_List_Inv\<close> shows how much fuel is enough.
\<close>

section \<open>Elements\<close>

datatype elem_type = Head | Element | Iterator

type_synonym s_flags = "2 word"
type_synonym p_flags = "1 word"
type_synonym s_ptr = "ptr \<times> s_flags"
type_synonym p_ptr = "ptr \<times> p_flags"

definition MARKED :: p_flags where "MARKED = 1"
definition UNMARKED :: p_flags where "UNMARKED = 0"
definition S_UNMARKED :: s_flags where "S_UNMARKED = 0"
definition S_MARKED :: s_flags where "S_MARKED = 1"
definition D_MARKED :: s_flags where "D_MARKED = 2"

record elem =
  e_succ :: s_ptr
  e_pred :: p_ptr
  e_type :: elem_type
  e_linking :: bool

definition elem_ctor :: "elem_type \<Rightarrow> elem" where
  "elem_ctor ty = \<lparr>e_succ = (None, S_UNMARKED), e_pred = (None, UNMARKED), e_type = ty,
     e_linking = False\<rparr>"

text \<open>The elements that exist are those below \<open>bound\<close>.\<close>

record lheap =
  cells :: "addr \<Rightarrow> elem"
  bound :: nat

abbreviation succ_of :: "lheap \<Rightarrow> addr \<Rightarrow> s_ptr" where "succ_of h x \<equiv> e_succ (cells h x)"
abbreviation pred_of :: "lheap \<Rightarrow> addr \<Rightarrow> p_ptr" where "pred_of h x \<equiv> e_pred (cells h x)"
abbreviation type_of :: "lheap \<Rightarrow> addr \<Rightarrow> elem_type" where "type_of h x \<equiv> e_type (cells h x)"
abbreviation linking_of :: "lheap \<Rightarrow> addr \<Rightarrow> bool" where "linking_of h x \<equiv> e_linking (cells h x)"

definition set_succ :: "addr \<Rightarrow> s_ptr \<Rightarrow> lheap \<Rightarrow> lheap" where
  "set_succ x v h = h\<lparr>cells := (cells h)(x := (cells h x)\<lparr>e_succ := v\<rparr>)\<rparr>"

definition set_pred :: "addr \<Rightarrow> p_ptr \<Rightarrow> lheap \<Rightarrow> lheap" where
  "set_pred x v h = h\<lparr>cells := (cells h)(x := (cells h x)\<lparr>e_pred := v\<rparr>)\<rparr>"

definition set_linking :: "addr \<Rightarrow> bool \<Rightarrow> lheap \<Rightarrow> lheap" where
  "set_linking x v h = h\<lparr>cells := (cells h)(x := (cells h x)\<lparr>e_linking := v\<rparr>)\<rparr>"

lemma heap_simps [simp]:
  "succ_of (set_succ x v h) y = (if y = x then v else succ_of h y)"
  "pred_of (set_succ x v h) y = pred_of h y"
  "type_of (set_succ x v h) y = type_of h y"
  "linking_of (set_succ x v h) y = linking_of h y"
  "succ_of (set_pred x w h) y = succ_of h y"
  "pred_of (set_pred x w h) y = (if y = x then w else pred_of h y)"
  "type_of (set_pred x w h) y = type_of h y"
  "linking_of (set_pred x w h) y = linking_of h y"
  "succ_of (set_linking x l h) y = succ_of h y"
  "pred_of (set_linking x l h) y = pred_of h y"
  "type_of (set_linking x l h) y = type_of h y"
  "linking_of (set_linking x l h) y = (if y = x then l else linking_of h y)"
  "bound (set_succ x v h) = bound h" "bound (set_pred x w h) = bound h"
  "bound (set_linking x l h) = bound h"
  by (auto simp: set_succ_def set_pred_def set_linking_def)

text \<open>
  The link count of an element: the pointers to it in the list and the \<open>held\<close> references on the
  stack of the operation that runs.
\<close>

definition link_count :: "lheap \<Rightarrow> nat \<Rightarrow> addr \<Rightarrow> nat" where
  "link_count h held x =
     length (filter (\<lambda>y. fst (succ_of h y) = Some x) [0..<bound h])
     + length (filter (\<lambda>y. fst (pred_of h y) = Some x) [0..<bound h]) + held"

definition is_unlinked :: "lheap \<Rightarrow> addr \<Rightarrow> bool" where
  "is_unlinked h x = (fst (pred_of h x) = None \<or> snd (pred_of h x) = MARKED)"

section \<open>Compare and exchange\<close>

text \<open>The answer, the value of \<open>expect\<close> afterwards and the value of the variable afterwards.\<close>

definition cas :: "'a \<Rightarrow> 'a \<Rightarrow> 'a \<Rightarrow> bool \<times> 'a \<times> 'a" where
  "cas v expect new = (if v = expect then (True, expect, new) else (False, v, v))"

definition cas_succ :: "addr \<Rightarrow> s_ptr \<Rightarrow> s_ptr \<Rightarrow> lheap \<Rightarrow> bool \<times> s_ptr \<times> lheap" where
  "cas_succ x expect new h =
     (let (ok, e, v) = cas (succ_of h x) expect new in (ok, e, set_succ x v h))"

definition cas_pred :: "addr \<Rightarrow> p_ptr \<Rightarrow> p_ptr \<Rightarrow> lheap \<Rightarrow> bool \<times> p_ptr \<times> lheap" where
  "cas_pred x expect new h =
     (let (ok, e, v) = cas (pred_of h x) expect new in (ok, e, set_pred x v h))"

section \<open>Finishing a removal: \<open>unlink_aid_\<close>\<close>

definition s_marked :: "s_flags \<Rightarrow> bool" where "s_marked f = (f AND S_MARKED = S_MARKED)"
definition d_marked :: "s_flags \<Rightarrow> bool" where "d_marked f = (f AND D_MARKED = D_MARKED)"

text \<open>
  Mark \<open>x.pred_\<close>. Without interference the first exchange fails only on another predecessor or
  on a marked pointer, and the second one succeeds. The result is the predecessor that was
  published, or \<open>None\<close> where \<open>x\<close> is not linked.
\<close>

definition aid_mark_pred :: "addr \<Rightarrow> addr \<Rightarrow> lheap \<Rightarrow> lheap \<times> ptr" where
  "aid_mark_pred a x h =
     (case cas_pred x (Some a, UNMARKED) (Some a, MARKED) h of
        (True, _, h) \<Rightarrow> (h, Some a)
      | (False, xp, h) \<Rightarrow>
          (if snd xp = MARKED then (h, fst xp)
           else if fst xp = None then (h, None)
           else (set_pred x (Some a, MARKED) h, Some a)))"

text \<open>Publish the intent to move \<open>x.succ_\<close>; the answer is the value of \<open>x.succ_\<close> afterwards.\<close>

definition aid_publish :: "addr \<Rightarrow> lheap \<Rightarrow> lheap \<times> s_ptr" where
  "aid_publish x h =
     (let s = succ_of h x
      in if fst s \<noteq> None \<and> \<not> d_marked (snd s)
         then (set_succ x (fst s, snd s OR D_MARKED) h, (fst s, snd s OR D_MARKED)) else (h, s))"

text \<open>The predecessor of the successor: from \<open>x\<close> to \<open>a\<close>, with the mark it has.\<close>

definition aid_fix_pred :: "addr \<Rightarrow> addr \<Rightarrow> addr \<Rightarrow> lheap \<Rightarrow> lheap" where
  "aid_fix_pred a x b h =
     (case cas_pred b (Some x, UNMARKED) (Some a, UNMARKED) h of
        (True, _, h) \<Rightarrow> h
      | (False, bp, h) \<Rightarrow>
          (if bp = (Some x, MARKED)
           then (case cas_pred b bp (Some a, MARKED) h of (_, _, h) \<Rightarrow> h) else h))"

text \<open>The successor of the predecessor skips \<open>x\<close>; its \<open>D_MARKED\<close> bit stays.\<close>

definition aid_skip :: "addr \<Rightarrow> addr \<Rightarrow> addr \<Rightarrow> lheap \<Rightarrow> lheap \<times> s_ptr" where
  "aid_skip a x b h =
     (case cas_succ a (Some x, S_MARKED) (Some b, S_MARKED AND NOT S_MARKED) h of
        (True, _, h) \<Rightarrow> (h, (Some b, S_MARKED AND NOT S_MARKED))
      | (False, e, h) \<Rightarrow>
          (if fst e = Some x \<and> s_marked (snd e)
           then (set_succ a (Some b, snd e AND NOT S_MARKED) h, (Some b, snd e AND NOT S_MARKED))
           else (h, e)))"

fun unlink_aid :: "nat \<Rightarrow> addr \<Rightarrow> addr \<Rightarrow> lheap \<Rightarrow> (lheap \<times> ptr \<times> s_ptr) option"
and aid_cascade :: "nat \<Rightarrow> addr \<Rightarrow> s_ptr \<Rightarrow> lheap \<Rightarrow> (lheap \<times> s_ptr) option" where
  "unlink_aid 0 a x h = None"
| "unlink_aid (Suc n) a x h =
     (case aid_mark_pred a x h of
        (h, None) \<Rightarrow> Some (h, None, (None, S_UNMARKED))
      | (h, Some a') \<Rightarrow>
          (let (h, s) = aid_publish x h in
           do {
             (h, s) \<leftarrow> aid_cascade n x s h;
             (case fst s of
                None \<Rightarrow> Some (h, Some a', (None, S_UNMARKED))
              | Some b \<Rightarrow>
                  (let h = aid_fix_pred a' x b h;
                       (h, bp) = aid_skip a' x b h
                   in Some (set_succ x (None, S_UNMARKED) h, Some a', bp)))
           }))"
| "aid_cascade 0 x s h = None"
| "aid_cascade (Suc n) x s h =
     (case s of
        (Some y, f) \<Rightarrow>
          (if s_marked f then
             do {
               (h, _, s) \<leftarrow> unlink_aid n x y h;
               aid_cascade n x (if fst s = None then succ_of h x else s) h
             }
           else Some (h, s))
      | (None, f) \<Rightarrow> Some (h, s))"

section \<open>Neighbours: \<open>succ_\<close> and \<open>pred_\<close>\<close>

fun succ_loop :: "nat \<Rightarrow> addr \<Rightarrow> s_ptr \<Rightarrow> lheap \<Rightarrow> (lheap \<times> ptr) option" where
  "succ_loop 0 x s h = None"
| "succ_loop (Suc n) x s h =
     (case s of
        (Some y, f) \<Rightarrow>
          (if s_marked f then
             do {
               (h, _, s) \<leftarrow> unlink_aid n x y h;
               succ_loop n x (if fst s = None then succ_of h x else s) h
             }
           else Some (h, Some y))
      | (None, f) \<Rightarrow> Some (h, None))"

definition succ_m :: "nat \<Rightarrow> addr \<Rightarrow> lheap \<Rightarrow> (lheap \<times> ptr) option" where
  "succ_m n x h = succ_loop n x (succ_of h x) h"

text \<open>
  \<open>p\<close> is what \<open>pred_\<close> last read of \<open>x.pred_\<close>; an exchange that succeeds does not change it.
  \<open>pred_direct\<close> is the part after the inner \<open>if\<close>: the answer is either the predecessor or the
  value with which the loop goes on.
\<close>

definition pred_direct :: "addr \<Rightarrow> addr \<Rightarrow> p_ptr \<Rightarrow> lheap \<Rightarrow> (lheap \<times> (addr + p_ptr)) option" where
  "pred_direct x q p h =
     (let pp = pred_of h q
      in if fst pp = None then None
         else if snd pp = MARKED
         then (case cas_pred x p (fst pp, snd p) h of (_, p, h) \<Rightarrow> Some (h, Inr p))
         else Some (h, Inl q))"

definition pred_step :: "nat \<Rightarrow> addr \<Rightarrow> addr \<Rightarrow> p_ptr \<Rightarrow> lheap \<Rightarrow> (lheap \<times> (addr + p_ptr)) option"
where
  "pred_step n x q p h =
     (if snd p = UNMARKED then
        do {
          let ps = succ_of h q;
          (h, ps) \<leftarrow>
            (case fst ps of
               Some y \<Rightarrow>
                 (if y \<noteq> x \<and> s_marked (snd ps) then
                    do { (h, _, ps) \<leftarrow> unlink_aid n q y h; Some (h, ps) }
                  else Some (h, ps))
             | None \<Rightarrow> Some (h, ps));
          (case fst ps of
             None \<Rightarrow>
               (let pp = pred_of h q
                in if fst pp = None then None
                   else (case cas_pred x p (fst pp, snd p) h of (_, p, h) \<Rightarrow> Some (h, Inr p)))
           | Some y \<Rightarrow>
               (if y \<noteq> x then
                  (case cas_pred x p (Some y, UNMARKED) h of
                     (ok, p, h) \<Rightarrow> Some (h, Inr (if ok then (Some y, snd p) else p)))
                else pred_direct x q p h))
        }
      else pred_direct x q p h)"

fun pred_loop :: "nat \<Rightarrow> addr \<Rightarrow> p_ptr \<Rightarrow> lheap \<Rightarrow> (lheap \<times> ptr) option" where
  "pred_loop 0 x p h = None"
| "pred_loop (Suc n) x p h =
     (case fst p of
        None \<Rightarrow> Some (h, None)
      | Some q \<Rightarrow>
          do {
            (h, r) \<leftarrow> pred_step n x q p h;
            (case r of Inl q \<Rightarrow> Some (h, Some q) | Inr p \<Rightarrow> pred_loop n x p h)
          })"

definition pred_m :: "nat \<Rightarrow> addr \<Rightarrow> lheap \<Rightarrow> (lheap \<times> ptr) option" where
  "pred_m n x h = pred_loop n x (pred_of h x) h"

text \<open>The neighbours that are no iterators. A null element is dereferenced: \<open>None\<close>.\<close>

fun succ_elem_loop :: "nat \<Rightarrow> addr \<Rightarrow> addr \<Rightarrow> lheap \<Rightarrow> (lheap \<times> ptr) option" where
  "succ_elem_loop 0 x s h = None"
| "succ_elem_loop (Suc n) x s h =
     (if type_of h s = Iterator then
        do {
          (h, t) \<leftarrow> succ_m n s h;
          (h, t) \<leftarrow> (case t of None \<Rightarrow> succ_m n x h | Some _ \<Rightarrow> Some (h, t));
          (case t of None \<Rightarrow> Some (h, None) | Some t \<Rightarrow> succ_elem_loop n x t h)
        }
      else Some (h, Some s))"

definition succ_elem :: "nat \<Rightarrow> addr \<Rightarrow> lheap \<Rightarrow> (lheap \<times> ptr) option" where
  "succ_elem n x h =
     do {
       (h, s) \<leftarrow> succ_m n x h;
       (case s of None \<Rightarrow> Some (h, None) | Some s \<Rightarrow> succ_elem_loop n x s h)
     }"

fun pred_elem_loop :: "nat \<Rightarrow> addr \<Rightarrow> addr \<Rightarrow> lheap \<Rightarrow> (lheap \<times> ptr) option" where
  "pred_elem_loop 0 x p h = None"
| "pred_elem_loop (Suc n) x p h =
     (if type_of h p = Iterator then
        do {
          (h, t) \<leftarrow> pred_m n p h;
          (h, t) \<leftarrow> (case t of None \<Rightarrow> pred_m n x h | Some _ \<Rightarrow> Some (h, t));
          (case t of None \<Rightarrow> Some (h, None) | Some t \<Rightarrow> pred_elem_loop n x t h)
        }
      else Some (h, Some p))"

definition pred_elem :: "nat \<Rightarrow> addr \<Rightarrow> lheap \<Rightarrow> (lheap \<times> ptr) option" where
  "pred_elem n x h =
     do {
       (h, p) \<leftarrow> pred_m n x h;
       (case p of None \<Rightarrow> Some (h, None) | Some p \<Rightarrow> pred_elem_loop n x p h)
     }"

section \<open>Linking\<close>

datatype unlink_result = UNLINK_OK | UNLINK_RETRY | UNLINK_FAIL
datatype link_result = LINK_OK | LINK_LOST | LINK_TWICE
datatype axb_link_result =
  XLINK_OK | XLINK_RETRY | XLINK_TWICE | XLINK_LOST_A | XLINK_LOST_B | XLINK_LOST_AB

text \<open>
  The lock of \<open>elem_linking_lock\<close>: the constructor answers whether it got the lock, the
  destructor gives it back.
\<close>

definition linking_lock :: "addr \<Rightarrow> lheap \<Rightarrow> bool \<times> lheap" where
  "linking_lock x h = (\<not> linking_of h x, set_linking x True h)"

definition linking_unlock :: "bool \<Rightarrow> addr \<Rightarrow> lheap \<Rightarrow> lheap" where
  "linking_unlock got x h = (if got then set_linking x False h else h)"

text \<open>The predecessor of \<open>b\<close> after \<open>x\<close> was linked between \<open>a\<close> and \<open>b\<close>.\<close>

definition link_fix_pred :: "nat \<Rightarrow> addr \<Rightarrow> addr \<Rightarrow> addr \<Rightarrow> lheap \<Rightarrow> lheap option" where
  "link_fix_pred n a x b h =
     (case cas_pred b (Some a, UNMARKED) (Some x, UNMARKED) h of
        (True, _, h) \<Rightarrow> Some h
      | (False, bp, h) \<Rightarrow>
          (if bp = (Some a, MARKED)
           then (case cas_pred b bp (Some x, MARKED) h of (_, _, h) \<Rightarrow> Some h)
           else map_option fst (pred_m n b h)))"

text \<open>Why \<open>x\<close> could not be linked from \<open>a\<close>, whose successor is \<open>e\<close>.\<close>

definition link_error :: "addr \<Rightarrow> addr \<Rightarrow> s_ptr \<Rightarrow> lheap \<Rightarrow> axb_link_result" where
  "link_error a b e h =
     (if fst e = None
      then (if snd (pred_of h b) = MARKED then XLINK_LOST_AB else XLINK_LOST_A)
      else if e \<noteq> (Some b, S_MARKED) then XLINK_RETRY
      else (if snd (pred_of h a) = MARKED then XLINK_LOST_AB else XLINK_LOST_B))"

definition link_locked :: "nat \<Rightarrow> addr \<Rightarrow> addr \<Rightarrow> addr \<Rightarrow> lheap \<Rightarrow> (lheap \<times> axb_link_result) option"
where
  "link_locked n a x b h =
     (case cas_pred x (None, UNMARKED) (Some a, UNMARKED) h of
        (False, _, h) \<Rightarrow> Some (h, XLINK_TWICE)
      | (True, _, h) \<Rightarrow>
          (if succ_of h x \<noteq> (None, S_UNMARKED) then None
           else
             (case cas_succ a (Some b, S_UNMARKED) (Some x, S_UNMARKED)
                     (set_succ x (Some b, S_UNMARKED) h) of
                (True, _, h) \<Rightarrow> do { h \<leftarrow> link_fix_pred n a x b h; Some (h, XLINK_OK) }
              | (False, e, h) \<Rightarrow>
                  Some (set_pred x (None, UNMARKED) (set_succ x (None, S_UNMARKED) h),
                        link_error a b e h))))"

definition link_m :: "nat \<Rightarrow> addr \<Rightarrow> addr \<Rightarrow> addr \<Rightarrow> lheap \<Rightarrow> (lheap \<times> axb_link_result) option" where
  "link_m n a x b h =
     (let (got, h) = linking_lock x h
      in if \<not> got then Some (linking_unlock got x h, XLINK_TWICE)
         else do {
           (h, r) \<leftarrow> link_locked n a x b h;
           Some (linking_unlock got x h, r)
         })"

fun link_after_m :: "nat \<Rightarrow> addr \<Rightarrow> addr \<Rightarrow> lheap \<Rightarrow> (lheap \<times> link_result) option" where
  "link_after_m 0 a x h = None"
| "link_after_m (Suc n) a x h =
     do {
       (h, b) \<leftarrow> succ_m n a h;
       (case b of
          None \<Rightarrow> Some (h, LINK_LOST)
        | Some b \<Rightarrow>
            do {
              (h, r) \<leftarrow> link_m n a x b h;
              (case r of
                 XLINK_OK \<Rightarrow> Some (h, LINK_OK)
               | XLINK_TWICE \<Rightarrow> Some (h, LINK_TWICE)
               | XLINK_RETRY \<Rightarrow> link_after_m n a x h
               | XLINK_LOST_B \<Rightarrow> link_after_m n a x h
               | XLINK_LOST_A \<Rightarrow> Some (h, LINK_LOST)
               | XLINK_LOST_AB \<Rightarrow> Some (h, LINK_LOST))
            })
     }"

fun link_before_m :: "nat \<Rightarrow> addr \<Rightarrow> addr \<Rightarrow> lheap \<Rightarrow> (lheap \<times> link_result) option" where
  "link_before_m 0 b x h = None"
| "link_before_m (Suc n) b x h =
     do {
       (h, a) \<leftarrow> pred_m n b h;
       (case a of
          None \<Rightarrow> Some (h, LINK_LOST)
        | Some a \<Rightarrow>
            do {
              (h, r) \<leftarrow> link_m n a x b h;
              (case r of
                 XLINK_OK \<Rightarrow> Some (h, LINK_OK)
               | XLINK_TWICE \<Rightarrow> Some (h, LINK_TWICE)
               | XLINK_RETRY \<Rightarrow> link_before_m n b x h
               | XLINK_LOST_A \<Rightarrow> link_before_m n b x h
               | XLINK_LOST_B \<Rightarrow> Some (h, LINK_LOST)
               | XLINK_LOST_AB \<Rightarrow> Some (h, LINK_LOST))
            })
     }"

section \<open>Unlinking\<close>

text \<open>
  The loops of \<open>unlink_\<close> that follow the removal, while the link count is above \<open>expect\<close>: find
  a successor, and let each following element drop its old predecessor.
\<close>

fun unlink_find_b :: "nat \<Rightarrow> addr \<Rightarrow> ptr \<Rightarrow> lheap \<Rightarrow> (addr \<times> addr) option" where
  "unlink_find_b 0 a b h = None"
| "unlink_find_b (Suc n) a b h =
     (case b of
        Some b \<Rightarrow> Some (a, b)
      | None \<Rightarrow>
          (case fst (succ_of h a) of
             Some b \<Rightarrow> Some (a, b)
           | None \<Rightarrow> do { a \<leftarrow> fst (pred_of h a); unlink_find_b n a None h }))"

fun unlink_push_pred :: "nat \<Rightarrow> addr \<Rightarrow> addr \<Rightarrow> ptr \<Rightarrow> lheap \<Rightarrow> lheap option" where
  "unlink_push_pred 0 b x bp h = None"
| "unlink_push_pred (Suc n) b x bp h =
     (if bp = Some x then
        do {
          (h, q) \<leftarrow> pred_m n b h;
          unlink_push_pred n b x (if q = None then fst (pred_of h b) else q) h
        }
      else Some h)"

fun unlink_drain ::
    "nat \<Rightarrow> addr \<Rightarrow> ptr \<Rightarrow> addr \<Rightarrow> nat \<Rightarrow> nat \<Rightarrow> lheap \<Rightarrow> lheap option" where
  "unlink_drain 0 a b x expect held h = None"
| "unlink_drain (Suc n) a b x expect held h =
     (if expect < link_count h held x then
        do {
          (a, b) \<leftarrow> unlink_find_b n a b h;
          h \<leftarrow> unlink_push_pred n b x (fst (pred_of h b)) h;
          (if type_of h b = Head then Some h
           else unlink_drain n a (fst (succ_of h b)) x expect held h)
        }
      else Some h)"

text \<open>\<open>wait_link0\<close>: without another thread it returns only when there is nothing to wait for.\<close>

definition wait_link0 :: "addr \<Rightarrow> nat \<Rightarrow> nat \<Rightarrow> lheap \<Rightarrow> lheap option" where
  "wait_link0 x expect held h =
     (if is_unlinked h x \<and> link_count h held x \<le> expect then Some h else None)"

text \<open>\<open>held\<close> is the number of references to \<open>x\<close> on the stack of the callers.\<close>

definition unlink_finish ::
    "nat \<Rightarrow> addr \<Rightarrow> addr \<Rightarrow> nat \<Rightarrow> nat \<Rightarrow> lheap \<Rightarrow> (lheap \<times> unlink_result) option" where
  "unlink_finish n a x expect held h =
     do {
       (h, a, b, _) \<leftarrow> unlink_aid n a x h;
       a \<leftarrow> a;
       h \<leftarrow> unlink_drain n a b x expect held h;
       h \<leftarrow> (if expect < link_count h held x then wait_link0 x expect held h else Some h);
       Some (set_pred x (None, UNMARKED) h, UNLINK_OK)
     }"

definition unlink_m ::
    "nat \<Rightarrow> addr \<Rightarrow> addr \<Rightarrow> nat \<Rightarrow> nat \<Rightarrow> lheap \<Rightarrow> (lheap \<times> unlink_result) option" where
  "unlink_m n a x expect held h =
     (case cas_succ a (Some x, S_UNMARKED) (Some x, S_MARKED) h of
        (True, _, h) \<Rightarrow> unlink_finish n a x expect held h
      | (False, e, h) \<Rightarrow>
          (if fst e = Some x \<and> s_marked (snd e) then Some (h, UNLINK_FAIL)
           else if snd (pred_of h x) = MARKED then Some (h, UNLINK_FAIL)
           else
             (case fst e of
                Some y \<Rightarrow>
                  (if d_marked (snd e) then do { (h, _) \<leftarrow> pred_m n y h; Some (h, UNLINK_RETRY) }
                   else Some (h, UNLINK_RETRY))
              | None \<Rightarrow> Some (h, UNLINK_RETRY))))"

section \<open>The list\<close>

definition list_ctor :: "addr \<Rightarrow> lheap \<Rightarrow> lheap option" where
  "list_ctor d h =
     (let h = h\<lparr>cells := (cells h)(d := elem_ctor Head)\<rparr>;
          h = set_pred d (Some d, UNMARKED) (set_succ d (Some d, S_UNMARKED) h)
      in if link_count h 0 d = 2 then Some h else None)"

definition list_empty :: "nat \<Rightarrow> addr \<Rightarrow> lheap \<Rightarrow> (lheap \<times> bool) option" where
  "list_empty n d h =
     do {
       (h, s) \<leftarrow> succ_elem n d h;
       s \<leftarrow> s;
       Some (h, type_of h s = Head)
     }"

text \<open>\<open>size\<close> starts again when it meets an element that was unlinked.\<close>

fun list_size_loop :: "nat \<Rightarrow> addr \<Rightarrow> nat \<Rightarrow> ptr \<Rightarrow> lheap \<Rightarrow> (lheap \<times> nat) option" where
  "list_size_loop 0 d sz i h = None"
| "list_size_loop (Suc n) d sz i h =
     (case i of
        None \<Rightarrow> do { (h, i) \<leftarrow> succ_elem n d h; list_size_loop n d 0 i h }
      | Some e \<Rightarrow>
          (if type_of h e = Head then Some (h, sz)
           else do { (h, i) \<leftarrow> succ_elem n e h; list_size_loop n d (Suc sz) i h }))"

definition list_size :: "nat \<Rightarrow> addr \<Rightarrow> lheap \<Rightarrow> (lheap \<times> nat) option" where
  "list_size n d h = do { (h, i) \<leftarrow> succ_elem n d h; list_size_loop n d 0 i h }"

definition list_dtor :: "nat \<Rightarrow> addr \<Rightarrow> lheap \<Rightarrow> lheap option" where
  "list_dtor n d h =
     do {
       (h, e) \<leftarrow> list_empty n d h;
       (if e then
          do {
            (h, s) \<leftarrow> succ_m n d h;
            (if 2 < link_count h 0 d \<or> s \<noteq> Some d then None
             else do {
               (h, p) \<leftarrow> pred_m n d h;
               (if p = Some d
                then Some (set_pred d (None, UNMARKED) (set_succ d (None, S_UNMARKED) h))
                else None)
             })
          }
        else None)
     }"

text \<open>Both loops of \<open>pop_front\<close> and \<open>pop_back\<close>; \<open>nxt\<close> reads the next candidate.\<close>

fun pop_loop ::
    "(nat \<Rightarrow> lheap \<Rightarrow> (lheap \<times> ptr) option) \<Rightarrow> nat \<Rightarrow> addr \<Rightarrow> lheap \<Rightarrow> (lheap \<times> ptr) option" where
  "pop_loop nxt 0 e h = None"
| "pop_loop nxt (Suc n) e h =
     do {
       (h, p) \<leftarrow> pred_m n e h;
       p \<leftarrow> p;
       (h, r) \<leftarrow> unlink_m n p e 1 1 h;
       (case r of
          UNLINK_OK \<Rightarrow> Some (h, Some e)
        | UNLINK_RETRY \<Rightarrow> pop_loop nxt n e h
        | UNLINK_FAIL \<Rightarrow>
            do {
              (h, e) \<leftarrow> nxt n h;
              e \<leftarrow> e;
              (if type_of h e = Head then Some (h, None) else pop_loop nxt n e h)
            })
     }"

definition pop_with ::
    "(nat \<Rightarrow> lheap \<Rightarrow> (lheap \<times> ptr) option) \<Rightarrow> nat \<Rightarrow> lheap \<Rightarrow> (lheap \<times> ptr) option" where
  "pop_with nxt n h =
     do {
       (h, e) \<leftarrow> nxt n h;
       e \<leftarrow> e;
       (if type_of h e = Head then Some (h, None) else pop_loop nxt n e h)
     }"

definition pop_front :: "nat \<Rightarrow> addr \<Rightarrow> lheap \<Rightarrow> (lheap \<times> ptr) option" where
  "pop_front n d h = pop_with (\<lambda>n h. succ_elem n d h) n h"

definition pop_back :: "nat \<Rightarrow> addr \<Rightarrow> lheap \<Rightarrow> (lheap \<times> ptr) option" where
  "pop_back n d h = pop_with (\<lambda>n h. pred_elem n d h) n h"

definition link_answer :: "lheap \<times> link_result \<Rightarrow> (lheap \<times> bool) option" where
  "link_answer r =
     (case r of (h, LINK_OK) \<Rightarrow> Some (h, True) | (h, LINK_TWICE) \<Rightarrow> Some (h, False)
      | (h, LINK_LOST) \<Rightarrow> None)"

definition link_front :: "nat \<Rightarrow> addr \<Rightarrow> addr \<Rightarrow> lheap \<Rightarrow> (lheap \<times> bool) option" where
  "link_front n d e h = Option.bind (link_after_m n d e h) link_answer"

definition link_back :: "nat \<Rightarrow> addr \<Rightarrow> addr \<Rightarrow> lheap \<Rightarrow> (lheap \<times> bool) option" where
  "link_back n d e h = Option.bind (link_before_m n d e h) link_answer"

end
