(* ===== verification/LL_List_Inv.thy ===== *)
theory LL_List_Inv
  imports LL_List
begin

text \<open>
  The ring invariant of the list and the operations of \<open>LL_List\<close> on it: a heap in which the
  elements of a list \<open>ns\<close> form a ring and all others are unlinked. The lemmas on
  \<open>unlink_aid\<close> also cover heaps in which the removals of a run of elements are stalled after
  their first step.
\<close>

lemmas mark_defs [simp] = MARKED_def UNMARKED_def S_UNMARKED_def S_MARKED_def D_MARKED_def

lemma s_marked_simps [simp]:
  "\<not> s_marked 0" "s_marked 1" "\<not> s_marked 2" "s_marked 3"
  by (simp_all add: s_marked_def)

lemma d_marked_simps [simp]:
  "\<not> d_marked 0" "\<not> d_marked 1" "d_marked 2" "d_marked 3"
  by (simp_all add: d_marked_def)

definition edge :: "lheap \<Rightarrow> addr \<Rightarrow> addr \<Rightarrow> bool" where
  "edge h a b = (succ_of h a = (Some b, 0) \<and> pred_of h b = (Some a, 0))"

text \<open>The edge to an element whose removal has begun with the first exchange of \<open>unlink_\<close>.\<close>

definition claimed :: "lheap \<Rightarrow> addr \<Rightarrow> addr \<Rightarrow> bool" where
  "claimed h a x = (succ_of h a = (Some x, 1) \<and> pred_of h x = (Some a, 0))"

lemma successively_frame:
  assumes "successively P (u # vs)"
    and "\<And>x y. x \<in> set (butlast (u # vs)) \<Longrightarrow> y \<in> set vs \<Longrightarrow> P x y \<Longrightarrow> Q x y"
  shows "successively Q (u # vs)"
  using assms
proof (induction vs arbitrary: u)
  case Nil
  then show ?case by simp
next
  case (Cons v vs)
  have "Q u v" using Cons.prems by auto
  moreover have "successively Q (v # vs)"
    using Cons.prems by (intro Cons.IH) (auto split: if_splits)
  ultimately show ?case by simp
qed

section \<open>Helping a run of stalled removals\<close>

text \<open>What is left of a run \<open>ms\<close> between \<open>a\<close> and \<open>b\<close> that \<open>unlink_aid\<close> has removed.\<close>

definition skipped :: "lheap \<Rightarrow> addr \<Rightarrow> addr list \<Rightarrow> s_ptr \<Rightarrow> lheap \<Rightarrow> bool" where
  "skipped h a ms b h' =
     ((\<forall>y. succ_of h' y = (if y \<in> set ms then (None, 0) else if y = a then b else succ_of h y)) \<and>
      (\<forall>y. pred_of h' y = (if y \<in> set ms then (fst (pred_of h y), 1)
                             else if Some y = fst b then (Some a, 0) else pred_of h y)) \<and>
      (\<forall>y. type_of h' y = type_of h y \<and> linking_of h' y = linking_of h y) \<and>
      bound h' = bound h)"

lemma unlink_aid_run:
  assumes "succ_of h a = (Some x, f)" "f = 1 \<or> f = 3" "pred_of h x = (Some a, 0)"
    and "successively (claimed h) (x # ms)" "edge h (last (x # ms)) b"
    and "distinct (a # x # ms)" "b \<notin> set (x # ms)" "2 * length (x # ms) \<le> n"
  shows "\<exists>h'. unlink_aid n a x h = Some (h', Some a, (Some b, f AND NOT 1)) \<and>
     skipped h a (x # ms) (Some b, f AND NOT 1) h'"
  using assms
proof (induction ms arbitrary: a x f h n)
  case Nil
  then obtain m where n: "n = Suc (Suc m)" using that [of "n - 2"] by simp
  show ?case
    using Nil unfolding n
    by (auto simp: aid_mark_pred_def cas_pred_def cas_def aid_publish_def aid_fix_pred_def
        aid_skip_def cas_succ_def edge_def skipped_def)
next
  case (Cons y ms)
  then obtain m where n: "n = Suc (Suc m)" "2 * length (y # ms) \<le> m"
    using that [of "n - 2"] by simp
  let ?h = "set_succ x (Some y, 3) (set_pred x (Some a, 1) h)"
  have sx: "succ_of h x = (Some y, 1)" "pred_of h y = (Some x, 0)"
    using Cons.prems(4) by (auto simp: claimed_def)
  have ne: "a \<noteq> x" "x \<noteq> y" "a \<noteq> y" "x \<noteq> b" "y \<noteq> b" using Cons.prems(6,7) by auto
  have el: "edge h (last (y # ms)) b" using Cons.prems(5) by simp
  have lst: "last (y # ms) \<noteq> x" using Cons.prems(6) last_in_set [of "y # ms"] by auto
  have "\<exists>h'. unlink_aid m x y ?h = Some (h', Some x, (Some b, 3 AND NOT 1)) \<and>
     skipped ?h x (y # ms) (Some b, 3 AND NOT 1) h'"
  proof (rule Cons.IH)
    show "successively (claimed ?h) (y # ms)"
      by (rule successively_frame [of "claimed h"])
        (use Cons.prems(4,6) in \<open>auto simp: claimed_def dest: in_set_butlastD split: if_splits\<close>)
    show "edge ?h (last (y # ms)) b"
      using el lst ne by (auto simp: edge_def simp del: last.simps)
    show "distinct (x # y # ms)" "b \<notin> set (y # ms)" using Cons.prems(6,7) by auto
    show "2 * length (y # ms) \<le> m" by (rule n(2))
  qed (use ne sx in \<open>simp_all\<close>)
  then obtain h2 where h2: "unlink_aid m x y ?h = Some (h2, Some x, (Some b, 2))"
    "skipped ?h x (y # ms) (Some b, 2) h2" by auto
  have b2: "pred_of h2 b = (Some x, 0)" "succ_of h2 a = (Some x, f)"
    using h2(2) Cons.prems ne by (auto simp: skipped_def)
  obtain k where k: "m = Suc k" using n(2) by (cases m) auto
  show ?case
    using Cons.prems(1-3) h2 b2 ne sx unfolding n k
    by (auto simp: aid_mark_pred_def cas_pred_def cas_def aid_publish_def aid_fix_pred_def
        aid_skip_def cas_succ_def skipped_def)
qed

section \<open>The ring\<close>

definition idle :: "lheap \<Rightarrow> addr \<Rightarrow> bool" where
  "idle h x = (succ_of h x = (None, 0) \<and> pred_of h x = (None, 0))"

text \<open>
  \<open>zs\<close> are elements that were taken out of the ring while the threads that remove them are
  stalled before the end of \<open>unlink_\<close>.
\<close>

definition ringx :: "lheap \<Rightarrow> addr set \<Rightarrow> addr list \<Rightarrow> bool" where
  "ringx h zs ns =
     (ns \<noteq> [] \<and> distinct ns \<and> successively (edge h) (ns @ [hd ns]) \<and>
      (\<forall>y\<in>set ns. y < bound h \<and> y \<notin> zs) \<and> (\<forall>z\<in>zs. succ_of h z = (None, 0)) \<and>
      (\<forall>y<bound h. \<not> linking_of h y \<and> (y \<notin> set ns \<and> y \<notin> zs \<longrightarrow> idle h y)))"

definition ring :: "lheap \<Rightarrow> addr list \<Rightarrow> bool" where "ring h ns = ringx h {} ns"

lemma ring_rotate: "ringx h zs (us @ vs) = ringx h zs (vs @ us)"
proof (cases "us = [] \<or> vs = []")
  case False
  have path: "successively (edge h) (us @ vs @ [hd us]) \<longleftrightarrow>
     successively (edge h) us \<and> successively (edge h) vs \<and>
     edge h (last us) (hd vs) \<and> edge h (last vs) (hd us)"
    if "us \<noteq> []" "vs \<noteq> []" for us vs
    using that by (simp add: successively_append_iff conj_ac)
  have "successively (edge h) (us @ vs @ [hd us]) = successively (edge h) (vs @ us @ [hd vs])"
    using path [of us vs] path [of vs us] False by argo
  moreover have "distinct (us @ vs) = distinct (vs @ us)" by auto
  moreover have "set (us @ vs) = set (vs @ us)" by auto
  ultimately show ?thesis
    using False unfolding ringx_def by simp
qed auto

lemma ring_at: "x \<in> set ns \<Longrightarrow> ringx h zs ns \<Longrightarrow> \<exists>us vs. ns = us @ x # vs \<and> ringx h zs (x # vs @ us)"
  using ring_rotate [of h zs _ "x # _"] by (auto dest!: split_list)

lemma ring_front: "ringx h zs (a # ns) \<Longrightarrow> edge h a (hd (ns @ [a]))"
  by (cases ns) (auto simp: ringx_def)

lemma ring_back: "ringx h zs (a # ns) \<Longrightarrow> edge h (last (a # ns)) a"
  using successively_append_iff [of "edge h" "a # butlast ns" "[last ns, a]"]
  by (cases ns rule: rev_cases) (auto simp: ringx_def)

lemma ring_mid: "ringx h zs (us @ a # b # vs) \<Longrightarrow> edge h a b"
  by (auto simp: ringx_def successively_append_iff)

lemma ring_next: "a \<in> set ns \<Longrightarrow> ringx h zs ns \<Longrightarrow> \<exists>b\<in>set ns. edge h a b"
  using ring_at [of a ns h zs] by (auto dest!: ring_front simp: hd_append split: if_splits)

lemma ring_prev: "a \<in> set ns \<Longrightarrow> ringx h zs ns \<Longrightarrow> \<exists>p\<in>set ns. edge h p a"
proof -
  assume "a \<in> set ns" "ringx h zs ns"
  then obtain us vs where uv: "ns = us @ a # vs" "ringx h zs (a # vs @ us)" using ring_at by blast
  have "last (a # vs @ us) \<in> set (a # vs @ us)" by (rule last_in_set) simp
  then show "\<exists>p\<in>set ns. edge h p a"
    using ring_back [OF uv(2)] uv(1) by (intro bexI [of _ "last (a # vs @ us)"]) auto
qed

text \<open>Every linked element has neighbours, and they agree.\<close>

lemma succ_m_edge: "edge h a b \<Longrightarrow> 0 < n \<Longrightarrow> succ_m n a h = Some (h, Some b)"
  by (cases n) (auto simp: succ_m_def edge_def)

lemma pred_m_edge: "edge h p x \<Longrightarrow> edge h q p \<Longrightarrow> 0 < n \<Longrightarrow> pred_m n x h = Some (h, Some p)"
  by (cases n) (auto simp: pred_m_def edge_def pred_step_def pred_direct_def)

lemma succ_m_ring: "ringx h zs (a # ns) \<Longrightarrow> 0 < n \<Longrightarrow> succ_m n a h = Some (h, Some (hd (ns @ [a])))"
  by (rule succ_m_edge [OF ring_front])

lemma pred_m_ring:
  assumes "ringx h zs (a # ns)" "0 < n"
  shows "pred_m n a h = Some (h, Some (last (a # ns)))"
proof -
  have "last (a # ns) \<in> set (a # ns)" by (rule last_in_set) simp
  then obtain p where "edge h p (last (a # ns))"
    using ring_prev [OF _ assms(1)] by blast
  then show ?thesis by (rule pred_m_edge [OF ring_back [OF assms(1)] _ assms(2)])
qed

section \<open>Insertion\<close>

definition inserted :: "lheap \<Rightarrow> addr \<Rightarrow> addr \<Rightarrow> addr \<Rightarrow> lheap \<Rightarrow> bool" where
  "inserted h a x b h' =
     ((\<forall>y. succ_of h' y = (if y = a then (Some x, 0) else if y = x then (Some b, 0) else succ_of h y)) \<and>
      (\<forall>y. pred_of h' y = (if y = b then (Some x, 0) else if y = x then (Some a, 0) else pred_of h y)) \<and>
      (\<forall>y. type_of h' y = type_of h y) \<and>
      (\<forall>y. linking_of h' y = (y \<noteq> x \<and> linking_of h y)) \<and> bound h' = bound h)"

lemma link_m_ok:
  assumes "edge h a b" "idle h x" "\<not> linking_of h x" "x \<noteq> a" "x \<noteq> b"
  shows "\<exists>h'. link_m n a x b h = Some (h', XLINK_OK) \<and> inserted h a x b h'"
  using assms
  by (auto simp: link_m_def linking_lock_def linking_unlock_def link_locked_def cas_pred_def
      cas_succ_def cas_def idle_def edge_def link_fix_pred_def inserted_def)

lemma ring_inserted:
  assumes r: "ringx h zs (a # ns)" and x: "x \<notin> set (a # ns)" "x \<notin> zs" "x < bound h"
    and i: "inserted h a x (hd (ns @ [a])) h'"
  shows "ringx h' zs (a # x # ns)"
proof -
  obtain b bs where b: "ns @ [a] = b # bs" by (cases ns) auto
  have d: "distinct (a # ns)" "successively (edge h) (a # b # bs)"
    using r b by (auto simp: ringx_def)
  have nb: "butlast (b # bs) = ns" using b by (metis butlast_snoc)
  have bs: "set bs \<subseteq> set (a # ns)" "b \<notin> set bs" "b \<in> set (a # ns)"
    using b d(1) by (cases ns; auto)+
  have "successively (edge h') (b # bs)"
  proof (rule successively_frame [of "edge h"])
    show "successively (edge h) (b # bs)" using d(2) by simp
    fix u v assume uv: "u \<in> set (butlast (b # bs))" "v \<in> set bs" "edge h u v"
    then have "u \<noteq> a" "u \<noteq> x" "v \<noteq> x" "v \<noteq> b" using nb bs x d(1) by auto
    then show "edge h' u v"
      using i uv(3) b unfolding edge_def inserted_def by simp
  qed
  moreover have "x \<noteq> b" "x \<noteq> a" using x bs by auto
  then have e: "edge h' a x" "edge h' x b"
    using i b by (auto simp: edge_def inserted_def)
  ultimately have s: "successively (edge h') (a # x # ns @ [a])" unfolding b by simp
  have o: "\<not> linking_of h' y \<and> (y \<notin> set (a # x # ns) \<and> y \<notin> zs \<longrightarrow> idle h' y)" if "y < bound h'" for y
  proof -
    have "y \<noteq> b" if "y \<notin> set (a # x # ns)" using bs(3) that by auto
    then show ?thesis
      using r i that \<open>y < bound h'\<close> b by (auto simp: ringx_def inserted_def idle_def)
  qed
  have "\<forall>y\<in>set (a # x # ns). y < bound h' \<and> y \<notin> zs" "\<forall>z\<in>zs. succ_of h' z = (None, 0)"
    using r x i by (auto simp: ringx_def inserted_def)
  then show ?thesis using s o d(1) x unfolding ringx_def by simp
qed

section \<open>Removal\<close>

text \<open>The first step of \<open>unlink_\<close>: the predecessor of \<open>x\<close> marks its successor.\<close>

definition claim :: "addr \<Rightarrow> lheap \<Rightarrow> lheap" where
  "claim x h = snd (snd (cas_succ (the (fst (pred_of h x))) (Some x, S_UNMARKED) (Some x, S_MARKED) h))"

definition claim_run :: "lheap \<Rightarrow> addr \<Rightarrow> addr list \<Rightarrow> lheap \<Rightarrow> bool" where
  "claim_run h a ms hc =
     ((\<forall>y. succ_of hc y = (if y \<in> set (butlast (a # ms)) then (fst (succ_of h y), 1) else succ_of h y)) \<and>
      (\<forall>y. pred_of hc y = pred_of h y) \<and>
      (\<forall>y. type_of hc y = type_of h y \<and> linking_of hc y = linking_of h y) \<and> bound hc = bound h)"

lemma claim_edge: "edge h a x \<Longrightarrow> claim x h = set_succ a (Some x, 1) h"
  by (simp add: claim_def edge_def cas_succ_def cas_def)

lemma claim_run_fold:
  "successively (edge h) (a # ms) \<Longrightarrow> distinct (a # ms) \<Longrightarrow> claim_run h a ms (fold claim ms h)"
proof (induction ms arbitrary: a h)
  case Nil
  then show ?case by (simp add: claim_run_def)
next
  case (Cons m ms)
  let ?h = "set_succ a (Some m, 1) h"
  have "successively (edge ?h) (m # ms)"
    by (rule successively_frame [of "edge h"])
      (use Cons.prems in \<open>auto simp: edge_def dest: in_set_butlastD split: if_splits\<close>)
  then have "claim_run ?h m ms (fold claim ms ?h)"
    using Cons.prems by (intro Cons.IH) auto
  moreover have "a \<notin> set (butlast (m # ms))"
    using Cons.prems(2) in_set_butlastD [of a "m # ms"] by auto
  moreover have "edge h a m" using Cons.prems(1) by simp
  ultimately show ?case
    by (simp add: claim_run_def claim_edge) (auto simp: edge_def)
qed

lemma claim_run_claimed:
  assumes "successively (edge h) (a # ms)" "distinct (a # ms)" "claim_run h a ms hc"
  shows "successively (claimed hc) (a # ms)"
  by (rule successively_frame [OF assms(1)])
    (use assms(3) in \<open>auto simp: claimed_def edge_def claim_run_def\<close>)

lemma ringx_skipped:
  assumes r: "ringx h zs (a # ms @ ns)" and c: "claim_run h a ms hc"
    and s: "skipped hc a ms (Some (hd (ns @ [a])), 0) h'"
  shows "ringx h' (set ms \<union> zs) (a # ns)"
proof -
  obtain b bs where b: "ns @ [a] = b # bs" by (cases ns) auto
  have d: "distinct (a # ms @ ns)" using r by (auto simp: ringx_def)
  have p: "successively (edge h) (b # bs)"
    using r b by (auto simp: ringx_def successively_append_iff successively_Cons)
  have nb: "butlast (b # bs) = ns" using b by (metis butlast_snoc)
  have bs: "set bs \<subseteq> set (a # ns)" "b \<notin> set bs" "b \<in> set (a # ns)"
    using b d by (cases ns; auto)+
  have ms: "y \<notin> set (butlast (a # ms))" if "y \<notin> set (a # ms)" for y
    using that in_set_butlastD by metis
  have "successively (edge h') (b # bs)"
  proof (rule successively_frame [OF p])
    fix u v assume uv: "u \<in> set (butlast (b # bs))" "v \<in> set bs" "edge h u v"
    then have n: "u \<notin> set (a # ms)" "v \<notin> set ms" "v \<noteq> b" using nb bs d by auto
    then show "edge h' u v"
      using s c uv(3) b ms [OF n(1)] unfolding edge_def skipped_def claim_run_def by simp
  qed
  moreover have "edge h' a b"
    using s b d bs by (auto simp: edge_def skipped_def)
  ultimately have path: "successively (edge h') (a # ns @ [a])" unfolding b by simp
  have o: "\<not> linking_of h' y \<and> (y \<notin> set (a # ns) \<and> y \<notin> set ms \<union> zs \<longrightarrow> idle h' y)"
    if y: "y < bound h'" for y
  proof -
    have "idle h' y" if z: "y \<notin> set (a # ns)" "y \<notin> set ms \<union> zs"
    proof -
      have "y \<noteq> b" "idle h y" using bs(3) z r y s c
        by (auto simp: ringx_def skipped_def claim_run_def)
      then show ?thesis using s c z b ms [of y] by (simp add: skipped_def claim_run_def idle_def)
    qed
    moreover have "\<not> linking_of h' y"
      using r s c y by (simp add: ringx_def skipped_def claim_run_def)
    ultimately show ?thesis by blast
  qed
  have "succ_of h' z = (None, 0)" if "z \<in> set ms \<union> zs" for z
  proof (cases "z \<in> set ms")
    case False
    then have "z \<notin> set (a # ms)" using that r by (auto simp: ringx_def)
    then show ?thesis using that False r s c ms [of z] by (auto simp: ringx_def skipped_def claim_run_def)
  qed (use s in \<open>simp add: skipped_def\<close>)
  moreover have "\<forall>y\<in>set (a # ns). y < bound h' \<and> y \<notin> set ms \<union> zs"
    using r s c d by (auto simp: ringx_def skipped_def claim_run_def)
  ultimately show ?thesis using path o d unfolding ringx_def by simp
qed

lemma unlink_aid_ringx:
  assumes r: "ringx h zs (a # m # ms @ ns)" and c: "claim_run h a (m # ms) hc"
    and n: "2 * length (m # ms) \<le> n"
  shows "\<exists>h'. unlink_aid n a m hc = Some (h', Some a, (Some (hd (ns @ [a])), 0)) \<and>
     skipped hc a (m # ms) (Some (hd (ns @ [a])), 0) h' \<and>
     ringx h' (set (m # ms) \<union> zs) (a # ns)"
proof -
  let ?b = "hd (ns @ [a])"
  have d: "distinct (a # m # ms @ ns)" using r by (simp add: ringx_def)
  have p: "successively (edge h) (a # m # ms)" "edge h (last (m # ms)) ?b"
    using r successively_append_iff [of "edge h" "a # m # ms" "ns @ [a]"] by (auto simp: ringx_def)
  have cl: "successively (claimed hc) (a # m # ms)"
    by (rule claim_run_claimed [OF p(1) _ c]) (use d in auto)
  have bm: "?b \<notin> set (m # ms)" using d by (cases ns) auto
  have lst: "last (m # ms) \<notin> set (butlast (a # m # ms))"
    using d distinct_butlast [of "a # m # ms"] append_butlast_last_id [of "a # m # ms"]
      distinct_append [of "butlast (a # m # ms)" "[last (m # ms)]"] by auto
  have e: "edge hc (last (m # ms)) ?b"
    using p(2) lst c unfolding edge_def claim_run_def by simp
  have "1 AND NOT 1 = (0 :: s_flags)" by simp
  then have "\<exists>h'. unlink_aid n a m hc = Some (h', Some a, (Some ?b, 0)) \<and>
     skipped hc a (m # ms) (Some ?b, 0) h'"
    using unlink_aid_run [of hc a m 1 ms ?b n] cl e bm d n by (auto simp: claimed_def)
  then show ?thesis using ringx_skipped [of h zs a "m # ms" ns hc] r c by auto
qed

section \<open>The operations on a ring\<close>

text \<open>What no operation on the ring changes.\<close>

definition frame :: "lheap \<Rightarrow> addr set \<Rightarrow> lheap \<Rightarrow> bool" where
  "frame h zs h' =
     (bound h' = bound h \<and> (\<forall>y. type_of h' y = type_of h y) \<and> (\<forall>z\<in>zs. pred_of h' z = pred_of h z))"

definition unreferenced :: "lheap \<Rightarrow> addr set \<Rightarrow> addr \<Rightarrow> bool" where
  "unreferenced h zs x = (\<forall>z\<in>zs. fst (pred_of h z) \<noteq> Some x)"

lemma frame_refl [simp]: "frame h zs h" by (simp add: frame_def)

lemma frame_trans: "frame h zs h' \<Longrightarrow> frame h' zs h'' \<Longrightarrow> frame h zs h''" by (simp add: frame_def)

lemma frame_type: "frame h zs h' \<Longrightarrow> type_of h' y = type_of h y" by (simp add: frame_def)

lemma unreferenced_empty [simp]: "unreferenced h {} x" by (simp add: unreferenced_def)

lemma link_count_out:
  assumes "ringx h zs ns" "x \<notin> set ns" "unreferenced h zs x"
  shows "link_count h held x = held"
proof -
  have "fst (succ_of h y) \<noteq> Some x \<and> fst (pred_of h y) \<noteq> Some x" if "y < bound h" for y
  proof (cases "y \<in> set ns")
    case True
    then obtain b p where "b \<in> set ns" "edge h y b" "p \<in> set ns" "edge h p y"
      using ring_next ring_prev assms(1) by metis
    then show ?thesis using assms(2) by (auto simp: edge_def)
  next
    case False
    then show ?thesis
      using assms that by (cases "y \<in> zs") (auto simp: ringx_def idle_def unreferenced_def)
  qed
  then show ?thesis by (simp add: link_count_def)
qed

lemma ringx_clear:
  assumes "ringx h (insert x zs) ns" "x \<notin> zs"
  shows "ringx (set_pred x (None, 0) h) zs ns"
proof -
  have x: "x \<notin> set ns" using assms by (auto simp: ringx_def)
  let ?h = "set_pred x (None, 0) h"
  have p: "successively (edge h) (ns @ [hd ns])" "ns \<noteq> []" using assms by (auto simp: ringx_def)
  then obtain u vs where u: "ns @ [hd ns] = u # vs" "set vs \<subseteq> set ns" by (cases ns) auto
  have "successively (edge ?h) (u # vs)"
    by (rule successively_frame [of "edge h"]) (use p u x in \<open>auto simp: edge_def\<close>)
  then show ?thesis
    using assms x u(1) unfolding ringx_def by (auto simp: idle_def)
qed

lemma unlink_drain_none: "link_count h held x \<le> expect \<Longrightarrow> 0 < n \<Longrightarrow>
    unlink_drain n a b x expect held h = Some h"
  by (cases n) auto

text \<open>The second half of \<open>unlink_\<close>, from the claim on.\<close>

lemma unlink_finish_ring:
  assumes r: "ringx h zs (a # x # ns)" and u: "unreferenced h zs x" and n: "2 \<le> n"
  shows "\<exists>h'. unlink_finish n a x e e (set_succ a (Some x, 1) h) = Some (h', UNLINK_OK) \<and>
     ringx h' zs (a # ns) \<and> frame h zs h'"
proof -
  have ea: "edge h a x" "a \<noteq> x" "x \<notin> zs" using r by (auto simp: ringx_def)
  have c: "claim_run h a [x] (set_succ a (Some x, 1) h)"
    using claim_run_fold [of h a "[x]"] ea by (simp add: claim_edge)
  obtain h' where h': "unlink_aid n a x (set_succ a (Some x, 1) h) =
      Some (h', Some a, (Some (hd (ns @ [a])), 0))"
    "skipped (set_succ a (Some x, 1) h) a [x] (Some (hd (ns @ [a])), 0) h'"
    "ringx h' (insert x zs) (a # ns)"
    using unlink_aid_ringx [of h zs a x "[]" ns, OF _ c] r n by auto
  have pz: "\<forall>z\<in>zs. z \<noteq> x \<and> z \<noteq> hd (ns @ [a])"
    using r by (cases ns) (auto simp: ringx_def)
  have px: "pred_of h' x = (Some a, 1)" using h'(2) ea by (auto simp: skipped_def edge_def)
  have f: "frame h zs (set_pred x (None, 0) h')"
    using h'(2) pz by (auto simp: frame_def skipped_def)
  have "unreferenced h' (insert x zs) x"
    using u px ea(2) pz h'(2) by (auto simp: unreferenced_def skipped_def)
  then have lc: "link_count h' e x = e"
    using link_count_out [OF h'(3)] r by (auto simp: ringx_def)
  then have "unlink_drain n a (Some (hd (ns @ [a]))) x e e h' = Some h'"
    using n by (intro unlink_drain_none) auto
  then have "unlink_finish n a x e e (set_succ a (Some x, 1) h) =
      Some (set_pred x (None, 0) h', UNLINK_OK)"
    using h'(1) lc by (simp add: unlink_finish_def)
  then show ?thesis using ringx_clear [OF h'(3) ea(3)] f by blast
qed

lemma unlink_m_ring:
  assumes r: "ringx h zs (a # x # ns)" and "unreferenced h zs x" "2 \<le> n"
  shows "\<exists>h'. unlink_m n a x e e h = Some (h', UNLINK_OK) \<and> ringx h' zs (a # ns) \<and> frame h zs h'"
proof -
  have "edge h a x" using r by (auto simp: ringx_def)
  then show ?thesis
    using unlink_finish_ring [OF assms, of e] by (simp add: unlink_m_def cas_succ_def cas_def edge_def)
qed

lemma link_m_ring:
  assumes "ringx h zs (a # ns)" "x \<notin> set (a # ns)" "x \<notin> zs" "x < bound h"
  shows "\<exists>h'. link_m n a x (hd (ns @ [a])) h = Some (h', XLINK_OK) \<and>
     ringx h' zs (a # x # ns) \<and> frame h zs h'"
proof -
  have b: "hd (ns @ [a]) \<in> set (a # ns)" by (cases ns) auto
  obtain h' where h': "link_m n a x (hd (ns @ [a])) h = Some (h', XLINK_OK)"
    "inserted h a x (hd (ns @ [a])) h'"
    using link_m_ok [OF ring_front [OF assms(1)], of x n] assms b by (auto simp: ringx_def)
  have "\<forall>z\<in>zs. z \<noteq> x \<and> z \<noteq> hd (ns @ [a])" using assms b by (auto simp: ringx_def)
  then have "frame h zs h'" using h'(2) by (auto simp: frame_def inserted_def)
  then show ?thesis using h' ring_inserted [OF assms h'(2)] by auto
qed

lemma link_after_ring:
  assumes r: "ringx h zs (us @ a # vs)" and x: "x \<notin> set (us @ a # vs)" "x \<notin> zs" "x < bound h"
    and n: "2 \<le> n"
  shows "\<exists>h'. link_after_m n a x h = Some (h', LINK_OK) \<and> ringx h' zs (us @ a # x # vs) \<and> frame h zs h'"
proof -
  obtain k where k: "n = Suc (Suc k)" using that [of "n - 2"] n by simp
  have r': "ringx h zs (a # vs @ us)" using r ring_rotate [of h zs us "a # vs"] by simp
  obtain h' where "link_m (Suc k) a x (hd ((vs @ us) @ [a])) h = Some (h', XLINK_OK)"
    "ringx h' zs (a # x # vs @ us)" "frame h zs h'"
    using link_m_ring [OF r', of x "Suc k"] x by auto
  moreover have "ringx h' zs (us @ a # x # vs) = ringx h' zs (a # x # vs @ us)"
    using ring_rotate [of h' zs us "a # x # vs"] by simp
  ultimately show ?thesis using succ_m_ring [OF r', of "Suc k"] k by simp
qed

lemma link_before_ring:
  assumes r: "ringx h zs (b # ns)" and x: "x \<notin> set (b # ns)" "x \<notin> zs" "x < bound h" and n: "2 \<le> n"
  shows "\<exists>h'. link_before_m n b x h = Some (h', LINK_OK) \<and> ringx h' zs (b # ns @ [x]) \<and> frame h zs h'"
proof -
  obtain k where k: "n = Suc (Suc k)" using that [of "n - 2"] n by simp
  obtain ws a where w: "b # ns = ws @ [a]" by (cases "b # ns" rule: rev_cases) auto
  have a: "last (b # ns) = a" and b: "hd (ws @ [a]) = b" using w by (metis last_snoc, metis list.sel(1))
  have r': "ringx h zs (a # ws)" using r w ring_rotate [of h zs ws "[a]"] by simp
  have "set (a # ws) = set (b # ns)" using arg_cong [OF w, of set] by simp
  then obtain h' where "link_m (Suc k) a x b h = Some (h', XLINK_OK)"
    "ringx h' zs (a # x # ws)" "frame h zs h'"
    using link_m_ring [OF r', of x "Suc k"] x b by auto
  moreover have "ringx h' zs (b # ns @ [x]) = ringx h' zs (a # x # ws)"
    using ring_rotate [of h' zs ws "[a, x]"] w by (metis append.assoc append_Cons append_Nil)
  ultimately show ?thesis using pred_m_ring [OF r, of "Suc k"] k a by simp
qed

end
