(* ===== verification/LL_List_Ops.thy ===== *)
theory LL_List_Ops
  imports LL_List_Inv
begin

text \<open>
  The public operations of the list on a ring: insertion at both ends, removal at both ends,
  the size, and what two threads see of each other's removals.
\<close>

section \<open>Insertion of a linked element\<close>

lemma set_same [simp]:
  "set_pred x (pred_of h x) h = h" "set_succ x (succ_of h x) h = h"
  by (simp_all add: set_pred_def set_succ_def)

lemma set_linking_back: "\<not> linking_of h x \<Longrightarrow> set_linking x False (set_linking x l h) = h"
  by (auto simp: set_linking_def intro!: lheap.equality ext)

lemma link_m_twice:
  assumes "edge h p x" "\<not> linking_of h x"
  shows "link_m n a x b h = Some (h, XLINK_TWICE)"
proof -
  have "set_pred x (Some p, 0) (set_linking x True h) = set_linking x True h"
    using set_same(1) [of x "set_linking x True h"] assms(1) by (simp add: edge_def)
  then show ?thesis
    using assms set_linking_back [OF assms(2), of True]
    by (simp add: link_m_def linking_lock_def linking_unlock_def link_locked_def cas_pred_def
        cas_def edge_def)
qed

lemma link_twice_ring:
  assumes r: "ringx h zs ns" and "a \<in> set ns" "x \<in> set ns" "2 \<le> n"
  shows "link_after_m n a x h = Some (h, LINK_TWICE)" "link_before_m n a x h = Some (h, LINK_TWICE)"
proof -
  obtain k where k: "n = Suc (Suc k)" using that [of "n - 2"] assms(4) by simp
  obtain p where p: "edge h p x" using ring_prev assms by blast
  have l: "\<not> linking_of h x" using r assms(3) by (auto simp: ringx_def)
  obtain us vs where "ringx h zs (a # vs @ us)" using ring_at assms(2) r by blast
  then show "link_after_m n a x h = Some (h, LINK_TWICE)"
    "link_before_m n a x h = Some (h, LINK_TWICE)"
    using succ_m_ring [of h zs a "vs @ us" "Suc k"] pred_m_ring [of h zs a "vs @ us" "Suc k"]
      link_m_twice [OF p l] k by simp_all
qed

section \<open>Walking over iterators\<close>

lemma succ_elem_loop_path:
  assumes "successively (edge h) (i # its @ [e])" "\<forall>y\<in>set (i # its). type_of h y = Iterator"
    and "type_of h e \<noteq> Iterator" "Suc (Suc (length its)) \<le> n"
  shows "succ_elem_loop n x i h = Some (h, Some e)"
  using assms
proof (induction its arbitrary: i n)
  case Nil
  then obtain k where k: "n = Suc (Suc k)" using that [of "n - 2"] by simp
  show ?case using Nil k by (simp add: succ_m_edge)
next
  case (Cons j its)
  then obtain k where k: "n = Suc (Suc k)" using that [of "n - 2"] by simp
  have "succ_elem_loop (Suc k) x j h = Some (h, Some e)"
    using Cons.prems k by (intro Cons.IH) auto
  moreover have "succ_m (Suc k) i h = Some (h, Some j)" using Cons.prems by (simp add: succ_m_edge)
  ultimately show ?case using Cons.prems k by (simp del: succ_elem_loop.simps(2) add: succ_elem_loop.simps(2) [of "Suc k" x i])
qed

lemma succ_elem_path:
  assumes "successively (edge h) (a # its @ [e])" "\<forall>y\<in>set its. type_of h y = Iterator"
    and "type_of h e \<noteq> Iterator" "Suc (length its) \<le> n"
  shows "succ_elem n a h = Some (h, Some e)"
proof (cases its)
  case Nil
  then show ?thesis using assms by (cases n) (auto simp: succ_elem_def succ_m_edge)
next
  case (Cons i its')
  then have "succ_elem_loop n a i h = Some (h, Some e)"
    using assms by (intro succ_elem_loop_path) auto
  moreover have "succ_m n a h = Some (h, Some i)" using Cons assms by (simp add: succ_m_edge)
  ultimately show ?thesis by (simp add: succ_elem_def)
qed

lemma pred_elem_loop_path:
  assumes "successively (edge h) (e # its @ [i])" "\<forall>y\<in>set (its @ [i]). type_of h y = Iterator"
    and "type_of h e \<noteq> Iterator" "edge h q e" "Suc (Suc (length its)) \<le> n"
  shows "pred_elem_loop n x i h = Some (h, Some e)"
  using assms
proof (induction its arbitrary: i n rule: rev_induct)
  case Nil
  then obtain k where k: "n = Suc (Suc k)" using that [of "n - 2"] by simp
  have "pred_m (Suc k) i h = Some (h, Some e)" using Nil by (intro pred_m_edge) auto
  then show ?case using Nil k by simp
next
  case (snoc j its)
  then obtain k where k: "n = Suc (Suc k)" using that [of "n - 2"] by simp
  have s: "successively (edge h) (e # its @ [j])" "edge h j i"
    using snoc.prems(1) successively_append_iff [of "edge h" "e # its @ [j]" "[i]"] by auto
  then obtain p where "edge h p j"
    by (cases its rule: rev_cases) (auto simp: successively_append_iff successively_Cons)
  then have "pred_m (Suc k) i h = Some (h, Some j)" using s by (intro pred_m_edge) auto
  moreover have "pred_elem_loop (Suc k) x j h = Some (h, Some e)"
    using snoc.prems s k by (intro snoc.IH) auto
  ultimately show ?case using snoc.prems k by simp
qed

lemma pred_elem_path:
  assumes "successively (edge h) (e # its @ [b])" "\<forall>y\<in>set its. type_of h y = Iterator"
    and "type_of h e \<noteq> Iterator" "edge h q e" "Suc (length its) \<le> n"
  shows "pred_elem n b h = Some (h, Some e)"
proof (cases its rule: rev_cases)
  case Nil
  have "pred_m n b h = Some (h, Some e)" using Nil assms by (intro pred_m_edge) auto
  then show ?thesis using Nil assms by (cases n) (auto simp: pred_elem_def)
next
  case (snoc its' i)
  have s: "successively (edge h) (e # its' @ [i])" "edge h i b"
    using assms(1) snoc successively_append_iff [of "edge h" "e # its' @ [i]" "[b]"] by auto
  then obtain p where "edge h p i"
    by (cases its' rule: rev_cases) (auto simp: successively_append_iff successively_Cons)
  then have "pred_m n b h = Some (h, Some i)" using s assms by (intro pred_m_edge) auto
  moreover have "pred_elem_loop n b i h = Some (h, Some e)"
    using assms snoc s by (intro pred_elem_loop_path) auto
  ultimately show ?thesis by (simp add: pred_elem_def)
qed

lemma successively_sub: "successively P (us @ vs @ ws) \<Longrightarrow> successively P vs"
  by (simp add: successively_append_iff)

lemma ring_path: "ringx h zs (us @ a # vs @ e # ws) \<Longrightarrow> successively (edge h) (a # vs @ [e])"
  using successively_sub [of "edge h" us "a # vs @ [e]" "ws @ [hd (us @ a # vs @ e # ws)]"]
  by (simp add: ringx_def)

lemma ring_path_end: "ringx h zs (d # us @ a # vs) \<Longrightarrow> successively (edge h) (a # vs @ [d])"
  using successively_append_iff [of "edge h" "d # us" "a # vs @ [d]"] by (simp add: ringx_def)

section \<open>The elements of a list\<close>

text \<open>
  A well-formed list: the head \<open>d\<close>, followed in the ring by elements and iterators \<open>ns\<close>. What a
  client of the list sees are the elements.
\<close>

definition list_ring :: "lheap \<Rightarrow> addr set \<Rightarrow> addr \<Rightarrow> addr list \<Rightarrow> bool" where
  "list_ring h zs d ns =
     (ringx h zs (d # ns) \<and> type_of h d = Head \<and> (\<forall>y\<in>set ns. type_of h y \<noteq> Head))"

definition elements :: "lheap \<Rightarrow> addr list \<Rightarrow> addr list" where
  "elements h ns = filter (\<lambda>y. type_of h y = Element) ns"

lemma elements_simps [simp]:
  "elements h [] = []"
  "elements h (x # ns) = (if type_of h x = Element then x # elements h ns else elements h ns)"
  "elements h (us @ vs) = elements h us @ elements h vs"
  by (auto simp: elements_def)

lemma elements_frame: "frame h zs h' \<Longrightarrow> elements h' ns = elements h ns"
  by (simp add: elements_def frame_type)

lemma list_ring_frame:
  "list_ring h zs d ns \<Longrightarrow> frame h zs h' \<Longrightarrow> ringx h' zs (d # ns') \<Longrightarrow>
   \<forall>y\<in>set ns'. type_of h y \<noteq> Head \<Longrightarrow> list_ring h' zs d ns'"
  by (simp add: list_ring_def frame_type)

lemma iterator_if: "t \<noteq> Element \<Longrightarrow> t \<noteq> Head \<Longrightarrow> t = Iterator"
  by (cases t) auto

lemma iterators_elements: "\<forall>y\<in>set its. type_of h y = Iterator \<Longrightarrow> elements h its = []"
  by (induction its) auto

lemma no_elements:
  "elements h ns = [] \<Longrightarrow> \<forall>y\<in>set ns. type_of h y \<noteq> Head \<Longrightarrow> \<forall>y\<in>set ns. type_of h y = Iterator"
  by (auto simp: elements_def filter_empty_conv intro: iterator_if)

lemma deque_member: "elements h vs = x # xs \<Longrightarrow> x \<in> set vs"
  using filter_is_subset [of "\<lambda>y. type_of h y = Element" vs] by (auto simp: elements_def)

text \<open>The first and the last element of a list, with the iterators around it.\<close>

lemma elements_first:
  assumes "elements h ns = e # es" "\<forall>y\<in>set ns. type_of h y \<noteq> Head"
  obtains its vs where "ns = its @ e # vs" "\<forall>y\<in>set its. type_of h y = Iterator"
    "type_of h e = Element" "elements h vs = es"
proof -
  obtain its vs where *: "ns = its @ e # vs" "\<forall>y\<in>set its. type_of h y \<noteq> Element"
    "type_of h e = Element" "es = elements h vs"
    using assms(1) unfolding elements_def by (auto dest!: filter_eq_ConsD)
  then have "\<forall>y\<in>set its. type_of h y = Iterator"
    using assms(2) by (auto intro: iterator_if)
  then show ?thesis using that * by blast
qed

lemma elements_last:
  assumes "elements h ns = es @ [e]" "\<forall>y\<in>set ns. type_of h y \<noteq> Head"
  obtains its us where "ns = us @ e # its" "\<forall>y\<in>set its. type_of h y = Iterator"
    "type_of h e = Element" "elements h us = es"
proof -
  have "elements h (rev ns) = e # rev es"
    using assms(1) by (simp add: elements_def flip: rev_filter)
  then obtain its vs where *: "rev ns = its @ e # vs" "\<forall>y\<in>set its. type_of h y = Iterator"
    "type_of h e = Element" "elements h vs = rev es"
    using assms(2) by (elim elements_first) auto
  have "ns = rev vs @ e # rev its" using *(1) by (simp add: rev_swap)
  moreover have "elements h (rev vs) = es"
    using *(4) by (simp add: elements_def flip: rev_filter)
  ultimately show ?thesis using that [of "rev vs" "rev its"] * by simp
qed

lemma list_first:
  assumes "list_ring h zs d ns" "Suc (length ns) \<le> n"
  shows "succ_elem n d h = Some (h, Some (hd (elements h ns @ [d])))"
proof (cases "elements h ns")
  case Nil
  have "successively (edge h) (d # ns @ [d])" using assms by (simp add: list_ring_def ringx_def)
  then show ?thesis
    using assms Nil no_elements [OF Nil] by (simp add: list_ring_def succ_elem_path)
next
  case (Cons e es)
  then obtain its vs where "ns = its @ e # vs" "\<forall>y\<in>set its. type_of h y = Iterator"
    "type_of h e = Element"
    using elements_first assms by (metis list_ring_def)
  then show ?thesis
    using assms Cons ring_path [of h zs "[]" d its e vs]
    by (simp add: list_ring_def succ_elem_path)
qed

lemma list_last:
  assumes "list_ring h zs d ns" "Suc (length ns) \<le> n"
  shows "pred_elem n d h = Some (h, Some (last (d # elements h ns)))"
proof (cases "elements h ns" rule: rev_cases)
  case Nil
  have "successively (edge h) (d # ns @ [d])" using assms by (simp add: list_ring_def ringx_def)
  moreover have "edge h (last (d # ns)) d"
    using assms by (intro ring_back [of h zs]) (simp add: list_ring_def)
  ultimately show ?thesis
    using assms Nil no_elements [OF Nil] by (auto simp: list_ring_def intro!: pred_elem_path)
next
  case (snoc es e)
  then obtain its us where *: "ns = us @ e # its" "\<forall>y\<in>set its. type_of h y = Iterator"
    "type_of h e = Element"
    using elements_last assms by (metis list_ring_def)
  obtain q where "edge h q e" using assms * ring_prev [of e "d # ns" h zs] by (auto simp: list_ring_def)
  then show ?thesis
    using assms * snoc ring_path_end [of h zs d us e its]
    by (auto simp: list_ring_def intro!: pred_elem_path)
qed

section \<open>Removal at the ends\<close>

lemma unlink_at_ring:
  assumes r: "ringx h zs (d # us @ e # vs)" and u: "unreferenced h zs e" and n: "2 \<le> n"
  obtains p h' where "pred_m n e h = Some (h, Some p)" "unlink_m n p e k k h = Some (h', UNLINK_OK)"
    "ringx h' zs (d # us @ vs)" "frame h zs h'" "p = last (d # us)"
proof -
  obtain ws p where w: "d # us = ws @ [p]" by (cases "d # us" rule: rev_cases) auto
  then have l: "last (d # us) = p" by (metis last_snoc)
  have eq: "d # us @ e # vs = ws @ p # e # vs" "d # us @ vs = (ws @ [p]) @ vs"
    using w by (metis append.assoc append_Cons append_Nil)+
  have r1: "ringx h zs (p # e # vs @ ws)" "ringx h zs (e # vs @ ws @ [p])"
    using r ring_rotate [of h zs ws "p # e # vs"] ring_rotate [of h zs "ws @ [p]" "e # vs"]
    unfolding eq by simp_all
  obtain h' where h': "unlink_m n p e k k h = Some (h', UNLINK_OK)" "ringx h' zs (p # vs @ ws)"
    "frame h zs h'"
    using unlink_m_ring [OF r1(1) u n, of k] by blast
  have "pred_m n e h = Some (h, Some p)" using pred_m_ring [OF r1(2), of n] n by simp
  moreover have "ringx h' zs (d # us @ vs)"
    using h'(2) ring_rotate [of h' zs "ws" "p # vs"] unfolding eq by simp
  ultimately show ?thesis using that [OF _ h'(1) _ h'(3)] l by simp
qed

lemma pop_loop_ring:
  assumes "ringx h zs (d # us @ e # vs)" "unreferenced h zs e" "3 \<le> n"
  shows "\<exists>h'. pop_loop nxt n e h = Some (h', Some e) \<and> ringx h' zs (d # us @ vs) \<and> frame h zs h'"
proof -
  obtain k where k: "n = Suc k" "2 \<le> k" using that [of "n - 1"] assms(3) by simp
  obtain p h' where "pred_m k e h = Some (h, Some p)" "unlink_m k p e 1 1 h = Some (h', UNLINK_OK)"
    "ringx h' zs (d # us @ vs)" "frame h zs h'"
    using unlink_at_ring [OF assms(1,2) k(2), of 1] by blast
  then show ?thesis using k by simp
qed

lemma list_pop_front:
  assumes l: "list_ring h zs d ns" and e: "elements h ns = e # es" and u: "unreferenced h zs e"
    and n: "length ns + 3 \<le> n"
  obtains h' ns' where "pop_front n d h = Some (h', Some e)" "list_ring h' zs d ns'"
    "elements h' ns' = es" "frame h zs h'"
proof -
  obtain its vs where ns: "ns = its @ e # vs" "\<forall>y\<in>set its. type_of h y = Iterator"
    "type_of h e = Element" "elements h vs = es"
    using elements_first [OF e] l by (auto simp: list_ring_def)
  have r: "ringx h zs (d # its @ e # vs)" using l ns(1) by (simp add: list_ring_def)
  obtain h' where h': "pop_loop (\<lambda>n. succ_elem n d) n e h = Some (h', Some e)"
    "ringx h' zs (d # its @ vs)" "frame h zs h'"
    using pop_loop_ring [OF r u, of n "\<lambda>n. succ_elem n d"] n by auto
  have "pop_front n d h = Some (h', Some e)"
    using list_first [OF l, of n] e n ns(3) h'(1) by (simp add: pop_front_def pop_with_def)
  moreover have "list_ring h' zs d (its @ vs)"
    using list_ring_frame [OF l h'(3,2)] l ns(1) by (auto simp: list_ring_def)
  moreover have "elements h' (its @ vs) = es"
    using ns elements_frame [OF h'(3)] iterators_elements by simp
  ultimately show ?thesis using that h'(3) by blast
qed

lemma list_pop_back:
  assumes l: "list_ring h zs d ns" and e: "elements h ns = es @ [e]" and u: "unreferenced h zs e"
    and n: "length ns + 3 \<le> n"
  obtains h' ns' where "pop_back n d h = Some (h', Some e)" "list_ring h' zs d ns'"
    "elements h' ns' = es" "frame h zs h'"
proof -
  obtain its us where ns: "ns = us @ e # its" "\<forall>y\<in>set its. type_of h y = Iterator"
    "type_of h e = Element" "elements h us = es"
    using l unfolding list_ring_def by (metis elements_last [OF e])
  have r: "ringx h zs (d # us @ e # its)" using l ns(1) by (simp add: list_ring_def)
  obtain h' where h': "pop_loop (\<lambda>n. pred_elem n d) n e h = Some (h', Some e)"
    "ringx h' zs (d # us @ its)" "frame h zs h'"
    using pop_loop_ring [OF r u, of n "\<lambda>n. pred_elem n d"] n by auto
  have "pop_back n d h = Some (h', Some e)"
    using list_last [OF l, of n] e n ns(3) h'(1) by (simp add: pop_back_def pop_with_def)
  moreover have "list_ring h' zs d (us @ its)"
    using list_ring_frame [OF l h'(3,2)] l ns(1) by (auto simp: list_ring_def)
  moreover have "elements h' (us @ its) = es"
    using ns elements_frame [OF h'(3)] iterators_elements by simp
  ultimately show ?thesis using that h'(3) by blast
qed

lemma list_pop_empty:
  assumes "list_ring h zs d ns" "elements h ns = []" "length ns + 3 \<le> n"
  shows "pop_front n d h = Some (h, None)" "pop_back n d h = Some (h, None)"
  using list_first [OF assms(1), of n] list_last [OF assms(1), of n] assms
  by (simp_all add: pop_front_def pop_back_def pop_with_def list_ring_def)

section \<open>Insertion at the ends\<close>

lemma list_link_back:
  assumes l: "list_ring h zs d ns" and x: "x \<notin> set (d # ns)" "x \<notin> zs" "x < bound h"
    "type_of h x = Element" and n: "2 \<le> n"
  obtains h' where "link_back n d x h = Some (h', True)" "list_ring h' zs d (ns @ [x])"
    "elements h' (ns @ [x]) = elements h ns @ [x]" "frame h zs h'"
proof -
  obtain h' where h': "link_before_m n d x h = Some (h', LINK_OK)" "ringx h' zs (d # ns @ [x])"
    "frame h zs h'"
    using link_before_ring [of h zs d ns x n] assms by (auto simp: list_ring_def)
  then have "link_back n d x h = Some (h', True)" by (simp add: link_back_def link_answer_def)
  moreover have "list_ring h' zs d (ns @ [x])"
    using list_ring_frame [OF l h'(3,2)] l x(4) by (auto simp: list_ring_def)
  ultimately show ?thesis
    using that h'(3) x(4) elements_frame [OF h'(3), of "ns @ [x]"] by simp
qed

lemma list_link_front:
  assumes l: "list_ring h zs d ns" and x: "x \<notin> set (d # ns)" "x \<notin> zs" "x < bound h"
    "type_of h x = Element" and n: "2 \<le> n"
  obtains h' where "link_front n d x h = Some (h', True)" "list_ring h' zs d (x # ns)"
    "elements h' (x # ns) = x # elements h ns" "frame h zs h'"
proof -
  obtain h' where h': "link_after_m n d x h = Some (h', LINK_OK)" "ringx h' zs (d # x # ns)"
    "frame h zs h'"
    using link_after_ring [of h zs "[]" d ns x n] assms by (auto simp: list_ring_def)
  then have "link_front n d x h = Some (h', True)" by (simp add: link_front_def link_answer_def)
  moreover have "list_ring h' zs d (x # ns)"
    using list_ring_frame [OF l h'(3,2)] l x(4) by (auto simp: list_ring_def)
  ultimately show ?thesis
    using that h'(3) x(4) elements_frame [OF h'(3), of "x # ns"] by simp
qed

lemma list_link_twice:
  assumes "list_ring h zs d ns" "x \<in> set (d # ns)" "2 \<le> n"
  shows "link_back n d x h = Some (h, False)" "link_front n d x h = Some (h, False)"
  using link_twice_ring [of h zs "d # ns" d x n] assms
  by (simp_all add: list_ring_def link_back_def link_front_def link_answer_def)

section \<open>Size\<close>

lemma succ_elem_next:
  assumes "successively (edge h) (a # ns @ [d])" "\<forall>y\<in>set ns. type_of h y \<noteq> Head"
    and "type_of h d = Head" "Suc (length ns) \<le> n"
  shows "succ_elem n a h = Some (h, Some (hd (elements h ns @ [d])))"
proof (cases "elements h ns")
  case Nil
  then show ?thesis using assms no_elements [OF Nil] by (simp add: succ_elem_path)
next
  case (Cons e es)
  then obtain its vs where *: "ns = its @ e # vs" "\<forall>y\<in>set its. type_of h y = Iterator"
    "type_of h e = Element"
    using elements_first assms by metis
  then have "successively (edge h) (a # its @ [e])"
    using successively_sub [of "edge h" "[]" "a # its @ [e]" "vs @ [d]"] assms(1) by simp
  then show ?thesis using assms * Cons by (simp add: succ_elem_path)
qed

lemma list_size_path:
  assumes "successively (edge h) (a # ns @ [d])" "\<forall>y\<in>set ns. type_of h y \<noteq> Head"
    and "type_of h d = Head" "length ns + 2 \<le> n" "type_of h a = Element"
  shows "list_size_loop n d sz (Some a) h = Some (h, Suc sz + length (elements h ns))"
  using assms
proof (induction "length ns" arbitrary: a ns n sz rule: less_induct)
  case less
  obtain k where k: "n = Suc k" "Suc (length ns) \<le> k" using that [of "n - 1"] less.prems(4) by simp
  have s: "succ_elem k a h = Some (h, Some (hd (elements h ns @ [d])))"
    using less.prems k(2) by (intro succ_elem_next) auto
  obtain j where j: "k = Suc j" using k(2) by (cases k) auto
  show ?case
  proof (cases "elements h ns")
    case Nil
    then show ?thesis using s k j less.prems by simp
  next
    case (Cons e es)
    then obtain its vs where *: "ns = its @ e # vs" "\<forall>y\<in>set its. type_of h y = Iterator"
      "type_of h e = Element" "elements h vs = es"
      using elements_first less.prems by metis
    then have "successively (edge h) (e # vs @ [d])"
      using successively_sub [of "edge h" "a # its" "e # vs @ [d]" "[]"] less.prems(1) by simp
    then have "list_size_loop k d (Suc sz) (Some e) h = Some (h, Suc (Suc sz) + length (elements h vs))"
      using less.prems * k(2) by (intro less.hyps) auto
    then show ?thesis using s k Cons * less.prems by simp
  qed
qed

lemma list_size_ring:
  assumes l: "list_ring h zs d ns" and n: "length ns + 3 \<le> n"
  shows "list_size n d h = Some (h, length (elements h ns))"
proof -
  have f: "succ_elem n d h = Some (h, Some (hd (elements h ns @ [d])))"
    using list_first [OF l] n by simp
  obtain k where k: "n = Suc k" using n by (cases n) auto
  show ?thesis
  proof (cases "elements h ns")
    case Nil
    then show ?thesis using f k l by (simp add: list_size_def list_ring_def)
  next
    case (Cons e es)
    then obtain its vs where *: "ns = its @ e # vs" "type_of h e = Element" "elements h vs = es"
      using elements_first l by (metis list_ring_def)
    then have "successively (edge h) (e # vs @ [d])"
      using ring_path_end [of h zs d its e vs] l by (simp add: list_ring_def)
    then have "list_size_loop n d 0 (Some e) h = Some (h, Suc 0 + length (elements h vs))"
      using l * n by (intro list_size_path) (auto simp: list_ring_def)
    then show ?thesis using f Cons * by (simp add: list_size_def)
  qed
qed

lemma list_empty_ring:
  assumes "list_ring h zs d ns" "Suc (length ns) \<le> n"
  shows "list_empty n d h = Some (h, elements h ns = [])"
proof (cases "elements h ns")
  case Nil
  then show ?thesis using list_first [OF assms] assms by (simp add: list_empty_def list_ring_def)
next
  case (Cons e es)
  then obtain its vs where "type_of h e = Element"
    using elements_first assms by (metis list_ring_def)
  then show ?thesis using list_first [OF assms] Cons by (simp add: list_empty_def)
qed

end
