(* ===== verification/LL_List_Race.thy ===== *)
theory LL_List_Race
  imports LL_List_Ops
begin

text \<open>
  Removals of several threads. A thread has \<^emph>\<open>claimed\<close> an element when the first exchange of
  \<open>unlink_\<close> has succeeded; it finishes the removal with the rest of \<open>unlink_\<close>. Between the two
  steps other threads run whole operations: they complete the removal in the ring, and the
  claiming thread finds it done.
\<close>

lemma unlink_m_split:
  "edge h a x \<Longrightarrow> unlink_m n a x e k h = unlink_finish n a x e k (claim x h)"
  by (simp add: unlink_m_def claim_def edge_def cas_succ_def cas_def)

section \<open>Reading past stalled removals\<close>

lemma claims_ring:
  assumes "ring h (a # ms @ ns)"
  shows "claim_run h a ms (fold claim ms h)"
proof (rule claim_run_fold)
  show "successively (edge h) (a # ms)"
    using assms successively_sub [of "edge h" "[]" "a # ms" "ns @ [a]"]
    by (simp add: ring_def ringx_def)
qed (use assms in \<open>simp add: ring_def ringx_def\<close>)



definition race_heap :: lheap where
  "race_heap =
     \<lparr>cells = (\<lambda>_. elem_ctor Element)
        (0 := \<lparr>e_succ = (Some 1, 0), e_pred = (Some 3, 0), e_type = Head, e_linking = False\<rparr>,
         1 := \<lparr>e_succ = (Some 2, 0), e_pred = (Some 0, 0), e_type = Element, e_linking = False\<rparr>,
         2 := \<lparr>e_succ = (Some 3, 0), e_pred = (Some 1, 0), e_type = Element, e_linking = False\<rparr>,
         3 := \<lparr>e_succ = (Some 0, 0), e_pred = (Some 2, 0), e_type = Element, e_linking = False\<rparr>),
      bound = 5\<rparr>"

lemma race_heap_ring: "ring race_heap [0, 1, 2, 3]"
  unfolding ring_def ringx_def by (auto simp: race_heap_def edge_def idle_def elem_ctor_def)


section \<open>Two threads that pop\<close>

text \<open>The heap after the claim of the first element of a list was helped along.\<close>

lemma claim_helped:
  assumes l: "list_ring h {} d (e # vs)" and n: "4 \<le> n"
  obtains h' where "succ_m n d (claim e h) = Some (h', Some (hd (vs @ [d])))"
    "list_ring h' {e} d vs" "pred_of h' e = (Some d, 1)" "elements h' vs = elements h vs"
proof -
  obtain j where j: "n = Suc j" "2 \<le> j" using that [of "n - 1"] n by simp
  have r: "ringx h {} (d # e # [] @ vs)" using l by (simp add: list_ring_def)
  have c: "claim_run h d [e] (claim e h)"
    using claims_ring [of h d "[e]" vs] r by (simp add: ring_def)
  have "2 * length [e] \<le> j" using j(2) by simp
  from unlink_aid_ringx [OF r c this]
  obtain h' where h': "unlink_aid j d e (claim e h) =
      Some (h', Some d, (Some (hd (vs @ [d])), 0))"
    "skipped (claim e h) d [e] (Some (hd (vs @ [d])), 0) h'" "ringx h' (set [e] \<union> {}) (d # vs)"
    by blast
  have t: "type_of h' y = type_of h y" for y
    using h'(2) c by (simp add: skipped_def claim_run_def)
  have ed: "edge h d e" using r by (simp add: ringx_def)
  then have "pred_of h' e = (Some d, 1)" "succ_of (claim e h) d = (Some e, 1)"
    using h'(2) c by (auto simp: skipped_def claim_run_def edge_def)
  moreover have "list_ring h' {e} d vs" using h'(3) l t by (simp add: list_ring_def)
  moreover have "elements h' vs = elements h vs" using t by (simp add: elements_def)
  moreover obtain k where "j = Suc k" using j(2) by (cases j) auto
  ultimately show ?thesis using that h'(1) j(1) by (simp add: succ_m_def)
qed

lemma pop_front_claimed:
  assumes "succ_m n d hc = Some (h', Some (hd (vs @ [d])))" "list_ring h' zs d vs" "0 < n"
  shows "pop_front n d hc = pop_front n d h'"
proof -
  have "succ_m n d h' = Some (h', Some (hd (vs @ [d])))"
    using succ_m_ring [of h' zs d vs n] assms(2,3) by (simp add: list_ring_def)
  then have "succ_elem n d hc = succ_elem n d h'" using assms(1) by (simp add: succ_elem_def)
  then show ?thesis by (simp add: pop_front_def pop_with_def)
qed

text \<open>The claiming thread, after its element was taken out of the ring.\<close>

lemma unlink_finish_helped:
  assumes l: "list_ring h {e} d ns" and p: "pred_of h e = (Some d, 1)" and n: "2 \<le> n"
  obtains h' where "unlink_finish n d e k k h = Some (h', UNLINK_OK)" "list_ring h' {} d ns"
    "elements h' ns = elements h ns"
proof -
  obtain m where m: "n = Suc (Suc m)" using that [of "n - 2"] n by simp
  have r: "ringx h (insert e {}) (d # ns)" using l by (simp add: list_ring_def)
  then have s: "succ_of h e = (None, 0)" "e \<notin> set (d # ns)" by (auto simp: ringx_def)
  have same: "set_pred e (Some d, 1) h = h" using set_same(1) [of e h] p by simp
  have "unlink_aid n d e h = Some (h, Some d, (None, 0))"
    using s p same m by (simp add: aid_mark_pred_def cas_pred_def cas_def aid_publish_def)
  moreover have lc: "link_count h k e = k"
    using link_count_out [OF r s(2)] p s(2) by (auto simp: unreferenced_def)
  moreover have "unlink_drain n d None e k k h = Some h"
    using lc n by (intro unlink_drain_none) auto
  ultimately have "unlink_finish n d e k k h = Some (set_pred e (None, 0) h, UNLINK_OK)"
    by (simp add: unlink_finish_def)
  moreover have "list_ring (set_pred e (None, 0) h) {} d ns"
    using ringx_clear [OF r] l by (simp add: list_ring_def)
  ultimately show ?thesis using that by (simp add: elements_def)
qed

text \<open>
  Two threads that pop: when one thread has claimed the first element and stalls, a
  \<open>pop_front\<close> of another thread completes and gives the next element (nothing, if there is
  none); the first thread then completes its removal with success, and the list holds exactly
  the elements that neither of them took.
\<close>

theorem racing_pops:
  assumes "list_ring h {} d (e # vs)" and "length vs + 5 \<le> n"
  shows "\<exists>h2 h3 ns. pop_front n d (claim e h) =
       Some (h2, case elements h vs of [] \<Rightarrow> None | x # xs \<Rightarrow> Some x) \<and>
     unlink_finish n d e 1 1 h2 = Some (h3, UNLINK_OK) \<and>
     list_ring h3 {} d ns \<and> elements h3 ns = tl (elements h vs)"
proof -
  obtain h1 where h1: "succ_m n d (claim e h) = Some (h1, Some (hd (vs @ [d])))"
    "list_ring h1 {e} d vs" "pred_of h1 e = (Some d, 1)" "elements h1 vs = elements h vs"
    using claim_helped [OF assms(1), of n] assms(2) by auto
  have pop: "pop_front n d (claim e h) = pop_front n d h1"
    using pop_front_claimed [OF h1(1,2)] assms(2) by simp
  have "d \<noteq> e" using assms(1) by (auto simp: list_ring_def ringx_def)
  show ?thesis
  proof (cases "elements h vs")
    case Nil
    then have "pop_front n d h1 = Some (h1, None)"
      using list_pop_empty [OF h1(2)] h1(4) assms(2) by simp
    then show ?thesis
      using unlink_finish_helped [OF h1(2,3), of n 1] pop Nil h1(4) assms(2) by fastforce
  next
    case (Cons x xs)
    then have "x \<in> set vs" using deque_member by metis
    then have "unreferenced h1 {e} x"
      using h1(2,3) by (auto simp: unreferenced_def list_ring_def ringx_def)
    moreover have "elements h1 vs = x # xs" "length vs + 3 \<le> n" using h1(4) Cons assms(2) by auto
    ultimately obtain h2 ns where h2: "pop_front n d h1 = Some (h2, Some x)"
      "list_ring h2 {e} d ns" "elements h2 ns = xs" "frame h1 {e} h2"
      using list_pop_front [OF h1(2), of x xs n] by metis
    then have "pred_of h2 e = (Some d, 1)" using h1(3) by (simp add: frame_def)
    then show ?thesis
      using unlink_finish_helped [OF h2(2), of n 1] h2 pop Cons assms(2) by fastforce
  qed
qed

theorem racing_pops_witness:
  "\<exists>h2 h3 ns. pop_front 9 0 (claim 1 race_heap) = Some (h2, Some 2) \<and>
     unlink_finish 9 0 1 1 1 h2 = Some (h3, UNLINK_OK) \<and> list_ring h3 {} 0 ns \<and> elements h3 ns = [3]"
proof -
  have t: "type_of race_heap 0 = Head" "type_of race_heap 1 = Element"
    "type_of race_heap 2 = Element" "type_of race_heap 3 = Element"
    by (simp_all add: race_heap_def)
  then have "list_ring race_heap {} 0 [1, 2, 3]"
    using race_heap_ring by (simp add: list_ring_def ring_def)
  from racing_pops [OF this, of 9] show ?thesis using t by simp
qed

section \<open>A race that hangs\<close>

text \<open>
  Three threads on the ring of the head 0 and the elements 1, 2 and 3. The first one removes 2: it
  has claimed it and marked its predecessor. The second one removes 1 and is as far. The third one
  asks for the predecessor of 2, as \<open>pop_back\<close> does for the element that it found before it tries
  to unlink it: since both pointers are marked, \<open>pred_\<close> moves the marked predecessor of 2 from 1
  to 0.
\<close>

definition two_removals :: lheap where
  "two_removals = fst (aid_mark_pred 0 1 (claim 1 (fst (aid_mark_pred 1 2 (claim 2 race_heap)))))"

definition moved_pred :: lheap where "moved_pred = set_pred 2 (Some 0, 1) two_removals"

lemma set_same_val: "pred_of h x = v \<Longrightarrow> set_pred x v h = h"
  using set_same(1) [of x h] by simp

lemma mark_fresh:
  "pred_of h x = (Some a, 0) \<Longrightarrow> aid_mark_pred a x h = (set_pred x (Some a, 1) h, Some a)"
  by (simp add: aid_mark_pred_def cas_pred_def cas_def)

lemma race_heap_cells:
  "succ_of race_heap 0 = (Some 1, 0)" "succ_of race_heap 1 = (Some 2, 0)" "succ_of race_heap 2 = (Some 3, 0)"
  "pred_of race_heap 1 = (Some 0, 0)" "pred_of race_heap 2 = (Some 1, 0)" "pred_of race_heap 0 = (Some 3, 0)"
  "pred_of race_heap 3 = (Some 2, 0)"
  by (simp_all add: race_heap_def del: One_nat_def)

lemma two_removals_eq:
  "two_removals = set_pred 1 (Some 0, 1) (set_succ 0 (Some 1, 1) (set_pred 2 (Some 1, 1) (set_succ 1 (Some 2, 1) race_heap)))"
proof -
  let ?h = "set_pred 2 (Some 1, 1) (set_succ 1 (Some 2, 1) race_heap)"
  have "claim 2 race_heap = set_succ 1 (Some 2, 1) race_heap"
    by (rule claim_edge) (simp add: edge_def race_heap_cells del: One_nat_def)
  moreover have "aid_mark_pred 1 2 (set_succ 1 (Some 2, 1) race_heap) = (?h, Some 1)"
    by (rule mark_fresh) (simp add: race_heap_cells del: One_nat_def)
  moreover have "claim 1 ?h = set_succ 0 (Some 1, 1) ?h"
    by (rule claim_edge) (simp add: edge_def race_heap_cells del: One_nat_def)
  moreover have "aid_mark_pred 0 1 (set_succ 0 (Some 1, 1) ?h) = (set_pred 1 (Some 0, 1) (set_succ 0 (Some 1, 1) ?h), Some 0)"
    by (rule mark_fresh) (simp add: race_heap_cells del: One_nat_def)
  ultimately show ?thesis unfolding two_removals_def by simp
qed

lemma two_removals_cells:
  "succ_of two_removals 0 = (Some 1, 1)" "succ_of two_removals 1 = (Some 2, 1)" "succ_of two_removals 2 = (Some 3, 0)"
  "pred_of two_removals 0 = (Some 3, 0)" "pred_of two_removals 1 = (Some 0, 1)" "pred_of two_removals 2 = (Some 1, 1)"
  "pred_of two_removals 3 = (Some 2, 0)"
  by (simp_all add: two_removals_eq race_heap_cells del: One_nat_def)

lemma pred_moves_mark: "pred_m (Suc (Suc (Suc 0))) 2 two_removals = Some (moved_pred, Some 0)"
  by (simp add: pred_m_def pred_step_def pred_direct_def cas_pred_def cas_def two_removals_cells moved_pred_def
    Let_def set_same_val del: One_nat_def)

text \<open>
  The second thread goes on: it finishes the removal of 2 from the wrong predecessor, so that 1 keeps
  a marked pointer to an element that has no successor any more, and looks for the end of this
  removal for ever. So does every thread that asks for the first element.
\<close>

definition torn :: "lheap \<Rightarrow> bool" where
  "torn h \<longleftrightarrow> succ_of h 0 = (Some 1, 1) \<and> succ_of h 1 = (Some 2, 3) \<and> succ_of h 2 = (None, 0) \<and>
     pred_of h 1 = (Some 0, 1) \<and> pred_of h 2 = (Some 0, 1)"

lemma torn_same: "torn h \<Longrightarrow> set_pred 1 (Some 0, 1) h = h \<and> set_pred 2 (Some 0, 1) h = h"
  using set_same(1) [of 1 h] set_same(1) [of 2 h] by (simp add: torn_def)

lemma torn_inner: "torn h \<Longrightarrow> 0 < n \<Longrightarrow> unlink_aid n 1 2 h = Some (h, Some 0, (None, 0)) \<or> unlink_aid n 1 2 h = None"
  using torn_same [of h]
  by (cases n; cases "n - 1") (auto simp: torn_def aid_mark_pred_def cas_pred_def cas_def aid_publish_def)

lemma torn_cascade: "torn h \<Longrightarrow> aid_cascade n 1 (Some 2, 3) h = None"
proof (induction n)
  case (Suc n)
  then show ?case using torn_inner [of h n] by (cases "n = 0") (auto simp: torn_def)
qed simp

lemma torn_aid: "torn h \<Longrightarrow> unlink_aid n 0 1 h = None \<and> unlink_aid n 1 1 h = None"
  using torn_same [of h] torn_cascade [of h "n - 1"]
  by (cases n) (auto simp: torn_def aid_mark_pred_def cas_pred_def cas_def aid_publish_def)

lemma torn_self: "torn h \<Longrightarrow> aid_cascade n 1 (Some 1, 1) h = None"
  using torn_aid [of h "n - 1"] by (cases n) auto

text \<open>The step that tears the ring: 2 is taken out behind 0, whose successor is 1.\<close>

lemma moved_pred_cells:
  "succ_of moved_pred 0 = (Some 1, 1)" "succ_of moved_pred 1 = (Some 2, 1)" "succ_of moved_pred 2 = (Some 3, 0)"
  "pred_of moved_pred 0 = (Some 3, 0)" "pred_of moved_pred 1 = (Some 0, 1)" "pred_of moved_pred 2 = (Some 0, 1)"
  "pred_of moved_pred 3 = (Some 2, 0)"
  by (simp_all add: moved_pred_def two_removals_cells del: One_nat_def)

definition torn_heap :: lheap where
  "torn_heap = set_succ 2 (None, 0) (set_pred 3 (Some 0, 0) (set_succ 2 (Some 3, 2) (set_succ 1 (Some 2, 3) moved_pred)))"

lemma torn_heap: "torn torn_heap"
  by (simp add: torn_def torn_heap_def moved_pred_cells del: One_nat_def)

lemma mark_again: "pred_of h x = (Some a', 1) \<Longrightarrow> aid_mark_pred a x h = (h, Some a')"
  by (simp add: aid_mark_pred_def cas_pred_def cas_def set_same_val)

lemma tears:
  "unlink_aid (Suc (Suc n)) 1 2 (set_succ 1 (Some 2, 3) moved_pred) = Some (torn_heap, Some 0, (Some 1, 1))"
  by (simp add: mark_again aid_publish_def aid_fix_pred_def aid_skip_def cas_pred_def cas_succ_def cas_def
    moved_pred_cells torn_heap_def del: One_nat_def)

lemma aid_cascade_step:
  "s_marked f \<Longrightarrow> unlink_aid n x y h = Some (h', a, (Some z, g)) \<Longrightarrow>
     aid_cascade (Suc n) x (Some y, f) h = aid_cascade n x (Some z, g) h'"
  by simp

lemma tears_cascade: "aid_cascade n 1 (Some 2, 3) (set_succ 1 (Some 2, 3) moved_pred) = None"
proof (cases "\<exists>m. n = Suc (Suc (Suc m))")
  case True
  then obtain m where "n = Suc (Suc (Suc m))" by blast
  moreover have "s_marked 3" by simp
  ultimately show ?thesis
    using aid_cascade_step [OF _ tears [of m], of 3] torn_self [OF torn_heap] by metis
next
  case False
  then have "n = 0 \<or> n = Suc 0 \<or> n = Suc (Suc 0)" by presburger
  then show ?thesis
    by (auto simp: mark_again aid_publish_def moved_pred_cells simp del: One_nat_def)
qed

text \<open>With any fuel, the second thread does not come back, and nor does a search for the first element.\<close>

lemma racing_removals_hang: "unlink_aid n 0 1 moved_pred = None"
  using tears_cascade [of "n - 1"]
  by (cases n) (simp_all add: mark_again aid_publish_def moved_pred_cells del: One_nat_def)

lemma torn_search_hangs: "succ_m n 0 torn_heap = None"
proof -
  have "succ_loop n 0 (Some 1, 1) torn_heap = None"
    using torn_aid [OF torn_heap, of "n - 1"] by (cases n) simp_all
  then show ?thesis using torn_heap by (simp add: succ_m_def torn_def)
qed

end
