(* ===== verification/LL_Pos.thy ===== *)
theory LL_Pos
  imports LL_List_Ops
begin

text \<open>
  Positions in the list: the second half of \<open>src/ll_list.cc\<close> and the class \<open>position\<close> of
  \<open>include/ilias/ll_list.h\<close>. A position is a pair of iterator links, one before and one after
  the element that it denotes; stepping moves the rear link over the next element and swaps the
  roles of the two. Conventions on fuel and on \<open>None\<close> are those of \<open>LL_List\<close>.
\<close>

section \<open>Iterator links\<close>

fun unlink_iter :: "nat \<Rightarrow> addr \<Rightarrow> lheap \<Rightarrow> (lheap \<times> bool) option" where
  "unlink_iter 0 i h = None"
| "unlink_iter (Suc n) i h =
     do {
       (h, p) \<leftarrow> pred_m n i h;
       (case p of
          None \<Rightarrow> Some (h, False)
        | Some p \<Rightarrow>
            do {
              (h, r) \<leftarrow> unlink_m n p i 0 0 h;
              (case r of
                 UNLINK_OK \<Rightarrow> Some (h, True)
               | UNLINK_FAIL \<Rightarrow> Some (h, False)
               | UNLINK_RETRY \<Rightarrow> unlink_iter n i h)
            })
     }"

text \<open>The destructor and the assignment repeat the same loop and ignore how it ends.\<close>

definition iter_link_dtor :: "nat \<Rightarrow> addr \<Rightarrow> lheap \<Rightarrow> lheap option" where
  "iter_link_dtor n i h = map_option fst (unlink_iter n i h)"

definition expect_link :: "lheap \<times> link_result \<Rightarrow> lheap option" where
  "expect_link r = (if snd r = LINK_OK then Some (fst r) else None)"

definition iter_link_copy :: "nat \<Rightarrow> addr \<Rightarrow> addr \<Rightarrow> lheap \<Rightarrow> lheap option" where
  "iter_link_copy n i j h =
     (let h = h\<lparr>cells := (cells h)(i := elem_ctor Iterator)\<rparr>
      in Option.bind (link_after_m n j i h) expect_link)"

definition iter_link_assign :: "nat \<Rightarrow> addr \<Rightarrow> addr \<Rightarrow> lheap \<Rightarrow> lheap option" where
  "iter_link_assign n i j h =
     do {
       (h, _) \<leftarrow> unlink_iter n i h;
       (if is_unlinked h j then Some h else Option.bind (link_after_m n j i h) expect_link)
     }"

section \<open>Positions\<close>

record position =
  pos0 :: addr
  pos1 :: addr
  swap :: bool

definition pfront :: "position \<Rightarrow> addr" where "pfront p = (if swap p then pos1 p else pos0 p)"
definition pback :: "position \<Rightarrow> addr" where "pback p = (if swap p then pos0 p else pos1 p)"

definition position_assign :: "nat \<Rightarrow> position \<Rightarrow> position \<Rightarrow> lheap \<Rightarrow> (lheap \<times> position) option" where
  "position_assign n p q h =
     do {
       h \<leftarrow> iter_link_assign n (pos0 p) (pos0 q) h;
       h \<leftarrow> iter_link_assign n (pos1 p) (pos1 q) h;
       Some (h, p\<lparr>swap := swap q\<rparr>)
     }"

definition position_unlink :: "nat \<Rightarrow> position \<Rightarrow> lheap \<Rightarrow> (lheap \<times> position) option" where
  "position_unlink n p h =
     do {
       (h, _) \<leftarrow> unlink_iter n (pos0 p) h;
       (h, _) \<leftarrow> unlink_iter n (pos1 p) h;
       Some (h, p\<lparr>swap := False\<rparr>)
     }"

definition position_dtor :: "nat \<Rightarrow> position \<Rightarrow> lheap \<Rightarrow> lheap option" where
  "position_dtor n p h =
     do { h \<leftarrow> iter_link_dtor n (pos1 p) h; iter_link_dtor n (pos0 p) h }"

definition link_around :: "nat \<Rightarrow> addr \<Rightarrow> position \<Rightarrow> lheap \<Rightarrow> (lheap \<times> position \<times> bool) option" where
  "link_around n x p h =
     do {
       (h, p) \<leftarrow> position_unlink n p h;
       (h, rs) \<leftarrow> link_after_m n x (pfront p) h;
       (case rs of
          LINK_TWICE \<Rightarrow> None
        | LINK_LOST \<Rightarrow> Some (h, p, False)
        | LINK_OK \<Rightarrow>
            do {
              (h, rs) \<leftarrow> link_before_m n x (pback p) h;
              (case rs of
                 LINK_TWICE \<Rightarrow> None
               | LINK_LOST \<Rightarrow> do { (h, p) \<leftarrow> position_unlink n p h; Some (h, p, False) }
               | LINK_OK \<Rightarrow> Some (h, p, True))
            })
     }"

definition flip :: "position \<Rightarrow> position" where "flip p = p\<lparr>swap := \<not> swap p\<rparr>"

fun step_forward_loop :: "nat \<Rightarrow> position \<Rightarrow> lheap \<Rightarrow> (lheap \<times> position \<times> ptr) option" where
  "step_forward_loop 0 p h = None"
| "step_forward_loop (Suc n) p h =
     do {
       (h, e) \<leftarrow> succ_elem n (pfront p) h;
       e \<leftarrow> e;
       (h, rs) \<leftarrow> link_after_m n e (pback p) h;
       (case rs of
          LINK_OK \<Rightarrow> Some (h, flip p, Some e)
        | LINK_LOST \<Rightarrow> step_forward_loop n p h
        | LINK_TWICE \<Rightarrow> None)
     }"

definition step_forward :: "nat \<Rightarrow> position \<Rightarrow> lheap \<Rightarrow> (lheap \<times> position \<times> ptr) option" where
  "step_forward n p h =
     do {
       (h, ok) \<leftarrow> unlink_iter n (pback p) h;
       (if ok then step_forward_loop n p h else Some (h, p, None))
     }"

fun step_backward_loop :: "nat \<Rightarrow> position \<Rightarrow> lheap \<Rightarrow> (lheap \<times> position \<times> ptr) option" where
  "step_backward_loop 0 p h = None"
| "step_backward_loop (Suc n) p h =
     do {
       (h, e) \<leftarrow> pred_elem n (pback p) h;
       e \<leftarrow> e;
       (h, rs) \<leftarrow> link_before_m n e (pfront p) h;
       (case rs of
          LINK_OK \<Rightarrow> Some (h, flip p, Some e)
        | LINK_LOST \<Rightarrow> step_backward_loop n p h
        | LINK_TWICE \<Rightarrow> None)
     }"

definition step_backward :: "nat \<Rightarrow> position \<Rightarrow> lheap \<Rightarrow> (lheap \<times> position \<times> ptr) option" where
  "step_backward n p h =
     do {
       (h, ok) \<leftarrow> unlink_iter n (pfront p) h;
       (if ok then step_backward_loop n p h else Some (h, p, None))
     }"

text \<open>
  Equality of positions: no element lies between them. \<open>eq_next\<close> goes to the successor, from
  the start again when an element was unlinked.
\<close>

definition eq_next :: "nat \<Rightarrow> addr \<Rightarrow> addr \<Rightarrow> lheap \<Rightarrow> (lheap \<times> addr) option" where
  "eq_next n start s h =
     do {
       (h, t) \<leftarrow> succ_m n s h;
       (h, t) \<leftarrow> (case t of None \<Rightarrow> succ_m n start h | Some _ \<Rightarrow> Some (h, t));
       t \<leftarrow> t;
       Some (h, t)
     }"

fun eq_single :: "nat \<Rightarrow> addr \<Rightarrow> addr \<Rightarrow> addr \<Rightarrow> lheap \<Rightarrow> (lheap \<times> bool) option" where
  "eq_single 0 start goal s h = None"
| "eq_single (Suc n) start goal s h =
     (if type_of h s \<noteq> Iterator then Some (h, False)
      else if s = goal then Some (h, True)
      else do { (h, s) \<leftarrow> eq_next n start s h; eq_single n start goal s h })"

fun eq_both ::
    "nat \<Rightarrow> addr \<Rightarrow> addr \<Rightarrow> addr \<Rightarrow> addr \<Rightarrow> lheap \<Rightarrow> (lheap \<times> bool) option" where
  "eq_both 0 b1 b2 s1 s2 h = None"
| "eq_both (Suc n) b1 b2 s1 s2 h =
     (if type_of h s1 = Iterator \<and> type_of h s2 = Iterator then
        (if s1 = b2 \<or> s2 = b1 then Some (h, True)
         else do {
           (h, s1) \<leftarrow> eq_next n b1 s1 h;
           (h, s2) \<leftarrow> eq_next n b2 s2 h;
           eq_both n b1 b2 s1 s2 h
         })
      else do {
        (h, r) \<leftarrow> eq_single n b1 b2 s1 h;
        (if r then Some (h, True) else eq_single n b2 b1 s2 h)
      })"

definition position_eq :: "nat \<Rightarrow> position \<Rightarrow> position \<Rightarrow> lheap \<Rightarrow> (lheap \<times> bool) option" where
  "position_eq n p q h =
     (if is_unlinked h (pback p) \<and> is_unlinked h (pback q) then Some (h, True)
      else if is_unlinked h (pback p) \<or> is_unlinked h (pback q) then Some (h, False)
      else do {
        (h, s1) \<leftarrow> succ_m n (pback p) h;
        (h, s2) \<leftarrow> succ_m n (pback q) h;
        s1 \<leftarrow> s1;
        s2 \<leftarrow> s2;
        eq_both n (pback p) (pback q) s1 s2 h
      })"

section \<open>The list at positions\<close>

fun init_begin_loop ::
    "nat \<Rightarrow> addr \<Rightarrow> addr \<Rightarrow> position \<Rightarrow> lheap \<Rightarrow> (lheap \<times> position \<times> addr) option" where
  "init_begin_loop 0 d rv p h = None"
| "init_begin_loop (Suc n) d rv p h =
     do {
       (h, rs) \<leftarrow> link_after_m n rv (pfront p) h;
       (case rs of
          LINK_OK \<Rightarrow>
            do {
              r \<leftarrow> link_after_m n d (pback p) h;
              h \<leftarrow> expect_link r;
              Some (h, p, rv)
            }
        | LINK_LOST \<Rightarrow>
            do { (h, rv) \<leftarrow> succ_elem n d h; rv \<leftarrow> rv; init_begin_loop n d rv p h }
        | LINK_TWICE \<Rightarrow> None)
     }"

definition init_begin :: "nat \<Rightarrow> addr \<Rightarrow> position \<Rightarrow> lheap \<Rightarrow> (lheap \<times> position \<times> addr) option" where
  "init_begin n d p h =
     do {
       (h, p) \<leftarrow> position_unlink n p h;
       (h, rv) \<leftarrow> succ_elem n d h;
       rv \<leftarrow> rv;
       init_begin_loop n d rv p h
     }"

definition init_end :: "nat \<Rightarrow> addr \<Rightarrow> position \<Rightarrow> lheap \<Rightarrow> (lheap \<times> position \<times> addr) option" where
  "init_end n d p h =
     do {
       (h, p) \<leftarrow> position_unlink n p h;
       r \<leftarrow> link_before_m n d (pback p) h;
       h \<leftarrow> expect_link r;
       r \<leftarrow> link_after_m n d (pfront p) h;
       h \<leftarrow> expect_link r;
       Some (h, p, d)
     }"

text \<open>
  \<open>link_after\<close> and \<open>link_before\<close> at a position. \<open>dummy\<close> is the local position, used where \<open>out\<close>
  is null and destroyed at the return. The answer is the element and whether it was linked; an
  exception leaves the heap as it is at the throw, after the destructor of \<open>dummy\<close>.
\<close>

type_synonym pos_answer = "lheap \<times> position option \<times> (ptr \<times> bool) result"

definition pos_return ::
    "nat \<Rightarrow> position \<Rightarrow> position option \<Rightarrow> position \<Rightarrow> (ptr \<times> bool) result \<Rightarrow> lheap \<Rightarrow> pos_answer option"
where
  "pos_return n dummy out q r h =
     do {
       h \<leftarrow> position_dtor n (if out = None then q else dummy) h;
       Some (h, map_option (\<lambda>_. q) out, r)
     }"

definition pos_out ::
    "nat \<Rightarrow> position \<Rightarrow> position option \<Rightarrow> lheap \<Rightarrow> (lheap \<times> position) option" where
  "pos_out n dummy out h =
     (case out of None \<Rightarrow> Some (h, dummy) | Some q \<Rightarrow> position_unlink n q h)"

definition list_link_after ::
    "nat \<Rightarrow> position \<Rightarrow> addr \<Rightarrow> position option \<Rightarrow> position \<Rightarrow> lheap \<Rightarrow> pos_answer option" where
  "list_link_after n p e out dummy h =
     (if map_option pos0 out = Some (pos0 p)
      then pos_return n dummy out p (Inl Invalid_argument) h
      else do {
        (h, q) \<leftarrow> pos_out n dummy out h;
        r \<leftarrow> link_after_m n (pfront p) (pback q) h;
        h \<leftarrow> expect_link r;
        r \<leftarrow> link_after_m n (pback q) (pfront q) h;
        h \<leftarrow> expect_link r;
        (h, lr) \<leftarrow> link_after_m n (pback q) e h;
        (case lr of
           LINK_OK \<Rightarrow> pos_return n dummy out q (Inr (Some e, True)) h
         | LINK_LOST \<Rightarrow> pos_return n dummy out q (Inl Invalid_argument) h
         | LINK_TWICE \<Rightarrow>
             do {
               (h, q) \<leftarrow> position_unlink n q h;
               pos_return n dummy out q (Inr (None, False)) h
             })
      })"

definition list_link_before ::
    "nat \<Rightarrow> position \<Rightarrow> addr \<Rightarrow> position option \<Rightarrow> position \<Rightarrow> lheap \<Rightarrow> pos_answer option" where
  "list_link_before n p e out dummy h =
     (if map_option pos0 out = Some (pos0 p)
      then pos_return n dummy out p (Inl Invalid_argument) h
      else do {
        (h, q) \<leftarrow> pos_out n dummy out h;
        r \<leftarrow> link_before_m n (pback p) (pfront q) h;
        h \<leftarrow> expect_link r;
        r \<leftarrow> link_before_m n (pfront q) (pback q) h;
        h \<leftarrow> expect_link r;
        (h, lr) \<leftarrow> link_before_m n (pfront q) e h;
        (case lr of
           LINK_OK \<Rightarrow> pos_return n dummy out q (Inr (Some e, True)) h
         | LINK_LOST \<Rightarrow> pos_return n dummy out q (Inl Invalid_argument) h
         | LINK_TWICE \<Rightarrow>
             do {
               (h, q) \<leftarrow> position_unlink n q h;
               pos_return n dummy out q (Inr (None, False)) h
             })
      })"

text \<open>\<open>unlink\<close> of an element, with \<open>expect\<close> references held by the caller; \<open>e_ptr\<close> is one more.\<close>

fun list_unlink_loop ::
    "nat \<Rightarrow> addr \<Rightarrow> position \<Rightarrow> nat \<Rightarrow> lheap \<Rightarrow> (lheap \<times> position \<times> ptr \<times> bool) option" where
  "list_unlink_loop 0 e q expect h = None"
| "list_unlink_loop (Suc n) e q expect h =
     do {
       (h, lr) \<leftarrow> link_before_m n e (pback q) h;
       (case lr of
          LINK_TWICE \<Rightarrow> None
        | LINK_LOST \<Rightarrow> Some (h, q, None, False)
        | LINK_OK \<Rightarrow>
            do {
              (h, ur) \<leftarrow> unlink_m n (pback q) e (expect + 1) (expect + 1) h;
              (case ur of
                 UNLINK_OK \<Rightarrow> Some (h, q, Some e, True)
               | UNLINK_RETRY \<Rightarrow>
                   do { (h, q) \<leftarrow> position_unlink n q h; list_unlink_loop n e q expect h }
               | UNLINK_FAIL \<Rightarrow>
                   do { (h, q) \<leftarrow> position_unlink n q h; Some (h, q, None, False) })
            })
     }"

definition list_unlink ::
    "nat \<Rightarrow> addr \<Rightarrow> position option \<Rightarrow> nat \<Rightarrow> position \<Rightarrow> lheap \<Rightarrow> pos_answer option" where
  "list_unlink n e out expect dummy h =
     do {
       (h, q) \<leftarrow> pos_out n dummy out h;
       (h, lr) \<leftarrow> link_after_m n e (pfront q) h;
       (case lr of
          LINK_TWICE \<Rightarrow> None
        | LINK_LOST \<Rightarrow> pos_return n dummy out q (Inr (None, False)) h
        | LINK_OK \<Rightarrow>
            do {
              (h, q, r) \<leftarrow> list_unlink_loop n e q expect h;
              pos_return n dummy out q (Inr r) h
            })
     }"

text \<open>
  \<open>iterator_to\<close>. Its last loop unlinks the rear link again; a failed \<open>assert\<close> in it is
  \<open>None\<close>. The outer loop never runs twice.
\<close>

fun unlink_surely :: "nat \<Rightarrow> addr \<Rightarrow> lheap \<Rightarrow> lheap option" where
  "unlink_surely 0 i h = None"
| "unlink_surely (Suc n) i h =
     do {
       (h, p) \<leftarrow> pred_m n i h;
       p \<leftarrow> p;
       (h, ur) \<leftarrow> unlink_m n p i 0 0 h;
       (case ur of
          UNLINK_OK \<Rightarrow> Some h
        | UNLINK_FAIL \<Rightarrow> None
        | UNLINK_RETRY \<Rightarrow> unlink_surely n i h)
     }"

definition iterator_to :: "nat \<Rightarrow> addr \<Rightarrow> position \<Rightarrow> lheap \<Rightarrow> (lheap \<times> position \<times> bool) option" where
  "iterator_to n e out h =
     do {
       (h, out) \<leftarrow> position_unlink n out h;
       (if linking_of h e then Some (h, out, False)
        else do {
          (h, lr) \<leftarrow> link_before_m n e (pback out) h;
          (case lr of
             LINK_TWICE \<Rightarrow> None
           | LINK_LOST \<Rightarrow> Some (h, out, False)
           | LINK_OK \<Rightarrow>
               do {
                 (h, lr) \<leftarrow> link_after_m n e (pfront out) h;
                 (case lr of
                    LINK_TWICE \<Rightarrow> None
                  | LINK_OK \<Rightarrow> Some (h, out, True)
                  | LINK_LOST \<Rightarrow>
                      do { h \<leftarrow> unlink_surely n (pback out) h; Some (h, out, False) })
               })
        })
     }"

end
