(* ===== verification/LL_Pos_Walk.thy ===== *)
theory LL_Pos_Walk
  imports LL_Pos
begin

text \<open>
  Positions on a well-formed list: \<open>init_begin\<close> and \<open>step_forward\<close> walk over the elements of
  the list in order, whatever other iterators are linked among them.
\<close>

section \<open>Iterator links in the ring\<close>

lemma unlink_iter_ring:
  assumes "ringx h zs (d # us @ x # vs)" "unreferenced h zs x" "3 \<le> n"
  obtains h' where "unlink_iter n x h = Some (h', True)" "ringx h' zs (d # us @ vs)" "frame h zs h'"
proof -
  obtain k where k: "n = Suc k" "2 \<le> k" using that [of "n - 1"] assms(3) by simp
  obtain p h' where "pred_m k x h = Some (h, Some p)" "unlink_m k p x 0 0 h = Some (h', UNLINK_OK)"
    "ringx h' zs (d # us @ vs)" "frame h zs h'"
    using unlink_at_ring [OF assms(1,2) k(2), of 0] by blast
  then show ?thesis using that k(1) by simp
qed

lemma unlink_iter_idle: "idle h x \<Longrightarrow> 2 \<le> n \<Longrightarrow> unlink_iter n x h = Some (h, False)"
  by (cases n; cases "n - 1") (auto simp: idle_def pred_m_def)

section \<open>A position at an element\<close>

text \<open>
  \<open>p\<close> denotes \<open>e\<close>: its links are around \<open>e\<close>, and \<open>rest\<close> are the elements that follow.
\<close>

definition at_elem :: "lheap \<Rightarrow> addr list \<Rightarrow> position \<Rightarrow> addr \<Rightarrow> addr list \<Rightarrow> bool" where
  "at_elem h ns p e rest =
     (\<exists>us its vs. ns = us @ pback p # its @ e # pfront p # vs \<and>
        (\<forall>y\<in>set its. type_of h y = Iterator) \<and> type_of h e = Element \<and>
        type_of h (pback p) = Iterator \<and> type_of h (pfront p) = Iterator \<and> elements h vs = rest)"

lemma flip_simps [simp]: "pfront (flip p) = pback p" "pback (flip p) = pfront p"
  by (simp_all add: flip_def pfront_def pback_def)

text \<open>The state after the rear link was taken out.\<close>

lemma step_forward_unlink:
  assumes l: "list_ring h {} d ns" and p: "at_elem h ns p e rest" and n: "length ns + 3 \<le> n"
  obtains h1 us vs where "unlink_iter n (pback p) h = Some (h1, True)" "frame h {} h1"
    "list_ring h1 {} d (us @ pfront p # vs)" "elements h1 vs = rest"
    "elements h1 (us @ pfront p # vs) = elements h ns" "pback p \<notin> set (d # us @ pfront p # vs)"
    "pback p < bound h" "Suc (length (us @ pfront p # vs)) = length ns"
    "type_of h1 (pback p) = Iterator" "type_of h1 (pfront p) = Iterator"
proof -
  obtain us its vs where ns: "ns = us @ pback p # its @ e # pfront p # vs"
    "type_of h (pback p) = Iterator" "type_of h (pfront p) = Iterator" "elements h vs = rest"
    using p unfolding at_elem_def by blast
  have r: "ringx h {} (d # us @ pback p # (its @ e # pfront p # vs))"
    using l ns(1) by (simp add: list_ring_def)
  obtain h1 where h1: "unlink_iter n (pback p) h = Some (h1, True)"
    "ringx h1 {} (d # us @ its @ e # pfront p # vs)" "frame h {} h1"
    using unlink_iter_ring [OF r, of n] n by auto
  have "list_ring h1 {} d (us @ its @ e # pfront p # vs)"
    using list_ring_frame [OF l h1(3,2)] l ns(1) by (auto simp: list_ring_def)
  moreover have "elements h1 vs = rest"
    "elements h1 (us @ its @ e # pfront p # vs) = elements h ns"
    unfolding elements_frame [OF h1(3)] using ns by simp_all
  moreover have "pback p \<notin> set (d # us @ its @ e # pfront p # vs)" "pback p < bound h"
    using r by (auto simp: ringx_def)
  ultimately show ?thesis
    using that [of h1 "us @ its @ [e]" vs] h1 ns frame_type [OF h1(3)] by simp
qed

lemma step_forward_next:
  assumes l: "list_ring h {} d ns" and p: "at_elem h ns p e (x # rest)" and n: "length ns + 3 \<le> n"
  obtains h' ns' where "step_forward n p h = Some (h', flip p, Some x)" "frame h {} h'"
    "list_ring h' {} d ns'" "at_elem h' ns' (flip p) x rest" "elements h' ns' = elements h ns"
    "length ns' = length ns"
proof -
  obtain h1 us vs where h1: "unlink_iter n (pback p) h = Some (h1, True)" "frame h {} h1"
    "list_ring h1 {} d (us @ pfront p # vs)" "elements h1 vs = x # rest"
    "elements h1 (us @ pfront p # vs) = elements h ns" "pback p \<notin> set (d # us @ pfront p # vs)"
    "pback p < bound h" "Suc (length (us @ pfront p # vs)) = length ns"
    "type_of h1 (pback p) = Iterator" "type_of h1 (pfront p) = Iterator"
    by (rule step_forward_unlink [OF l p n])
  have nh: "\<forall>y\<in>set vs. type_of h1 y \<noteq> Head" using h1(3) by (auto simp: list_ring_def)
  obtain its vs' where vs: "vs = its @ x # vs'" "\<forall>y\<in>set its. type_of h1 y = Iterator"
    "type_of h1 x = Element" "elements h1 vs' = rest"
    using elements_first [OF h1(4) nh] by blast
  obtain k where k: "n = Suc k" "Suc (length vs) \<le> k" "2 \<le> k" using that [of "n - 1"] h1(8) n by simp
  have path: "successively (edge h1) (pfront p # vs @ [d])"
    using ring_path_end [of h1 "{}" d us "pfront p" vs] h1(3) by (simp add: list_ring_def)
  have s: "succ_elem k (pfront p) h1 = Some (h1, Some x)"
    using succ_elem_next [OF path nh _ k(2)] h1(3,4) by (simp add: list_ring_def)
  let ?us = "us @ pfront p # its"
  have r: "ringx h1 {} ((d # ?us) @ x # vs')" using h1(3) vs(1) by (simp add: list_ring_def)
  have b: "pback p \<notin> set ((d # ?us) @ x # vs')" "pback p < bound h1"
    using h1(2,6,7) vs(1) by (auto simp: frame_def)
  from link_after_ring [OF r b(1) _ b(2) k(3)]
  obtain h2 where h2: "link_after_m k x (pback p) h1 = Some (h2, LINK_OK)"
    "ringx h2 {} ((d # ?us) @ x # pback p # vs')" "frame h1 {} h2" by auto
  have "list_ring h2 {} d (?us @ x # pback p # vs')"
    using list_ring_frame [OF h1(3) h2(3), of "?us @ x # pback p # vs'"] h2(2) h1(3,9) vs(1)
    by (auto simp: list_ring_def)
  moreover have "at_elem h2 (?us @ x # pback p # vs') (flip p) x rest"
    unfolding at_elem_def
    by (intro exI [of _ us] exI [of _ its] exI [of _ vs'])
      (use vs h1(9,10) frame_type [OF h2(3)] elements_frame [OF h2(3)] in simp)
  moreover have "elements h2 (?us @ x # pback p # vs') = elements h ns"
    unfolding elements_frame [OF h2(3)] using h1(5) [unfolded vs(1)] h1(9,10) vs(3) by simp
  moreover have "step_forward n p h = Some (h2, flip p, Some x)"
    using h1(1) s h2(1) k(1) by (simp add: step_forward_def)
  ultimately show ?thesis using that [of h2] frame_trans [OF h1(2) h2(3)] h1(8) vs(1) by simp
qed

lemma step_forward_end:
  assumes l: "list_ring h {} d ns" and p: "at_elem h ns p e []" and n: "length ns + 3 \<le> n"
  obtains h' ns' where "step_forward n p h = Some (h', flip p, Some d)" "frame h {} h'"
    "list_ring h' {} d ns'" "elements h' ns' = elements h ns" "length ns' = length ns"
proof -
  obtain h1 us vs where h1: "unlink_iter n (pback p) h = Some (h1, True)" "frame h {} h1"
    "list_ring h1 {} d (us @ pfront p # vs)" "elements h1 vs = []"
    "elements h1 (us @ pfront p # vs) = elements h ns" "pback p \<notin> set (d # us @ pfront p # vs)"
    "pback p < bound h" "Suc (length (us @ pfront p # vs)) = length ns"
    "type_of h1 (pback p) = Iterator" "type_of h1 (pfront p) = Iterator"
    by (rule step_forward_unlink [OF l p n])
  have nh: "\<forall>y\<in>set vs. type_of h1 y \<noteq> Head" using h1(3) by (auto simp: list_ring_def)
  obtain k where k: "n = Suc k" "Suc (length vs) \<le> k" "2 \<le> k" using that [of "n - 1"] h1(8) n by simp
  have path: "successively (edge h1) (pfront p # vs @ [d])"
    using ring_path_end [of h1 "{}" d us "pfront p" vs] h1(3) by (simp add: list_ring_def)
  have s: "succ_elem k (pfront p) h1 = Some (h1, Some d)"
    using succ_elem_next [OF path nh _ k(2)] h1(3,4) by (simp add: list_ring_def)
  have r: "ringx h1 {} ([] @ d # us @ pfront p # vs)" using h1(3) by (simp add: list_ring_def)
  have b: "pback p \<notin> set ([] @ d # us @ pfront p # vs)" "pback p < bound h1"
    using h1(2,6,7) by (auto simp: frame_def)
  from link_after_ring [OF r b(1) _ b(2) k(3)]
  obtain h2 where h2: "link_after_m k d (pback p) h1 = Some (h2, LINK_OK)"
    "ringx h2 {} ([] @ d # pback p # us @ pfront p # vs)" "frame h1 {} h2" by auto
  have "list_ring h2 {} d (pback p # us @ pfront p # vs)"
    using list_ring_frame [OF h1(3) h2(3), of "pback p # us @ pfront p # vs"] h2(2) h1(3,9)
    by (auto simp: list_ring_def)
  moreover have "elements h2 (pback p # us @ pfront p # vs) = elements h ns"
    unfolding elements_frame [OF h2(3)] using h1(5,9) by simp
  moreover have "step_forward n p h = Some (h2, flip p, Some d)"
    using h1(1) s h2(1) k(1) by (simp add: step_forward_def)
  ultimately show ?thesis using that [of h2] frame_trans [OF h1(2) h2(3)] h1(8) by simp
qed

section \<open>Walking over the list\<close>

text \<open>A position that is not linked, and may be linked.\<close>

definition free_position :: "lheap \<Rightarrow> addr set \<Rightarrow> position \<Rightarrow> bool" where
  "free_position h ns p =
     (pfront p \<noteq> pback p \<and> (\<forall>i\<in>{pfront p, pback p}. i \<notin> ns \<and> i < bound h \<and> type_of h i = Iterator))"

definition reset_swap :: "position \<Rightarrow> position" where "reset_swap p = p\<lparr>swap := False\<rparr>"

lemma position_unlink_free:
  assumes "free_position h (set ns) p" "ringx h {} ns" "2 \<le> n"
  shows "position_unlink n p h = Some (h, reset_swap p)"
proof -
  have "idle h (pos0 p)" "idle h (pos1 p)"
    using assms by (auto simp: free_position_def ringx_def pfront_def pback_def split: if_splits)
  then show ?thesis using assms(3) by (simp add: position_unlink_def unlink_iter_idle reset_swap_def)
qed

lemma free_position_reset: "free_position h ns p \<Longrightarrow> free_position h ns (reset_swap p)"
  by (auto simp: free_position_def reset_swap_def pfront_def pback_def split: if_splits)

lemma init_begin_at:
  assumes l: "list_ring h {} d ns" and f: "free_position h (set (d # ns)) p"
    and e: "elements h ns = e # es" and n: "length ns + 4 \<le> n"
  obtains h' ns' where "init_begin n d p h = Some (h', reset_swap p, e)" "frame h {} h'"
    "list_ring h' {} d ns'" "at_elem h' ns' (reset_swap p) e es" "elements h' ns' = elements h ns"
    "length ns' = length ns + 2"
proof -
  let ?p = "reset_swap p"
  have f': "free_position h (set (d # ns)) ?p" using f by (rule free_position_reset)
  have r: "ringx h {} (d # ns)" using l by (simp add: list_ring_def)
  obtain k where k: "n = Suc k" "2 \<le> k" using that [of "n - 1"] n by simp
  have s: "succ_elem n d h = Some (h, Some e)" using list_first [OF l, of n] e n by simp
  obtain its vs where ns: "ns = its @ e # vs" "\<forall>y\<in>set its. type_of h y = Iterator"
    "type_of h e = Element" "elements h vs = es"
    using elements_first [OF e] l by (auto simp: list_ring_def)
  have r1: "ringx h {} ((d # its) @ e # vs)" using r ns(1) by simp
  have x1: "pfront ?p \<notin> set ((d # its) @ e # vs)" "pfront ?p < bound h"
    using f' ns(1) by (auto simp: free_position_def)
  from link_after_ring [OF r1 x1(1) _ x1(2) k(2)]
  obtain h1 where h1: "link_after_m k e (pfront ?p) h = Some (h1, LINK_OK)"
    "ringx h1 {} ((d # its) @ e # pfront ?p # vs)" "frame h {} h1" by auto
  have r2: "ringx h1 {} ([] @ d # its @ e # pfront ?p # vs)" using h1(2) by simp
  have x2: "pback ?p \<notin> set ([] @ d # its @ e # pfront ?p # vs)" "pback ?p < bound h1"
    using f' ns(1) h1(3) by (auto simp: free_position_def frame_def)
  from link_after_ring [OF r2 x2(1) _ x2(2) k(2)]
  obtain h2 where h2: "link_after_m k d (pback ?p) h1 = Some (h2, LINK_OK)"
    "ringx h2 {} ([] @ d # pback ?p # its @ e # pfront ?p # vs)" "frame h1 {} h2" by auto
  let ?ns = "pback ?p # its @ e # pfront ?p # vs"
  have fr: "frame h {} h2" by (rule frame_trans [OF h1(3) h2(3)])
  have it: "type_of h (pback ?p) = Iterator" "type_of h (pfront ?p) = Iterator"
    using f' by (auto simp: free_position_def)
  have "list_ring h2 {} d ?ns"
    using list_ring_frame [OF l fr, of ?ns] h2(2) l ns(1) it by (auto simp: list_ring_def)
  moreover have "at_elem h2 ?ns ?p e es"
    unfolding at_elem_def
    by (intro exI [of _ "[]"] exI [of _ its] exI [of _ vs])
      (use ns it frame_type [OF fr] elements_frame [OF fr] in simp)
  moreover have "elements h2 ?ns = elements h ns"
    unfolding elements_frame [OF fr] using ns it by simp
  moreover have "init_begin n d p h = Some (h2, ?p, e)"
    using position_unlink_free [OF f r] s h1(1) h2(1) k by (simp add: init_begin_def expect_link_def)
  ultimately show ?thesis using that fr ns(1) by simp
qed

text \<open>The loop of a client: take elements until the position has reached the head.\<close>

fun walk :: "nat \<Rightarrow> nat \<Rightarrow> position \<Rightarrow> addr \<Rightarrow> lheap \<Rightarrow> (lheap \<times> addr list) option" where
  "walk 0 n p e h = None"
| "walk (Suc k) n p e h =
     (if type_of h e = Head then Some (h, [])
      else do {
        (h, p, x) \<leftarrow> step_forward n p h;
        x \<leftarrow> x;
        (h, es) \<leftarrow> walk k n p x h;
        Some (h, e # es)
      })"

lemma walk_from:
  assumes "list_ring h {} d ns" "at_elem h ns p e rest" "length ns + 3 \<le> n" "length rest + 2 \<le> k"
  shows "\<exists>h' ns'. walk k n p e h = Some (h', e # rest) \<and> list_ring h' {} d ns' \<and>
     elements h' ns' = elements h ns"
  using assms
proof (induction rest arbitrary: h ns p e k)
  case Nil
  obtain j where j: "k = Suc (Suc j)" using that [of "k - 2"] Nil.prems(4) by simp
  obtain h' ns' where h': "step_forward n p h = Some (h', flip p, Some d)" "frame h {} h'"
    "list_ring h' {} d ns'" "elements h' ns' = elements h ns"
    using step_forward_end [OF Nil.prems(1-3)] by blast
  have "type_of h e \<noteq> Head" using Nil.prems(2) by (auto simp: at_elem_def)
  moreover have "type_of h' d = Head" using h'(3) by (simp add: list_ring_def)
  ultimately show ?case using h' j by auto
next
  case (Cons x rest)
  obtain j where j: "k = Suc j" "length rest + 2 \<le> j" using that [of "k - 1"] Cons.prems(4) by auto
  obtain h' ns' where h': "step_forward n p h = Some (h', flip p, Some x)"
    "list_ring h' {} d ns'" "at_elem h' ns' (flip p) x rest" "elements h' ns' = elements h ns"
    "length ns' = length ns"
    using step_forward_next [OF Cons.prems(1-3)] by metis
  have "length ns' + 3 \<le> n" using h'(5) Cons.prems(3) by simp
  from Cons.IH [OF h'(2,3) this j(2)]
  obtain h2 ns2 where "walk j n (flip p) x h' = Some (h2, x # rest)" "list_ring h2 {} d ns2"
    "elements h2 ns2 = elements h' ns'" by blast
  moreover have "type_of h e \<noteq> Head" using Cons.prems(2) by (auto simp: at_elem_def)
  ultimately show ?case using h'(1,4) j(1) by auto
qed

text \<open>
  C34. Iteration: from \<open>init_begin\<close> on a well-formed list that is not empty, stepping forward
  until the head is reached terminates, yields exactly the elements of the list in their order,
  and leaves the elements of the list as they are (the links of the position and of other
  iterators are skipped).
\<close>

theorem walk_visits_all:
  assumes "list_ring h {} d ns" and "free_position h (set (d # ns)) p" and "elements h ns \<noteq> []"
    and "length ns + 5 \<le> n"
  shows "\<exists>h1 p' e h2 ns'. init_begin n d p h = Some (h1, p', e) \<and>
     walk n n p' e h1 = Some (h2, elements h ns) \<and>
     list_ring h2 {} d ns' \<and> elements h2 ns' = elements h ns"
proof -
  obtain e es where e: "elements h ns = e # es" using assms(3) by (cases "elements h ns") auto
  have n4: "length ns + 4 \<le> n" using assms(4) by simp
  obtain h1 ns1 where h1: "init_begin n d p h = Some (h1, reset_swap p, e)"
    "list_ring h1 {} d ns1" "at_elem h1 ns1 (reset_swap p) e es" "elements h1 ns1 = elements h ns"
    "length ns1 = length ns + 2"
    using init_begin_at [OF assms(1,2) e n4] by blast
  have "length (elements h ns) \<le> length ns" by (simp add: elements_def)
  then have "length es \<le> length ns" using e by simp
  then show ?thesis
    using walk_from [OF h1(2,3), of n n] h1 assms(4) e by auto
qed

definition walk_heap :: lheap where
  "walk_heap =
     \<lparr>cells = (\<lambda>_. elem_ctor Iterator)
        (0 := \<lparr>e_succ = (Some 1, 0), e_pred = (Some 3, 0), e_type = Head, e_linking = False\<rparr>,
         1 := \<lparr>e_succ = (Some 2, 0), e_pred = (Some 0, 0), e_type = Element, e_linking = False\<rparr>,
         2 := \<lparr>e_succ = (Some 3, 0), e_pred = (Some 1, 0), e_type = Iterator, e_linking = False\<rparr>,
         3 := \<lparr>e_succ = (Some 0, 0), e_pred = (Some 2, 0), e_type = Element, e_linking = False\<rparr>),
      bound = 6\<rparr>"

theorem walk_visits_all_witness:
  "\<exists>h1 p' e h2 ns'. init_begin 8 0 \<lparr>pos0 = 4, pos1 = 5, swap = True\<rparr> walk_heap = Some (h1, p', e) \<and>
     walk 8 8 p' e h1 = Some (h2, [1, 3]) \<and> list_ring h2 {} 0 ns' \<and> elements h2 ns' = [1, 3]"
proof -
  have l: "list_ring walk_heap {} 0 [1, 2, 3]"
    unfolding list_ring_def ringx_def
    by (auto simp: walk_heap_def edge_def idle_def elem_ctor_def)
  have f: "free_position walk_heap (set (0 # [1, 2, 3])) \<lparr>pos0 = 4, pos1 = 5, swap = True\<rparr>"
    by (simp add: free_position_def walk_heap_def elem_ctor_def pfront_def pback_def)
  have e: "elements walk_heap [1, 2, 3] = [1, 3]" by (simp add: walk_heap_def)
  show ?thesis using walk_visits_all [OF l f, of 8] e by simp
qed

end
