(* ===== verification/LL_Smart_Ref.thy ===== *)
theory LL_Smart_Ref
  imports LL_Smart LL_Pos_Walk
begin

text \<open>
  The ring of \<open>LL_Smart\<close> is what the concurrent list of \<open>src/ll_list.cc\<close> makes of its links:
  stepping, starting and unlinking positions on a heap (\<open>LL_Pos\<close>) change the sequence as the
  definitions of \<open>LL_Smart\<close> say.
\<close>

fun item_addr :: "(nat \<Rightarrow> position) \<Rightarrow> item \<Rightarrow> addr" where
  "item_addr ps (Elem a) = a"
| "item_addr ps (Back k) = pback (ps k)"
| "item_addr ps (Front k) = pfront (ps k)"

fun item_type :: "item \<Rightarrow> elem_type" where
  "item_type (Elem a) = Element"
| "item_type (Back k) = Iterator"
| "item_type (Front k) = Iterator"

definition ring_items :: "lheap \<Rightarrow> addr \<Rightarrow> (nat \<Rightarrow> position) \<Rightarrow> items \<Rightarrow> bool" where
  "ring_items h d ps L \<longleftrightarrow> list_ring h {} d (map (item_addr ps) L) \<and>
     (\<forall>i\<in>set L. type_of h (item_addr ps i) = item_type i) \<and> distinct L"

lemma ring_items_facts:
  assumes "ring_items h d ps L"
  shows "ringx h {} (d # map (item_addr ps) L)" "type_of h d = Head" "distinct L"
    "d \<notin> item_addr ps ` set L" "inj_on (item_addr ps) (set L)"
    "\<And>i. i \<in> set L \<Longrightarrow> type_of h (item_addr ps i) = item_type i" "\<And>i. i \<in> set L \<Longrightarrow> item_addr ps i < bound h"
  using assms by (auto simp: ring_items_def list_ring_def ringx_def distinct_map)

lemma elements_items:
  assumes "\<forall>i\<in>set L. type_of h (item_addr ps i) = item_type i"
  shows "elements h (map (item_addr ps) L) = elems L"
  using assms by (induction L rule: elems.induct) auto

lemma item_type_head: "item_type i \<noteq> Head"
  by (cases i) simp_all

text \<open>The types of the cells do not change, so only the ring is to be shown.\<close>

lemma ring_itemsI:
  assumes "ringx h' {} (d # map (item_addr ps') L')" and "frame h {} h'" and "type_of h d = Head"
    and "\<forall>i\<in>set L'. type_of h (item_addr ps' i) = item_type i" and "distinct L'"
  shows "ring_items h' d ps' L'"
proof -
  have t: "type_of h' y = type_of h y" for y by (rule frame_type [OF assms(2)])
  show ?thesis using assms(1,3-5) by (simp add: ring_items_def list_ring_def t item_type_head)
qed

lemma item_addr_other:
  "Back k \<notin> set L \<Longrightarrow> Front k \<notin> set L \<Longrightarrow> map (item_addr (ps(k := p))) L = map (item_addr ps) L"
proof (induction L)
  case (Cons i L)
  then show ?case by (cases i) auto
qed simp

lemma item_addr_other1: "i \<noteq> Back k \<Longrightarrow> i \<noteq> Front k \<Longrightarrow> item_addr (ps(k := p)) i = item_addr ps i"
  by (cases i) auto

lemma elems_iterators: "elems its = [] \<Longrightarrow> \<forall>i\<in>set its. item_type i = Iterator"
  by (induction its rule: elems.induct) auto

section \<open>Stepping\<close>

lemma step_forward_items:
  assumes r: "ring_items h d ps L" and k: "pos_linked k L" and n: "length L + 3 \<le> n"
  shows "\<exists>h'. step_forward n (ps k) h =
       Some (h', flip (ps k), Some (case snd (pos_forward k L) of None \<Rightarrow> d | Some e \<Rightarrow> e)) \<and>
     ring_items h' d (ps(k := flip (ps k))) (fst (pos_forward k L)) \<and> frame h {} h'"
proof -
  note f = ring_items_facts [OF r]
  let ?p = "ps k" and ?q = "ps(k := flip (ps k))"
  obtain us vs where L: "L = us @ Back k # vs" using k unfolding pos_linked_def by (metis split_list)
  have u: "Back k \<notin> set us" "Back k \<notin> set vs" using f(3) L by auto
  have rm: "remove1 (Back k) L = us @ vs" using u L by (simp add: remove_split)
  have "Front k \<in> set (us @ vs)" using k L by (auto simp: pos_linked_def)
  then obtain A B where AB: "us @ vs = A @ Front k # B" by (metis split_list)
  have dA: "distinct (A @ Front k # B)" using f(3) unfolding AB [symmetric] L by simp
  have sA: "set (A @ Front k # B) = set L - {Back k}" using u unfolding AB [symmetric] L by auto
  have bk: "Back k \<in> set L" "Front k \<in> set L" using k by (auto simp: pos_linked_def)
  have nk: "Back k \<notin> set A" "Back k \<notin> set B" "Front k \<notin> set A" "Front k \<notin> set B" using dA sA by auto
  note other = item_addr_other [of k _ ps "flip (ps k)"]
  obtain h1 where h1: "unlink_iter n (pback ?p) h = Some (h1, True)"
    "ringx h1 {} (d # map (item_addr ps) (us @ vs))" "frame h {} h1"
    using unlink_iter_ring [of h "{}" d "map (item_addr ps) us" "pback ?p" "map (item_addr ps) vs" n] f(1) n L
    by (auto simp: unreferenced_empty)
  have r1: "ringx h1 {} (d # map (item_addr ps) A @ pfront ?p # map (item_addr ps) B)"
    using h1(2) unfolding AB by simp
  have ty: "type_of h1 (item_addr ps i) = item_type i" if "i \<in> set L" for i
    using f(6) [OF that] h1(3) by (simp add: frame_def)
  have nh: "\<forall>y\<in>set (map (item_addr ps) B). type_of h1 y \<noteq> Head"
  proof
    fix y assume "y \<in> set (map (item_addr ps) B)"
    then obtain i where i: "i \<in> set B" "y = item_addr ps i" by auto
    moreover have "i \<in> set L" using i(1) sA by auto
    ultimately show "type_of h1 y \<noteq> Head" using ty [of i] by (simp add: item_type_head)
  qed
  have "length L = Suc (length (us @ vs))" using L by simp
  then have len: "length L = Suc (Suc (length A + length B))" unfolding AB by simp
  obtain m where m: "n = Suc m" "Suc (length B) \<le> m" "2 \<le> m" using that [of "n - 1"] len n by simp
  have path: "successively (edge h1) (pfront ?p # map (item_addr ps) B @ [d])"
    using ring_path_end [of h1 "{}" d "map (item_addr ps) A"] r1 by simp
  have hd1: "type_of h1 d = Head" using f(2) h1(3) by (simp add: frame_def)
  have el: "elements h1 (map (item_addr ps) B) = elems B"
    using ty sA by (intro elements_items) auto
  have b: "pback ?p < bound h1" using f(7) [OF bk(1)] h1(3) by (simp add: frame_def)
  have dp: "pback ?p \<notin> set (d # map (item_addr ps) A @ pfront ?p # map (item_addr ps) B)"
  proof -
    have "pback ?p \<notin> item_addr ps ` (set L - {Back k})"
      using inj_on_image_mem_iff [OF f(5) bk(1), of "set L - {Back k}"] by auto
    moreover have "pback ?p \<noteq> d" using f(4) bk(1) by force
    ultimately show ?thesis unfolding sA [symmetric] by auto
  qed
  have tyq: "type_of h (item_addr ?q i) = item_type i" if "i \<in> set L" for i
  proof -
    consider "i = Back k" | "i = Front k" | "i \<noteq> Back k" "i \<noteq> Front k" by blast
    then show ?thesis using f(6) [OF that] f(6) [OF bk(1)] f(6) [OF bk(2)]
      by cases (simp_all add: item_addr_other1)
  qed
  show ?thesis
  proof (cases "elems B")
    case Nil
    have s: "succ_elem m (pfront ?p) h1 = Some (h1, Some d)"
      using succ_elem_next [OF path nh _ ] m(2) hd1 el Nil by simp
    from link_after_ring [of h1 "{}" "[]" d "map (item_addr ps) A @ pfront ?p # map (item_addr ps) B",
        OF _ _ _ b m(3)] r1 dp
    obtain h2 where h2: "link_after_m m d (pback ?p) h1 = Some (h2, LINK_OK)"
      "ringx h2 {} ([] @ d # pback ?p # map (item_addr ps) A @ pfront ?p # map (item_addr ps) B)"
      "frame h1 {} h2" by auto
    have pf: "pos_forward k L = (Front k # A @ Back k # B, None)"
      using pos_forward_any(1) [OF f(3) bk(1), of A B] rm AB Nil by simp
    have sL: "set (Front k # A @ Back k # B) = set L" using sA bk by auto
    have "ring_items h2 d ?q (Front k # A @ Back k # B)"
    proof (rule ring_itemsI [OF _ frame_trans [OF h1(3) h2(3)] f(2)])
      show "ringx h2 {} (d # map (item_addr ?q) (Front k # A @ Back k # B))"
        using h2(2) nk by (simp add: other)
      show "distinct (Front k # A @ Back k # B)" using dA nk by auto
    qed (use tyq sL in blast)
    moreover have "step_forward n ?p h = Some (h2, flip ?p, Some d)"
      using h1(1) s h2(1) m(1) by (simp add: step_forward_def)
    ultimately show ?thesis using frame_trans [OF h1(3) h2(3)] by (simp add: pf)
  next
    case (Cons y ys)
    obtain its B' where B: "B = its @ Elem y # B'" "elems its = []" using elems_first [OF Cons] by blast
    have s: "succ_elem m (pfront ?p) h1 = Some (h1, Some y)"
      using succ_elem_next [OF path nh _ ] m(2) hd1 el Cons by simp
    have nb: "Back k \<notin> set its" "Front k \<notin> set its" "Back k \<notin> set B'" "Front k \<notin> set B'"
      using nk B(1) by auto
    let ?us = "d # map (item_addr ps) A @ pfront ?p # map (item_addr ps) its"
    from link_after_ring [of h1 "{}" ?us y "map (item_addr ps) B'", OF _ _ _ b m(3)] r1 dp B(1)
    obtain h2 where h2: "link_after_m m y (pback ?p) h1 = Some (h2, LINK_OK)"
      "ringx h2 {} (?us @ y # pback ?p # map (item_addr ps) B')" "frame h1 {} h2" by auto
    have pf: "pos_forward k L = (A @ Back k # its @ Elem y # Front k # B', Some y)"
      using pos_forward_any(2) [OF f(3) bk(1) _ B] rm AB by simp
    have sL: "set (A @ Back k # its @ Elem y # Front k # B') = set L" using sA bk B(1) by auto
    have "ring_items h2 d ?q (A @ Back k # its @ Elem y # Front k # B')"
    proof (rule ring_itemsI [OF _ frame_trans [OF h1(3) h2(3)] f(2)])
      show "ringx h2 {} (d # map (item_addr ?q) (A @ Back k # its @ Elem y # Front k # B'))"
        using h2(2) nk(1,3) nb by (simp add: other)
      show "distinct (A @ Back k # its @ Elem y # Front k # B')" using dA nk B(1) by auto
    qed (use tyq sL in blast)
    moreover have "step_forward n ?p h = Some (h2, flip ?p, Some y)"
      using h1(1) s h2(1) m(1) by (simp add: step_forward_def)
    ultimately show ?thesis using frame_trans [OF h1(3) h2(3)] by (simp add: pf)
  qed
qed

section \<open>Unlinking and starting\<close>

lemma unlink_item:
  assumes r: "ring_items h d ps L" and i: "i \<in> set L" and n: "3 \<le> n"
  obtains h' where "unlink_iter n (item_addr ps i) h = Some (h', True)"
    "ring_items h' d ps (remove1 i L)" "frame h {} h'"
proof -
  note f = ring_items_facts [OF r]
  obtain us vs where L: "L = us @ i # vs" using i by (metis split_list)
  have u: "remove1 i L = us @ vs" using f(3) L by (simp add: remove_split)
  obtain h1 where h1: "unlink_iter n (item_addr ps i) h = Some (h1, True)"
    "ringx h1 {} (d # map (item_addr ps) us @ map (item_addr ps) vs)" "frame h {} h1"
    using unlink_iter_ring [of h "{}" d "map (item_addr ps) us" "item_addr ps i" "map (item_addr ps) vs" n]
      f(1) n L by (auto simp: unreferenced_empty)
  have "ring_items h1 d ps (us @ vs)"
    by (rule ring_itemsI [OF _ h1(3) f(2)]) (use h1(2) f(3,6) L in auto)
  then show ?thesis using that h1 u by simp
qed

lemma pos_clear_remove: "distinct L \<Longrightarrow> pos_clear k L = remove1 (Back k) (remove1 (Front k) L)"
  by (simp add: pos_clear_def distinct_remove1_removeAll removeAll_filter_not_eq conj_commute)
     (rule filter_cong, auto)

lemma position_unlink_items:
  assumes r: "ring_items h d ps L" and k: "pos_linked k L" and n: "3 \<le> n"
  shows "\<exists>h'. position_unlink n (ps k) h = Some (h', reset_swap (ps k)) \<and>
     ring_items h' d (ps(k := reset_swap (ps k))) (pos_clear k L) \<and> frame h {} h'"
proof -
  note f = ring_items_facts [OF r]
  define i j where "i = (if swap (ps k) then Front k else Back k)" and "j = (if swap (ps k) then Back k else Front k)"
  have ij: "item_addr ps j = pos0 (ps k)" "item_addr ps i = pos1 (ps k)" "i \<in> set L" "j \<in> set L" "i \<noteq> j"
    using k by (auto simp: i_def j_def pos_linked_def pfront_def pback_def)
  obtain h1 where h1: "unlink_iter n (pos0 (ps k)) h = Some (h1, True)" "ring_items h1 d ps (remove1 j L)"
    "frame h {} h1" using unlink_item [OF r ij(4) n] ij(1) by metis
  have "i \<in> set (remove1 j L)" using ij(3,5) by simp
  then obtain h2 where h2: "unlink_iter n (pos1 (ps k)) h1 = Some (h2, True)"
    "ring_items h2 d ps (remove1 i (remove1 j L))" "frame h1 {} h2"
    using unlink_item [OF h1(2) _ n] ij(2) by metis
  have c: "remove1 i (remove1 j L) = pos_clear k L"
    using pos_clear_remove [OF f(3)] by (simp add: i_def j_def remove1_commute)
  have b: "Back k \<notin> set (pos_clear k L)" "Front k \<notin> set (pos_clear k L)" by (simp_all add: pos_clear_def)
  have "ring_items h2 d (ps(k := reset_swap (ps k))) (pos_clear k L)"
    using h2(2) unfolding c ring_items_def item_addr_other [OF b]
    by (metis b item_addr_other1)
  then show ?thesis using h1(1) h2(1) frame_trans [OF h1(3) h2(3)]
    by (simp add: position_unlink_def reset_swap_def)
qed

lemma init_begin_items:
  assumes r: "ring_items h d ps L" and k: "new_pos k L"
    and fp: "free_position h (set (d # map (item_addr ps) L)) (ps k)" and n: "length L + 4 \<le> n"
  shows "\<exists>h'. init_begin n d (ps k) h =
       Some (h', reset_swap (ps k), case snd (pos_begin k L) of None \<Rightarrow> d | Some e \<Rightarrow> e) \<and>
     ring_items h' d (ps(k := reset_swap (ps k))) (fst (pos_begin k L)) \<and> frame h {} h'"
proof -
  note f = ring_items_facts [OF r]
  let ?p = "reset_swap (ps k)" and ?m = "map (item_addr ps)"
  let ?q = "ps(k := ?p)"
  have l: "list_ring h {} d (?m L)" using r by (simp add: ring_items_def)
  have f': "free_position h (set (d # ?m L)) ?p" by (rule free_position_reset [OF fp])
  have b: "pfront ?p < bound h" "pback ?p < bound h" "pback ?p \<noteq> pfront ?p"
    "pfront ?p \<notin> set (d # ?m L)" "pback ?p \<notin> set (d # ?m L)"
    "type_of h (pback ?p) = Iterator" "type_of h (pfront ?p) = Iterator"
    using f' by (auto simp: free_position_def)
  have nk: "Back k \<notin> set L" "Front k \<notin> set L" using k by (simp_all add: new_pos_def)
  have u: "position_unlink n (ps k) h = Some (h, ?p)"
    by (rule position_unlink_free [OF fp f(1)]) (use n in simp)
  obtain m where m: "n = Suc m" "2 \<le> m" using that [of "n - 1"] n by simp
  have el: "elements h (?m L) = elems L" using f(6) by (intro elements_items) auto
  have s: "succ_elem n d h = Some (h, Some (hd (elems L @ [d])))"
    using list_first [OF l, of n] n el by simp
  have c: "pos_clear k L = L" using nk by (simp add: pos_clear_other)
  define us vs where "us = (case elems L of [] \<Rightarrow> [] | e # _ \<Rightarrow> upto_item (Elem e) L @ [Elem e])"
    and "vs = (case elems L of [] \<Rightarrow> L | e # _ \<Rightarrow> past_item (Elem e) L)"
  have split: "L = us @ vs" "fst (pos_begin k L) = Back k # us @ Front k # vs"
    "last (d # ?m us) = hd (elems L @ [d])" "snd (pos_begin k L) = (case elems L of [] \<Rightarrow> None | e # _ \<Rightarrow> Some e)"
  proof -
    show "L = us @ vs"
    proof (cases "elems L")
      case (Cons e es)
      then obtain as bs where "L = as @ Elem e # bs" "Elem e \<notin> set as"
        by (metis elems_member list.set_intros(1) split_list_first)
      then show ?thesis using Cons by (simp add: us_def vs_def)
    qed (simp add: us_def vs_def)
  qed (auto simp: us_def vs_def pos_begin_def c put_after_def split: list.splits)
  have x1: "ringx h {} ((butlast (d # ?m us)) @ last (d # ?m us) # ?m vs)"
    using f(1) split(1) append_butlast_last_id [of "d # ?m us"]
    by (metis append_Cons append_Cons append_assoc append_self_conv2 list.discI map_append)
  have sd: "butlast (d # ?m us) @ [last (d # ?m us)] = d # ?m us" by (rule append_butlast_last_id) simp
  have n1: "pfront ?p \<notin> set (butlast (d # ?m us) @ last (d # ?m us) # ?m vs)"
    using b(4) split(1) arg_cong [OF sd, of set] by auto
  from link_after_ring [OF x1 n1 _ b(1) m(2)]
  obtain h1 where h1: "link_after_m m (hd (elems L @ [d])) (pfront ?p) h = Some (h1, LINK_OK)"
    "ringx h1 {} (butlast (d # ?m us) @ last (d # ?m us) # pfront ?p # ?m vs)" "frame h {} h1"
    unfolding split(3) by auto
  have x2: "ringx h1 {} ([] @ d # ?m us @ pfront ?p # ?m vs)" using h1(2) sd by (metis append_Cons append_Nil append_assoc append_Cons append_eq_Cons_conv)
  have "pback ?p \<notin> set ([] @ d # ?m us @ pfront ?p # ?m vs)" "pback ?p < bound h1"
    using b(2,3,5) split(1) h1(3) by (auto simp: frame_def)
  from link_after_ring [OF x2 this(1) _ this(2) m(2)]
  obtain h2 where h2: "link_after_m m d (pback ?p) h1 = Some (h2, LINK_OK)"
    "ringx h2 {} ([] @ d # pback ?p # ?m us @ pfront ?p # ?m vs)" "frame h1 {} h2" by auto
  have nuv: "Back k \<notin> set us" "Front k \<notin> set us" "Back k \<notin> set vs" "Front k \<notin> set vs"
    using nk split(1) by auto
  have "ring_items h2 d ?q (Back k # us @ Front k # vs)"
  proof (rule ring_itemsI [OF _ frame_trans [OF h1(3) h2(3)] f(2)])
    show "ringx h2 {} (d # map (item_addr ?q) (Back k # us @ Front k # vs))"
      using h2(2) nuv by (simp add: item_addr_other)
    show "\<forall>i\<in>set (Back k # us @ Front k # vs). type_of h (item_addr ?q i) = item_type i"
    proof
      fix i assume i: "i \<in> set (Back k # us @ Front k # vs)"
      consider "i = Back k" | "i = Front k" | "i \<noteq> Back k" "i \<noteq> Front k" by blast
      then show "type_of h (item_addr ?q i) = item_type i"
        using f(6) [of i] i split(1) b(6,7) by cases (auto simp: item_addr_other1)
    qed
    show "distinct (Back k # us @ Front k # vs)" using f(3) nuv split(1) by auto
  qed
  moreover have "init_begin n d (ps k) h = Some (h2, ?p, hd (elems L @ [d]))"
    using u s h1(1) h2(1) m(1) by (simp add: init_begin_def expect_link_def)
  moreover have "hd (elems L @ [d]) = (case snd (pos_begin k L) of None \<Rightarrow> d | Some e \<Rightarrow> e)"
    unfolding split(4) by (simp split: list.splits)
  ultimately show ?thesis unfolding split(2) using frame_trans [OF h1(3) h2(3)] by simp
qed

text \<open>
  C30. Refinement of positions. On the heap of a ring that carries the items \<open>L\<close>, with fuel for its
  length: \<open>step_forward\<close> of a linked position, \<open>unlink\<close> of it and \<open>init_begin\<close> of a new one succeed,
  make the ring of the items that \<open>pos_forward\<close>, \<open>pos_clear\<close> and \<open>pos_begin\<close> give, and return the
  element that these return, or the head \<open>d\<close> when they return none.
\<close>

theorem positions_refine:
  assumes "ring_items h d ps L" and "length L + 4 \<le> n" and "pos_linked k L" and "new_pos j L"
    and "free_position h (set (d # map (item_addr ps) L)) (ps j)"
  shows "(\<exists>h'. step_forward n (ps k) h =
       Some (h', flip (ps k), Some (case snd (pos_forward k L) of None \<Rightarrow> d | Some e \<Rightarrow> e)) \<and>
       ring_items h' d (ps(k := flip (ps k))) (fst (pos_forward k L))) \<and>
     (\<exists>h'. position_unlink n (ps k) h = Some (h', reset_swap (ps k)) \<and>
       ring_items h' d (ps(k := reset_swap (ps k))) (pos_clear k L)) \<and>
     (\<exists>h'. init_begin n d (ps j) h =
       Some (h', reset_swap (ps j), case snd (pos_begin j L) of None \<Rightarrow> d | Some e \<Rightarrow> e) \<and>
       ring_items h' d (ps(j := reset_swap (ps j))) (fst (pos_begin j L)))"
  using step_forward_items [OF assms(1,3), of n] position_unlink_items [OF assms(1,3), of n]
    init_begin_items [OF assms(1,4,5,2)] assms(2) by auto

definition items_heap :: lheap where
  "items_heap =
     \<lparr>cells = (\<lambda>_. elem_ctor Iterator)
        (0 := \<lparr>e_succ = (Some 1, 0), e_pred = (Some 4, 0), e_type = Head, e_linking = False\<rparr>,
         1 := \<lparr>e_succ = (Some 2, 0), e_pred = (Some 0, 0), e_type = Iterator, e_linking = False\<rparr>,
         2 := \<lparr>e_succ = (Some 3, 0), e_pred = (Some 1, 0), e_type = Element, e_linking = False\<rparr>,
         3 := \<lparr>e_succ = (Some 4, 0), e_pred = (Some 2, 0), e_type = Iterator, e_linking = False\<rparr>,
         4 := \<lparr>e_succ = (Some 0, 0), e_pred = (Some 3, 0), e_type = Element, e_linking = False\<rparr>),
      bound = 7\<rparr>"

definition items_pos :: "nat \<Rightarrow> position" where
  "items_pos k = (if k = 0 then \<lparr>pos0 = 3, pos1 = 1, swap = False\<rparr> else \<lparr>pos0 = 5, pos1 = 6, swap = True\<rparr>)"

theorem positions_refine_witness:
  "(\<exists>h'. step_forward 9 (items_pos 0) items_heap = Some (h', flip (items_pos 0), Some 4) \<and>
       ring_items h' 0 (items_pos(0 := flip (items_pos 0))) [Elem 2, Back 0, Elem 4, Front 0]) \<and>
   (\<exists>h'. position_unlink 9 (items_pos 0) items_heap = Some (h', reset_swap (items_pos 0)) \<and>
       ring_items h' 0 (items_pos(0 := reset_swap (items_pos 0))) [Elem 2, Elem 4]) \<and>
   (\<exists>h'. init_begin 9 0 (items_pos 2) items_heap = Some (h', reset_swap (items_pos 2), 2) \<and>
       ring_items h' 0 (items_pos(2 := reset_swap (items_pos 2)))
         [Back 2, Back 0, Elem 2, Front 2, Front 0, Elem 4])"
proof -
  let ?L = "[Back 0, Elem 2, Front 0, Elem 4]"
  have r: "ring_items items_heap 0 items_pos ?L"
    unfolding ring_items_def list_ring_def ringx_def
    by (auto simp: items_heap_def items_pos_def edge_def idle_def elem_ctor_def pfront_def pback_def)
  have f: "free_position items_heap (set (0 # map (item_addr items_pos) ?L)) (items_pos 2)"
    by (simp add: free_position_def items_heap_def elem_ctor_def items_pos_def pfront_def pback_def)
  have 1: "pos_forward 0 ?L = ([Elem 2, Back 0, Elem 4, Front 0], Some 4)" by code_simp
  have 2: "pos_clear 0 ?L = [Elem 2, Elem 4]" by simp
  have 3: "pos_begin 2 ?L = ([Back 2, Back 0, Elem 2, Front 2, Front 0, Elem 4], Some 2)" by code_simp
  have "pos_linked 0 ?L" "new_pos 2 ?L" by (simp_all add: pos_linked_def new_pos_def)
  then show ?thesis using positions_refine [OF r, of 9 0 2] f by (simp add: 1 2 3)
qed

end
