(* ===== verification/LL_Queue.thy ===== *)
theory LL_Queue
  imports LL_List_Ops Refcount
begin

text \<open>
  The queues over the lock-free list: \<open>include/ilias/ll_queue.h\<close>,
  \<open>include/ilias/ll_queue-inl.h\<close> and \<open>src/ll_queue.cc\<close>. The contract of a double-ended
  queue of distinct items is the locale \<open>deque\<close>; the list with the operations of \<open>ll_qhead\<close>
  is its interpretation.
\<close>

section \<open>The contract of a queue\<close>

text \<open>
  \<open>rel q xs\<close>: the state \<open>q\<close> holds the items \<open>xs\<close>. \<open>can q v\<close>: \<open>v\<close> is an item that exists.
  Pushing an item that is in the queue does nothing.
\<close>

datatype 'v queue_op = Push_back 'v | Push_front 'v | Pop_front | Size_of
datatype 'v queue_out = Pushed | Popped "'v option" | Sized nat

fun spec_op :: "'v queue_op \<Rightarrow> 'v list \<Rightarrow> 'v list \<times> 'v queue_out" where
  "spec_op (Push_back v) xs = (if v \<in> set xs then xs else xs @ [v], Pushed)"
| "spec_op (Push_front v) xs = (if v \<in> set xs then xs else v # xs, Pushed)"
| "spec_op Pop_front xs = (case xs of [] \<Rightarrow> ([], Popped None) | x # xs \<Rightarrow> (xs, Popped (Some x)))"
| "spec_op Size_of xs = (xs, Sized (length xs))"

fun spec_run :: "'v queue_op list \<Rightarrow> 'v list \<Rightarrow> 'v list \<times> 'v queue_out list" where
  "spec_run [] xs = (xs, [])"
| "spec_run (p # ps) xs =
     (let (xs, r) = spec_op p xs; (xs, rs) = spec_run ps xs in (xs, r # rs))"

fun impl_op ::
    "('v \<Rightarrow> 'q \<Rightarrow> 'q option) \<Rightarrow> ('v \<Rightarrow> 'q \<Rightarrow> 'q option) \<Rightarrow> ('q \<Rightarrow> ('q \<times> 'v option) option) \<Rightarrow>
     ('q \<Rightarrow> ('q \<times> nat) option) \<Rightarrow> 'v queue_op \<Rightarrow> 'q \<Rightarrow> ('q \<times> 'v queue_out) option" where
  "impl_op pb pf pop sz (Push_back v) q = map_option (\<lambda>q. (q, Pushed)) (pb v q)"
| "impl_op pb pf pop sz (Push_front v) q = map_option (\<lambda>q. (q, Pushed)) (pf v q)"
| "impl_op pb pf pop sz Pop_front q = map_option (\<lambda>(q, r). (q, Popped r)) (pop q)"
| "impl_op pb pf pop sz Size_of q = map_option (\<lambda>(q, n). (q, Sized n)) (sz q)"

fun impl_run ::
    "('v \<Rightarrow> 'q \<Rightarrow> 'q option) \<Rightarrow> ('v \<Rightarrow> 'q \<Rightarrow> 'q option) \<Rightarrow> ('q \<Rightarrow> ('q \<times> 'v option) option) \<Rightarrow>
     ('q \<Rightarrow> ('q \<times> nat) option) \<Rightarrow> 'v queue_op list \<Rightarrow> 'q \<Rightarrow> ('q \<times> 'v queue_out list) option" where
  "impl_run pb pf pop sz [] q = Some (q, [])"
| "impl_run pb pf pop sz (p # ps) q =
     do {
       (q, r) \<leftarrow> impl_op pb pf pop sz p q;
       (q, rs) \<leftarrow> impl_run pb pf pop sz ps q;
       Some (q, r # rs)
     }"

fun pushed_item :: "'v queue_op \<Rightarrow> 'v option" where
  "pushed_item (Push_back v) = Some v"
| "pushed_item (Push_front v) = Some v"
| "pushed_item Pop_front = None"
| "pushed_item Size_of = None"

locale deque =
  fixes rel :: "'q \<Rightarrow> 'v list \<Rightarrow> bool" and can :: "'q \<Rightarrow> 'v \<Rightarrow> bool"
    and pb pf :: "'v \<Rightarrow> 'q \<Rightarrow> 'q option" and pop :: "'q \<Rightarrow> ('q \<times> 'v option) option"
    and sz :: "'q \<Rightarrow> ('q \<times> nat) option"
  assumes pb_new: "rel q xs \<Longrightarrow> can q v \<Longrightarrow>
        \<exists>q'. pb v q = Some q' \<and> rel q' (if v \<in> set xs then xs else xs @ [v]) \<and> can q' = can q"
    and pf_new: "rel q xs \<Longrightarrow> can q v \<Longrightarrow>
        \<exists>q'. pf v q = Some q' \<and> rel q' (if v \<in> set xs then xs else v # xs) \<and> can q' = can q"
    and pop_none: "rel q [] \<Longrightarrow> pop q = Some (q, None)"
    and pop_some: "rel q (x # xs) \<Longrightarrow> \<exists>q'. pop q = Some (q', Some x) \<and> rel q' xs \<and> can q' = can q"
    and sz_len: "rel q xs \<Longrightarrow> sz q = Some (q, length xs)"
begin

lemma op_refines:
  assumes "rel q xs" "\<And>v. pushed_item p = Some v \<Longrightarrow> can q v"
  shows "\<exists>q'. impl_op pb pf pop sz p q = Some (q', snd (spec_op p xs)) \<and>
     rel q' (fst (spec_op p xs)) \<and> can q' = can q"
proof (cases p)
  case (Push_back v)
  then show ?thesis using pb_new [OF assms(1), of v] assms(2) by auto
next
  case (Push_front v)
  then show ?thesis using pf_new [OF assms(1), of v] assms(2) by auto
next
  case Pop_front
  then show ?thesis
    using pop_none [of q] pop_some [of q "hd xs" "tl xs"] assms(1) by (cases xs) auto
next
  case Size_of
  then show ?thesis using sz_len [OF assms(1)] assms(1) by simp
qed

lemma run_refines:
  assumes "rel q xs" "\<And>p v. p \<in> set ps \<Longrightarrow> pushed_item p = Some v \<Longrightarrow> can q v"
  shows "\<exists>q'. impl_run pb pf pop sz ps q = Some (q', snd (spec_run ps xs)) \<and>
     rel q' (fst (spec_run ps xs))"
  using assms
proof (induction ps arbitrary: q xs)
  case Nil
  then show ?case by simp
next
  case (Cons p ps)
  obtain q1 where q1: "impl_op pb pf pop sz p q = Some (q1, snd (spec_op p xs))"
    "rel q1 (fst (spec_op p xs))" "can q1 = can q"
    using op_refines [of q xs p] Cons.prems by auto
  obtain q2 where "impl_run pb pf pop sz ps q1 = Some (q2, snd (spec_run ps (fst (spec_op p xs))))"
    "rel q2 (fst (spec_run ps (fst (spec_op p xs))))"
    using Cons.IH [OF q1(2)] Cons.prems(2) q1(3) by auto
  then show ?case using q1(1) by (simp add: case_prod_beta)
qed

end

section \<open>\<open>ll_qhead\<close>\<close>

text \<open>
  \<open>d\<close> is the head of the list. \<open>push_back_\<close> ignores the answer of \<open>link_back\<close>. A null pointer
  throws; otherwise the result is the new heap.
\<close>

definition qhead_push_back_ref :: "nat \<Rightarrow> addr \<Rightarrow> addr \<Rightarrow> lheap \<Rightarrow> lheap option" where
  "qhead_push_back_ref n d e h = map_option fst (link_back n d e h)"

definition qhead_push_front_ref :: "nat \<Rightarrow> addr \<Rightarrow> addr \<Rightarrow> lheap \<Rightarrow> lheap option" where
  "qhead_push_front_ref n d e h = map_option fst (link_front n d e h)"

definition qhead_push_back :: "nat \<Rightarrow> addr \<Rightarrow> ptr \<Rightarrow> lheap \<Rightarrow> lheap result option" where
  "qhead_push_back n d p h =
     (case p of
        None \<Rightarrow> Some (Inl Invalid_argument)
      | Some e \<Rightarrow> map_option Inr (qhead_push_back_ref n d e h))"

definition qhead_push_front :: "nat \<Rightarrow> addr \<Rightarrow> ptr \<Rightarrow> lheap \<Rightarrow> lheap result option" where
  "qhead_push_front n d p h =
     (case p of
        None \<Rightarrow> Some (Inl Invalid_argument)
      | Some e \<Rightarrow> map_option Inr (qhead_push_front_ref n d e h))"

definition qhead_pop_front :: "nat \<Rightarrow> addr \<Rightarrow> lheap \<Rightarrow> (lheap \<times> ptr) option" where
  "qhead_pop_front n d h = pop_front n d h"

definition qhead_size :: "nat \<Rightarrow> addr \<Rightarrow> lheap \<Rightarrow> (lheap \<times> nat) option" where
  "qhead_size n d h = list_size n d h"

definition qhead_empty :: "nat \<Rightarrow> addr \<Rightarrow> lheap \<Rightarrow> (lheap \<times> bool) option" where
  "qhead_empty n d h = list_empty n d h"

text \<open>
  The loops need less fuel than there are elements, plus a constant: an element occurs once in
  the ring.
\<close>

definition enough :: "lheap \<Rightarrow> nat" where "enough h = bound h + 3"

definition deque_rel :: "addr \<Rightarrow> lheap \<Rightarrow> addr list \<Rightarrow> bool" where
  "deque_rel d h xs = (\<exists>ns. list_ring h {} d ns \<and> elements h ns = xs)"

definition deque_can :: "lheap \<Rightarrow> addr \<Rightarrow> bool" where
  "deque_can h x = (x < bound h \<and> type_of h x = Element)"

lemma ring_length:
  assumes "list_ring h zs d ns"
  shows "length ns + 3 \<le> enough h"
proof -
  have "set (d # ns) \<subseteq> {..<bound h}" "distinct (d # ns)"
    using assms by (auto simp: list_ring_def ringx_def)
  then have "card (set (d # ns)) \<le> bound h"
    using card_mono [of "{..<bound h}" "set (d # ns)"] by simp
  then show ?thesis using distinct_card [OF \<open>distinct (d # ns)\<close>] by (simp add: enough_def)
qed

lemma deque_can_frame: "frame h zs h' \<Longrightarrow> deque_can h' = deque_can h"
  by (auto simp: deque_can_def frame_def fun_eq_iff)

lemma deque_new:
  assumes "list_ring h {} d ns" "deque_can h x" "x \<notin> set (elements h ns)"
  shows "x \<notin> set (d # ns)"
  using assms by (auto simp: list_ring_def deque_can_def elements_def)

lemma deque_old: "x \<in> set (elements h ns) \<Longrightarrow> x \<in> set (d # ns)"
  by (auto simp: elements_def)

interpretation ll: deque "deque_rel d" deque_can
  "\<lambda>e h. qhead_push_back_ref (enough h) d e h" "\<lambda>e h. qhead_push_front_ref (enough h) d e h"
  "\<lambda>h. qhead_pop_front (enough h) d h" "\<lambda>h. qhead_size (enough h) d h"
proof (unfold_locales, goal_cases)
  case (1 h xs v)
  then obtain ns where ns: "list_ring h {} d ns" "elements h ns = xs" by (auto simp: deque_rel_def)
  show ?case
  proof (cases "v \<in> set xs")
    case True
    then have "v \<in> set (d # ns)" using ns(2) deque_old by metis
    then show ?thesis
      using list_link_twice [OF ns(1), of v "enough h"] ring_length [OF ns(1)] True 1
      by (simp add: qhead_push_back_ref_def)
  next
    case False
    obtain h' where "link_back (enough h) d v h = Some (h', True)" "list_ring h' {} d (ns @ [v])"
      "elements h' (ns @ [v]) = xs @ [v]" "frame h {} h'"
      using list_link_back [OF ns(1), of v "enough h"] deque_new [OF ns(1) 1(2)] 1(2) ns(2) False
        ring_length [OF ns(1)] by (auto simp: deque_can_def)
    then show ?thesis
      using False deque_can_frame by (auto simp: qhead_push_back_ref_def deque_rel_def)
  qed
next
  case (2 h xs v)
  then obtain ns where ns: "list_ring h {} d ns" "elements h ns = xs" by (auto simp: deque_rel_def)
  show ?case
  proof (cases "v \<in> set xs")
    case True
    then have "v \<in> set (d # ns)" using ns(2) deque_old by metis
    then show ?thesis
      using list_link_twice [OF ns(1), of v "enough h"] ring_length [OF ns(1)] True 2
      by (simp add: qhead_push_front_ref_def)
  next
    case False
    obtain h' where "link_front (enough h) d v h = Some (h', True)" "list_ring h' {} d (v # ns)"
      "elements h' (v # ns) = v # xs" "frame h {} h'"
      using list_link_front [OF ns(1), of v "enough h"] deque_new [OF ns(1) 2(2)] 2(2) ns(2) False
        ring_length [OF ns(1)] by (auto simp: deque_can_def)
    then show ?thesis
      using False deque_can_frame by (auto simp: qhead_push_front_ref_def deque_rel_def)
  qed
next
  case (3 h)
  then obtain ns where ns: "list_ring h {} d ns" "elements h ns = []" by (auto simp: deque_rel_def)
  then show ?case using list_pop_empty ring_length [OF ns(1)] by (simp add: qhead_pop_front_def)
next
  case (4 h x xs)
  then obtain ns where ns: "list_ring h {} d ns" "elements h ns = x # xs"
    by (auto simp: deque_rel_def)
  then obtain h' ns' where "pop_front (enough h) d h = Some (h', Some x)" "list_ring h' {} d ns'"
    "elements h' ns' = xs" "frame h {} h'"
    using list_pop_front [OF ns, of "enough h"] ring_length [OF ns(1)] by auto
  then show ?case using deque_can_frame by (auto simp: qhead_pop_front_def deque_rel_def)
next
  case (5 h xs)
  then obtain ns where ns: "list_ring h {} d ns" "elements h ns = xs" by (auto simp: deque_rel_def)
  then show ?case using list_size_ring ring_length [OF ns(1)] by (simp add: qhead_size_def)
qed

section \<open>Typed queues\<close>

text \<open>
  \<open>ll_queue<Type, Tag>\<close>: the items derive from the hook, so a pointer to an item is a pointer to
  its element; the conversions keep null.
\<close>

definition link_convert :: "ptr \<Rightarrow> ptr" where
  "link_convert p = (case p of None \<Rightarrow> None | Some e \<Rightarrow> Some e)"

definition unlink_convert :: "ptr \<Rightarrow> ptr" where
  "unlink_convert p = (case p of None \<Rightarrow> None | Some e \<Rightarrow> Some e)"

definition q_push_back :: "nat \<Rightarrow> addr \<Rightarrow> ptr \<Rightarrow> lheap \<Rightarrow> lheap result option" where
  "q_push_back n d p h = qhead_push_back n d (link_convert p) h"

definition q_push_front :: "nat \<Rightarrow> addr \<Rightarrow> ptr \<Rightarrow> lheap \<Rightarrow> lheap result option" where
  "q_push_front n d p h = qhead_push_front n d (link_convert p) h"

definition q_pop_front :: "nat \<Rightarrow> addr \<Rightarrow> lheap \<Rightarrow> (lheap \<times> ptr) option" where
  "q_pop_front n d h =
     do { (h, e) \<leftarrow> qhead_pop_front n d h; Some (h, unlink_convert e) }"

lemma converts [simp]: "link_convert p = p" "unlink_convert p = p"
  by (simp_all add: link_convert_def unlink_convert_def split: option.split)

text \<open>
  \<open>ll_smartptr_queue\<close>: a queued item stands for one reference. \<open>push_back\<close> gives up the
  reference of its argument (\<open>release\<close>), \<open>pop_front\<close> adopts it without acquiring, and the
  destructor drops what it pops, with the release of the template argument \<open>AcqRel\<close>.
\<close>

record 's squeue =
  sq_heap :: lheap
  sq_objs :: 's

definition sq_push_back :: "nat \<Rightarrow> addr \<Rightarrow> ptr \<Rightarrow> 's squeue \<Rightarrow> 's squeue result option" where
  "sq_push_back n d p s =
     map_option (map_sum id (\<lambda>h. s\<lparr>sq_heap := h\<rparr>)) (q_push_back n d p (sq_heap s))"

definition sq_push_front :: "nat \<Rightarrow> addr \<Rightarrow> ptr \<Rightarrow> 's squeue \<Rightarrow> 's squeue result option" where
  "sq_push_front n d p s =
     map_option (map_sum id (\<lambda>h. s\<lparr>sq_heap := h\<rparr>)) (q_push_front n d p (sq_heap s))"

definition sq_pop_front :: "nat \<Rightarrow> addr \<Rightarrow> 's squeue \<Rightarrow> ('s squeue \<times> ptr) option" where
  "sq_pop_front n d s =
     map_option (\<lambda>(h, e). (s\<lparr>sq_heap := h\<rparr>, e)) (q_pop_front n d (sq_heap s))"

fun sq_clear :: "'s policy \<Rightarrow> nat \<Rightarrow> addr \<Rightarrow> 's squeue \<Rightarrow> 's squeue option" where
  "sq_clear rel 0 d s = None"
| "sq_clear rel (Suc n) d s =
     do {
       (s, e) \<leftarrow> sq_pop_front n d s;
       (case e of
          None \<Rightarrow> Some s
        | Some e \<Rightarrow> sq_clear rel n d (s\<lparr>sq_objs := rel e 1 (sq_objs s)\<rparr>))
     }"

definition sq_dtor :: "'s policy \<Rightarrow> nat \<Rightarrow> addr \<Rightarrow> 's squeue \<Rightarrow> 's squeue option" where
  "sq_dtor rel n d s =
     do {
       s \<leftarrow> sq_clear rel n d s;
       h \<leftarrow> list_dtor n d (sq_heap s);
       Some (s\<lparr>sq_heap := h\<rparr>)
     }"

text \<open>
  \<open>ll_queue<Type, no_intrusive_tag>\<close>: the elements are allocated. The argument \<open>x\<close> is the
  address that \<open>new\<close> gives (\<open>None\<close>: it throws); a popped element is deleted after its value was
  moved out. A queue of \<open>refpointer\<close>s, \<open>ll_smartptr_queue<Type, AcqRel, no_intrusive_tag>\<close>, has
  pointers as values, and turns a missing value into null.
\<close>

record 'v vqueue =
  vq_heap :: lheap
  vq_vals :: "addr \<Rightarrow> 'v"

definition vq_new :: "addr \<Rightarrow> 'v \<Rightarrow> 'v vqueue \<Rightarrow> 'v vqueue" where
  "vq_new x v s =
     s\<lparr>vq_heap := (vq_heap s)\<lparr>cells := (cells (vq_heap s))(x := elem_ctor Element)\<rparr>,
       vq_vals := (vq_vals s)(x := v)\<rparr>"

definition vq_push_back :: "nat \<Rightarrow> addr \<Rightarrow> ptr \<Rightarrow> 'v \<Rightarrow> 'v vqueue \<Rightarrow> 'v vqueue result option" where
  "vq_push_back n d x v s =
     (case x of
        None \<Rightarrow> Some (Inl Bad_alloc)
      | Some e \<Rightarrow>
          (let s = vq_new e v s
           in map_option (map_sum id (\<lambda>h. s\<lparr>vq_heap := h\<rparr>)) (q_push_back n d (Some e) (vq_heap s))))"

definition vq_push_front :: "nat \<Rightarrow> addr \<Rightarrow> ptr \<Rightarrow> 'v \<Rightarrow> 'v vqueue \<Rightarrow> 'v vqueue result option" where
  "vq_push_front n d x v s =
     (case x of
        None \<Rightarrow> Some (Inl Bad_alloc)
      | Some e \<Rightarrow>
          (let s = vq_new e v s
           in map_option (map_sum id (\<lambda>h. s\<lparr>vq_heap := h\<rparr>)) (q_push_front n d (Some e) (vq_heap s))))"

definition vq_pop_front :: "nat \<Rightarrow> addr \<Rightarrow> 'v vqueue \<Rightarrow> ('v vqueue \<times> 'v option) option" where
  "vq_pop_front n d s =
     do {
       (h, e) \<leftarrow> q_pop_front n d (vq_heap s);
       Some (s\<lparr>vq_heap := h\<rparr>, map_option (vq_vals s) e)
     }"

fun vq_clear :: "nat \<Rightarrow> addr \<Rightarrow> 'v vqueue \<Rightarrow> 'v vqueue option" where
  "vq_clear 0 d s = None"
| "vq_clear (Suc n) d s =
     do {
       (s, v) \<leftarrow> vq_pop_front n d s;
       (case v of None \<Rightarrow> Some s | Some _ \<Rightarrow> vq_clear n d s)
     }"

definition svq_pop_front :: "nat \<Rightarrow> addr \<Rightarrow> ptr vqueue \<Rightarrow> (ptr vqueue \<times> ptr) option" where
  "svq_pop_front n d s =
     do { (s, pp) \<leftarrow> vq_pop_front n d s; Some (s, (case pp of None \<Rightarrow> None | Some p \<Rightarrow> p)) }"

section \<open>Properties\<close>

text \<open>
  C32. Refinement: from a list that holds the items \<open>xs\<close> (with any number of iterators among
  them), every program of pushes at both ends, pops and size queries on existing items returns,
  gives the answers of a double-ended queue of distinct items, and leaves the list with the
  items of that queue. Fuel of the number of elements plus three is enough for each operation.
\<close>

theorem ll_queue_refines_deque:
  assumes "deque_rel d h xs"
    and "\<forall>p\<in>set ps. \<forall>v. pushed_item p = Some v \<longrightarrow> deque_can h v"
  shows "\<exists>h'. impl_run (\<lambda>e h. qhead_push_back_ref (enough h) d e h)
       (\<lambda>e h. qhead_push_front_ref (enough h) d e h) (\<lambda>h. qhead_pop_front (enough h) d h)
       (\<lambda>h. qhead_size (enough h) d h) ps h = Some (h', snd (spec_run ps xs)) \<and>
     deque_rel d h' (fst (spec_run ps xs))"
  using ll.run_refines [OF assms(1), of ps] assms(2) by blast

definition fresh_heap :: lheap where
  "fresh_heap =
     \<lparr>cells = (\<lambda>_. elem_ctor Element)
        (0 := \<lparr>e_succ = (Some 0, 0), e_pred = (Some 0, 0), e_type = Head, e_linking = False\<rparr>),
      bound = 4\<rparr>"

lemma fresh_heap_ctor:
  "list_ctor 0 \<lparr>cells = (\<lambda>_. elem_ctor Element), bound = 4\<rparr> = Some fresh_heap"
proof -
  have "cells h = cells g \<Longrightarrow> bound h = bound g \<Longrightarrow> h = g" for h g :: lheap
    by simp
  moreover have "[0..<4] = [0, 1, 2, 3 :: nat]" by (simp add: upt_rec)
  ultimately show ?thesis
    by (simp add: list_ctor_def fresh_heap_def elem_ctor_def link_count_def set_succ_def
        set_pred_def fun_eq_iff)
qed

lemma fresh_heap_rel: "deque_rel 0 fresh_heap []"
  unfolding deque_rel_def list_ring_def ringx_def
  by (intro exI [of _ "[]"]) (auto simp: fresh_heap_def edge_def idle_def elem_ctor_def)

theorem ll_queue_refines_deque_witness:
  "\<exists>h'. impl_run (\<lambda>e h. qhead_push_back_ref (enough h) 0 e h)
       (\<lambda>e h. qhead_push_front_ref (enough h) 0 e h) (\<lambda>h. qhead_pop_front (enough h) 0 h)
       (\<lambda>h. qhead_size (enough h) 0 h)
       [Push_back 1, Push_back 2, Push_front 3, Push_back 1, Size_of, Pop_front] fresh_heap =
     Some (h', [Pushed, Pushed, Pushed, Pushed, Sized 3, Popped (Some 3)]) \<and>
     deque_rel 0 h' [1, 2]"
proof -
  let ?ps = "[Push_back 1, Push_back 2, Push_front 3, Push_back 1, Size_of, Pop_front] :: addr queue_op list"
  have can: "\<forall>p\<in>set ?ps. \<forall>v. pushed_item p = Some v \<longrightarrow> deque_can fresh_heap v"
    by (simp add: deque_can_def fresh_heap_def elem_ctor_def)
  have run: "spec_run ?ps [] = ([1, 2], [Pushed, Pushed, Pushed, Pushed, Sized 3, Popped (Some 3)])"
    by simp
  show ?thesis
    using ll_queue_refines_deque [OF fresh_heap_rel can] by (simp only: run fst_conv snd_conv)
qed

text \<open>The destructor of a queue of counted pointers.\<close>

lemma sq_clear_all:
  assumes "list_ring (sq_heap s) {} d ns" "elements (sq_heap s) ns = xs"
    and "enough (sq_heap s) + length xs < n"
  shows "\<exists>h' ns'. sq_clear rel n d s =
       Some \<lparr>sq_heap = h', sq_objs = fold (\<lambda>e. rel e 1) xs (sq_objs s)\<rparr> \<and>
     list_ring h' {} d ns' \<and> elements h' ns' = [] \<and> bound h' = bound (sq_heap s)"
  using assms
proof (induction xs arbitrary: s ns n)
  case Nil
  obtain k where k: "n = Suc k" "enough (sq_heap s) \<le> k" using that [of "n - 1"] Nil.prems(3) by auto
  then show ?case
    using list_pop_empty(1) [OF Nil.prems(1,2), of k] ring_length [OF Nil.prems(1)] Nil.prems
    by (cases s) (auto simp: sq_pop_front_def q_pop_front_def qhead_pop_front_def)
next
  case (Cons x xs)
  obtain k where k: "n = Suc k" "enough (sq_heap s) + length xs < k"
    using that [of "n - 1"] Cons.prems(3) by auto
  have "length ns + 3 \<le> k" using ring_length [OF Cons.prems(1)] k(2) by simp
  then obtain h' ns' where h': "pop_front k d (sq_heap s) = Some (h', Some x)"
    "list_ring h' {} d ns'" "elements h' ns' = xs" "frame (sq_heap s) {} h'"
    using list_pop_front [OF Cons.prems(1,2), of k] by auto
  let ?s = "\<lparr>sq_heap = h', sq_objs = rel x 1 (sq_objs s)\<rparr>"
  have "bound h' = bound (sq_heap s)" using h'(4) by (simp add: frame_def)
  then obtain h2 ns2 where "sq_clear rel k d ?s =
      Some \<lparr>sq_heap = h2, sq_objs = fold (\<lambda>e. rel e 1) xs (sq_objs ?s)\<rparr>"
    "list_ring h2 {} d ns2" "elements h2 ns2 = []" "bound h2 = bound (sq_heap s)"
    using Cons.IH [of ?s ns' k] h'(2,3) k(2) by (auto simp: enough_def)
  then show ?case
    using h'(1) k(1)
    by (cases s) (auto simp: sq_pop_front_def q_pop_front_def qhead_pop_front_def)
qed

text \<open>
  Clearing a queue of counted pointers (the loop of its destructor) terminates, releases
  exactly one reference of each queued item, in their order, and leaves an empty list.
\<close>

theorem sq_clear_releases:
  assumes "deque_rel d (sq_heap s) xs" and "2 * bound (sq_heap s) + 3 < n"
  shows "\<exists>h'. sq_clear rel n d s =
       Some \<lparr>sq_heap = h', sq_objs = fold (\<lambda>e. rel e 1) xs (sq_objs s)\<rparr> \<and> deque_rel d h' []"
proof -
  obtain ns where ns: "list_ring (sq_heap s) {} d ns" "elements (sq_heap s) ns = xs"
    using assms(1) by (auto simp: deque_rel_def)
  have "length xs \<le> length ns" using ns(2) by (auto simp: elements_def)
  moreover have "length ns \<le> bound (sq_heap s)"
    using ring_length [OF ns(1)] by (simp add: enough_def)
  ultimately show ?thesis
    using sq_clear_all [OF ns, of n rel] assms(2) by (auto simp: enough_def deque_rel_def)
qed

definition pair_heap :: lheap where
  "pair_heap =
     \<lparr>cells = (\<lambda>_. elem_ctor Element)
        (0 := \<lparr>e_succ = (Some 1, 0), e_pred = (Some 2, 0), e_type = Head, e_linking = False\<rparr>,
         1 := \<lparr>e_succ = (Some 2, 0), e_pred = (Some 0, 0), e_type = Element, e_linking = False\<rparr>,
         2 := \<lparr>e_succ = (Some 0, 0), e_pred = (Some 1, 0), e_type = Element, e_linking = False\<rparr>),
      bound = 3\<rparr>"

lemma pair_heap_rel: "deque_rel 0 pair_heap [1, 2]"
  unfolding deque_rel_def list_ring_def ringx_def
  by (intro exI [of _ "[1, 2]"]) (auto simp: pair_heap_def edge_def idle_def elem_ctor_def)

theorem sq_clear_releases_witness:
  "\<exists>h'. sq_clear (\<lambda>e k objs. objs(e := objs e - k)) 10 0
       \<lparr>sq_heap = pair_heap, sq_objs = (\<lambda>_. 5 :: nat)\<rparr> =
     Some \<lparr>sq_heap = h', sq_objs = ((\<lambda>_. 5)(1 := 4))(2 := 4)\<rparr> \<and> deque_rel 0 h' []"
  using sq_clear_releases [of 0 "\<lparr>sq_heap = pair_heap, sq_objs = (\<lambda>_. 5 :: nat)\<rparr>" "[1, 2]" 10
      "\<lambda>e k objs. objs(e := objs e - k)"] pair_heap_rel
  by (simp add: pair_heap_def)

end
