(* ===== verification/TP_Pool.thy ===== *)
theory TP_Pool
  imports Prelude "HOL-Library.Monad_Syntax"
begin

text \<open>
  The thread pool of \<open>src/threadpool.cc\<close>: the counters, the worker states, the lists of idle
  and of dead workers, and every operation on them, each run without interference; the
  invariant that relates the counters to the workers over all sequences of operations.
  \<open>TP_Sleep\<close> has the interleaved protocol by which workers go to sleep and are woken.
\<close>

section \<open>State\<close>

datatype thread_state = BUSY | SLEEP_TEST | SLEEP | DYING | DEAD

text \<open>
  Workers are numbered in the order of their creation: \<open>w_next\<close> is the number of the next one,
  and a worker that was deleted is no longer in \<open>w_alive\<close>. \<open>m_idle\<close> and \<open>m_dead\<close> are the two
  intrusive lists (front first); \<open>LL_Queue\<close> shows that the lock-free list behaves like one.
\<close>

record pool =
  n_threads :: u32
  n_oversize :: u32
  m_idle :: "addr list"
  m_dead :: "addr list"
  n_active :: u32
  m_serv :: ptr
  w_state :: "addr \<Rightarrow> thread_state"
  w_alive :: "addr set"
  w_next :: nat

definition pool_ctor :: pool where
  "pool_ctor =
     \<lparr>n_threads = 0, n_oversize = 0, m_idle = [], m_dead = [], n_active = 0, m_serv = None,
      w_state = (\<lambda>_. DEAD), w_alive = {}, w_next = 0\<rparr>"

definition set_state :: "addr \<Rightarrow> thread_state \<Rightarrow> pool \<Rightarrow> pool" where
  "set_state w s p = p\<lparr>w_state := (w_state p)(w := s)\<rparr>"

definition transition :: "addr \<Rightarrow> thread_state \<Rightarrow> thread_state \<Rightarrow> pool \<Rightarrow> bool \<times> pool" where
  "transition w expect s p =
     (if w_state p w = expect then (True, set_state w s p) else (False, p))"

section \<open>Workers\<close>

definition worker_wakeup :: "addr \<Rightarrow> pool \<Rightarrow> bool \<times> pool" where
  "worker_wakeup w p =
     (case transition w SLEEP_TEST BUSY p of
        (True, p) \<Rightarrow> (True, p)
      | (False, p) \<Rightarrow>
          (case transition w SLEEP BUSY p of (True, p) \<Rightarrow> (True, p) | (False, p) \<Rightarrow> (False, p)))"

text \<open>\<open>None\<close>: the assertion that a dead worker is not killed fails.\<close>

definition worker_kill :: "addr \<Rightarrow> pool \<Rightarrow> (bool \<times> pool) option" where
  "worker_kill w p =
     (let old = w_state p w; p = set_state w DYING p
      in case old of
           DEAD \<Rightarrow> None
         | DYING \<Rightarrow> Some (False, p)
         | _ \<Rightarrow> Some (True, p))"

lemma worker_wakeup_idle: "(b, q) = worker_wakeup w p \<Longrightarrow> m_idle q = m_idle p"
  by (auto simp: worker_wakeup_def transition_def set_state_def split: if_splits)

function impl_wakeup :: "u32 \<Rightarrow> u32 \<Rightarrow> pool \<Rightarrow> u32 \<times> pool" where
  "impl_wakeup c n p =
     (if c < n then
        (case m_idle p of
           [] \<Rightarrow> (c, p)
         | i # is \<Rightarrow>
             (case worker_wakeup i (p\<lparr>m_idle := is\<rparr>) of
                (ok, p) \<Rightarrow> impl_wakeup (if ok then c + 1 else c) n p))
      else (c, p))"
  by pat_completeness auto

termination
  by (relation "measure (\<lambda>(c, n, p). length (m_idle p))") (auto dest!: worker_wakeup_idle)

declare impl_wakeup.simps [simp del]

definition pool_wakeup :: "u32 \<Rightarrow> pool \<Rightarrow> u32 \<times> pool" where
  "pool_wakeup n p = impl_wakeup 0 n p"

text \<open>
  The exchange loop of \<open>reduce_oversize\<close>, without interference: the guess is right, or the
  second attempt has the right value.
\<close>

fun reduce_loop :: "nat \<Rightarrow> u32 \<Rightarrow> u32 \<Rightarrow> pool \<Rightarrow> (u32 \<times> pool) option" where
  "reduce_loop 0 oversize limit p = None"
| "reduce_loop (Suc k) oversize limit p =
     (if 0 < oversize then
        (let reduce = min oversize limit
         in if n_oversize p = oversize then Some (reduce, p\<lparr>n_oversize := oversize - reduce\<rparr>)
            else reduce_loop k (n_oversize p) limit p)
      else Some (0, p))"

definition reduce_oversize :: "u32 \<Rightarrow> pool \<Rightarrow> u32 \<times> pool" where
  "reduce_oversize limit p = the (reduce_loop 3 limit limit p)"

definition increase_oversize :: "u32 \<Rightarrow> pool \<Rightarrow> pool" where
  "increase_oversize add p = snd (pool_wakeup add (p\<lparr>n_oversize := n_oversize p + add\<rparr>))"

definition must_die :: "addr \<Rightarrow> pool \<Rightarrow> bool \<times> pool" where
  "must_die w p =
     (if w_state p w \<in> {BUSY, SLEEP, SLEEP_TEST} then
        (let (r, p) = reduce_oversize 1 p
         in if r \<noteq> 0 then
              (case transition w BUSY DYING p of
                 (True, p) \<Rightarrow> (True, p)
               | (False, p) \<Rightarrow>
                   (case transition w SLEEP_TEST DYING p of
                      (True, p) \<Rightarrow> (True, p)
                    | (False, p) \<Rightarrow>
                        (case transition w SLEEP DYING p of
                           (True, p) \<Rightarrow> (True, p)
                         | (False, p) \<Rightarrow> (False, increase_oversize 1 p))))
            else (False, p))
      else (True, p))"

section \<open>The pool\<close>

text \<open>Join and delete dead workers, at most \<open>count\<close>.\<close>

function collect :: "u32 \<Rightarrow> u32 \<Rightarrow> pool \<Rightarrow> u32 \<times> pool" where
  "collect rv count p =
     (if rv < count then
        (case m_dead p of
           [] \<Rightarrow> (rv, p)
         | w # ws \<Rightarrow>
             collect (rv + 1) count (p\<lparr>m_dead := ws, w_alive := w_alive p - {w}\<rparr>))
      else (rv, p))"
  by pat_completeness auto

termination
  by (relation "measure (\<lambda>(rv, count, p). length (m_dead p))") auto

declare collect.simps [simp del]

text \<open>
  \<open>spawn\<close> tells whether the allocation and the thread constructor succeed for the worker with a
  given number.
\<close>

definition create_worker :: "(nat \<Rightarrow> bool) \<Rightarrow> pool \<Rightarrow> (cxx_error + unit) \<times> pool" where
  "create_worker spawn p =
     (if spawn (w_next p)
      then (Inr (),
            p\<lparr>w_state := (w_state p)(w_next p := BUSY), w_alive := insert (w_next p) (w_alive p),
              n_active := n_active p + 1, w_next := w_next p + 1\<rparr>)
      else (Inl Runtime_error, p\<lparr>w_next := w_next p + 1\<rparr>))"

lemma unat_step: "old < n \<Longrightarrow> unat n - unat (old + 1) < unat n - unat (old :: u32)"
proof -
  assume "old < n"
  then have "unat old < unat n" by (simp add: word_less_nat_alt)
  moreover from this have "unat (old + 1) = Suc (unat old)"
    using unat_bound [of n] by (intro unat_inc) simp
  ultimately show "unat n - unat (old + 1) < unat n - unat old" by simp
qed

function create_workers ::
    "(nat \<Rightarrow> bool) \<Rightarrow> u32 \<Rightarrow> u32 \<Rightarrow> pool \<Rightarrow> (cxx_error + u32) \<times> pool" where
  "create_workers spawn old n p =
     (if old < n then
        (case create_worker spawn p of
           (Inl e, p) \<Rightarrow> (Inl e, p)
         | (Inr _, p) \<Rightarrow> create_workers spawn (old + 1) n p)
      else (Inr old, p))"
  by pat_completeness auto

termination
  by (relation "measure (\<lambda>(spawn, old, n, p). unat n - unat old)") (auto intro: unat_step)

declare create_workers.simps [simp del]

lemma worker_kill_idle: "worker_kill w p = Some (b, q) \<Longrightarrow> m_idle q = m_idle p"
  by (auto simp: worker_kill_def set_state_def Let_def split: thread_state.splits)

text \<open>Kill idle workers, the longest asleep first.\<close>

function kill_idle :: "u32 \<Rightarrow> u32 \<Rightarrow> pool \<Rightarrow> (u32 \<times> pool) option" where
  "kill_idle old n p =
     (if n < old then
        (if m_idle p = [] then Some (old, p)
         else
           (case worker_kill (last (m_idle p)) (p\<lparr>m_idle := butlast (m_idle p)\<rparr>) of
              None \<Rightarrow> None
            | Some (ok, p) \<Rightarrow> kill_idle (if ok then old - 1 else old) n p))
      else Some (old, p))"
  by pat_completeness auto

termination
  by (relation "measure (\<lambda>(old, n, p). length (m_idle p))") (auto dest!: worker_kill_idle)

declare kill_idle.simps [simp del]

text \<open>
  \<open>cur\<close> is the worker that calls, if the calling thread is a worker of this pool. The result
  \<open>None\<close> is a failed assertion.
\<close>

definition set_nthreads ::
    "(nat \<Rightarrow> bool) \<Rightarrow> ptr \<Rightarrow> u32 \<Rightarrow> pool \<Rightarrow> (unit result \<times> pool) option" where
  "set_nthreads spawn cur n p =
     (let old = n_threads p;
          p = p\<lparr>n_threads := n\<rparr>;
          (r, p) = (if old < n then reduce_oversize (n - old) p else (0, p))
      in case create_workers spawn (old + r) n p of
           (Inl e, p) \<Rightarrow> Some (Inl e, p)
         | (Inr old, p) \<Rightarrow>
             do {
               (old, p) \<leftarrow> kill_idle old n p;
               (old, p) \<leftarrow>
                 (case cur of
                    Some w \<Rightarrow>
                      (if n < old then
                         do { (ok, p) \<leftarrow> worker_kill w p; Some (if ok then old - 1 else old, p) }
                       else Some (old, p))
                  | None \<Rightarrow> Some (old, p));
               Some (Inr (), if n < old then increase_oversize (old - n) p else p)
             })"

definition get_nthreads :: "pool \<Rightarrow> u32" where "get_nthreads p = n_threads p"

definition pool_attach :: "ptr \<Rightarrow> pool \<Rightarrow> unit result \<times> pool" where
  "pool_attach s p =
     (if s = None then (Inl Invalid_argument, p)
      else if m_serv p \<noteq> None then (Inl Runtime_error, p)
      else (Inr (), snd (pool_wakeup (- 1) (p\<lparr>m_serv := s\<rparr>))))"

text \<open>The epilogue of \<open>_run\<close>: the worker dies, and leaves its deletion to the pool or to itself.\<close>

definition run_epilogue :: "addr \<Rightarrow> bool \<Rightarrow> pool \<Rightarrow> pool option" where
  "run_epilogue w collects p =
     (let p = set_state w DEAD p
      in if n_active p = 0 then None
         else Some (p\<lparr>n_active := n_active p - 1,
                      m_dead := (if collects then m_dead p else m_dead p @ [w])\<rparr>))"

text \<open>
  One round of the sleep protocol as \<open>TP_Sleep\<close> refines it: publish, test, sleep; and the
  removal from the idle list on the way out.
\<close>

definition worker_publish :: "addr \<Rightarrow> pool \<Rightarrow> bool \<times> pool" where
  "worker_publish w p =
     (case transition w BUSY SLEEP_TEST p of
        (True, p) \<Rightarrow> (True, if w \<in> set (m_idle p) then p else p\<lparr>m_idle := w # m_idle p\<rparr>)
      | (False, p) \<Rightarrow> (False, p))"

definition worker_unpublish :: "addr \<Rightarrow> pool \<Rightarrow> pool" where
  "worker_unpublish w p = p\<lparr>m_idle := remove1 w (m_idle p)\<rparr>"

text \<open>
  The deleter of the implementation: whether the pool is deleted at once; otherwise the calling
  worker collects it when it ends.
\<close>

definition impl_deleter :: "(nat \<Rightarrow> bool) \<Rightarrow> ptr \<Rightarrow> pool \<Rightarrow> (bool \<times> pool) option" where
  "impl_deleter spawn cur p =
     do {
       (r, p) \<leftarrow> set_nthreads spawn cur 0 p;
       Some (cur = None, p\<lparr>m_serv := None\<rparr>)
     }"

text \<open>
  \<open>~impl\<close>: it returns when no worker is active; the last step collects all dead workers.
\<close>

definition impl_dtor :: "pool \<Rightarrow> pool option" where
  "impl_dtor p = (if 0 < n_active p then None else Some (snd (collect 0 (- 1) p)))"

text \<open>The public class \<open>threadpool\<close>; the implementation is gone after a move.\<close>

definition threadpool_set_nthreads ::
    "(nat \<Rightarrow> bool) \<Rightarrow> ptr \<Rightarrow> u32 \<Rightarrow> pool option \<Rightarrow> (unit result \<times> pool option) option" where
  "threadpool_set_nthreads spawn cur n t =
     (case t of
        None \<Rightarrow> Some (Inl Runtime_error, None)
      | Some p \<Rightarrow> map_option (\<lambda>(r, p). (r, Some p)) (set_nthreads spawn cur n p))"

definition threadpool_get_nthreads :: "pool option \<Rightarrow> u32" where
  "threadpool_get_nthreads t = (case t of None \<Rightarrow> 0 | Some p \<Rightarrow> get_nthreads p)"

definition threadpool_attach_serv :: "ptr \<Rightarrow> pool option \<Rightarrow> unit result \<times> pool option" where
  "threadpool_attach_serv s t =
     (case t of
        None \<Rightarrow> (Inl Logic_error, None)
      | Some p \<Rightarrow> (case pool_attach s p of (r, p) \<Rightarrow> (r, Some p)))"

definition threadpool_ctor :: "(nat \<Rightarrow> bool) \<Rightarrow> u32 \<Rightarrow> (unit result \<times> pool) option" where
  "threadpool_ctor spawn n = set_nthreads spawn None n pool_ctor"

definition threadpool_default_ctor :: "(nat \<Rightarrow> bool) \<Rightarrow> u32 \<Rightarrow> (unit result \<times> pool) option" where
  "threadpool_default_ctor spawn hw = threadpool_ctor spawn (max 1 hw)"

end
