(* ===== verification/TP_Pool_Inv.thy ===== *)
theory TP_Pool_Inv
  imports TP_Pool
begin

text \<open>
  The bookkeeping of the thread pool: how many workers will stay, how many are still active,
  and that the operations of \<open>TP_Pool\<close> keep the counters in step with the workers in every
  order in which they run.
\<close>

section \<open>Counting workers\<close>

definition is_live :: "thread_state \<Rightarrow> bool" where
  "is_live s = (s = BUSY \<or> s = SLEEP_TEST \<or> s = SLEEP)"

definition lives :: "pool \<Rightarrow> addr set" where
  "lives p = {w \<in> w_alive p. is_live (w_state p w)}"

definition acts :: "pool \<Rightarrow> addr set" where
  "acts p = {w \<in> w_alive p. w_state p w \<noteq> DEAD}"

lemma is_live_simps [simp]:
  "is_live BUSY" "is_live SLEEP_TEST" "is_live SLEEP" "\<not> is_live DYING" "\<not> is_live DEAD"
  by (simp_all add: is_live_def)

lemma set_state_simps [simp]:
  "n_threads (set_state w s p) = n_threads p" "n_oversize (set_state w s p) = n_oversize p"
  "m_idle (set_state w s p) = m_idle p" "m_dead (set_state w s p) = m_dead p"
  "n_active (set_state w s p) = n_active p" "m_serv (set_state w s p) = m_serv p"
  "w_state (set_state w s p) = (w_state p)(w := s)" "w_alive (set_state w s p) = w_alive p"
  "w_next (set_state w s p) = w_next p"
  by (simp_all add: set_state_def)

text \<open>
  The invariant: as many live workers as the pool shall have, plus those that are still to
  die, less the threads \<open>d\<close> that could not be created; \<open>n_active\<close> counts the workers that have not run their epilogue; the two lists hold
  workers that exist, the idle ones not dead, the dead ones dead, each at most once.
\<close>

definition lists_ok :: "pool \<Rightarrow> bool" where
  "lists_ok p =
     (finite (w_alive p) \<and> (\<forall>w\<in>w_alive p. w < w_next p) \<and>
      distinct (m_idle p) \<and> set (m_idle p) \<subseteq> acts p \<and>
      distinct (m_dead p) \<and> set (m_dead p) \<subseteq> w_alive p - acts p \<and> w_next p < 2 ^ 32)"

definition pool_ok :: "nat \<Rightarrow> pool \<Rightarrow> bool" where
  "pool_ok d p =
     (lists_ok p \<and> w_next p + d < 2 ^ 32 \<and>
      card (lives p) + d = unat (n_threads p) + unat (n_oversize p) \<and> card (acts p) = unat (n_active p))"

lemma lives_acts: "lives p \<subseteq> acts p"
  by (auto simp: lives_def acts_def)

lemma lists_ok_card:
  assumes "lists_ok p"
  shows "finite (acts p)" "finite (lives p)" "card (acts p) \<le> w_next p" "card (lives p) \<le> w_next p"
proof -
  have w: "w_alive p \<subseteq> {..<w_next p}" using assms by (auto simp: lists_ok_def)
  then have a: "acts p \<subseteq> {..<w_next p}" by (auto simp: acts_def)
  then have l: "lives p \<subseteq> {..<w_next p}" using lives_acts by blast
  show "finite (acts p)" "finite (lives p)" using a l finite_subset by blast+
  show "card (acts p) \<le> w_next p" "card (lives p) \<le> w_next p"
    using card_mono [OF _ a] card_mono [OF _ l] by simp_all
qed

section \<open>Wakeups do not change the balance\<close>

definition same_pool :: "pool \<Rightarrow> pool \<Rightarrow> bool" where
  "same_pool p q =
     (n_threads q = n_threads p \<and> n_oversize q = n_oversize p \<and> n_active q = n_active p \<and>
      m_dead q = m_dead p \<and> w_alive q = w_alive p \<and> w_next q = w_next p \<and>
      set (m_idle q) \<subseteq> set (m_idle p) \<and> (distinct (m_idle p) \<longrightarrow> distinct (m_idle q)) \<and>
      (\<forall>w. is_live (w_state q w) = is_live (w_state p w) \<and>
           (w_state q w = DEAD) = (w_state p w = DEAD)))"

lemma same_pool_refl: "same_pool p p" by (simp add: same_pool_def)

lemma same_pool_trans: "same_pool p q \<Longrightarrow> same_pool q r \<Longrightarrow> same_pool p r"
  unfolding same_pool_def by (simp; blast)

lemma same_pool_sets: "same_pool p q \<Longrightarrow> lives q = lives p \<and> acts q = acts p"
  by (simp add: same_pool_def lives_def acts_def)

lemma same_pool_ok: "same_pool p q \<Longrightarrow> pool_ok d p \<Longrightarrow> pool_ok d q"
  using same_pool_sets [of p q] unfolding pool_ok_def lists_ok_def same_pool_def by auto

lemma same_pool_pop: "m_idle p = i # is \<Longrightarrow> same_pool p (p\<lparr>m_idle := is\<rparr>)"
  by (auto simp: same_pool_def)

lemma transition_same:
  assumes "is_live e" "is_live s" "transition w e s p = (b, q)"
  shows "same_pool p q"
  using assms by (auto simp: transition_def same_pool_def split: if_splits)

lemma worker_wakeup_same: "worker_wakeup w p = (b, q) \<Longrightarrow> same_pool p q"
  by (auto simp: worker_wakeup_def transition_def same_pool_def split: if_splits)

lemma impl_wakeup_same: "impl_wakeup c n p = (k, q) \<Longrightarrow> same_pool p q"
proof (induction c n p rule: impl_wakeup.induct)
  case (1 c n p)
  show ?case
  proof (cases "c < n")
    case True
    show ?thesis
    proof (cases "m_idle p")
      case Nil
      then show ?thesis
        using 1(2) True by (subst (asm) impl_wakeup.simps) (simp add: same_pool_refl)
    next
      case (Cons i "is")
      obtain ok p1 where w: "worker_wakeup i (p\<lparr>m_idle := is\<rparr>) = (ok, p1)" by force
      then have "impl_wakeup (if ok then c + 1 else c) n p1 = (k, q)"
        using 1(2) True Cons by (subst (asm) impl_wakeup.simps) simp
      then have "same_pool p1 q" using 1(1) [OF True Cons w [symmetric]] by blast
      then show ?thesis
        using same_pool_trans [OF same_pool_pop [OF Cons]] worker_wakeup_same [OF w]
          same_pool_trans by blast
    qed
  next
    case False
    then show ?thesis using 1(2) by (subst (asm) impl_wakeup.simps) (simp add: same_pool_refl)
  qed
qed

lemma pool_wakeup_same: "same_pool p (snd (pool_wakeup n p))"
  unfolding pool_wakeup_def using impl_wakeup_same [of 0 n p] by (metis prod.collapse)

section \<open>Oversize\<close>

lemma reduce_oversize_eq:
  "reduce_oversize limit p =
     (min limit (n_oversize p), p\<lparr>n_oversize := n_oversize p - min limit (n_oversize p)\<rparr>)"
proof -
  have z: "(0 < w) = (w \<noteq> 0)" for w :: u32 by (simp add: word_gt_0)
  have three: "(3 :: nat) = Suc (Suc (Suc 0))" by simp
  show ?thesis
    unfolding reduce_oversize_def three
    by (cases "limit = 0"; cases "n_oversize p = limit"; cases "n_oversize p = 0")
      (auto simp: z min_def Let_def)
qed

lemma increase_oversize_same: "same_pool (p\<lparr>n_oversize := n_oversize p + k\<rparr>) (increase_oversize k p)"
  unfolding increase_oversize_def by (rule pool_wakeup_same)

text \<open>A live worker that is told to die.\<close>

lemma lives_dying: "lives (set_state w DYING p) = lives p - {w}"
  by (auto simp: lives_def)

lemma acts_dying: "w_state p w \<noteq> DEAD \<Longrightarrow> acts (set_state w DYING p) = acts p"
  by (auto simp: acts_def)

lemma sets_cong:
  "w_alive q = w_alive p \<Longrightarrow> w_state q = w_state p \<Longrightarrow> lives q = lives p \<and> acts q = acts p"
  by (simp add: lives_def acts_def)

lemma one_le: "(1 \<le> (x :: u32)) = (x \<noteq> 0)"
  using word_less_1 [of x] not_less [of x 1] by blast

lemma must_die_eq:
  assumes "is_live (w_state p w)"
  shows "must_die w p =
     (if n_oversize p = 0 then (False, p)
      else (True, set_state w DYING (p\<lparr>n_oversize := n_oversize p - 1\<rparr>)))"
proof -
  have "min 1 (n_oversize p) = (if n_oversize p = 0 then 0 else 1)"
    using one_le [of "n_oversize p"] by (simp add: min_def)
  moreover have "p\<lparr>n_oversize := 0\<rparr> = p" if "n_oversize p = 0" using that by (cases p) simp
  ultimately show ?thesis
    using assms
    by (auto simp: must_die_def is_live_def reduce_oversize_eq transition_def)
qed

lemma must_die_ok:
  assumes "pool_ok d p" "w \<in> w_alive p"
  shows "pool_ok d (snd (must_die w p))"
proof (cases "is_live (w_state p w) \<and> n_oversize p \<noteq> 0")
  case True
  let ?q = "set_state w DYING (p\<lparr>n_oversize := n_oversize p - 1\<rparr>)"
  have s: "w_state p w \<noteq> DEAD" using True by auto
  have l: "lives ?q = lives p - {w}" "acts ?q = acts p"
    using s by (auto simp: lives_def acts_def)
  have ok: "lists_ok p" using assms(1) by (simp add: pool_ok_def)
  have "w \<in> lives p" using True assms(2) by (simp add: lives_def)
  then have "card (lives ?q) = card (lives p) - 1" "0 < card (lives p)"
    using l lists_ok_card(2) [OF ok] by (auto simp: card_gt_0_iff)
  moreover have "unat (n_oversize p - 1) = unat (n_oversize p) - 1"
    using True by (simp add: unat_minus_one)
  moreover have "0 < unat (n_oversize p)" using True by (simp add: unat_gt_0)
  ultimately have "pool_ok d ?q"
    using assms(1) l by (auto simp: pool_ok_def lists_ok_def)
  then show ?thesis using must_die_eq [of p w] True by simp
next
  case False
  then have "must_die w p = (True, p) \<or> must_die w p = (False, p)"
  proof (cases "is_live (w_state p w)")
    case True
    then show ?thesis using False must_die_eq [of p w] by simp
  next
    case False
    then show ?thesis by (auto simp: must_die_def is_live_def)
  qed
  then show ?thesis using assms(1) by auto
qed

section \<open>Killing workers\<close>

lemma worker_kill_eq:
  "w_state p w \<noteq> DEAD \<Longrightarrow> worker_kill w p = Some (is_live (w_state p w), set_state w DYING p)"
  by (cases "w_state p w") (auto simp: worker_kill_def Let_def)

lemma kill_live_card:
  assumes "lists_ok p" "w \<in> acts p"
  shows "card (lives (set_state w DYING p)) + (if is_live (w_state p w) then 1 else 0) = card (lives p)"
proof (cases "is_live (w_state p w)")
  case True
  then have "w \<in> lives p" using assms(2) by (simp add: lives_def acts_def)
  then show ?thesis
    using True lists_ok_card(2) [OF assms(1)] card_gt_0_iff [of "lives p"]
    by (auto simp: lives_dying)
next
  case False
  then have "w \<notin> lives p" by (simp add: lives_def)
  then show ?thesis using False by (simp add: lives_dying)
qed

lemma lists_ok_dying:
  assumes "lists_ok p" "w \<in> acts p"
  shows "lists_ok (set_state w DYING p)" "acts (set_state w DYING p) = acts p"
proof -
  show a: "acts (set_state w DYING p) = acts p"
    using assms(2) by (intro acts_dying) (simp add: acts_def)
  then show "lists_ok (set_state w DYING p)" using assms(1) by (simp add: lists_ok_def)
qed

text \<open>What the loop over the idle workers keeps, and how far it gets.\<close>

definition killed :: "pool \<Rightarrow> pool \<Rightarrow> bool" where
  "killed p q =
     (acts q = acts p \<and> n_threads q = n_threads p \<and> n_oversize q = n_oversize p \<and>
      n_active q = n_active p \<and> w_next q = w_next p)"

lemma kill_idle_ok:
  assumes "lists_ok p" "kill_idle old n p = r"
  shows "\<exists>m q. r = Some (m, q) \<and> lists_ok q \<and> killed p q \<and>
     (n \<le> old \<longrightarrow> n \<le> m \<and> m \<le> old) \<and> (old < n \<longrightarrow> m = old) \<and>
     card (lives q) + (unat old - unat m) = card (lives p)"
  using assms
proof (induction old n p arbitrary: r rule: kill_idle.induct)
  case (1 old n p)
  show ?case
  proof (cases "n < old \<and> m_idle p \<noteq> []")
    case False
    then have "r = Some (old, p)" using 1(3) by (subst (asm) kill_idle.simps) auto
    then show ?thesis using 1(2) by (auto simp: killed_def)
  next
    case True
    let ?w = "last (m_idle p)"
    let ?p = "p\<lparr>m_idle := butlast (m_idle p)\<rparr>"
    have sc: "acts ?p = acts p" "lives ?p = lives p" using sets_cong [of ?p p] by simp_all
    have w: "?w \<in> acts p" using True 1(2) last_in_set by (auto simp: lists_ok_def)
    have lp: "lists_ok ?p"
      using 1(2) sc by (auto simp: lists_ok_def distinct_butlast dest: in_set_butlastD)
    have k: "worker_kill ?w ?p = Some (is_live (w_state p ?w), set_state ?w DYING ?p)"
      using worker_kill_eq [of ?p ?w] w by (simp add: acts_def)
    let ?old = "if is_live (w_state p ?w) then old - 1 else old"
    have d: "lists_ok (set_state ?w DYING ?p)" "acts (set_state ?w DYING ?p) = acts p"
      using lists_ok_dying [OF lp] w sc by simp_all
    have "kill_idle ?old n (set_state ?w DYING ?p) = r"
      using 1(3) True k by (subst (asm) kill_idle.simps) simp
    then obtain m q where q: "r = Some (m, q)" "lists_ok q" "killed (set_state ?w DYING ?p) q"
      "n \<le> ?old \<longrightarrow> n \<le> m \<and> m \<le> ?old" "?old < n \<longrightarrow> m = ?old"
      "card (lives q) + (unat ?old - unat m) = card (lives (set_state ?w DYING ?p))"
      using 1(1) [OF _ _ k refl d(1)] True by blast
    have lt: "unat n < unat old" using True by (simp add: word_less_nat_alt)
    then have u: "unat (old - 1) = unat old - 1" by (intro unat_minus_one) auto
    have ge: "n \<le> ?old" using lt u by (auto simp: word_le_nat_alt)
    have mo: "unat m \<le> unat ?old" using q(4) ge by (simp add: word_le_nat_alt)
    have c: "card (lives (set_state ?w DYING ?p)) + (if is_live (w_state p ?w) then 1 else 0) =
        card (lives p)"
      using kill_live_card [OF lp, of ?w] w sc by simp
    have "card (lives q) + (unat old - unat m) = card (lives p)"
      using q(6) c u mo lt by (auto split: if_splits)
    moreover have "m \<le> old" using mo u by (auto simp: word_le_nat_alt split: if_splits)
    moreover have "killed p q" using q(3) d(2) by (simp add: killed_def)
    moreover have "\<not> old < n" using True by auto
    ultimately show ?thesis using q(1,2,4) ge by auto
  qed
qed

section \<open>Creating workers\<close>

lemma create_worker_ok:
  assumes "lists_ok p" "card (acts p) = unat (n_active p)" "w_next p + 1 < 2 ^ 32"
    and "create_worker spawn p = (Inr u, q)"
  shows "lists_ok q \<and> card (acts q) = unat (n_active q) \<and> card (lives q) = card (lives p) + 1 \<and>
     w_next q = w_next p + 1 \<and> n_threads q = n_threads p \<and> n_oversize q = n_oversize p"
proof -
  have q: "q = p\<lparr>w_state := (w_state p)(w_next p := BUSY), w_alive := insert (w_next p) (w_alive p),
      n_active := n_active p + 1, w_next := w_next p + 1\<rparr>"
    using assms(4) by (auto simp: create_worker_def split: if_splits)
  have new: "w_next p \<notin> w_alive p" using assms(1) by (auto simp: lists_ok_def)
  have a: "acts q = insert (w_next p) (acts p)" "lives q = insert (w_next p) (lives p)"
    using new by (auto simp: q acts_def lives_def)
  have n: "w_next p \<notin> acts p" "w_next p \<notin> lives p" using new by (auto simp: acts_def lives_def)
  have "unat (n_active p + 1) = Suc (unat (n_active p))"
    using lists_ok_card(3) [OF assms(1)] assms(2,3) by (intro unat_inc) simp
  then have "card (acts q) = unat (n_active q)"
    using a n assms(2) lists_ok_card(1) [OF assms(1)] by (simp add: q)
  moreover have "card (lives q) = card (lives p) + 1"
    using a n lists_ok_card(2) [OF assms(1)] by simp
  moreover have "lists_ok q"
    using assms(1,3) a new by (auto simp: lists_ok_def q acts_def less_Suc_eq)
  ultimately show ?thesis by (simp add: q)
qed

lemma create_workers_ok:
  assumes "lists_ok p" "card (acts p) = unat (n_active p)"
    and "w_next p + (unat n - unat old) < 2 ^ 32" "create_workers spawn old n p = (Inr m, q)"
  shows "lists_ok q \<and> card (acts q) = unat (n_active q) \<and>
     card (lives q) = card (lives p) + (unat n - unat old) \<and> m = max old n \<and>
     n_threads q = n_threads p \<and> n_oversize q = n_oversize p \<and>
     w_next q = w_next p + (unat n - unat old)"
  using assms
proof (induction spawn old n p rule: create_workers.induct)
  case (1 spawn old n p)
  show ?case
  proof (cases "old < n")
    case False
    then have "m = old \<and> q = p" using 1(5) by (subst (asm) create_workers.simps) auto
    then show ?thesis
      using 1(2,3) False by (auto simp: max_def word_le_nat_alt word_less_nat_alt word_unat_eq_iff)
  next
    case True
    have lt: "unat old < unat n" using True by (simp add: word_less_nat_alt)
    have u: "unat (old + 1) = Suc (unat old)"
      using lt unat_bound [of n] by (intro unat_inc) simp
    obtain r p1 where c: "create_worker spawn p = (r, p1)" by force
    then obtain v where v: "r = Inr v" "create_workers spawn (old + 1) n p1 = (Inr m, q)"
      using 1(5) True by (subst (asm) create_workers.simps) (auto split: sum.splits)
    have p1: "lists_ok p1" "card (acts p1) = unat (n_active p1)"
      "card (lives p1) = card (lives p) + 1" "w_next p1 = w_next p + 1"
      "n_threads p1 = n_threads p" "n_oversize p1 = n_oversize p"
      using create_worker_ok [OF 1(2,3), of spawn v p1] c v(1) 1(4) lt by auto
    have "w_next p1 + (unat n - unat (old + 1)) < 2 ^ 32" using 1(4) p1(4) u lt by simp
    from 1(1) [OF True c [symmetric] v(1) p1(1,2) this v(2)]
    show ?thesis
      using p1 u lt True by (auto simp: max_def word_le_nat_alt word_less_nat_alt)
  qed
qed

text \<open>The first worker that cannot be created ends the loop; those before it are there.\<close>

lemma create_workers_fail:
  assumes "lists_ok p" "card (acts p) = unat (n_active p)"
    and "w_next p + (unat n - unat old) + 1 < 2 ^ 32" "create_workers spawn old n p = (Inl e, q)"
  shows "\<exists>c. c < unat n - unat old \<and> e = Runtime_error \<and> lists_ok q \<and> card (acts q) = unat (n_active q) \<and>
     card (lives q) = card (lives p) + c \<and> w_alive q = w_alive p \<union> {w_next p..<w_next p + c} \<and>
     w_next q = w_next p + c + 1 \<and> n_threads q = n_threads p \<and> n_oversize q = n_oversize p \<and>
     \<not> spawn (w_next p + c) \<and> (\<forall>i<c. spawn (w_next p + i))"
  using assms
proof (induction spawn old n p rule: create_workers.induct)
  case (1 spawn old n p)
  have lt: "old < n" using 1(5) by (subst (asm) create_workers.simps) (auto split: if_splits)
  then have ul: "unat old < unat n" by (simp add: word_less_nat_alt)
  then have u: "unat (old + 1) = Suc (unat old)" using unat_bound [of n] by (intro unat_inc) simp
  obtain r p1 where c: "create_worker spawn p = (r, p1)" by force
  show ?case
  proof (cases "spawn (w_next p)")
    case False
    then have "e = Runtime_error" "q = p\<lparr>w_next := w_next p + 1\<rparr>"
      using 1(5) lt by (subst (asm) create_workers.simps, simp add: create_worker_def)+
    then show ?thesis
      using 1(2-4) ul False sets_cong [of q p] by (intro exI [of _ 0]) (simp add: lists_ok_def less_SucI)
  next
    case True
    then have r: "r = Inr ()" "w_alive p1 = insert (w_next p) (w_alive p)"
      using c by (auto simp: create_worker_def)
    have e: "create_workers spawn (old + 1) n p1 = (Inl e, q)"
      using 1(5) lt c r(1) by (subst (asm) create_workers.simps) simp
    have p1: "lists_ok p1" "card (acts p1) = unat (n_active p1)" "card (lives p1) = card (lives p) + 1"
      "w_next p1 = w_next p + 1" "n_threads p1 = n_threads p" "n_oversize p1 = n_oversize p"
      using create_worker_ok [OF 1(2,3), of spawn "()" p1] c r(1) 1(4) ul by auto
    have "w_next p1 + (unat n - unat (old + 1)) + 1 < 2 ^ 32" using 1(4) p1(4) u ul by simp
    from 1(1) [OF lt c [symmetric] r(1) p1(1,2) this e] obtain k where
      k: "k < unat n - unat (old + 1)" "e = Runtime_error" "lists_ok q" "card (acts q) = unat (n_active q)"
        "card (lives q) = card (lives p1) + k" "w_alive q = w_alive p1 \<union> {w_next p1..<w_next p1 + k}"
        "w_next q = w_next p1 + k + 1" "n_threads q = n_threads p1" "n_oversize q = n_oversize p1"
        "\<not> spawn (w_next p1 + k)" "\<forall>i<k. spawn (w_next p1 + i)"
      by (elim exE conjE) (rule that, assumption+)
    have "w_alive q = w_alive p \<union> {w_next p..<w_next p + (k + 1)}"
    proof -
      have "{w_next p..<w_next p + (k + 1)} = insert (w_next p) {w_next p + 1..<w_next p + 1 + k}" by auto
      then show ?thesis unfolding k(6) r(2) p1(4) by blast
    qed
    moreover have "\<forall>i<k + 1. spawn (w_next p + i)"
    proof (intro allI impI)
      fix i assume "i < k + 1"
      then show "spawn (w_next p + i)" using True k(11) p1(4) by (cases i) auto
    qed
    moreover have "k + 1 < unat n - unat old" using k(1) u by simp
    moreover have "w_next q = w_next p + (k + 1) + 1" using k(7) p1(4) by simp
    moreover have "card (lives q) = card (lives p) + (k + 1)" using k(5) p1(3) by simp
    moreover have "\<not> spawn (w_next p + (k + 1))" using k(10) p1(4) by simp
    ultimately show ?thesis using k(2-4,8,9) p1(5,6) by (intro exI [of _ "k + 1"] conjI) simp_all
  qed
qed

section \<open>\<open>set_nthreads\<close>\<close>

lemma pool_ok_upd:
  "lists_ok (p\<lparr>n_threads := a\<rparr>) = lists_ok p" "lists_ok (p\<lparr>n_oversize := b\<rparr>) = lists_ok p"
  "lives (p\<lparr>n_threads := a\<rparr>) = lives p" "lives (p\<lparr>n_oversize := b\<rparr>) = lives p"
  "acts (p\<lparr>n_threads := a\<rparr>) = acts p" "acts (p\<lparr>n_oversize := b\<rparr>) = acts p"
  by (simp_all add: lists_ok_def lives_def acts_def)

text \<open>Growth: threads that were to die are kept, and the rest is created.\<close>

lemma set_nthreads_grow:
  assumes ok: "pool_ok d p" and gt: "n_threads p < n"
    and room: "w_next p + d + unat n < 2 ^ 32"
    and r: "set_nthreads spawn cur n p = Some (Inr (), q)"
  shows "pool_ok d q \<and> n_threads q = n"
proof -
  let ?r = "min (n - n_threads p) (n_oversize p)"
  let ?p = "p\<lparr>n_threads := n, n_oversize := n_oversize p - ?r\<rparr>"
  have lt: "unat (n_threads p) < unat n" using gt by (simp add: word_less_nat_alt)
  have nr: "unat (n - n_threads p) = unat n - unat (n_threads p)"
    using lt by (intro unat_minus_exact) simp
  have rr: "unat ?r = min (unat n - unat (n_threads p)) (unat (n_oversize p))"
    using nr by (simp add: min_def word_le_nat_alt)
  have ro: "unat (n_oversize p - ?r) = unat (n_oversize p) - unat ?r"
    using rr by (intro unat_minus_exact) simp
  have or: "unat (n_threads p + ?r) = unat (n_threads p) + unat ?r"
    using rr lt unat_bound [of n] by (intro unat_plus_exact) simp
  have p': "lists_ok ?p" "card (acts ?p) = unat (n_active ?p)" "lives ?p = lives p"
    using ok pool_ok_upd by (simp_all add: pool_ok_def lists_ok_def lives_def acts_def)
  obtain m q1 where c: "create_workers spawn (n_threads p + ?r) n ?p = (m, q1)" by force
  then obtain v where v: "m = Inr v"
    using r gt by (auto simp: set_nthreads_def reduce_oversize_eq split: sum.splits)
  have "w_next ?p + (unat n - unat (n_threads p + ?r)) < 2 ^ 32" using room by simp
  from create_workers_ok [OF p'(1,2) this c [unfolded v]]
  have q1: "lists_ok q1" "card (acts q1) = unat (n_active q1)" "n_threads q1 = n"
    "card (lives q1) = card (lives p) + (unat n - unat (n_threads p + ?r))"
    "v = max (n_threads p + ?r) n" "n_oversize q1 = n_oversize p - ?r"
    "w_next q1 = w_next p + (unat n - unat (n_threads p + ?r))"
    using p'(3) by simp_all
  have "n_threads p + ?r \<le> n" using or rr lt by (simp add: word_le_nat_alt)
  then have vn: "v = n" using q1(5) by (simp add: max_def)
  have "kill_idle n n q1 = Some (n, q1)" by (simp add: kill_idle.simps)
  then have "q = q1"
    using r gt c v vn by (auto simp: set_nthreads_def reduce_oversize_eq split: option.splits)
  moreover have "card (lives q1) + d = unat n + unat (n_oversize p - ?r)"
    using q1(4) ok or ro rr lt by (auto simp: pool_ok_def min_def split: if_splits)
  moreover have "w_next q1 + d < 2 ^ 32" using q1(7) room by simp
  ultimately show ?thesis using q1 by (simp add: pool_ok_def)
qed

text \<open>Shrinking: idle workers are killed, the caller, and the rest is left to die later.\<close>

lemma increase_oversize_ok:
  assumes "lists_ok p" "card (acts p) = unat (n_active p)"
    and "w_next p + d < 2 ^ 32"
    and "card (lives p) + d = unat (n_threads p) + unat (n_oversize p) + unat k"
  shows "pool_ok d (increase_oversize k p) \<and> n_threads (increase_oversize k p) = n_threads p"
proof -
  have "card (lives p) + d < 2 ^ 32" using lists_ok_card(4) [OF assms(1)] assms(3) by simp
  then have "unat (n_oversize p + k) = unat (n_oversize p) + unat k"
    using assms(4) by (intro unat_plus_exact) simp
  then have "pool_ok d (p\<lparr>n_oversize := n_oversize p + k\<rparr>)"
    using assms pool_ok_upd by (simp add: pool_ok_def)
  then show ?thesis
    using same_pool_ok [OF increase_oversize_same] increase_oversize_same [of p k]
    by (auto simp: same_pool_def)
qed

lemma set_nthreads_shrink:
  assumes ok: "pool_ok d p" and le: "n \<le> n_threads p"
    and cur: "pred_option (\<lambda>w. w \<in> acts p) cur"
    and r: "set_nthreads spawn cur n p = Some (Inr (), q)"
  shows "pool_ok d q \<and> n_threads q = n"
proof -
  let ?p = "p\<lparr>n_threads := n\<rparr>"
  have nl: "\<not> n_threads p < n" using le by auto
  have ul: "unat n \<le> unat (n_threads p)" using le by (simp add: word_le_nat_alt)
  have p': "lists_ok ?p" "acts ?p = acts p" "lives ?p = lives p"
    using ok pool_ok_upd by (simp_all add: pool_ok_def)
  have c: "create_workers spawn (n_threads p) n ?p = (Inr (n_threads p), ?p)"
    using nl by (simp add: create_workers.simps)
  obtain m q1 where k: "kill_idle (n_threads p) n ?p = Some (m, q1)" "lists_ok q1" "killed ?p q1"
    "n \<le> m" "m \<le> n_threads p" "card (lives q1) + (unat (n_threads p) - unat m) = card (lives p)"
    using kill_idle_ok [OF p'(1) refl, of "n_threads p" n] le p'(3) by auto
  have um: "unat n \<le> unat m" "unat m \<le> unat (n_threads p)"
    using k(4,5) by (simp_all add: word_le_nat_alt)
  obtain m2 q2 where s: "(case cur of
        Some w \<Rightarrow> (if n < m then do { (ok, p) \<leftarrow> worker_kill w q1; Some (if ok then m - 1 else m, p) }
                     else Some (m, q1))
      | None \<Rightarrow> Some (m, q1)) = Some (m2, q2)"
    "lists_ok q2" "killed ?p q2" "unat n \<le> unat m2" "unat m2 \<le> unat m"
    "card (lives q2) + (unat m - unat m2) = card (lives q1)"
  proof (cases "\<exists>w. cur = Some w \<and> n < m")
    case True
    then obtain w where w: "cur = Some w" "n < m" by blast
    have wa: "w \<in> acts q1" using cur w(1) k(3) p'(2) by (simp add: killed_def)
    have lt: "unat n < unat m" using w(2) by (simp add: word_less_nat_alt)
    have u: "unat (m - 1) = unat m - 1" using lt by (intro unat_minus_one) auto
    have "worker_kill w q1 = Some (is_live (w_state q1 w), set_state w DYING q1)"
      using wa by (intro worker_kill_eq) (simp add: acts_def)
    moreover have "killed ?p (set_state w DYING q1)"
      using k(3) lists_ok_dying(2) [OF k(2) wa] by (simp add: killed_def)
    ultimately show ?thesis
      using that [of "if is_live (w_state q1 w) then m - 1 else m" "set_state w DYING q1"]
        kill_live_card [OF k(2) wa] lists_ok_dying(1) [OF k(2) wa] w u lt by (auto split: if_splits)
  next
    case False
    then show ?thesis using that [of m q1] k(2,3) um by (cases cur) auto
  qed
  have kq: "n_threads q2 = n" "n_oversize q2 = n_oversize p" "n_active q2 = n_active p"
    "acts q2 = acts p" "w_next q2 = w_next p" using s(3) p'(2) by (simp_all add: killed_def)
  have q: "q = (if n < m2 then increase_oversize (m2 - n) q2 else q2)"
    using r nl c k(1) s(1) by (simp add: set_nthreads_def Let_def)
  have cl: "card (lives q2) + d = unat n + unat (n_oversize p) + (unat m2 - unat n)"
  proof -
    have "card (lives p) + d = unat (n_threads p) + unat (n_oversize p)" using ok by (simp add: pool_ok_def)
    then show ?thesis using s(4,5,6) k(6) um ul by linarith
  qed
  show ?thesis
  proof (cases "n < m2")
    case True
    have "unat (m2 - n) = unat m2 - unat n"
      using s(4) by (intro unat_minus_exact)
    then have "pool_ok d (increase_oversize (m2 - n) q2) \<and> n_threads (increase_oversize (m2 - n) q2) = n_threads q2"
      using cl kq ok s(2) by (intro increase_oversize_ok) (simp_all add: pool_ok_def)
    then show ?thesis using q kq True by simp
  next
    case False
    then have "unat m2 = unat n" using s(4) by (simp add: word_less_nat_alt)
    then show ?thesis using q False cl kq s(2) ok by (simp add: pool_ok_def)
  qed
qed

section \<open>Steps of the pool\<close>

lemma transition_ok: "is_live e \<Longrightarrow> is_live s \<Longrightarrow> pool_ok d p \<Longrightarrow> pool_ok d (snd (transition w e s p))"
  using same_pool_ok transition_same by (metis prod.collapse)

lemma lists_ok_idle:
  assumes "pool_ok d p" "distinct is" "set is \<subseteq> acts p"
  shows "pool_ok d (p\<lparr>m_idle := is\<rparr>)"
  using assms by (auto simp: pool_ok_def lists_ok_def lives_def acts_def)

lemma worker_publish_ok:
  assumes "pool_ok d p" "w \<in> acts p"
  shows "pool_ok d (snd (worker_publish w p))"
proof -
  obtain b q where t: "transition w BUSY SLEEP_TEST p = (b, q)" by force
  have sp: "same_pool p q" by (rule transition_same [OF _ _ t]) simp_all
  have q: "pool_ok d q" "acts q = acts p"
    using same_pool_ok [OF sp assms(1)] same_pool_sets [OF sp] by auto
  have "set (w # m_idle q) \<subseteq> acts q"
    using q assms(2) by (auto simp: pool_ok_def lists_ok_def)
  then have "pool_ok d (q\<lparr>m_idle := w # m_idle q\<rparr>)" if "w \<notin> set (m_idle q)"
    using q that by (intro lists_ok_idle) (auto simp: pool_ok_def lists_ok_def)
  then show ?thesis using t q by (cases b) (simp_all add: worker_publish_def)
qed

lemma worker_unpublish_ok: "pool_ok d p \<Longrightarrow> pool_ok d (worker_unpublish w p)"
  unfolding worker_unpublish_def
  by (rule lists_ok_idle) (auto simp: pool_ok_def lists_ok_def dest: notin_set_remove1 [rotated]
      set_remove1_subset [THEN subsetD])

lemma run_epilogue_ok:
  assumes "pool_ok d p" "w \<in> w_alive p" "w_state p w = DYING" "w \<notin> set (m_idle p)"
    and "run_epilogue w collects p = Some q"
  shows "pool_ok d q"
proof -
  have ok: "lists_ok p" using assms(1) by (simp add: pool_ok_def)
  have wa: "w \<in> acts p" "w \<notin> lives p" using assms(2,3) by (auto simp: acts_def lives_def)
  have q: "q = (set_state w DEAD p)\<lparr>n_active := n_active p - 1, m_dead := (if collects then m_dead p else m_dead p @ [w])\<rparr>"
    "n_active p \<noteq> 0"
    using assms(5) by (auto simp: run_epilogue_def Let_def split: if_splits)
  have a: "acts q = acts p - {w}" "lives q = lives p"
    using wa by (auto simp: q acts_def lives_def)
  have "card (acts q) = unat (n_active q)"
    using a wa assms(1) lists_ok_card(1) [OF ok] q(2) by (simp add: pool_ok_def q unat_minus_one)
  moreover have "lists_ok q"
    using ok wa assms(2,4) a unfolding lists_ok_def by (auto simp: q)
  ultimately show ?thesis using assms(1) a by (simp add: pool_ok_def q)
qed

lemma collect_ok: "pool_ok d p \<Longrightarrow> pool_ok d (snd (collect rv k p))"
proof (induction rv k p rule: collect.induct)
  case (1 rv k p)
  show ?case
  proof (cases "rv < k \<and> m_dead p \<noteq> []")
    case False
    then have "snd (collect rv k p) = p"
      by (subst collect.simps) (auto split: list.splits)
    then show ?thesis using 1(2) by simp
  next
    case True
    then obtain w ws where w: "m_dead p = w # ws" by (cases "m_dead p") auto
    let ?q = "p\<lparr>m_dead := ws, w_alive := w_alive p - {w}\<rparr>"
    have "w \<notin> acts p" using 1(2) w by (auto simp: pool_ok_def lists_ok_def)
    then have a: "acts ?q = acts p" "lives ?q = lives p" using lives_acts [of p]
      by (auto simp: acts_def lives_def)
    then have "pool_ok d ?q" using 1(2) w by (auto simp: pool_ok_def lists_ok_def)
    then have "pool_ok d (snd (collect (rv + 1) k ?q))" using 1(1) True w by simp
    moreover have "collect rv k p = collect (rv + 1) k ?q"
      using True w by (subst collect.simps) simp
    ultimately show ?thesis by simp
  qed
qed

text \<open>
  A thread that cannot be created: the size is the new one already, deaths that were still to come
  have been cancelled and the workers before it exist.
\<close>

definition shortfall :: "pool \<Rightarrow> u32 \<Rightarrow> pool \<Rightarrow> nat" where
  "shortfall p n q =
     unat n - unat (n_threads p) - (unat (n_oversize p) - unat (n_oversize q)) - card (w_alive q - w_alive p)"

lemma set_nthreads_fails:
  assumes ok: "pool_ok d p" and room: "w_next p + d + unat n + 1 < 2 ^ 32"
    and cur: "pred_option (\<lambda>w. w \<in> acts p) cur" and r: "set_nthreads spawn cur n p = Some (Inl e, q)"
  shows "\<exists>c. n_threads p < n \<and> e = Runtime_error \<and> n_threads q = n \<and>
     n_oversize q = n_oversize p - min (n - n_threads p) (n_oversize p) \<and>
     w_alive q = w_alive p \<union> {w_next p..<w_next p + c} \<and> card (lives q) = card (lives p) + c \<and>
     \<not> spawn (w_next p + c) \<and> (\<forall>i<c. spawn (w_next p + i)) \<and>
     0 < shortfall p n q \<and> pool_ok (d + shortfall p n q) q"
proof -
  let ?r = "min (n - n_threads p) (n_oversize p)"
  let ?p = "p\<lparr>n_threads := n, n_oversize := n_oversize p - ?r\<rparr>"
  have gt: "n_threads p < n"
  proof (rule ccontr)
    assume n: "\<not> n_threads p < n"
    then have "create_workers spawn (n_threads p) n (p\<lparr>n_threads := n\<rparr>) = (Inr (n_threads p), p\<lparr>n_threads := n\<rparr>)"
      by (simp add: create_workers.simps)
    then show False
      using r n by (auto simp: set_nthreads_def Let_def split: bind_splits option.splits)
  qed
  have lt: "unat (n_threads p) < unat n" using gt by (simp add: word_less_nat_alt)
  have nr: "unat (n - n_threads p) = unat n - unat (n_threads p)"
    using lt by (intro unat_minus_exact) simp
  have rr: "unat ?r = min (unat n - unat (n_threads p)) (unat (n_oversize p))"
    using nr by (simp add: min_def word_le_nat_alt)
  have ro: "unat (n_oversize p - ?r) = unat (n_oversize p) - unat ?r"
    using rr by (intro unat_minus_exact) simp
  have or: "unat (n_threads p + ?r) = unat (n_threads p) + unat ?r"
    using rr lt unat_bound [of n] by (intro unat_plus_exact) simp
  have p': "lists_ok ?p" "card (acts ?p) = unat (n_active ?p)" "lives ?p = lives p"
    using ok pool_ok_upd by (simp_all add: pool_ok_def lists_ok_def lives_def acts_def)
  obtain m q1 where c: "create_workers spawn (n_threads p + ?r) n ?p = (m, q1)" by force
  have le: "n_threads p + ?r \<le> n" using or rr lt by (simp add: word_le_nat_alt)
  have e: "m = Inl e" "q1 = q"
  proof -
    have room': "w_next ?p + (unat n - unat (n_threads p + ?r)) < 2 ^ 32" using room by simp
    have "kill_idle n n q1 = Some (n, q1)" by (simp add: kill_idle.simps)
    moreover have "v = n" if "m = Inr v" for v
      using create_workers_ok [OF p'(1,2) room' c [unfolded that]] le by (simp add: max_def)
    ultimately show "m = Inl e" "q1 = q"
      using r gt c by (auto simp: set_nthreads_def reduce_oversize_eq split: sum.splits option.splits)
  qed
  have "w_next ?p + (unat n - unat (n_threads p + ?r)) + 1 < 2 ^ 32" using room by simp
  from create_workers_fail [OF p'(1,2) this c [unfolded e]] obtain k where
    k: "k < unat n - unat (n_threads p + ?r)" "e = Runtime_error" "lists_ok q" "card (acts q) = unat (n_active q)"
      "card (lives q) = card (lives p) + k" "w_alive q = w_alive p \<union> {w_next p..<w_next p + k}"
      "w_next q = w_next p + k + 1" "n_threads q = n" "n_oversize q = n_oversize p - ?r"
      "\<not> spawn (w_next p + k)" "\<forall>i<k. spawn (w_next p + i)"
    using p'(3) by auto
  have "w_alive q - w_alive p = {w_next p..<w_next p + k}"
    using k(6) ok by (auto simp: pool_ok_def lists_ok_def)
  then have s: "shortfall p n q = unat n - unat (n_threads p) - unat ?r - k"
    using ro rr by (simp add: shortfall_def k(9))
  have "card (lives q) + (d + shortfall p n q) = unat (n_threads q) + unat (n_oversize q)"
  proof -
    have arith: "k < N - (T + R) \<Longrightarrow> L + d = T + V \<Longrightarrow> R \<le> V \<Longrightarrow> L + k + (d + (N - T - R - k)) = N + (V - R)"
      for N T R L V :: nat by linarith
    have "card (lives p) + d = unat (n_threads p) + unat (n_oversize p)" using ok by (simp add: pool_ok_def)
    moreover have "unat ?r \<le> unat (n_oversize p)" using rr by simp
    ultimately show ?thesis unfolding s k(5,8,9) ro by (rule arith [OF k(1) [unfolded or]])
  qed
  moreover have "w_next q + (d + shortfall p n q) < 2 ^ 32" 
  proof -
    have arith: "k < N - M \<Longrightarrow> M = T + R \<Longrightarrow> W + d + N + 1 < X \<Longrightarrow> W + k + 1 + (d + (N - T - R - k)) < X"
      for N M T R W X :: nat by linarith
    show ?thesis unfolding s k(7) by (rule arith [OF k(1) or room])
  qed
  moreover have "0 < shortfall p n q" unfolding s using k(1) or by simp
  ultimately show ?thesis using gt k by (intro exI [of _ k]) (simp add: pool_ok_def)
qed

text \<open>
  Every operation that runs on a pool: the client changes the number of threads (from a thread
  outside or from a worker of the pool), which throws when a thread cannot be created, wakes
  workers and attaches a service; a worker tests whether it must die, goes through the sleep states,
  runs its epilogue; dead workers are collected; the pool is deleted, at once or by a worker that
  ends. A worker runs the epilogue after it has left the idle list. The number in front of the
  pool counts the threads that failed resizes were to create and did not.
\<close>

inductive pool_step :: "nat \<Rightarrow> pool \<Rightarrow> nat \<Rightarrow> pool \<Rightarrow> bool" where
  resize: "set_nthreads spawn cur n p = Some (Inr (), q) \<Longrightarrow> pred_option (\<lambda>w. w \<in> acts p) cur \<Longrightarrow>
      w_next p + d + unat n < 2 ^ 32 \<Longrightarrow> pool_step d p d q"
| resize_throws: "set_nthreads spawn cur n p = Some (Inl e, q) \<Longrightarrow> pred_option (\<lambda>w. w \<in> acts p) cur \<Longrightarrow>
      w_next p + d + unat n + 1 < 2 ^ 32 \<Longrightarrow> pool_step d p (d + shortfall p n q) q"
| wake: "pool_step d p d (snd (pool_wakeup k p))"
| attach: "pool_step d p d (snd (pool_attach s p))"
| test: "w \<in> w_alive p \<Longrightarrow> pool_step d p d (snd (must_die w p))"
| publish: "w \<in> acts p \<Longrightarrow> pool_step d p d (snd (worker_publish w p))"
| rise: "pool_step d p d (snd (transition w SLEEP_TEST BUSY p))"
| sleep: "pool_step d p d (snd (transition w SLEEP_TEST SLEEP p))"
| unpublish: "pool_step d p d (worker_unpublish w p)"
| die: "w \<in> w_alive p \<Longrightarrow> w_state p w = DYING \<Longrightarrow> w \<notin> set (m_idle p) \<Longrightarrow>
      run_epilogue w collects p = Some q \<Longrightarrow> pool_step d p d q"
| collect: "pool_step d p d (snd (collect 0 k p))"
| delete: "impl_deleter spawn cur p = Some (b, q) \<Longrightarrow> pred_option (\<lambda>w. w \<in> acts p) cur \<Longrightarrow> pool_step d p d q"
| destroy: "impl_dtor p = Some q \<Longrightarrow> pool_step d p d q"

inductive pool_reach :: "nat \<Rightarrow> pool \<Rightarrow> bool" where
  start: "pool_reach 0 pool_ctor"
| step: "pool_reach d p \<Longrightarrow> pool_step d p d' q \<Longrightarrow> pool_reach d' q"

lemma set_nthreads_ok:
  assumes "pool_ok d p" "pred_option (\<lambda>w. w \<in> acts p) cur" "w_next p + d + unat n < 2 ^ 32"
    and "set_nthreads spawn cur n p = Some (Inr (), q)"
  shows "pool_ok d q \<and> n_threads q = n"
  using set_nthreads_grow [OF assms(1) _ assms(3,4)] set_nthreads_shrink [OF assms(1) _ assms(2,4)]
  by (cases "n_threads p < n") auto

lemma pool_ok_serv: "pool_ok d (p\<lparr>m_serv := s\<rparr>) = pool_ok d p"
  by (simp add: pool_ok_def lists_ok_def lives_def acts_def)

lemma pool_attach_ok: "pool_ok d p \<Longrightarrow> pool_ok d (snd (pool_attach s p))"
  using same_pool_ok [OF pool_wakeup_same] by (auto simp: pool_attach_def pool_ok_serv)

lemma impl_deleter_ok:
  assumes "pool_ok d p" "pred_option (\<lambda>w. w \<in> acts p) cur" "impl_deleter spawn cur p = Some (b, q)"
  shows "pool_ok d q"
proof -
  obtain r q1 where r: "set_nthreads spawn cur 0 p = Some (r, q1)" "q = q1\<lparr>m_serv := None\<rparr>"
    using assms(3) by (auto simp: impl_deleter_def split: bind_splits)
  have room: "w_next p + d + unat (0 :: u32) < 2 ^ 32" using assms(1) by (simp add: pool_ok_def)
  have "\<not> n_threads p < 0" by simp
  then have "create_workers spawn (n_threads p) 0 (p\<lparr>n_threads := 0\<rparr>) = (Inr (n_threads p), p\<lparr>n_threads := 0\<rparr>)"
    by (simp add: create_workers.simps)
  then have "r = Inr ()"
    using r(1) by (auto simp: set_nthreads_def Let_def split: bind_splits option.splits)
  then show ?thesis using set_nthreads_ok [OF assms(1,2) room] r by (simp add: pool_ok_serv)
qed

lemma pool_step_ok: "pool_step d p d' q \<Longrightarrow> pool_ok d p \<Longrightarrow> pool_ok d' q"
proof (induction rule: pool_step.induct)
  case (resize spawn cur n p q d)
  then show ?case using set_nthreads_ok by blast
next
  case (resize_throws spawn cur n p e q d)
  then show ?case using set_nthreads_fails by blast
next
  case (die w p collects q d)
  then show ?case using run_epilogue_ok by blast
next
  case (delete spawn cur p b q d)
  then show ?case using impl_deleter_ok by blast
next
  case (destroy p q d)
  then show ?case using collect_ok by (auto simp: impl_dtor_def split: if_splits)
qed (auto intro: same_pool_ok [OF pool_wakeup_same] pool_attach_ok must_die_ok worker_publish_ok
    transition_ok worker_unpublish_ok collect_ok)

lemma pool_reach_ok: "pool_reach d p \<Longrightarrow> pool_ok d p"
proof (induction rule: pool_reach.induct)
  case start
  then show ?case by (simp add: pool_ok_def lists_ok_def pool_ctor_def lives_def acts_def)
next
  case (step d p d' q)
  then show ?case using pool_step_ok by blast
qed

text \<open>
  C35. Balance of the pool: after any sequence of resizes (those that throw included), wakeups,
  attachments, tests, sleeps, deaths, collections and the deletion of the pool, the workers that
  are not marked for death, and the threads that failed resizes could not create, are together
  as many as the configured number of threads plus the deaths still to come; \<open>n_active\<close> counts
  exactly the workers that have not run their epilogue.
\<close>

theorem pool_balance:
  assumes "pool_reach d p"
  shows "card (lives p) + d = unat (n_threads p) + unat (n_oversize p) \<and>
     card (acts p) = unat (n_active p)"
  using pool_reach_ok [OF assms] by (simp add: pool_ok_def)

definition pool_two :: pool where
  "pool_two = pool_ctor\<lparr>n_threads := 2, n_active := 2, w_next := 2, w_alive := {0, 1},
     w_state := (w_state pool_ctor)(0 := BUSY, 1 := BUSY)\<rparr>"

lemma pool_two_resize: "set_nthreads (\<lambda>_. True) None 2 pool_ctor = Some (Inr (), pool_two)"
  by (simp add: set_nthreads_def reduce_oversize_eq pool_ctor_def create_workers.simps
      create_worker_def kill_idle.simps pool_two_def insert_commute)

text \<open>Shrunk again to one thread while both are busy: one death is still to come.\<close>

definition pool_one :: pool where "pool_one = pool_two\<lparr>n_threads := 1, n_oversize := 1\<rparr>"

lemma pool_one_resize: "set_nthreads (\<lambda>_. True) None 1 pool_two = Some (Inr (), pool_one)"
  by (simp add: set_nthreads_def reduce_oversize_eq pool_ctor_def create_workers.simps pool_one_def
      kill_idle.simps pool_two_def increase_oversize_def pool_wakeup_def impl_wakeup.simps)

text \<open>
  Then it shall have five threads: the death is cancelled, worker 2 is created, and the thread of
  worker 3 cannot be created. Two of the five threads are missing.
\<close>

definition pool_short :: pool where
  "pool_short = pool_two\<lparr>n_threads := 5, n_active := 3, w_next := 4, w_alive := {0, 1, 2},
     w_state := (w_state pool_two)(2 := BUSY)\<rparr>"

lemma pool_short_resize: "set_nthreads (\<lambda>w. w < 3) None 5 pool_one = Some (Inl Runtime_error, pool_short)"
  by (simp add: set_nthreads_def reduce_oversize_eq pool_ctor_def create_workers.simps pool_one_def
      create_worker_def kill_idle.simps pool_two_def pool_short_def insert_commute)

lemma pool_one_reach: "pool_reach 0 pool_one"
proof -
  have "pool_step 0 pool_ctor 0 pool_two"
    by (rule pool_step.resize [OF pool_two_resize]) (simp_all add: pool_ctor_def)
  moreover have "pool_step 0 pool_two 0 pool_one"
    by (rule pool_step.resize [OF pool_one_resize]) (simp_all add: pool_two_def)
  ultimately show ?thesis by (blast intro: pool_reach.intros)
qed

lemma pool_short_reach: "pool_reach 2 pool_short"
proof -
  have "w_alive pool_short - w_alive pool_one = {2}" by (auto simp: pool_short_def pool_one_def pool_two_def)
  then have "shortfall pool_one 5 pool_short = 2"
    by (simp add: shortfall_def) (simp add: pool_short_def pool_one_def pool_two_def pool_ctor_def)
  moreover have "pool_step 0 pool_one (0 + shortfall pool_one 5 pool_short) pool_short"
    by (rule pool_step.resize_throws [OF pool_short_resize]) (simp_all add: pool_one_def pool_two_def)
  ultimately show ?thesis using pool_one_reach by (metis add_0 pool_reach.step)
qed

theorem pool_balance_witness:
  "card (lives pool_one) = 2 \<and> card (acts pool_one) = 2 \<and> card (lives pool_short) = 3"
  using pool_balance [OF pool_one_reach] pool_balance [OF pool_short_reach]
  by (simp add: pool_one_def pool_short_def pool_two_def pool_ctor_def)

text \<open>
  C39. A resize that throws: it was to grow the pool and a thread could not be created. The new
  size is set all the same and deaths still to come are cancelled as far as they can be; exactly the
  workers before the first one that failed are created. The pool stays short of live workers: it
  has fewer than it was asked for together with the deaths still to come.
\<close>

theorem resize_failure:
  assumes "pool_reach d p" and "set_nthreads spawn cur n p = Some (Inl e, q)"
    and "pred_option (\<lambda>w. w \<in> acts p) cur" and "w_next p + d + unat n + 1 < 2 ^ 32"
  shows "\<exists>c. n_threads p < n \<and> e = Runtime_error \<and> n_threads q = n \<and>
     n_oversize q = n_oversize p - min (n - n_threads p) (n_oversize p) \<and>
     w_alive q = w_alive p \<union> {w_next p..<w_next p + c} \<and> card (lives q) = card (lives p) + c \<and>
     \<not> spawn (w_next p + c) \<and> (\<forall>i<c. spawn (w_next p + i)) \<and>
     card (lives q) < unat n + unat (n_oversize q)"
proof -
  obtain c where c: "n_threads p < n \<and> e = Runtime_error \<and> n_threads q = n \<and>
     n_oversize q = n_oversize p - min (n - n_threads p) (n_oversize p) \<and>
     w_alive q = w_alive p \<union> {w_next p..<w_next p + c} \<and> card (lives q) = card (lives p) + c \<and>
     \<not> spawn (w_next p + c) \<and> (\<forall>i<c. spawn (w_next p + i))"
    "0 < shortfall p n q" "pool_ok (d + shortfall p n q) q"
    using set_nthreads_fails [OF pool_reach_ok [OF assms(1)] assms(4,3,2)] by blast
  then have "card (lives q) < unat n + unat (n_oversize q)" by (auto simp: pool_ok_def)
  then show ?thesis using c(1) by blast
qed

theorem resize_failure_witness:
  "\<exists>c. w_alive pool_short = w_alive pool_one \<union> {2..<2 + c} \<and> \<not> 2 + c < (3 :: nat) \<and>
     card (lives pool_short) = card (lives pool_one) + c \<and> card (lives pool_short) < 5"
  using resize_failure [OF pool_one_reach pool_short_resize]
  by (auto simp: pool_one_def pool_short_def pool_two_def)

text \<open>After the size was set to zero, every worker that tests whether it must die does die.\<close>

lemma shutdown_kills_all:
  assumes "pool_reach d p" "n_threads p = 0" "w \<in> lives p"
  shows "fst (must_die w p)"
proof -
  have ok: "lists_ok p" using pool_reach_ok [OF assms(1)] by (simp add: pool_ok_def)
  have "0 < card (lives p)" using assms(3) lists_ok_card(2) [OF ok] by (auto simp: card_gt_0_iff)
  then have "n_oversize p \<noteq> 0"
    using pool_reach_ok [OF assms(1)] assms(2) by (auto simp: pool_ok_def)
  then show ?thesis using assms(3) must_die_eq [of p w] by (simp add: lives_def)
qed

end
