(* ===== verification/TP_Sleep.thy ===== *)
theory TP_Sleep
  imports TP_Pool
begin

text \<open>
  The sleep protocol of the thread pool (\<open>do_sleep\<close>, \<open>wakeup\<close> and the main loop of \<open>_run\<close> in
  \<open>src/threadpool.cc\<close>) as it is interleaved: workers that run out of work go to sleep while
  producers add work and wake workers up. The state has the steps of each thread as program
  locations; a step of the relation is one atomic access. The pool has a fixed size here
  (\<open>n_oversize\<close> is 0 and no worker is killed, so that \<open>must_die\<close> is false); resizing is in
  \<open>TP_Pool\<close>.
\<close>

section \<open>State\<close>

text \<open>
  Worker locations, in the order of the code: the main loop; the exchange to \<open>SLEEP_TEST\<close>; the
  publication in the idle list; the test for work; back to \<open>BUSY\<close>; the lock of the sleep mutex;
  the exchange to \<open>SLEEP\<close>; the sleep loop with the mutex held; the wait; taking the mutex after
  the wait; the test of the loop; unlocking; leaving the idle list.
\<close>

datatype wloc =
  W_Run | W_Enter | W_Pub | W_Test | W_Back | W_Lock | W_ToSleep | W_Loop | W_Wait | W_Relock
| W_Chk | W_Unlock | W_Unpub

text \<open>
  Producer locations: outside; at the head of the loop of \<open>wakeup\<close>; at the two exchanges on the
  worker that it popped; about to notify that worker.
\<close>

datatype 'w ploc = P_Idle | P_Pop | P_Cas1 'w | P_Cas2 'w | P_Notify 'w

record ('w, 'q) sleep_state =
  work :: nat
  idle_list :: "'w list"
  st :: "'w \<Rightarrow> thread_state"
  wl :: "'w \<Rightarrow> wloc"
  pl :: "'q \<Rightarrow> 'w ploc"
  cnt :: "'q \<Rightarrow> nat"
  want :: "'q \<Rightarrow> nat"
  sig :: "'w \<Rightarrow> bool"

definition at_w :: "'w \<Rightarrow> wloc \<Rightarrow> ('w, 'q) sleep_state \<Rightarrow> ('w, 'q) sleep_state" where
  "at_w w l s = s\<lparr>wl := (wl s)(w := l)\<rparr>"

definition at_p :: "'q \<Rightarrow> 'w ploc \<Rightarrow> ('w, 'q) sleep_state \<Rightarrow> ('w, 'q) sleep_state" where
  "at_p q l s = s\<lparr>pl := (pl s)(q := l)\<rparr>"

text \<open>A compare-exchange on the state of a worker, going to the first or the second location.\<close>

definition cas_w ::
    "'w \<Rightarrow> thread_state \<Rightarrow> thread_state \<Rightarrow> wloc \<Rightarrow> wloc \<Rightarrow> ('w, 'q) sleep_state \<Rightarrow>
     ('w, 'q) sleep_state" where
  "cas_w w e n good bad s =
     (if st s w = e then at_w w good (s\<lparr>st := (st s)(w := n)\<rparr>) else at_w w bad s)"

definition cas_p ::
    "'q \<Rightarrow> 'w \<Rightarrow> thread_state \<Rightarrow> thread_state \<Rightarrow> 'w ploc \<Rightarrow> 'w ploc \<Rightarrow> ('w, 'q) sleep_state \<Rightarrow>
     ('w, 'q) sleep_state" where
  "cas_p q w e n good bad s =
     (if st s w = e then at_p q good (s\<lparr>st := (st s)(w := n)\<rparr>) else at_p q bad s)"

text \<open>The sleep mutex of a worker is held exactly at these locations.\<close>

definition holds :: "wloc \<Rightarrow> bool" where
  "holds l = (l = W_ToSleep \<or> l = W_Loop \<or> l = W_Chk \<or> l = W_Unlock)"

section \<open>Steps\<close>

definition w_run :: "'w \<Rightarrow> ('w, 'q) sleep_state \<Rightarrow> ('w, 'q) sleep_state" where
  "w_run w s = (if 0 < work s then s\<lparr>work := work s - 1\<rparr> else at_w w W_Enter s)"

definition w_publish :: "'w \<Rightarrow> ('w, 'q) sleep_state \<Rightarrow> ('w, 'q) sleep_state" where
  "w_publish w s =
     at_w w W_Test (if w \<in> set (idle_list s) then s else s\<lparr>idle_list := w # idle_list s\<rparr>)"

definition w_step :: "'w \<Rightarrow> ('w, 'q) sleep_state \<Rightarrow> ('w, 'q) sleep_state" where
  "w_step w s =
     (case wl s w of
        W_Run \<Rightarrow> w_run w s
      | W_Enter \<Rightarrow> cas_w w BUSY SLEEP_TEST W_Pub W_Run s
      | W_Pub \<Rightarrow> w_publish w s
      | W_Test \<Rightarrow> at_w w (if 0 < work s then W_Back else W_Lock) s
      | W_Back \<Rightarrow> cas_w w SLEEP_TEST BUSY W_Unpub W_Unpub s
      | W_Lock \<Rightarrow> at_w w W_ToSleep s
      | W_ToSleep \<Rightarrow> cas_w w SLEEP_TEST SLEEP W_Loop W_Unlock s
      | W_Loop \<Rightarrow> at_w w W_Wait (s\<lparr>sig := (sig s)(w := False)\<rparr>)
      | W_Wait \<Rightarrow> at_w w W_Relock s
      | W_Relock \<Rightarrow> at_w w W_Chk s
      | W_Chk \<Rightarrow> at_w w (if st s w = SLEEP then W_Loop else W_Unlock) s
      | W_Unlock \<Rightarrow> at_w w W_Unpub s
      | W_Unpub \<Rightarrow> at_w w W_Run (s\<lparr>idle_list := remove1 w (idle_list s)\<rparr>))"

text \<open>A producer adds one unit of work and wakes \<open>n\<close> workers.\<close>

definition p_post :: "'q \<Rightarrow> nat \<Rightarrow> ('w, 'q) sleep_state \<Rightarrow> ('w, 'q) sleep_state" where
  "p_post q n s =
     at_p q P_Pop (s\<lparr>work := work s + 1, cnt := (cnt s)(q := 0), want := (want s)(q := n)\<rparr>)"

definition p_pop :: "'q \<Rightarrow> ('w, 'q) sleep_state \<Rightarrow> ('w, 'q) sleep_state" where
  "p_pop q s =
     (if cnt s q < want s q then
        (case idle_list s of
           [] \<Rightarrow> at_p q P_Idle s
         | w # ws \<Rightarrow> at_p q (P_Cas1 w) (s\<lparr>idle_list := ws\<rparr>))
      else at_p q P_Idle s)"

definition p_notify :: "'q \<Rightarrow> 'w \<Rightarrow> ('w, 'q) sleep_state \<Rightarrow> ('w, 'q) sleep_state" where
  "p_notify q w s =
     at_p q P_Pop
       (s\<lparr>sig := (sig s)(w := sig s w \<or> wl s w = W_Wait), cnt := (cnt s)(q := cnt s q + 1)\<rparr>)"

definition p_step :: "'q \<Rightarrow> ('w, 'q) sleep_state \<Rightarrow> ('w, 'q) sleep_state" where
  "p_step q s =
     (case pl s q of
        P_Idle \<Rightarrow> s
      | P_Pop \<Rightarrow> p_pop q s
      | P_Cas1 w \<Rightarrow> cas_p q w SLEEP_TEST BUSY (P_Notify w) (P_Cas2 w) s
      | P_Cas2 w \<Rightarrow> cas_p q w SLEEP BUSY (P_Notify w) P_Pop s
      | P_Notify w \<Rightarrow> p_notify q w s)"

text \<open>
  The wait ends by a signal or spuriously. A producer notifies with the mutex held, so only
  while the worker does not hold it.
\<close>

inductive sleep_step :: "('w, 'q) sleep_state \<Rightarrow> ('w, 'q) sleep_state \<Rightarrow> bool" where
  worker: "sleep_step s (w_step w s)"
| post: "pl s q = P_Idle \<Longrightarrow> 0 < n \<Longrightarrow> sleep_step s (p_post q n s)"
| producer: "\<forall>w. pl s q = P_Notify w \<longrightarrow> \<not> holds (wl s w) \<Longrightarrow> sleep_step s (p_step q s)"

definition sleep_init :: "('w, 'q) sleep_state" where
  "sleep_init =
     \<lparr>work = 0, idle_list = [], st = (\<lambda>_. BUSY), wl = (\<lambda>_. W_Run), pl = (\<lambda>_. P_Idle),
      cnt = (\<lambda>_. 0), want = (\<lambda>_. 1), sig = (\<lambda>_. False)\<rparr>"

inductive sleep_reach :: "('w, 'q) sleep_state \<Rightarrow> bool" where
  start: "sleep_reach sleep_init"
| step: "sleep_reach s \<Longrightarrow> sleep_step s t \<Longrightarrow> sleep_reach t"

text \<open>A worker that waits and has not been signalled.\<close>

definition blocked :: "('w, 'q) sleep_state \<Rightarrow> 'w \<Rightarrow> bool" where
  "blocked s w = (wl s w = W_Wait \<and> \<not> sig s w)"

section \<open>Invariants\<close>

lemma at_simps [simp]:
  "work (at_w w l s) = work s" "idle_list (at_w w l s) = idle_list s" "st (at_w w l s) = st s"
  "wl (at_w w l s) = (wl s)(w := l)" "pl (at_w w l s) = pl s" "cnt (at_w w l s) = cnt s"
  "want (at_w w l s) = want s" "sig (at_w w l s) = sig s"
  "work (at_p q k s) = work s" "idle_list (at_p q k s) = idle_list s" "st (at_p q k s) = st s"
  "wl (at_p q k s) = wl s" "pl (at_p q k s) = (pl s)(q := k)" "cnt (at_p q k s) = cnt s"
  "want (at_p q k s) = want s" "sig (at_p q k s) = sig s"
  by (simp_all add: at_w_def at_p_def)

lemmas sleep_defs = w_step_def w_run_def w_publish_def cas_w_def p_post_def p_pop_def p_notify_def
  p_step_def cas_p_def

text \<open>The state of a worker at each of its locations.\<close>

fun loc_ok :: "wloc \<Rightarrow> thread_state \<Rightarrow> bool" where
  "loc_ok W_Pub s = (s = SLEEP_TEST \<or> s = BUSY)"
| "loc_ok W_Test s = (s = SLEEP_TEST \<or> s = BUSY)"
| "loc_ok W_Back s = (s = SLEEP_TEST \<or> s = BUSY)"
| "loc_ok W_Lock s = (s = SLEEP_TEST \<or> s = BUSY)"
| "loc_ok W_ToSleep s = (s = SLEEP_TEST \<or> s = BUSY)"
| "loc_ok W_Loop s = (s = SLEEP \<or> s = BUSY)"
| "loc_ok W_Wait s = (s = SLEEP \<or> s = BUSY)"
| "loc_ok W_Relock s = (s = SLEEP \<or> s = BUSY)"
| "loc_ok W_Chk s = (s = SLEEP \<or> s = BUSY)"
| "loc_ok _ s = (s = BUSY)"

definition locs_ok :: "('w, 'q) sleep_state \<Rightarrow> bool" where
  "locs_ok s = (\<forall>w. loc_ok (wl s w) (st s w))"

lemma loc_ok_busy: "loc_ok l BUSY" by (cases l) auto

lemma locs_ok_step: "sleep_step s t \<Longrightarrow> locs_ok s \<Longrightarrow> locs_ok t"
proof (induction rule: sleep_step.induct)
  case (worker s w)
  then have "loc_ok (wl s w) (st s w)" by (simp add: locs_ok_def)
  then show ?case
    using worker by (cases "wl s w") (auto simp: sleep_defs locs_ok_def loc_ok_busy)
next
  case (post s q n)
  then show ?case by (simp add: locs_ok_def p_post_def)
next
  case (producer s q)
  then show ?case
    by (cases "pl s q") (auto simp: sleep_defs locs_ok_def loc_ok_busy split: list.splits)
qed

text \<open>A worker that has tested for work, and was not woken since.\<close>

definition inactive :: "('w, 'q) sleep_state \<Rightarrow> 'w \<Rightarrow> bool" where
  "inactive s w =
     (wl s w \<in> {W_Lock, W_ToSleep} \<and> st s w = SLEEP_TEST \<or>
      wl s w \<in> {W_Loop, W_Wait, W_Relock, W_Chk} \<and> st s w = SLEEP)"

definition published :: "wloc \<Rightarrow> bool" where
  "published l = (l \<in> {W_Test, W_Back, W_Lock, W_ToSleep, W_Loop, W_Wait, W_Relock, W_Chk})"

text \<open>A producer has popped the worker and its exchange will find it asleep.\<close>

definition popped :: "('w, 'q) sleep_state \<Rightarrow> 'w \<Rightarrow> bool" where
  "popped s w = (\<exists>q. pl s q = P_Cas1 w \<or> pl s q = P_Cas2 w \<and> st s w = SLEEP)"

definition found_ok :: "('w, 'q) sleep_state \<Rightarrow> bool" where
  "found_ok s =
     (\<forall>w. published (wl s w) \<longrightarrow> st s w \<noteq> BUSY \<longrightarrow> w \<in> set (idle_list s) \<or> popped s w)"

lemma popped_mono:
  "popped s w \<Longrightarrow> (\<And>q. pl s q = P_Cas1 w \<Longrightarrow> pl t q = P_Cas1 w) \<Longrightarrow>
   (\<And>q. pl s q = P_Cas2 w \<Longrightarrow> pl t q = P_Cas2 w) \<Longrightarrow> (st s w = SLEEP \<Longrightarrow> st t w = SLEEP) \<Longrightarrow>
   popped t w"
  unfolding popped_def by blast

lemma popped_other:
  assumes "popped s w" "pl s q \<noteq> P_Cas1 w" "pl s q = P_Cas2 w \<longrightarrow> st s w \<noteq> SLEEP"
    and "\<And>r. r \<noteq> q \<Longrightarrow> pl t r = pl s r" "st t w = st s w"
  shows "popped t w"
proof -
  obtain r where r: "pl s r = P_Cas1 w \<or> pl s r = P_Cas2 w \<and> st s w = SLEEP"
    using assms(1) by (auto simp: popped_def)
  then have "r \<noteq> q" using assms(2,3) by auto
  then show ?thesis using r assms(4) [of r] assms(5) unfolding popped_def by auto
qed

lemma found_ok_step:
  assumes "sleep_step s t" "locs_ok s" "found_ok s"
  shows "found_ok t"
  using assms
proof (induction rule: sleep_step.induct)
  case (worker s w)
  have l: "loc_ok (wl s w) (st s w)" using worker by (simp add: locs_ok_def)
  have other: "v \<in> set (idle_list (w_step w s)) \<or> popped (w_step w s) v"
    if "v \<noteq> w" "v \<in> set (idle_list s) \<or> popped s v" for v
    using that by (cases "wl s w") (auto simp: sleep_defs popped_def)
  have keep: "st (w_step w s) v = st s v \<and> wl (w_step w s) v = wl s v" if "v \<noteq> w" for v
    using that by (cases "wl s w") (auto simp: sleep_defs)
  have self: "w \<in> set (idle_list (w_step w s)) \<or> popped (w_step w s) w"
    if "published (wl (w_step w s) w)" "st (w_step w s) w \<noteq> BUSY"
  proof -
    have f: "published (wl s w) \<longrightarrow> st s w \<noteq> BUSY \<longrightarrow> w \<in> set (idle_list s) \<or> popped s w"
      using worker(2) by (simp add: found_ok_def)
    have pm: "popped (w_step w s) w" if "popped s w" "wl s w \<noteq> W_Enter" "wl s w \<noteq> W_Back"
      by (rule popped_mono [OF that(1)]; cases "wl s w") (use that(2,3) in \<open>auto simp: sleep_defs\<close>)
    show ?thesis
    proof (cases "wl s w = W_Pub \<or> \<not> published (wl s w)")
      case True
      then show ?thesis
        using that by (cases "wl s w") (auto simp: sleep_defs published_def split: if_splits)
    next
      case False
      then have p: "published (wl s w)" "wl s w \<noteq> W_Back" "wl s w \<noteq> W_Enter"
        using that(1) by (auto simp: sleep_defs published_def split: if_splits)
      have b: "st s w \<noteq> BUSY"
        using that(2) p l by (cases "wl s w") (auto simp: sleep_defs split: if_splits)
      have i: "idle_list (w_step w s) = idle_list s"
        using p False by (cases "wl s w") (auto simp: sleep_defs published_def)
      show ?thesis using f p b i pm by auto
    qed
  qed
  show ?case
    unfolding found_ok_def
  proof (intro allI impI)
    fix v
    assume v: "published (wl (w_step w s) v)" "st (w_step w s) v \<noteq> BUSY"
    show "v \<in> set (idle_list (w_step w s)) \<or> popped (w_step w s) v"
      using v self other [of v] keep [of v] worker(2) unfolding found_ok_def by (cases "v = w") auto
  qed
next
  case (post s q n)
  have "popped (p_post q n s) w" if "popped s w" for w
    by (rule popped_other [OF that, of q]) (use post(1) in \<open>auto simp: p_post_def\<close>)
  then show ?case using post(4) by (simp add: found_ok_def p_post_def) blast
next
  case (producer s q)
  note f = producer(3) [unfolded found_ok_def, rule_format]
  have l: "loc_ok (wl s v) (st s v)" for v using producer(2) by (simp add: locs_ok_def)
  have loc: "st s v = SLEEP_TEST \<or> st s v = SLEEP" if "st s v \<noteq> BUSY" for v
    using l [of v] that by (cases "wl s v") auto
  show ?case
    unfolding found_ok_def
  proof (intro allI impI)
    fix v
    assume v: "published (wl (p_step q s) v)" "st (p_step q s) v \<noteq> BUSY"
    have k: "wl (p_step q s) v = wl s v" "st (p_step q s) v = BUSY \<or> st (p_step q s) v = st s v"
      by (cases "pl s q"; auto simp: sleep_defs split: list.splits)+
    then have f': "v \<in> set (idle_list s) \<or> popped s v" using f [of v] v by auto
    have stv: "st (p_step q s) v = st s v" "st s v \<noteq> BUSY" using k(2) v(2) by auto
    have keep: "pl (p_step q s) r = pl s r" if "r \<noteq> q" for r
      using that by (cases "pl s q") (auto simp: sleep_defs split: list.splits)
    have po: "popped (p_step q s) v"
      if "popped s v" "pl s q \<noteq> P_Cas1 v" "pl s q = P_Cas2 v \<longrightarrow> st s v \<noteq> SLEEP"
      by (rule popped_other [OF that(1-3) keep stv(1)])
    show "v \<in> set (idle_list (p_step q s)) \<or> popped (p_step q s) v"
    proof (cases "pl s q")
      case P_Idle
      then show ?thesis using f' by (simp add: p_step_def)
    next
      case P_Pop
      then have "popped s v \<Longrightarrow> popped (p_step q s) v" by (intro po) auto
      moreover have "v \<in> set (idle_list (p_step q s)) \<or> pl (p_step q s) q = P_Cas1 v"
        if "v \<in> set (idle_list s)"
        using that P_Pop by (auto simp: sleep_defs split: list.splits)
      ultimately show ?thesis using f' unfolding popped_def by blast
    next
      case (P_Cas1 w)
      show ?thesis
      proof (cases "v = w")
        case True
        then have "st s w \<noteq> SLEEP_TEST" using stv P_Cas1 by (auto simp: sleep_defs)
        then have "st s w = SLEEP" "pl (p_step q s) q = P_Cas2 w"
          using True loc stv(2) P_Cas1 by (auto simp: sleep_defs)
        then show ?thesis using True stv unfolding popped_def by auto
      next
        case False
        then have "popped s v \<Longrightarrow> popped (p_step q s) v" using P_Cas1 by (intro po) auto
        then show ?thesis using f' P_Cas1 by (auto simp: sleep_defs)
      qed
    next
      case (P_Cas2 w)
      have "st s v \<noteq> SLEEP" if "v = w" using that stv P_Cas2 by (auto simp: sleep_defs)
      then have "popped s v \<Longrightarrow> popped (p_step q s) v" using P_Cas2 by (intro po) auto
      then show ?thesis using f' P_Cas2 by (auto simp: sleep_defs)
    next
      case (P_Notify w)
      then have "popped s v \<Longrightarrow> popped (p_step q s) v" by (intro po) auto
      then show ?thesis using f' P_Notify by (auto simp: sleep_defs)
    qed
  qed
qed

text \<open>While there is work, somebody is on the way to it.\<close>

definition searching :: "('w, 'q) sleep_state \<Rightarrow> 'q \<Rightarrow> bool" where
  "searching s q = (pl s q \<noteq> P_Idle \<and> (\<forall>w. pl s q \<noteq> P_Notify w) \<and> cnt s q = 0)"

definition work_ok :: "('w, 'q) sleep_state \<Rightarrow> bool" where
  "work_ok s =
     ((\<forall>q. pl s q \<noteq> P_Idle \<longrightarrow> 0 < want s q) \<and>
      (0 < work s \<longrightarrow> (\<exists>q. searching s q) \<or> (\<exists>w. \<not> inactive s w) \<or> (\<exists>w. popped s w)))"

lemma work_ok_worker:
  assumes "locs_ok s" "work_ok s"
  shows "work_ok (w_step w s)"
proof -
  let ?t = "w_step w s"
  have l: "loc_ok (wl s w) (st s w)" using assms(1) by (simp add: locs_ok_def)
  have k: "pl ?t = pl s" "cnt ?t = cnt s" "want ?t = want s"
    by (cases "wl s w"; auto simp: sleep_defs)+
  have "(\<exists>q. searching ?t q) \<or> (\<exists>v. \<not> inactive ?t v) \<or> (\<exists>v. popped ?t v)" if "0 < work ?t"
  proof -
    have "0 < work s" using that by (cases "wl s w") (auto simp: sleep_defs split: if_splits)
    then consider q where "searching s q" | v where "\<not> inactive s v" | v where "popped s v"
      using assms(2) by (auto simp: work_ok_def)
    then show ?thesis
    proof cases
      case (1 q)
      then show ?thesis using k by (auto simp: searching_def)
    next
      case (2 v)
      have "\<not> inactive ?t v"
      proof (cases "v = w")
        case True
        then show ?thesis
          using 2 l that by (cases "wl s w") (auto simp: sleep_defs inactive_def split: if_splits)
      next
        case False
        then show ?thesis
          using 2 by (cases "wl s w") (auto simp: sleep_defs inactive_def)
      qed
      then show ?thesis by blast
    next
      case (3 v)
      have "popped ?t v"
        using 3 l by (cases "wl s w") (auto simp: sleep_defs popped_def)
      then show ?thesis by blast
    qed
  qed
  then show ?thesis using assms(2) k by (simp add: work_ok_def)
qed

lemma inactive_published: "inactive s w \<Longrightarrow> published (wl s w) \<and> st s w \<noteq> BUSY"
  by (auto simp: inactive_def published_def)

lemma inactive_found: "found_ok s \<Longrightarrow> inactive s w \<Longrightarrow> w \<in> set (idle_list s) \<or> popped s w"
  using inactive_published [of s w] by (simp add: found_ok_def)

lemma work_ok_pop:
  assumes "locs_ok s" "found_ok s" "work_ok s" "pl s q = P_Pop"
  shows "work_ok (p_pop q s)"
proof -
  let ?t = "p_pop q s"
  have k: "want ?t = want s" "cnt ?t = cnt s" "st ?t = st s" "wl ?t = wl s" "work ?t = work s"
    "\<And>r. r \<noteq> q \<Longrightarrow> pl ?t r = pl s r"
    by (auto simp: p_pop_def split: list.splits)
  have pop: "popped ?t v" if "popped s v" for v
    by (rule popped_other [OF that, of q]) (use assms(4) k in auto)
  have ina: "inactive ?t v = inactive s v" for v using k by (simp add: inactive_def)
  have w: "0 < want s q" using assms(3,4) by (simp add: work_ok_def)
  have "(\<exists>r. searching ?t r) \<or> (\<exists>v. \<not> inactive ?t v) \<or> (\<exists>v. popped ?t v)" if pos: "0 < work s"
  proof -
    consider r where "searching s r" | v where "\<not> inactive s v" | v where "popped s v"
      using assms(3) pos by (auto simp: work_ok_def)
    then show ?thesis
    proof cases
      case (1 r)
      show ?thesis
      proof (cases "r = q")
        case False
        then have "searching ?t r" using 1 k by (simp add: searching_def)
        then show ?thesis by blast
      next
        case True
        then have c: "cnt s q = 0" using 1 by (simp add: searching_def)
        show ?thesis
        proof (cases "idle_list s")
          case Nil
          then show ?thesis using inactive_found [OF assms(2)] pop ina by fastforce
        next
          case (Cons x xs)
          then have "searching ?t q" using c w by (simp add: searching_def p_pop_def)
          then show ?thesis by blast
        qed
      qed
    qed (use pop ina in blast)+
  qed
  moreover have "\<forall>r. pl ?t r \<noteq> P_Idle \<longrightarrow> 0 < want ?t r"
    using assms(3) k w unfolding work_ok_def by metis
  ultimately show ?thesis using k(5) by (simp add: work_ok_def)
qed

lemma popped_cas2:
  assumes "popped s v" "pl s q = P_Cas1 w" "\<not> (v = w \<and> st s w \<noteq> SLEEP)"
  shows "popped (at_p q (P_Cas2 w) s) v"
proof (cases "v = w")
  case True
  then show ?thesis using assms(3) unfolding popped_def by (auto intro!: exI [of _ q])
next
  case False
  then show ?thesis by (intro popped_other [OF assms(1), of q]) (use assms(2) in auto)
qed

lemma work_ok_cas1:
  assumes "work_ok s" "pl s q = P_Cas1 w"
  shows "work_ok (p_step q s)"
proof (cases "st s w = SLEEP_TEST")
  case True
  then have "\<not> inactive (p_step q s) w" using assms(2) by (simp add: sleep_defs inactive_def)
  moreover have "\<forall>r. pl (p_step q s) r \<noteq> P_Idle \<longrightarrow> 0 < want (p_step q s) r"
    using assms True by (simp add: sleep_defs work_ok_def)
  ultimately show ?thesis by (auto simp: work_ok_def)
next
  case False
  then have t: "p_step q s = at_p q (P_Cas2 w) s" using assms(2) by (simp add: sleep_defs)
  have "(\<exists>r. searching (at_p q (P_Cas2 w) s) r) \<or> (\<exists>v. \<not> inactive (at_p q (P_Cas2 w) s) v) \<or>
      (\<exists>v. popped (at_p q (P_Cas2 w) s) v)" if pos: "0 < work s"
  proof -
    consider r where "searching s r" | v where "\<not> inactive s v" | v where "popped s v"
      using assms(1) pos by (auto simp: work_ok_def)
    then show ?thesis
    proof cases
      case (1 r)
      then have "searching (at_p q (P_Cas2 w) s) r" using assms(2) by (auto simp: searching_def)
      then show ?thesis by blast
    next
      case (2 v)
      then have "\<not> inactive (at_p q (P_Cas2 w) s) v" by (simp add: inactive_def)
      then show ?thesis by blast
    next
      case (3 v)
      show ?thesis
      proof (cases "v = w \<and> st s w \<noteq> SLEEP")
        case True
        then have "\<not> inactive (at_p q (P_Cas2 w) s) w" using False by (auto simp: inactive_def)
        then show ?thesis by blast
      next
        case False
        then have "popped (at_p q (P_Cas2 w) s) v"
          using popped_cas2 [OF 3 assms(2)] by blast
        then show ?thesis by blast
      qed
    qed
  qed
  then show ?thesis unfolding t using assms by (simp add: work_ok_def)
qed

lemma work_ok_cas2:
  assumes "work_ok s" "pl s q = P_Cas2 w"
  shows "work_ok (p_step q s)"
proof (cases "st s w = SLEEP")
  case True
  then have "\<not> inactive (p_step q s) w" using assms(2) by (simp add: sleep_defs inactive_def)
  moreover have "\<forall>r. pl (p_step q s) r \<noteq> P_Idle \<longrightarrow> 0 < want (p_step q s) r"
    using assms True by (simp add: sleep_defs work_ok_def)
  ultimately show ?thesis by (auto simp: work_ok_def)
next
  case False
  then have t: "p_step q s = at_p q P_Pop s" using assms(2) by (simp add: sleep_defs)
  have "searching (at_p q P_Pop s) r" if "searching s r" for r
    using that assms(2) by (auto simp: searching_def)
  moreover have "inactive (at_p q P_Pop s) v = inactive s v" for v by (simp add: inactive_def)
  moreover have "popped (at_p q P_Pop s) v" if "popped s v" for v
    by (rule popped_other [OF that, of q]) (use assms(2) False in auto)
  ultimately show ?thesis unfolding t using assms by (simp add: work_ok_def) blast
qed

lemma work_ok_notify:
  assumes "work_ok s" "pl s q = P_Notify w"
  shows "work_ok (p_step q s)"
proof -
  have "searching (p_step q s) r" if "searching s r" for r
    using that assms(2) by (auto simp: searching_def sleep_defs)
  moreover have "inactive (p_step q s) v = inactive s v" for v
    using assms(2) by (simp add: inactive_def sleep_defs)
  moreover have "popped (p_step q s) v" if "popped s v" for v
    by (rule popped_other [OF that, of q]) (use assms(2) in \<open>auto simp: sleep_defs\<close>)
  moreover have "work (p_step q s) = work s" "\<forall>r. pl (p_step q s) r \<noteq> P_Idle \<longrightarrow> 0 < want (p_step q s) r"
    using assms by (auto simp: sleep_defs work_ok_def)
  ultimately show ?thesis using assms(1) by (simp add: work_ok_def) blast
qed

lemma work_ok_step:
  assumes "sleep_step s t" "locs_ok s" "found_ok s" "work_ok s"
  shows "work_ok t"
  using assms
proof (induction rule: sleep_step.induct)
  case (worker s w)
  then show ?case by (intro work_ok_worker)
next
  case (post s q n)
  then have "searching (p_post q n s) q" by (simp add: searching_def p_post_def)
  then show ?case using post by (auto simp: work_ok_def p_post_def)
next
  case (producer s q)
  show ?case
  proof (cases "pl s q")
    case P_Idle
    then show ?thesis using producer by (simp add: p_step_def)
  next
    case P_Pop
    then show ?thesis using work_ok_pop [of s q] producer by (simp add: p_step_def)
  next
    case (P_Cas1 w)
    then show ?thesis using work_ok_cas1 [OF producer(4)] by simp
  next
    case (P_Cas2 w)
    then show ?thesis using work_ok_cas2 [OF producer(4)] by simp
  next
    case (P_Notify w)
    then show ?thesis using work_ok_notify [OF producer(4)] by simp
  qed
qed

text \<open>A worker that was woken, but may still wait, has a notification coming.\<close>

definition sig_ok :: "('w, 'q) sleep_state \<Rightarrow> bool" where
  "sig_ok s =
     (\<forall>w. (wl s w = W_Loop \<or> blocked s w) \<and> st s w = BUSY \<longrightarrow> (\<exists>q. pl s q = P_Notify w))"

lemma sig_ok_step:
  assumes "sleep_step s t" "sig_ok s"
  shows "sig_ok t"
  using assms
proof (induction rule: sleep_step.induct)
  case (worker s w)
  show ?case
    using worker unfolding sig_ok_def
    by (cases "wl s w") (auto simp: sleep_defs blocked_def split: if_splits)
next
  case (post s q n)
  then show ?case unfolding sig_ok_def by (auto simp: p_post_def blocked_def) force+
next
  case (producer s q)
  note g = producer(2) [unfolded sig_ok_def, rule_format]
  show ?case
    unfolding sig_ok_def
  proof (intro allI impI)
    fix v
    let ?t = "p_step q s"
    assume v: "(wl ?t v = W_Loop \<or> blocked ?t v) \<and> st ?t v = BUSY"
    have wl: "wl ?t v = wl s v" by (cases "pl s q") (auto simp: sleep_defs split: list.splits)
    have keep: "pl ?t r = pl s r" if "r \<noteq> q" for r
      using that by (cases "pl s q") (auto simp: sleep_defs split: list.splits)
    show "\<exists>r. pl ?t r = P_Notify v"
    proof (cases "st s v = BUSY \<and> (wl s v = W_Loop \<or> blocked s v)")
      case True
      then obtain r where r: "pl s r = P_Notify v" using g [of v] by blast
      show ?thesis
      proof (cases "r = q")
        case True
        then show ?thesis
          using r v wl producer(1) by (auto simp: sleep_defs blocked_def holds_def)
      qed (use r keep in \<open>auto intro: exI [of _ r]\<close>)
    next
      case False
      then show ?thesis
        using v wl
        by (cases "pl s q") (auto simp: sleep_defs blocked_def split: list.splits if_splits)
    qed
  qed
qed

lemma sleep_reach_inv: "sleep_reach s \<Longrightarrow> locs_ok s \<and> found_ok s \<and> work_ok s \<and> sig_ok s"
proof (induction rule: sleep_reach.induct)
  case start
  then show ?case
    by (simp add: sleep_init_def locs_ok_def found_ok_def work_ok_def sig_ok_def published_def
        blocked_def)
next
  case (step s t)
  then show ?case using locs_ok_step found_ok_step work_ok_step sig_ok_step by blast
qed

text \<open>
  C36. No wakeup is lost: in every interleaving of workers that go to sleep and producers that
  add work and wake workers, when there is work and no producer is in the middle of an
  operation, some worker is not blocked: it runs, is on its way to look for work, or has been
  signalled.
\<close>

theorem no_lost_wakeup:
  assumes "sleep_reach (s :: ('w, 'q) sleep_state)" and "0 < work s" and "pl s = (\<lambda>_. P_Idle)"
  shows "\<exists>w. \<not> blocked s w"
proof -
  have inv: "locs_ok s" "work_ok s" "sig_ok s" using sleep_reach_inv [OF assms(1)] by auto
  have "\<not> searching s q" "\<not> popped s w" for q w
    using assms(3) by (auto simp: searching_def popped_def)
  then obtain w where w: "\<not> inactive s w" using inv(2) assms(2) by (auto simp: work_ok_def)
  have "\<not> blocked s w"
  proof
    assume b: "blocked s w"
    then have "st s w = BUSY"
      using w inv(1) by (auto simp: blocked_def inactive_def locs_ok_def dest: spec [of _ w])
    then show False using inv(3) b assms(3) by (auto simp: sig_ok_def)
  qed
  then show ?thesis ..
qed

text \<open>
  A run to a state of this kind: one worker falls asleep, a producer posts, pops it, wakes it
  and is done.
\<close>

definition mk ::
    "nat \<Rightarrow> unit list \<Rightarrow> thread_state \<Rightarrow> wloc \<Rightarrow> unit ploc \<Rightarrow> nat \<Rightarrow> bool \<Rightarrow> (unit, unit) sleep_state"
where
  "mk wk il s l k c sg =
     \<lparr>work = wk, idle_list = il, st = (\<lambda>_. s), wl = (\<lambda>_. l), pl = (\<lambda>_. k), cnt = (\<lambda>_. c),
      want = (\<lambda>_. 1), sig = (\<lambda>_. sg)\<rparr>"

lemma unit_upd: "f(() := x) = (\<lambda>_. x)"
  by (rule ext) simp

lemmas mk_simps = mk_def sleep_defs at_w_def at_p_def unit_upd

lemma sleep_run_w: "sleep_reach s \<Longrightarrow> w_step () s = t \<Longrightarrow> sleep_reach t"
  using sleep_reach.step [OF _ sleep_step.worker, of s "()"] by simp

lemma sleep_run_p: "sleep_reach s \<Longrightarrow> p_step () s = t \<Longrightarrow> \<not> holds (wl s ()) \<Longrightarrow> sleep_reach t"
  using sleep_reach.step [OF _ sleep_step.producer [of s "()"]] by simp

lemma asleep_reach: "sleep_reach (mk 0 [()] SLEEP W_Wait P_Idle 0 False)"
proof -
  have "sleep_reach (mk 0 [] BUSY W_Run P_Idle 0 False)"
  proof -
    have "sleep_reach (sleep_init :: (unit, unit) sleep_state)" by (rule sleep_reach.start)
    then show ?thesis by (simp add: mk_def sleep_init_def)
  qed
  then have "sleep_reach (mk 0 [] BUSY W_Enter P_Idle 0 False)"
    by (rule sleep_run_w) (simp add: mk_simps)
  then have "sleep_reach (mk 0 [] SLEEP_TEST W_Pub P_Idle 0 False)"
    by (rule sleep_run_w) (simp add: mk_simps)
  then have "sleep_reach (mk 0 [()] SLEEP_TEST W_Test P_Idle 0 False)"
    by (rule sleep_run_w) (simp add: mk_simps)
  then have "sleep_reach (mk 0 [()] SLEEP_TEST W_Lock P_Idle 0 False)"
    by (rule sleep_run_w) (simp add: mk_simps)
  then have "sleep_reach (mk 0 [()] SLEEP_TEST W_ToSleep P_Idle 0 False)"
    by (rule sleep_run_w) (simp add: mk_simps)
  then have "sleep_reach (mk 0 [()] SLEEP W_Loop P_Idle 0 False)"
    by (rule sleep_run_w) (simp add: mk_simps)
  then show ?thesis
    by (rule sleep_run_w) (simp add: mk_simps)
qed

lemma asleep_blocked: "blocked (mk 0 [()] SLEEP W_Wait P_Idle 0 False) ()"
  by (simp add: blocked_def mk_def)

lemma woken_reach: "sleep_reach (mk 1 [] BUSY W_Wait P_Idle 1 True)"
proof -
  have "sleep_step (mk 0 [()] SLEEP W_Wait P_Idle 0 False)
      (p_post () 1 (mk 0 [()] SLEEP W_Wait P_Idle 0 False))"
    by (rule sleep_step.post) (simp_all add: mk_def)
  then have "sleep_reach (mk 1 [()] SLEEP W_Wait P_Pop 0 False)"
    using sleep_reach.step [OF asleep_reach] by (simp add: mk_simps)
  then have "sleep_reach (mk 1 [] SLEEP W_Wait (P_Cas1 ()) 0 False)"
    by (rule sleep_run_p) (simp_all add: mk_simps holds_def)
  then have "sleep_reach (mk 1 [] SLEEP W_Wait (P_Cas2 ()) 0 False)"
    by (rule sleep_run_p) (simp_all add: mk_simps holds_def)
  then have "sleep_reach (mk 1 [] BUSY W_Wait (P_Notify ()) 0 False)"
    by (rule sleep_run_p) (simp_all add: mk_simps holds_def)
  then have "sleep_reach (mk 1 [] BUSY W_Wait P_Pop 1 True)"
    by (rule sleep_run_p) (simp_all add: mk_simps holds_def)
  then show ?thesis
    by (rule sleep_run_p) (simp_all add: mk_simps holds_def)
qed

theorem no_lost_wakeup_witness: "\<exists>w. \<not> blocked (mk 1 [] BUSY W_Wait P_Idle 1 True) w"
  using no_lost_wakeup [OF woken_reach] by (simp add: mk_def)

end
