(* ===== verification/TP_Intf.thy ===== *)
theory TP_Intf
  imports Refcount "HOL-Library.Monad_Syntax"
begin

text \<open>
  The glue between thread pool clients and services: \<open>include/ilias/threadpool_intf.h\<close> and the
  first half of \<open>src/threadpool_intf.cc\<close>. A combiner object is shared by a client side and a
  service side with a reference count each; the first reference of a side holds one reference
  on the object, and the last one that is dropped informs the other side.
\<close>

section \<open>The combiner\<close>

text \<open>
  \<open>told_service\<close> and \<open>told_client\<close> count the calls of \<open>on_client_detach\<close> (the service learns
  that the client is gone) and of \<open>on_service_detach\<close>. The result \<open>None\<close> is a failed assertion
  or a spin on a lock count that only another thread can end.
\<close>

record combiner =
  m_refcnt :: uptr
  m_service_refcnt :: uptr
  m_client_refcnt :: uptr
  m_client_locks :: u32
  m_service_locks :: u32
  told_service :: nat
  told_client :: nat
  c_deleted :: nat

definition combiner_init :: combiner where
  "combiner_init =
     \<lparr>m_refcnt = 0, m_service_refcnt = 0, m_client_refcnt = 0, m_client_locks = 0,
      m_service_locks = 0, told_service = 0, told_client = 0, c_deleted = 0\<rparr>"

definition tp_refcnt_acquire :: "uptr \<Rightarrow> combiner \<Rightarrow> combiner option" where
  "tp_refcnt_acquire n o' =
     (let c = m_refcnt o' in if c < c + n then Some (o'\<lparr>m_refcnt := c + n\<rparr>) else None)"

definition tp_refcnt_release :: "uptr \<Rightarrow> combiner \<Rightarrow> combiner option" where
  "tp_refcnt_release n o' =
     (let c = m_refcnt o'; o' = o'\<lparr>m_refcnt := c - n\<rparr>
      in if c < n then None
         else Some (if c = n then o'\<lparr>c_deleted := c_deleted o' + 1\<rparr> else o'))"

definition service_acquire :: "u32 \<Rightarrow> combiner \<Rightarrow> bool \<times> combiner" where
  "service_acquire n o' =
     (if n = 0 then (False, o')
      else (m_service_refcnt o' = 0, o'\<lparr>m_service_refcnt := m_service_refcnt o' + ucast n\<rparr>))"

definition service_release :: "u32 \<Rightarrow> combiner \<Rightarrow> bool \<times> combiner" where
  "service_release n o' =
     (if n = 0 then (False, o')
      else (let last' = (m_service_refcnt o' = ucast n);
                o' = o'\<lparr>m_service_refcnt := m_service_refcnt o' - ucast n\<rparr>
            in (last', if last' then o'\<lparr>told_client := told_client o' + 1\<rparr> else o')))"

definition client_acquire :: "u32 \<Rightarrow> combiner \<Rightarrow> bool \<times> combiner" where
  "client_acquire n o' =
     (if n = 0 then (False, o')
      else (m_client_refcnt o' = 0, o'\<lparr>m_client_refcnt := m_client_refcnt o' + ucast n\<rparr>))"

definition client_release :: "u32 \<Rightarrow> combiner \<Rightarrow> bool \<times> combiner" where
  "client_release n o' =
     (if n = 0 then (False, o')
      else (let last' = (m_client_refcnt o' = ucast n);
                o' = o'\<lparr>m_client_refcnt := m_client_refcnt o' - ucast n\<rparr>
            in (last', if last' then o'\<lparr>told_service := told_service o' + 1\<rparr> else o')))"

text \<open>Both waits read \<open>m_client_locks\<close>.\<close>

definition client_lock_wait :: "combiner \<Rightarrow> combiner option" where
  "client_lock_wait o' = (if m_client_locks o' = 0 then Some o' else None)"

definition service_lock_wait :: "combiner \<Rightarrow> combiner option" where
  "service_lock_wait o' = (if m_client_locks o' = 0 then Some o' else None)"

definition has_service :: "combiner \<Rightarrow> bool" where
  "has_service o' = (0 < m_service_refcnt o')"

text \<open>\<open>has_client\<close> reads the count of the service.\<close>

definition has_client :: "combiner \<Rightarrow> bool" where
  "has_client o' = (0 < m_service_refcnt o')"

definition client_ar_acquire :: "u32 \<Rightarrow> combiner \<Rightarrow> combiner option" where
  "client_ar_acquire n o' =
     (case client_acquire n o' of (f, o') \<Rightarrow> if f then tp_refcnt_acquire 1 o' else Some o')"

definition client_ar_release :: "u32 \<Rightarrow> combiner \<Rightarrow> combiner option" where
  "client_ar_release n o' =
     (case client_release n o' of
        (l, o') \<Rightarrow>
          if l then do { o' \<leftarrow> client_lock_wait o'; tp_refcnt_release 1 o' } else Some o')"

definition service_ar_acquire :: "u32 \<Rightarrow> combiner \<Rightarrow> combiner option" where
  "service_ar_acquire n o' =
     (case service_acquire n o' of (f, o') \<Rightarrow> if f then tp_refcnt_acquire 1 o' else Some o')"

definition service_ar_release :: "u32 \<Rightarrow> combiner \<Rightarrow> combiner option" where
  "service_ar_release n o' =
     (case service_release n o' of
        (l, o') \<Rightarrow>
          if l then do { o' \<leftarrow> service_lock_wait o'; tp_refcnt_release 1 o' } else Some o')"

text \<open>The guards \<open>threadpool_client_lock\<close> and \<open>threadpool_service_lock\<close>.\<close>

definition client_lock :: "combiner \<Rightarrow> combiner" where
  "client_lock o' = o'\<lparr>m_client_locks := m_client_locks o' + 1\<rparr>"

definition client_unlock :: "combiner \<Rightarrow> combiner" where
  "client_unlock o' = o'\<lparr>m_client_locks := m_client_locks o' - 1\<rparr>"

definition service_lock :: "combiner \<Rightarrow> combiner" where
  "service_lock o' = o'\<lparr>m_service_locks := m_service_locks o' + 1\<rparr>"

definition service_unlock :: "combiner \<Rightarrow> combiner" where
  "service_unlock o' = o'\<lparr>m_service_locks := m_service_locks o' - 1\<rparr>"

section \<open>\<open>threadpool_attach\<close>\<close>

text \<open>
  The arguments are what \<open>attach\<close> of the service and of the client answer: they keep the pointer
  that they are given, or throw, and then their parameter is destroyed. The locals are destroyed
  in the reverse order: the client pointer (unless moved away), and \<open>impl\<close>.
\<close>

definition threadpool_attach ::
    "unit result \<Rightarrow> unit result \<Rightarrow> (unit result \<times> combiner) option" where
  "threadpool_attach service_attach client_attach =
     do {
       impl \<leftarrow> tp_refcnt_acquire 1 combiner_init;
       impl \<leftarrow> client_ar_acquire 1 impl;
       impl \<leftarrow> service_ar_acquire 1 impl;
       (case service_attach of
          Inl e \<Rightarrow>
            do {
              impl \<leftarrow> service_ar_release 1 impl;
              impl \<leftarrow> client_ar_release 1 impl;
              impl \<leftarrow> tp_refcnt_release 1 impl;
              Some (Inl e, impl)
            }
        | Inr _ \<Rightarrow>
            (case client_attach of
               Inl e \<Rightarrow>
                 do {
                   impl \<leftarrow> client_ar_release 1 impl;
                   impl \<leftarrow> tp_refcnt_release 1 impl;
                   Some (Inl e, impl)
                 }
             | Inr _ \<Rightarrow> do { impl \<leftarrow> tp_refcnt_release 1 impl; Some (Inr (), impl) }))
     }"

section \<open>Programs of references\<close>

text \<open>
  \<open>c\<close>, \<open>s\<close> and \<open>d\<close> are the references that the program holds on the client side, on the service
  side and on the object itself. An operation is allowed when the references that it drops are
  held, and, for an acquisition, when some reference keeps the object alive.
\<close>

datatype tp_op =
  Client_acq u32 | Client_rel u32 | Service_acq u32 | Service_rel u32 | Obj_acq u32 | Obj_rel u32

fun tp_exec :: "tp_op \<Rightarrow> combiner \<Rightarrow> combiner option" where
  "tp_exec (Client_acq n) o' = client_ar_acquire n o'"
| "tp_exec (Client_rel n) o' = client_ar_release n o'"
| "tp_exec (Service_acq n) o' = service_ar_acquire n o'"
| "tp_exec (Service_rel n) o' = service_ar_release n o'"
| "tp_exec (Obj_acq n) o' = tp_refcnt_acquire (ucast n) o'"
| "tp_exec (Obj_rel n) o' = tp_refcnt_release (ucast n) o'"

fun tp_run :: "tp_op list \<Rightarrow> combiner \<Rightarrow> combiner option" where
  "tp_run [] o' = Some o'"
| "tp_run (p # ps) o' = Option.bind (tp_exec p o') (tp_run ps)"

type_synonym holds = "nat \<times> nat \<times> nat"

fun tp_holds :: "tp_op \<Rightarrow> holds \<Rightarrow> holds" where
  "tp_holds (Client_acq n) (c, s, d) = (c + unat n, s, d)"
| "tp_holds (Client_rel n) (c, s, d) = (c - unat n, s, d)"
| "tp_holds (Service_acq n) (c, s, d) = (c, s + unat n, d)"
| "tp_holds (Service_rel n) (c, s, d) = (c, s - unat n, d)"
| "tp_holds (Obj_acq n) (c, s, d) = (c, s, d + unat n)"
| "tp_holds (Obj_rel n) (c, s, d) = (c, s, d - unat n)"

definition anyone :: "holds \<Rightarrow> bool" where
  "anyone h = (case h of (c, s, d) \<Rightarrow> 0 < c + s + d)"

fun tp_allowed :: "tp_op \<Rightarrow> holds \<Rightarrow> bool" where
  "tp_allowed (Client_acq n) (c, s, d) = (anyone (c, s, d) \<and> 0 < n)"
| "tp_allowed (Client_rel n) (c, s, d) = (0 < n \<and> unat n \<le> c)"
| "tp_allowed (Service_acq n) (c, s, d) = (anyone (c, s, d) \<and> 0 < n)"
| "tp_allowed (Service_rel n) (c, s, d) = (0 < n \<and> unat n \<le> s)"
| "tp_allowed (Obj_acq n) (c, s, d) = (anyone (c, s, d) \<and> 0 < n)"
| "tp_allowed (Obj_rel n) (c, s, d) = (0 < n \<and> unat n \<le> d)"

text \<open>At most \<open>2 ^ 62\<close> references: no counter overflows.\<close>

definition small :: "holds \<Rightarrow> bool" where
  "small h = (case h of (c, s, d) \<Rightarrow> c < 2 ^ 62 \<and> s < 2 ^ 62 \<and> d < 2 ^ 62)"

fun tp_valid :: "tp_op list \<Rightarrow> holds \<Rightarrow> bool" where
  "tp_valid [] h = small h"
| "tp_valid (p # ps) h = (small h \<and> tp_allowed p h \<and> tp_valid ps (tp_holds p h))"

definition side :: "nat \<Rightarrow> nat" where "side n = (if n = 0 then 0 else 1)"

definition combiner_inv :: "holds \<Rightarrow> combiner \<Rightarrow> bool" where
  "combiner_inv h o' =
     (case h of (c, s, d) \<Rightarrow>
        unat (m_client_refcnt o') = c \<and> unat (m_service_refcnt o') = s \<and>
        unat (m_refcnt o') = side c + side s + d \<and> m_client_locks o' = 0 \<and>
        c_deleted o' = (if anyone h then 0 else 1))"

lemma unat_ucast_u32: "unat (ucast (n :: u32) :: uptr) = unat n"
  using unat_bound [of n] by (simp add: unsigned_ucast_eq take_bit_nat_eq_self)

lemma u32_less: "unat (n :: u32) < 2 ^ 32"
  using unat_bound [of n] by simp

lemma refcnt_acquire_ok:
  assumes "unat (m_refcnt o') + unat n < 2 ^ 64" "0 < n"
  shows "tp_refcnt_acquire n o' = Some (o'\<lparr>m_refcnt := m_refcnt o' + n\<rparr>)"
    "unat (m_refcnt o' + n) = unat (m_refcnt o') + unat n"
proof -
  show u: "unat (m_refcnt o' + n) = unat (m_refcnt o') + unat n"
    using assms(1) by (intro unat_plus_exact) simp
  have "0 < unat n" using assms(2) by (simp add: word_less_nat_alt)
  then have "m_refcnt o' < m_refcnt o' + n" using u by (simp add: word_less_nat_alt)
  then show "tp_refcnt_acquire n o' = Some (o'\<lparr>m_refcnt := m_refcnt o' + n\<rparr>)"
    by (simp add: tp_refcnt_acquire_def)
qed

lemma refcnt_release_ok:
  assumes "unat n \<le> unat (m_refcnt o')"
  shows "tp_refcnt_release n o' = Some (o'\<lparr>m_refcnt := m_refcnt o' - n,
       c_deleted := c_deleted o' + (if unat (m_refcnt o') = unat n then 1 else 0)\<rparr>)"
    "unat (m_refcnt o' - n) = unat (m_refcnt o') - unat n"
  using assms unat_minus_exact [of n "m_refcnt o'"]
  by (auto simp: tp_refcnt_release_def Let_def word_less_nat_alt word_unat_eq_iff)

lemma pos_u32: "0 < (n :: u32) \<Longrightarrow> 0 < unat n \<and> n \<noteq> 0"
  by (auto simp: word_less_nat_alt)

lemma client_acq_ok:
  assumes i: "combiner_inv (c, s, d) o'" and sm: "small (c, s, d)"
    and a: "anyone (c, s, d)" "0 < n"
  shows "\<exists>q. client_ar_acquire n o' = Some q \<and> combiner_inv (c + unat n, s, d) q"
proof -
  have u: "unat (m_client_refcnt o' + ucast n) = c + unat n"
    using i sm u32_less [of n] unat_plus_exact [of "m_client_refcnt o'" "ucast n"]
    by (simp add: combiner_inv_def small_def unat_ucast_u32)
  have b: "unat (m_refcnt o') + unat (1 :: uptr) < 2 ^ 64"
    using i sm by (simp add: combiner_inv_def small_def side_def)
  have z: "(m_client_refcnt o' = 0) = (c = 0)"
    using i by (auto simp: combiner_inv_def unat_eq_zero)
  show ?thesis
    using i a pos_u32 [OF a(2)] u z refcnt_acquire_ok [of "o'\<lparr>m_client_refcnt := x\<rparr>" 1 for x] b
    by (cases "c = 0")
      (auto simp: client_ar_acquire_def client_acquire_def combiner_inv_def side_def anyone_def)
qed

lemma service_acq_ok:
  assumes i: "combiner_inv (c, s, d) o'" and sm: "small (c, s, d)"
    and a: "anyone (c, s, d)" "0 < n"
  shows "\<exists>q. service_ar_acquire n o' = Some q \<and> combiner_inv (c, s + unat n, d) q"
proof -
  have u: "unat (m_service_refcnt o' + ucast n) = s + unat n"
    using i sm u32_less [of n] unat_plus_exact [of "m_service_refcnt o'" "ucast n"]
    by (simp add: combiner_inv_def small_def unat_ucast_u32)
  have b: "unat (m_refcnt o') + unat (1 :: uptr) < 2 ^ 64"
    using i sm by (simp add: combiner_inv_def small_def side_def)
  have z: "(m_service_refcnt o' = 0) = (s = 0)"
    using i by (auto simp: combiner_inv_def unat_eq_zero)
  show ?thesis
    using i a pos_u32 [OF a(2)] u z refcnt_acquire_ok [of "o'\<lparr>m_service_refcnt := x\<rparr>" 1 for x] b
    by (cases "s = 0")
      (auto simp: service_ar_acquire_def service_acquire_def combiner_inv_def side_def anyone_def)
qed

lemma client_rel_ok:
  assumes i: "combiner_inv (c, s, d) o'" and a: "0 < n" "unat n \<le> c"
  shows "\<exists>q. client_ar_release n o' = Some q \<and> combiner_inv (c - unat n, s, d) q"
proof -
  have u: "unat (m_client_refcnt o' - ucast n) = c - unat n"
    using i a unat_minus_exact [of "ucast n" "m_client_refcnt o'"]
    by (simp add: combiner_inv_def unat_ucast_u32)
  have z: "(m_client_refcnt o' = ucast n) = (c = unat n)"
    using i by (auto simp: combiner_inv_def word_unat_eq_iff unat_ucast_u32)
  have p: "0 < c" using a pos_u32 by force
  have b: "unat (1 :: uptr) \<le> unat (m_refcnt o')"
    using i p by (simp add: combiner_inv_def side_def)
  show ?thesis
    using i a pos_u32 [OF a(1)] u z p
      refcnt_release_ok [of 1 "o'\<lparr>m_client_refcnt := x, told_service := y\<rparr>" for x y] b
    by (cases "c = unat n")
      (auto simp: client_ar_release_def client_release_def client_lock_wait_def combiner_inv_def
        side_def anyone_def)
qed

lemma service_rel_ok:
  assumes i: "combiner_inv (c, s, d) o'" and a: "0 < n" "unat n \<le> s"
  shows "\<exists>q. service_ar_release n o' = Some q \<and> combiner_inv (c, s - unat n, d) q"
proof -
  have u: "unat (m_service_refcnt o' - ucast n) = s - unat n"
    using i a unat_minus_exact [of "ucast n" "m_service_refcnt o'"]
    by (simp add: combiner_inv_def unat_ucast_u32)
  have z: "(m_service_refcnt o' = ucast n) = (s = unat n)"
    using i by (auto simp: combiner_inv_def word_unat_eq_iff unat_ucast_u32)
  have p: "0 < s" using a pos_u32 by force
  have b: "unat (1 :: uptr) \<le> unat (m_refcnt o')"
    using i p by (simp add: combiner_inv_def side_def)
  show ?thesis
    using i a pos_u32 [OF a(1)] u z p
      refcnt_release_ok [of 1 "o'\<lparr>m_service_refcnt := x, told_client := y\<rparr>" for x y] b
    by (cases "s = unat n")
      (auto simp: service_ar_release_def service_release_def service_lock_wait_def
        combiner_inv_def side_def anyone_def)
qed

lemma ucast_pos: "0 < (n :: u32) \<Longrightarrow> 0 < (ucast n :: uptr)"
  using pos_u32 [of n] unat_ucast_u32 [of n] by (simp add: word_less_nat_alt)

lemma obj_acq_ok:
  fixes n :: u32
  assumes i: "combiner_inv (c, s, d) o'" and sm: "small (c, s, d)"
    and a: "anyone (c, s, d)" "0 < n"
  shows "\<exists>q. tp_refcnt_acquire (ucast n) o' = Some q \<and> combiner_inv (c, s, d + unat n) q"
proof -
  have "unat (m_refcnt o') + unat (ucast n :: uptr) < 2 ^ 64"
    using i sm u32_less [of n] by (simp add: combiner_inv_def small_def side_def unat_ucast_u32)
  then show ?thesis
    using refcnt_acquire_ok [OF _ ucast_pos [OF a(2)], of o'] i a
    by (auto simp: combiner_inv_def unat_ucast_u32 anyone_def)
qed

lemma obj_rel_ok:
  fixes n :: u32
  assumes i: "combiner_inv (c, s, d) o'" and a: "0 < n" "unat n \<le> d"
  shows "\<exists>q. tp_refcnt_release (ucast n) o' = Some q \<and> combiner_inv (c, s, d - unat n) q"
proof -
  have "unat (ucast n :: uptr) \<le> unat (m_refcnt o')"
    using i a by (simp add: combiner_inv_def unat_ucast_u32)
  then show ?thesis
    using refcnt_release_ok [of "ucast n" o'] i a pos_u32 [OF a(1)]
    by (auto simp: combiner_inv_def unat_ucast_u32 anyone_def side_def split: if_splits)
qed

lemma tp_exec_ok:
  assumes "combiner_inv h o'" "small h" "tp_allowed p h"
  shows "\<exists>q. tp_exec p o' = Some q \<and> combiner_inv (tp_holds p h) q"
proof -
  obtain c s d where h: "h = (c, s, d)" by (cases h) auto
  show ?thesis
    using assms client_acq_ok client_rel_ok service_acq_ok service_rel_ok obj_acq_ok obj_rel_ok
    unfolding h by (cases p) auto
qed

lemma tp_run_ok:
  "combiner_inv h o' \<Longrightarrow> tp_valid ps h \<Longrightarrow>
   \<exists>q. tp_run ps o' = Some q \<and> combiner_inv (fold tp_holds ps h) q"
proof (induction ps arbitrary: h o')
  case Nil
  then show ?case by simp
next
  case (Cons p ps)
  then obtain q where q: "tp_exec p o' = Some q" "combiner_inv (tp_holds p h) q"
    using tp_exec_ok [of h o' p] by auto
  then show ?case using Cons.IH [OF q(2)] Cons.prems(2) by simp
qed

lemma threadpool_attach_ok: "\<exists>q. threadpool_attach (Inr ()) (Inr ()) = Some (Inr (), q) \<and>
    combiner_inv (1, 1, 0) q"
  by (simp add: threadpool_attach_def tp_refcnt_acquire_def tp_refcnt_release_def
      client_ar_acquire_def client_acquire_def service_ar_acquire_def service_acquire_def
      combiner_init_def combiner_inv_def anyone_def side_def)

text \<open>
  C37. Lifetime of the combiner: after a successful attach, in every program of acquisitions and
  releases on the client side, the service side and the object (which drops only what it holds
  and acquires only while something is held), no assertion fails and no release spins; the
  object is deleted once the last reference of all three kinds is dropped, exactly once, and not
  before.
\<close>

theorem combiner_lifetime:
  assumes "tp_valid ps (1, 1, 0)"
  shows "\<exists>o' q. threadpool_attach (Inr ()) (Inr ()) = Some (Inr (), o') \<and> tp_run ps o' = Some q \<and>
     c_deleted q = (if anyone (fold tp_holds ps (1, 1, 0)) then 0 else 1)"
proof -
  obtain o' where "threadpool_attach (Inr ()) (Inr ()) = Some (Inr (), o')"
    "combiner_inv (1, 1, 0) o'" using threadpool_attach_ok by blast
  moreover from this obtain q where "tp_run ps o' = Some q"
    "combiner_inv (fold tp_holds ps (1, 1, 0)) q" using tp_run_ok assms by blast
  ultimately show ?thesis by (auto simp: combiner_inv_def split: prod.splits)
qed

theorem combiner_lifetime_witness:
  "\<exists>o' q. threadpool_attach (Inr ()) (Inr ()) = Some (Inr (), o') \<and>
     tp_run [Service_acq 2, Client_rel 1, Client_acq 1, Service_rel 3, Client_rel 1] o' = Some q \<and>
     c_deleted q = 1"
  using combiner_lifetime [of "[Service_acq 2, Client_rel 1, Client_acq 1, Service_rel 3, Client_rel 1]"]
  by (simp add: small_def anyone_def)

text \<open>
  A throwing \<open>attach\<close> of the service: both sides are told, and the object is deleted. A throwing
  \<open>attach\<close> of the client: the service is told, and keeps its reference.
\<close>

lemma threadpool_attach_service_throws:
  "\<exists>q. threadpool_attach (Inl e) r = Some (Inl e, q) \<and> c_deleted q = 1 \<and> told_client q = 1 \<and>
     told_service q = 1"
  by (simp add: threadpool_attach_def tp_refcnt_acquire_def tp_refcnt_release_def
      client_ar_acquire_def client_acquire_def service_ar_acquire_def service_acquire_def
      client_ar_release_def client_release_def service_ar_release_def service_release_def
      client_lock_wait_def service_lock_wait_def combiner_init_def)

lemma threadpool_attach_client_throws:
  "\<exists>q. threadpool_attach (Inr ()) (Inl e) = Some (Inl e, q) \<and> told_service q = 1 \<and>
     combiner_inv (0, 1, 0) q"
  by (simp add: threadpool_attach_def tp_refcnt_acquire_def tp_refcnt_release_def
      client_ar_acquire_def client_acquire_def service_ar_acquire_def service_acquire_def
      client_ar_release_def client_release_def client_lock_wait_def combiner_init_def
      combiner_inv_def anyone_def side_def)

text \<open>
  The two defects of the locks: \<open>has_client\<close> holds although the last client reference is gone,
  and the release of the last service reference does not wait for a holder of the service lock.
\<close>

lemma has_client_without_client:
  "\<exists>q. threadpool_attach (Inr ()) (Inl e) = Some (Inl e, q) \<and> m_client_refcnt q = 0 \<and> has_client q"
  by (simp add: threadpool_attach_def tp_refcnt_acquire_def tp_refcnt_release_def
      client_ar_acquire_def client_acquire_def service_ar_acquire_def service_acquire_def
      client_ar_release_def client_release_def client_lock_wait_def combiner_init_def
      has_client_def)

lemma service_release_ignores_service_lock:
  assumes "m_service_refcnt o' = 1" "m_client_locks o' = 0" "1 < m_refcnt o'"
  shows "\<exists>q. service_ar_release 1 (service_lock o') = Some q \<and> m_service_refcnt q = 0"
proof -
  have "m_refcnt o' \<noteq> 1" "\<not> m_refcnt o' < 1" using assms(3) by auto
  then show ?thesis
    using assms
    by (simp add: service_ar_release_def service_release_def service_lock_def
        service_lock_wait_def tp_refcnt_release_def)
qed

end
