(* ===== verification/TP_Mux.thy ===== *)
theory TP_Mux
  imports TP_Intf
begin

text \<open>
  The multiplexers of \<open>src/threadpool_intf.cc\<close>: many clients behind one service
  (\<open>tp_service_multiplexer\<close>), one client behind many services (\<open>tp_client_multiplexer\<close>) and
  the service that lets a thread aid (\<open>tp_aid_service\<close>), each operation run without
  interference.
\<close>

section \<open>Many clients behind one service\<close>

datatype work_avail = NO | MAYBE | YES | DETACHED

text \<open>
  Every attached client is represented by one object of the class \<open>threadpool_service\<close>; they are
  numbered. \<open>attached\<close> tells for which of them \<open>has_service()\<close> holds. The clients themselves are
  code outside: \<open>cl\<close> holds their \<open>do_work\<close> and \<open>has_work\<close>, which act on the state \<open>env\<close>;
  \<open>wake\<close> is the \<open>wakeup\<close> of the service that the multiplexer uses, with the state of that service
  in \<open>env\<close> as well.
\<close>

record 'e client_code =
  cl_do_work :: "addr \<Rightarrow> 'e \<Rightarrow> bool \<times> 'e"
  cl_has_work :: "addr \<Rightarrow> 'e \<Rightarrow> bool"
  cl_wake :: "u32 \<Rightarrow> 'e \<Rightarrow> u32 \<times> 'e"

record 'e service_mux =
  work_of :: "addr \<Rightarrow> work_avail"
  m_data :: "addr list"
  m_active :: "addr list"
  m_impl :: bool
  attached :: "addr \<Rightarrow> bool"
  env :: 'e

definition set_work :: "addr \<Rightarrow> work_avail \<Rightarrow> 'e service_mux \<Rightarrow> 'e service_mux" where
  "set_work s w m = m\<lparr>work_of := (work_of m)(s := w)\<rparr>"

text \<open>\<open>link_back\<close> of an element that is linked does nothing.\<close>

definition append_new :: "addr \<Rightarrow> addr list \<Rightarrow> addr list" where
  "append_new s xs = (if s \<in> set xs then xs else xs @ [s])"

definition activate :: "addr \<Rightarrow> 'e service_mux \<Rightarrow> 'e service_mux" where
  "activate s m = m\<lparr>m_active := append_new s (m_active m)\<rparr>"

definition post_deactivate :: "addr \<Rightarrow> 'e service_mux \<Rightarrow> bool \<times> 'e service_mux" where
  "post_deactivate s m =
     (case work_of m s of
        DETACHED \<Rightarrow> (True, m)
      | YES \<Rightarrow> (False, activate s m)
      | MAYBE \<Rightarrow> (False, activate s m)
      | NO \<Rightarrow> (False, m))"

text \<open>
  \<open>invoke_work\<close>. The exchange loop after successful work ends, without interference, with the
  value \<open>YES\<close> unless the client detached meanwhile; \<open>wa\<close> is what its last failed exchange saw
  (\<open>MAYBE\<close> if the first one succeeded).
\<close>

definition set_yes_loop :: "addr \<Rightarrow> 'e service_mux \<Rightarrow> work_avail \<times> 'e service_mux" where
  "set_yes_loop s m =
     (case work_of m s of
        MAYBE \<Rightarrow> (MAYBE, set_work s YES m)
      | NO \<Rightarrow> (NO, set_work s YES m)
      | YES \<Rightarrow> (YES, m)
      | DETACHED \<Rightarrow> (DETACHED, m))"

definition invoke_work :: "'e client_code \<Rightarrow> addr \<Rightarrow> 'e service_mux \<Rightarrow> bool \<times> 'e service_mux" where
  "invoke_work cl s m =
     (let wa = work_of m s;
          m = (if wa = YES then set_work s MAYBE m else m)
      in if wa = NO \<or> wa = DETACHED then (False, m)
         else
           (case cl_do_work cl s (env m) of
              (True, e) \<Rightarrow>
                (case set_yes_loop s (m\<lparr>env := e\<rparr>) of
                   (wa, m) \<Rightarrow> (wa \<noteq> DETACHED, if wa = NO then activate s m else m))
            | (False, e) \<Rightarrow>
                (let m = m\<lparr>env := e\<rparr>
                 in (False, if work_of m s = MAYBE then set_work s NO m else m))))"

definition invoke_test :: "'e client_code \<Rightarrow> addr \<Rightarrow> 'e service_mux \<Rightarrow> bool \<times> 'e service_mux" where
  "invoke_test cl s m =
     (case work_of m s of
        MAYBE \<Rightarrow> (True, m)
      | YES \<Rightarrow> (True, m)
      | DETACHED \<Rightarrow> (False, m)
      | NO \<Rightarrow> (if cl_has_work cl s (env m) then (True, set_work s YES m) else (False, m)))"

text \<open>
  The exchange loop of \<open>wakeup\<close>, as it is written: it goes on while the exchange succeeds, so
  that a value other than \<open>MAYBE\<close> ends it unchanged. The exchange is the weak one: \<open>sp\<close> tells whether
  it fails although the value is the expected one. The answer is the value of \<open>c\<close>, or \<open>None\<close> for the
  early return.
\<close>

fun wakeup_loop :: "bool \<Rightarrow> nat \<Rightarrow> addr \<Rightarrow> work_avail \<Rightarrow> 'e service_mux \<Rightarrow> (work_avail option \<times> 'e service_mux) option"
where
  "wakeup_loop sp 0 s c m = None"
| "wakeup_loop sp (Suc n) s c m =
     (if work_of m s = c \<and> \<not> sp then
        (let m = set_work s YES m
         in if c = YES then Some (Some c, m)
            else if c = DETACHED then Some (None, m) else wakeup_loop sp n s c m)
      else Some (Some (work_of m s), m))"

definition mux_wakeup ::
    "'e client_code \<Rightarrow> bool \<Rightarrow> addr \<Rightarrow> u32 \<Rightarrow> 'e service_mux \<Rightarrow> u32 \<times> 'e service_mux" where
  "mux_wakeup cl sp s n m =
     (if n = 0 \<or> \<not> attached m s then (0, m)
      else
        (case wakeup_loop sp 2 s MAYBE m of
           Some (Some c, m) \<Rightarrow>
             (let m = (if c = NO then activate s m else m)
              in if m_impl m
                 then (case cl_wake cl n (env m) of (r, e) \<Rightarrow> (r, m\<lparr>env := e\<rparr>)) else (0, m))
         | Some (None, m) \<Rightarrow> (0, m)
         | None \<Rightarrow> (0, m)))"

definition mux_on_client_detach :: "addr \<Rightarrow> 'e service_mux \<Rightarrow> 'e service_mux" where
  "mux_on_client_detach s m =
     (if attached m s then activate s (set_work s DETACHED m) else m)"

text \<open>
  \<open>remove_and_dispose_if\<close> over the active list: every element that was in the list at the start
  is visited once, in order. \<open>do_work\<close> takes out those whose \<open>invoke_work\<close> fails.
\<close>

definition work_one :: "'e client_code \<Rightarrow> addr \<Rightarrow> 'e service_mux \<Rightarrow> 'e service_mux" where
  "work_one cl s m =
     (case invoke_work cl s m of
        (True, m) \<Rightarrow> m
      | (False, m) \<Rightarrow>
          (case post_deactivate s (m\<lparr>m_active := remove1 s (m_active m)\<rparr>) of
             (_, m) \<Rightarrow>
               if work_of m s = DETACHED then m\<lparr>m_data := remove1 s (m_data m)\<rparr> else m))"

definition mux_do_work :: "'e client_code \<Rightarrow> 'e service_mux \<Rightarrow> bool \<times> 'e service_mux" where
  "mux_do_work cl m =
     (let m = fold (work_one cl) (m_active m) m in (m_active m \<noteq> [], m))"

definition test_one :: "'e client_code \<Rightarrow> addr \<Rightarrow> 'e service_mux \<Rightarrow> 'e service_mux" where
  "test_one cl s m =
     (case invoke_test cl s m of
        (True, m) \<Rightarrow> m
      | (False, m) \<Rightarrow> m\<lparr>m_active := remove1 s (m_active m)\<rparr>)"

definition mux_has_work :: "'e client_code \<Rightarrow> 'e service_mux \<Rightarrow> bool \<times> 'e service_mux" where
  "mux_has_work cl m =
     (let m = fold (test_one cl) (m_active m) m in (m_active m \<noteq> [], m))"

definition mux_attach_service ::
    "'e client_code \<Rightarrow> bool \<Rightarrow> ptr \<Rightarrow> 'e service_mux \<Rightarrow> unit result \<times> 'e service_mux" where
  "mux_attach_service cl sp p m =
     (case p of
        None \<Rightarrow> (Inl Invalid_argument, m)
      | Some s \<Rightarrow>
          (Inr (), snd (mux_wakeup cl sp s (- 1)
             (m\<lparr>m_data := append_new s (m_data m), m_active := append_new s (m_active m)\<rparr>))))"

definition mux_attach_client ::
    "'e client_code \<Rightarrow> bool \<Rightarrow> 'e service_mux \<Rightarrow> unit result \<times> 'e service_mux" where
  "mux_attach_client cl null m =
     (if null then (Inl Invalid_argument, m)
      else if m_impl m then (Inl Runtime_error, m)
      else
        (let m = m\<lparr>m_impl := True\<rparr>
         in (Inr (), if m_active m \<noteq> [] then m\<lparr>env := snd (cl_wake cl (- 1) (env m))\<rparr> else m)))"

definition mux_clear :: "'e service_mux \<Rightarrow> 'e service_mux" where
  "mux_clear m = m\<lparr>m_data := []\<rparr>"

section \<open>One client behind many services\<close>

text \<open>
  \<open>cm_data\<close> are the attached services (objects of the class \<open>threadpool_client\<close>); \<open>cm_serving\<close>
  tells for which of them \<open>has_service()\<close> holds, \<open>wk\<close> is their \<open>wakeup\<close>.
\<close>

record 'e client_mux =
  cm_data :: "addr list"
  cm_impl :: ptr
  cm_serving :: "addr \<Rightarrow> bool"
  cm_env :: 'e

fun cm_wakeup_loop ::
    "(addr \<Rightarrow> u32 \<Rightarrow> 'e \<Rightarrow> u32 \<times> 'e) \<Rightarrow> u32 \<Rightarrow> addr list \<Rightarrow> u32 \<Rightarrow> 'e client_mux \<Rightarrow>
     u32 \<times> 'e client_mux" where
  "cm_wakeup_loop wk n [] rv m = (rv, m)"
| "cm_wakeup_loop wk n (c # cs) rv m =
     (case wk c n (cm_env m) of
        (k, e) \<Rightarrow>
          cm_wakeup_loop wk n cs (rv + min (n - rv) k)
            (if cm_serving m c then m\<lparr>cm_env := e, cm_data := remove1 c (cm_data m)\<rparr>
             else m\<lparr>cm_env := e\<rparr>))"

definition cm_wakeup ::
    "(addr \<Rightarrow> u32 \<Rightarrow> 'e \<Rightarrow> u32 \<times> 'e) \<Rightarrow> bool \<Rightarrow> u32 \<Rightarrow> 'e client_mux \<Rightarrow> u32 \<times> 'e client_mux" where
  "cm_wakeup wk has_serv n m =
     (if has_serv then cm_wakeup_loop wk n (cm_data m) 0 m else (0, m))"

definition cm_do_work ::
    "(addr \<Rightarrow> 'e \<Rightarrow> bool \<times> 'e) \<Rightarrow> bool \<Rightarrow> 'e client_mux \<Rightarrow> bool \<times> 'e client_mux" where
  "cm_do_work dw has_cl m =
     (if \<not> has_cl then (False, m)
      else
        (case cm_impl m of
           None \<Rightarrow> (False, m)
         | Some i \<Rightarrow> (case dw i (cm_env m) of (r, e) \<Rightarrow> (r, m\<lparr>cm_env := e\<rparr>))))"

definition cm_has_work :: "(addr \<Rightarrow> 'e \<Rightarrow> bool) \<Rightarrow> bool \<Rightarrow> 'e client_mux \<Rightarrow> bool" where
  "cm_has_work hw has_cl m =
     (has_cl \<and> (case cm_impl m of None \<Rightarrow> False | Some i \<Rightarrow> hw i (cm_env m)))"

definition cm_attach_client :: "ptr \<Rightarrow> 'e client_mux \<Rightarrow> unit result \<times> 'e client_mux" where
  "cm_attach_client p m =
     (case p of
        None \<Rightarrow> (Inl Invalid_argument, m)
      | Some c \<Rightarrow> (Inr (), m\<lparr>cm_data := append_new c (cm_data m)\<rparr>))"

definition cm_attach_service :: "ptr \<Rightarrow> 'e client_mux \<Rightarrow> unit result \<times> 'e client_mux" where
  "cm_attach_service p m =
     (if p = None then (Inl Invalid_argument, m)
      else if cm_impl m \<noteq> None then (Inl Runtime_error, m) else (Inr (), m\<lparr>cm_impl := p\<rparr>))"

definition cm_clear :: "'e client_mux \<Rightarrow> 'e client_mux" where "cm_clear m = m\<lparr>cm_data := []\<rparr>"

definition cm_dtor :: "'e client_mux \<Rightarrow> 'e client_mux" where
  "cm_dtor m = cm_clear (m\<lparr>cm_impl := None\<rparr>)"

section \<open>The aid service\<close>

text \<open>
  \<open>ai_p\<close> is the client's side, \<open>m_p\<close> in the code; \<open>ai_cb\<close> the callback, an optional function on
  the environment. \<open>hw\<close> and \<open>dw\<close> are \<open>has_work\<close> and \<open>do_work\<close> of the client behind a pointer.
\<close>

record 'e aid_service =
  ai_p :: ptr
  ai_cb :: "(u32 \<Rightarrow> 'e \<Rightarrow> u32 \<times> 'e) option"
  ai_env :: 'e

definition aid_has_work :: "(addr \<Rightarrow> 'e \<Rightarrow> bool) \<Rightarrow> 'e aid_service \<Rightarrow> bool" where
  "aid_has_work hw a = (case ai_p a of None \<Rightarrow> False | Some p \<Rightarrow> hw p (ai_env a))"

definition aid_do_work :: "(addr \<Rightarrow> 'e \<Rightarrow> bool \<times> 'e) \<Rightarrow> 'e aid_service \<Rightarrow> bool \<times> 'e aid_service" where
  "aid_do_work dw a =
     (case ai_p a of
        None \<Rightarrow> (False, a)
      | Some p \<Rightarrow> (case dw p (ai_env a) of (r, e) \<Rightarrow> (r, a\<lparr>ai_env := e\<rparr>)))"

definition aid_wakeup :: "bool \<Rightarrow> u32 \<Rightarrow> 'e aid_service \<Rightarrow> u32 \<times> 'e aid_service" where
  "aid_wakeup has_serv n a =
     (if n = 0 \<or> \<not> has_serv then (0, a)
      else
        (case ai_cb a of
           None \<Rightarrow> (0, a)
         | Some cb \<Rightarrow> (case cb n (ai_env a) of (r, e) \<Rightarrow> (r, a\<lparr>ai_env := e\<rparr>))))"

definition aid_tell :: "(addr \<Rightarrow> 'e \<Rightarrow> bool) \<Rightarrow> 'e aid_service \<Rightarrow> 'e aid_service" where
  "aid_tell hw a =
     (case ai_cb a of
        None \<Rightarrow> a
      | Some cb \<Rightarrow> if aid_has_work hw a then a\<lparr>ai_env := snd (cb (- 1) (ai_env a))\<rparr> else a)"

definition aid_attach ::
    "(addr \<Rightarrow> 'e \<Rightarrow> bool) \<Rightarrow> ptr \<Rightarrow> 'e aid_service \<Rightarrow> unit result \<times> 'e aid_service" where
  "aid_attach hw p a =
     (if p = None then (Inl Invalid_argument, a)
      else if ai_p a \<noteq> None then (Inl Runtime_error, a)
      else (Inr (), aid_tell hw (a\<lparr>ai_p := p\<rparr>)))"

definition aid_callback ::
    "(addr \<Rightarrow> 'e \<Rightarrow> bool) \<Rightarrow> (u32 \<Rightarrow> 'e \<Rightarrow> u32 \<times> 'e) option \<Rightarrow> 'e aid_service \<Rightarrow> 'e aid_service" where
  "aid_callback hw cb a = aid_tell hw (a\<lparr>ai_cb := cb\<rparr>)"

section \<open>Clients with work are in the active list\<close>

text \<open>
  A client that is attached and flagged \<open>YES\<close> or \<open>MAYBE\<close> is in the active list, so that the next
  \<open>do_work\<close> of the multiplexer asks it. \<open>mux_op\<close> are the operations; a client \<open>s\<close> is attached by
  the first.
\<close>

datatype mux_op = Attach_service bool addr | Attach_client | Wakeup bool addr u32 | Detach addr
  | Do_work | Has_work

definition mux_step :: "'e client_code \<Rightarrow> mux_op \<Rightarrow> 'e service_mux \<Rightarrow> 'e service_mux" where
  "mux_step cl op m =
     (case op of
        Attach_service sp s \<Rightarrow> snd (mux_attach_service cl sp (Some s) m)
      | Attach_client \<Rightarrow> snd (mux_attach_client cl False m)
      | Wakeup sp s n \<Rightarrow> snd (mux_wakeup cl sp s n m)
      | Detach s \<Rightarrow> mux_on_client_detach s m
      | Do_work \<Rightarrow> snd (mux_do_work cl m)
      | Has_work \<Rightarrow> snd (mux_has_work cl m))"

definition mux_init :: "(addr \<Rightarrow> bool) \<Rightarrow> 'e \<Rightarrow> 'e service_mux" where
  "mux_init at e =
     \<lparr>work_of = (\<lambda>_. YES), m_data = [], m_active = [], m_impl = False, attached = at, env = e\<rparr>"

definition ready :: "work_avail \<Rightarrow> bool" where "ready w \<longleftrightarrow> w = YES \<or> w = MAYBE"

definition mux_inv :: "'e service_mux \<Rightarrow> bool" where
  "mux_inv m \<longleftrightarrow>
     (\<forall>s. s \<in> set (m_data m) \<and> ready (work_of m s) \<longrightarrow> s \<in> set (m_active m)) \<and>
     distinct (m_data m) \<and> distinct (m_active m)"

lemma set_append_new [simp]: "set (append_new s xs) = insert s (set xs)"
  by (auto simp: append_new_def)

lemma distinct_append_new [simp]: "distinct (append_new s xs) = distinct xs"
  by (auto simp: append_new_def)

lemma mux_inv_activate: "mux_inv m \<Longrightarrow> mux_inv (activate s m)"
  by (auto simp: mux_inv_def activate_def)

lemma mux_inv_env [simp]: "mux_inv (m\<lparr>env := e\<rparr>) = mux_inv m"
  by (simp add: mux_inv_def)

lemma mux_inv_impl [simp]: "mux_inv (m\<lparr>m_impl := b\<rparr>) = mux_inv m"
  by (simp add: mux_inv_def)

lemma mux_inv_set_work:
  "mux_inv m \<Longrightarrow> ready w \<longrightarrow> s \<in> set (m_data m) \<longrightarrow> s \<in> set (m_active m) \<Longrightarrow>
   mux_inv (set_work s w m)"
  by (auto simp: mux_inv_def set_work_def)

text \<open>The loop of \<open>wakeup\<close>: two rounds are enough.\<close>

lemma wakeup_loop_two:
  "wakeup_loop sp 2 s MAYBE m =
     (case work_of m s of
        MAYBE \<Rightarrow> if sp then Some (Some MAYBE, m) else Some (Some YES, set_work s YES m)
      | w \<Rightarrow> Some (Some w, m))"
  by (cases "work_of m s") (auto simp: numeral_2_eq_2 set_work_def)

lemma mux_inv_wakeup:
  assumes "mux_inv m" shows "mux_inv (snd (mux_wakeup cl sp s n m))"
proof -
  have "work_of m s = MAYBE \<Longrightarrow> mux_inv (set_work s YES m)"
    using assms by (auto simp: mux_inv_def set_work_def ready_def)
  then show ?thesis
    using assms
    by (auto simp: mux_wakeup_def wakeup_loop_two mux_inv_activate Let_def split: work_avail.splits prod.splits)
qed

lemma mux_inv_attach_service:
  "mux_inv m \<Longrightarrow> mux_inv (snd (mux_attach_service cl sp (Some s) m))"
  unfolding mux_attach_service_def option.case snd_conv
  by (rule mux_inv_wakeup) (auto simp: mux_inv_def)

lemma mux_inv_attach_client: "mux_inv m \<Longrightarrow> mux_inv (snd (mux_attach_client cl b m))"
  by (simp add: mux_attach_client_def Let_def)

lemma mux_inv_detach: "mux_inv m \<Longrightarrow> mux_inv (mux_on_client_detach s m)"
  by (simp add: mux_on_client_detach_def mux_inv_activate mux_inv_set_work ready_def)

text \<open>
  One visit: an element that stays in the list keeps the invariant, and one that \<open>invoke_work\<close>
  refuses is flagged \<open>NO\<close> or \<open>DETACHED\<close>.
\<close>

lemma invoke_work_false:
  "invoke_work cl s m = (False, m') \<Longrightarrow> \<not> ready (work_of m' s)"
  by (cases "work_of m s")
    (auto simp: invoke_work_def set_yes_loop_def set_work_def ready_def Let_def
      split: prod.splits bool.splits if_splits)

lemma invoke_work_other:
  "invoke_work cl s m = (r, m') \<Longrightarrow>
   m_data m' = m_data m \<and> m_active m' = m_active m \<and> (\<forall>t. t \<noteq> s \<longrightarrow> work_of m' t = work_of m t) \<and>
   attached m' = attached m \<and> m_impl m' = m_impl m"
  by (cases "work_of m s")
    (auto simp: invoke_work_def set_yes_loop_def set_work_def Let_def
      split: prod.splits bool.splits if_splits)

lemma work_one_inv:
  assumes i: "mux_inv m" and s: "s \<in> set (m_active m)"
  shows "mux_inv (work_one cl s m) \<and>
    (\<forall>t. t \<in> set (m_active m) \<and> t \<noteq> s \<longrightarrow> t \<in> set (m_active (work_one cl s m)))"
proof -
  obtain r m' where e: "invoke_work cl s m = (r, m')" by fastforce
  note o' = invoke_work_other [OF e]
  show ?thesis
  proof (cases r)
    case True
    then show ?thesis using o' i s e by (auto simp: work_one_def mux_inv_def ready_def)
  next
    case False
    then have "\<not> ready (work_of m' s)" using e invoke_work_false by metis
    then have "work_of m' s = NO \<or> work_of m' s = DETACHED"
      by (cases "work_of m' s") (auto simp: ready_def)
    then have "work_one cl s m = m'\<lparr>m_active := remove1 s (m_active m')\<rparr> \<or>
        work_one cl s m = m'\<lparr>m_active := remove1 s (m_active m'), m_data := remove1 s (m_data m')\<rparr>"
      using e False by (auto simp: work_one_def post_deactivate_def)
    moreover have "m_data m' = m_data m" "m_active m' = m_active m"
      "distinct (m_data m)" "distinct (m_active m)"
      using o' i by (simp_all add: mux_inv_def)
    ultimately have w: "set (m_active (work_one cl s m)) = set (m_active m) - {s} \<and>
        distinct (m_active (work_one cl s m)) \<and> work_of (work_one cl s m) = work_of m' \<and>
        set (m_data (work_one cl s m)) \<subseteq> set (m_data m) \<and> distinct (m_data (work_one cl s m))"
      using set_remove1_subset [of s "m_data m"] by auto
    have h: "t \<noteq> s \<and> ready (work_of m t)" if "ready (work_of m' t)" for t
      using that o' \<open>\<not> ready (work_of m' s)\<close> by metis
    have "t \<in> set (m_active m) - {s}" if "t \<in> set (m_data m)" "ready (work_of m' t)" for t
      using h [OF that(2)] that(1) i by (simp add: mux_inv_def)
    then show ?thesis using w by (simp add: mux_inv_def subset_iff)
  qed
qed

lemma fold_work_inv:
  assumes "mux_inv m" "set xs \<subseteq> set (m_active m)" "distinct xs"
  shows "mux_inv (fold (work_one cl) xs m)"
  using assms
proof (induction xs arbitrary: m)
  case (Cons s xs)
  have "mux_inv (work_one cl s m)" "set xs \<subseteq> set (m_active (work_one cl s m))"
    using work_one_inv [of m s cl] Cons.prems by auto
  then show ?case using Cons.IH [of "work_one cl s m"] Cons.prems by simp
qed simp

lemma test_one_inv:
  assumes i: "mux_inv m" and s: "s \<in> set (m_active m)"
  shows "mux_inv (test_one cl s m) \<and>
    (\<forall>t. t \<in> set (m_active m) \<and> t \<noteq> s \<longrightarrow> t \<in> set (m_active (test_one cl s m)))"
  using assms
  by (cases "work_of m s")
    (auto simp: test_one_def invoke_test_def mux_inv_def ready_def set_work_def set_remove1_eq
      split: if_splits)

lemma fold_test_inv:
  assumes "mux_inv m" "set xs \<subseteq> set (m_active m)" "distinct xs"
  shows "mux_inv (fold (test_one cl) xs m)"
  using assms
proof (induction xs arbitrary: m)
  case (Cons s xs)
  have "mux_inv (test_one cl s m)" "set xs \<subseteq> set (m_active (test_one cl s m))"
    using test_one_inv [of m s cl] Cons.prems by auto
  then show ?case using Cons.IH [of "test_one cl s m"] Cons.prems by simp
qed simp

lemma mux_inv_do_work: "mux_inv m \<Longrightarrow> mux_inv (snd (mux_do_work cl m))"
  unfolding mux_do_work_def Let_def snd_conv
  by (rule fold_work_inv) (auto simp: mux_inv_def)

lemma mux_inv_has_work: "mux_inv m \<Longrightarrow> mux_inv (snd (mux_has_work cl m))"
  unfolding mux_has_work_def Let_def snd_conv
  by (rule fold_test_inv) (auto simp: mux_inv_def)

lemma mux_inv_step: "mux_inv m \<Longrightarrow> mux_inv (mux_step cl op m)"
  by (cases op)
    (simp_all add: mux_step_def mux_inv_attach_service mux_inv_attach_client mux_inv_wakeup
      mux_inv_detach mux_inv_do_work mux_inv_has_work)

lemma mux_inv_run: "mux_inv m \<Longrightarrow> mux_inv (fold (mux_step cl) ops m)"
  by (induction ops arbitrary: m) (simp_all add: mux_inv_step)

lemma mux_inv_init: "mux_inv (mux_init at e)" by (simp add: mux_inv_def mux_init_def)

text \<open>
  \<open>asked e s\<close> reads in the environment that \<open>s\<close> was asked for work: \<open>do_work\<close> of a client records
  it, and nothing takes it back.
\<close>

definition records :: "'e client_code \<Rightarrow> ('e \<Rightarrow> addr \<Rightarrow> bool) \<Rightarrow> bool" where
  "records cl asked \<longleftrightarrow>
     (\<forall>s t e. asked (snd (cl_do_work cl s e)) t \<longleftrightarrow> t = s \<or> asked e t)"

lemma invoke_work_asks:
  assumes "records cl asked"
  shows "asked (env m) t \<Longrightarrow> asked (env (snd (invoke_work cl s m))) t"
    and "ready (work_of m s) \<Longrightarrow> asked (env (snd (invoke_work cl s m))) s"
proof -
  obtain r e where c: "cl_do_work cl s (env m) = (r, e)" by fastforce
  then have a: "\<And>t. asked e t \<longleftrightarrow> t = s \<or> asked (env m) t"
    using assms by (metis records_def snd_conv)
  show "asked (env m) t \<Longrightarrow> asked (env (snd (invoke_work cl s m))) t"
    using c a
    by (cases "work_of m s"; cases r)
      (auto simp: invoke_work_def set_yes_loop_def set_work_def activate_def Let_def
        split: work_avail.splits)
  show "ready (work_of m s) \<Longrightarrow> asked (env (snd (invoke_work cl s m))) s"
    using c a
    by (cases "work_of m s"; cases r)
      (auto simp: invoke_work_def set_yes_loop_def set_work_def activate_def ready_def Let_def
        split: work_avail.splits)
qed

lemma work_one_env: "env (work_one cl s m) = env (snd (invoke_work cl s m))"
  by (auto simp: work_one_def post_deactivate_def activate_def
      split: prod.splits bool.splits work_avail.splits)

lemma work_one_other: "t \<noteq> s \<Longrightarrow> work_of (work_one cl s m) t = work_of m t"
  using invoke_work_other [of cl s m "fst (invoke_work cl s m)" "snd (invoke_work cl s m)"]
  by (auto simp: work_one_def post_deactivate_def activate_def
      split: prod.splits bool.splits work_avail.splits)

lemma fold_work_keeps:
  "records cl asked \<Longrightarrow> asked (env m) t \<Longrightarrow> asked (env (fold (work_one cl) xs m)) t"
  by (induction xs arbitrary: m) (simp_all add: work_one_env invoke_work_asks(1))

lemma fold_work_asks:
  assumes "records cl asked"
  shows "s \<in> set xs \<Longrightarrow> ready (work_of m s) \<Longrightarrow> asked (env (fold (work_one cl) xs m)) s"
proof (induction xs arbitrary: m)
  case (Cons t xs)
  show ?case
  proof (cases "t = s")
    case True
    then have "asked (env (work_one cl t m)) s"
      using Cons.prems invoke_work_asks(2) [OF assms] by (simp add: work_one_env)
    then show ?thesis using fold_work_keeps [OF assms] by simp
  next
    case False
    then show ?thesis using Cons by (simp add: work_one_other)
  qed
qed simp

text \<open>
  C38. Whatever operations came before, a client that is attached and flagged \<open>YES\<close> or \<open>MAYBE\<close> is in
  the active list, and the next \<open>do_work\<close> of the multiplexer asks it for work.
\<close>

theorem mux_asks_ready_clients:
  assumes "records cl asked"
    and "m = fold (mux_step cl) ops (mux_init at e)"
    and "s \<in> set (m_data m)" "ready (work_of m s)"
  shows "s \<in> set (m_active m) \<and> asked (env (snd (mux_do_work cl m))) s"
proof -
  have "mux_inv m" using mux_inv_run [OF mux_inv_init] assms(2) by simp
  then have "s \<in> set (m_active m)" using assms(3,4) by (simp add: mux_inv_def)
  then show ?thesis
    using fold_work_asks [OF assms(1)] assms(4) by (simp add: mux_do_work_def Let_def)
qed

definition log_client :: "addr list client_code" where
  "log_client =
     \<lparr>cl_do_work = (\<lambda>s e. (False, s # e)), cl_has_work = (\<lambda>_ _. False), cl_wake = (\<lambda>n e. (n, e))\<rparr>"

theorem mux_asks_ready_clients_witness:
  "let m = fold (mux_step log_client) [Attach_service False 4, Attach_service True 7, Wakeup False 4 1]
             (mux_init (\<lambda>_. True) [])
   in 7 \<in> set (m_active m) \<and> 7 \<in> set (env (snd (mux_do_work log_client m)))"
proof -
  let ?m = "fold (mux_step log_client) [Attach_service False 4, Attach_service True 7, Wakeup False 4 1]
              (mux_init (\<lambda>_. True) [])"
  have 1: "records log_client (\<lambda>e s. s \<in> set e)" by (simp add: records_def log_client_def)
  have 2: "7 \<in> set (m_data ?m)" "ready (work_of ?m 7)"
    by (simp_all add: mux_step_def mux_attach_service_def mux_wakeup_def wakeup_loop_two
        mux_init_def append_new_def ready_def)
  show ?thesis using mux_asks_ready_clients [OF 1 refl 2] by simp
qed

text \<open>
  The wakeup of a client that is flagged \<open>NO\<close> is lost: its exchange loop leaves the flag as it is,
  so that the next \<open>do_work\<close> takes the client out of the active list without asking it. (The loop
  goes on while the exchange succeeds; it has to go on while it fails.)
\<close>

lemma wakeup_of_idle_client_lost:
  assumes "work_of m s = NO" "m_active m = []" "attached m s" "n \<noteq> 0"
    and "\<not> m_impl m"
  shows "mux_do_work cl (snd (mux_wakeup cl sp s n m)) = (False, m)"
  using assms
  by (simp add: mux_wakeup_def wakeup_loop_two Let_def activate_def append_new_def
      mux_do_work_def work_one_def invoke_work_def post_deactivate_def)

text \<open>
  \<open>has_work\<close> takes a client that has detached out of the active list without taking it out of
  \<open>m_data\<close>: no later operation but \<open>clear\<close> drops it.
\<close>

lemma has_work_forgets_detached:
  assumes "work_of m s = DETACHED" "m_active m = [s]"
  shows "mux_has_work cl m = (False, m\<lparr>m_active := []\<rparr>)"
  using assms by (simp add: mux_has_work_def test_one_def invoke_test_def)

text \<open>
  \<open>wakeup\<close> of the client multiplexer drops exactly the services that still serve: those that were
  woken, not those that are gone.
\<close>

lemma cm_wakeup_loop_drops:
  "cm_data (snd (cm_wakeup_loop wk n cs rv m)) =
     fold remove1 (filter (cm_serving m) cs) (cm_data m)"
  by (induction cs arbitrary: rv m) (auto split: prod.splits)

lemma fold_remove1: "distinct xs \<Longrightarrow> fold remove1 zs xs = filter (\<lambda>c. c \<notin> set zs) xs"
  by (induction zs arbitrary: xs)
    (auto simp: distinct_remove1_removeAll removeAll_filter_not_eq intro!: filter_cong)

lemma cm_wakeup_drops_serving:
  assumes "distinct (cm_data m)"
  shows "cm_data (snd (cm_wakeup wk True n m)) = filter (\<lambda>c. \<not> cm_serving m c) (cm_data m)"
  using assms
  by (auto simp: cm_wakeup_def cm_wakeup_loop_drops fold_remove1 intro: filter_cong)

end
