(* ===== verification/Future.thy ===== *)
theory Future
  imports Workq "HOL-Library.Monad_Syntax"
begin

text \<open>
  Promises and futures: \<open>include/ilias/future.h\<close>, \<open>include/ilias/future-inl.h\<close> and
  \<open>src/future.cc\<close>. The shared states live in a heap, in the order of their creation; a promise or
  a future is a pointer to one. The operations here run without interference;
  \<open>Future_Conc\<close> interleaves the completion of a state with the installation of callbacks and
  \<open>Future_Start\<close> the start of a deferred function with its arguments.

  The result \<open>None\<close> of an operation is an abort (a failed assertion, an exception that leaves a
  \<open>noexcept\<close> function, a null pointer that is dereferenced), a wait that only another thread can
  end, or too little fuel; the theorems say with how much fuel there is a result, or that there
  is none for any.
\<close>

section \<open>Shared states\<close>

datatype state_t =
  Uninitialized | Uninitialized_deferred | Uninitialized_convert | Ready_value | Ready_exc

definition ready_t :: "state_t \<Rightarrow> bool" where "ready_t s \<longleftrightarrow> s = Ready_value \<or> s = Ready_exc"

text \<open>Exceptions: those of the user's functions and those of the library.\<close>

datatype 'x exn = Thrown 'x | Lib cxx_error

text \<open>
  An argument of a deferred function is a value or a future. A function is an ordinary one, or
  it is marked by \<open>pass_promise\<close>; then it gets the promise, and what it does with it is
  \<open>Fulfil\<close> (assign a result and drop the promise), \<open>Drop_promise\<close>, \<open>Keep_promise\<close> (move it
  elsewhere) or \<open>Throw_out\<close> (throw, the promise being destroyed).
\<close>

datatype 'v arg = Val 'v | Fut ptr

datatype ('v, 'x) pass_end =
  Fulfil "'x exn + 'v" | Drop_promise | Keep_promise | Throw_out "'x exn"

datatype ('v, 'x) fun_object =
  Plain "'v list \<Rightarrow> 'x exn + 'v" | Pass "'v list \<Rightarrow> ('v, 'x) pass_end"

text \<open>
  The arguments of \<open>op\<close> in \<open>invoke_deferred_\<close> are evaluated in an order that the compiler chooses; a
  function carries this order, the positions of its arguments.
\<close>

datatype ('v, 'x) kind =
  Nofn
| Fn "nat list" "('v, 'x) fun_object" "'v arg list"
| Wqjob "nat list" "('v, 'x) fun_object" "'v arg list"

record ('v, 'x) conv =
  c_fn :: "'v \<Rightarrow> 'x exn + 'v"
  c_src :: ptr
  c_prom :: ptr

text \<open>Dependants: the placeholder, a deferred function, and a converter of either kind.\<close>

datatype dep = Noop | Dep_fn addr | Dep_conv addr | Dep_conv_shared addr

text \<open>
  Callbacks are user code, known by a number. The counter \<open>need_resolution_\<close> stays at or below
  the number of arguments plus one and is a natural number.
\<close>

record ('v, 'x) shared_state =
  fs_state :: state_t
  fs_storage :: "('x exn + 'v) option"
  fs_shared :: bool
  fs_called :: bool
  fs_async :: bool
  fs_promises :: uptr
  fs_ready_cb :: "nat option"
  fs_shared_cbs :: "nat list"
  fs_deps :: "dep list"
  fs_kind :: "('v, 'x) kind"
  fs_need :: nat
  fs_self :: bool
  fs_convert :: "('v, 'x) conv option"

text \<open>
  \<open>f_fired\<close> records the calls of callbacks, \<open>f_jobs\<close> the activated jobs. \<open>f_unlocks\<close> is set when
  a mutex is unlocked twice, \<open>f_wild\<close> when the uninitialised pointer \<open>chain\<close> is followed; both
  are undefined behaviour, and the model goes on as if nothing had happened.
\<close>

record ('v, 'x) fheap =
  f_cells :: "addr \<Rightarrow> ('v, 'x) shared_state option"
  f_next :: addr
  f_fired :: "(nat \<times> addr) list"
  f_jobs :: "addr list"
  f_unlocks :: bool
  f_wild :: bool

definition fheap_init :: "('v, 'x) fheap" where
  "fheap_init =
     \<lparr>f_cells = (\<lambda>_. None), f_next = 0, f_fired = [], f_jobs = [], f_unlocks = False,
      f_wild = False\<rparr>"

definition upd ::
    "addr \<Rightarrow> (('v, 'x) shared_state \<Rightarrow> ('v, 'x) shared_state) \<Rightarrow> ('v, 'x) fheap \<Rightarrow> ('v, 'x) fheap"
where
  "upd a g h = h\<lparr>f_cells := (f_cells h)(a := map_option g (f_cells h a))\<rparr>"

definition shared_state_ctor :: "('v, 'x) kind \<Rightarrow> bool \<Rightarrow> ('v, 'x) shared_state" where
  "shared_state_ctor k deferred =
     \<lparr>fs_state = (if deferred then Uninitialized_deferred else Uninitialized), fs_storage = None,
      fs_shared = False, fs_called = False, fs_async = False, fs_promises = 0, fs_ready_cb = None,
      fs_shared_cbs = [], fs_deps = [], fs_kind = k, fs_need = 1, fs_self = False,
      fs_convert = None\<rparr>"

definition new_state ::
    "('v, 'x) shared_state \<Rightarrow> ('v, 'x) fheap \<Rightarrow> addr \<times> ('v, 'x) fheap" where
  "new_state c h =
     (f_next h, h\<lparr>f_cells := (f_cells h)(f_next h \<mapsto> c), f_next := f_next h + 1\<rparr>)"

section \<open>The operations of the library that call each other\<close>

text \<open>
  Starting a state and completing a state call each other, through the arguments, the
  dependants and the converters. The definitions of this section take these two, for the nested
  calls, as an argument \<open>rc\<close>; \<open>exec\<close> ties the knot.
\<close>

datatype ('v, 'x) call = Start bool addr | Complete addr "'x exn + 'v"

type_synonym ('v, 'x) rc =
  "('v, 'x) call \<Rightarrow> ('v, 'x) fheap \<Rightarrow> (unit result \<times> ('v, 'x) fheap) option"

definition noexc :: "(('e + unit) \<times> 'h) option \<Rightarrow> 'h option" where
  "noexc m = do { (r, h) \<leftarrow> m; (case r of Inl _ \<Rightarrow> None | Inr _ \<Rightarrow> Some h) }"

definition state_wait :: "('v, 'x) rc \<Rightarrow> addr \<Rightarrow> ('v, 'x) fheap \<Rightarrow> ('v, 'x) fheap option" where
  "state_wait rc a h =
     do {
       h \<leftarrow> noexc (rc (Start False a) h);
       c \<leftarrow> f_cells h a;
       if ready_t (fs_state c) then Some h else None
     }"

definition state_get ::
    "('v, 'x) rc \<Rightarrow> addr \<Rightarrow> ('v, 'x) fheap \<Rightarrow> (('x exn + 'v) \<times> ('v, 'x) fheap) option" where
  "state_get rc a h =
     do {
       h \<leftarrow> state_wait rc a h;
       c \<leftarrow> f_cells h a;
       r \<leftarrow> fs_storage c;
       Some (r, h)
     }"

definition add_promise :: "addr \<Rightarrow> ('v, 'x) fheap \<Rightarrow> ('v, 'x) fheap" where
  "add_promise a h = upd a (\<lambda>c. c\<lparr>fs_promises := fs_promises c + 1\<rparr>) h"

definition remove_promise :: "('v, 'x) rc \<Rightarrow> addr \<Rightarrow> ('v, 'x) fheap \<Rightarrow> ('v, 'x) fheap option" where
  "remove_promise rc a h =
     do {
       c \<leftarrow> f_cells h a;
       let h = upd a (\<lambda>c. c\<lparr>fs_promises := fs_promises c - 1\<rparr>) h;
       if fs_promises c = 1 \<and> fs_state c = Uninitialized
       then noexc (rc (Complete a (Inl (Lib (Future_error Broken_promise)))) h)
       else Some h
     }"

text \<open>
  \<open>resolve_future\<close> on every argument, in the order \<open>ord\<close>; the first exception ends the evaluation, and
  else the values are those of the arguments by position.
\<close>

definition eval_order :: "nat list \<Rightarrow> 'v arg list \<Rightarrow> bool" where
  "eval_order ord args \<longleftrightarrow> distinct ord \<and> set ord = set [0..<length args]"

definition resolve_future ::
    "('v, 'x) rc \<Rightarrow> 'v arg \<Rightarrow> ('v, 'x) fheap \<Rightarrow> (('x exn + 'v) \<times> ('v, 'x) fheap) option"
where
  "resolve_future rc x h =
     (case x of
        Val v \<Rightarrow> Some (Inr v, h)
      | Fut None \<Rightarrow> Some (Inl (Lib (Future_error No_state)), h)
      | Fut (Some a) \<Rightarrow> state_get rc a h)"

fun resolve_in_order ::
    "('v, 'x) rc \<Rightarrow> 'v arg list \<Rightarrow> nat list \<Rightarrow> ('v, 'x) fheap \<Rightarrow>
     (('x exn + (nat \<Rightarrow> 'v option)) \<times> ('v, 'x) fheap) option"
where
  "resolve_in_order rc args [] h = Some (Inr (\<lambda>_. None), h)"
| "resolve_in_order rc args (i # is) h =
     do {
       (r, h) \<leftarrow> resolve_future rc (args ! i) h;
       (case r of
          Inl e \<Rightarrow> Some (Inl e, h)
        | Inr v \<Rightarrow>
            do { (r, h) \<leftarrow> resolve_in_order rc args is h; Some (map_sum id (\<lambda>m. m(i \<mapsto> v)) r, h) })
     }"

definition resolve_args ::
    "('v, 'x) rc \<Rightarrow> nat list \<Rightarrow> 'v arg list \<Rightarrow> ('v, 'x) fheap \<Rightarrow>
     (('x exn + 'v list) \<times> ('v, 'x) fheap) option"
where
  "resolve_args rc ord args h =
     do {
       (r, h) \<leftarrow> resolve_in_order rc args ord h;
       Some (map_sum id (\<lambda>m. map (\<lambda>i. the (m i)) [0..<length args]) r, h)
     }"

fun start_args :: "('v, 'x) rc \<Rightarrow> 'v arg list \<Rightarrow> ('v, 'x) fheap \<Rightarrow> ('v, 'x) fheap option" where
  "start_args rc [] h = Some h"
| "start_args rc (Val v # as) h = start_args rc as h"
| "start_args rc (Fut None # as) h = None"
| "start_args rc (Fut (Some a) # as) h =
     do { h \<leftarrow> noexc (rc (Start False a) h); start_args rc as h }"

text \<open>
  \<open>shared_state_fn_invoke_and_assign::op\<close> and \<open>invoke_deferred_\<close>: the function runs on the
  resolved arguments, and an exception that it throws is assigned. \<open>noexc\<close> is the exception that
  leaves the handler, out of a \<open>noexcept\<close> function.
\<close>

definition invoke_and_assign ::
    "('v, 'x) rc \<Rightarrow> addr \<Rightarrow> ('v, 'x) fun_object \<Rightarrow> 'v list \<Rightarrow> ('v, 'x) fheap \<Rightarrow>
     (('x exn + unit) \<times> ('v, 'x) fheap) option" where
  "invoke_and_assign rc a fn vs h =
     (case fn of
        Plain f \<Rightarrow>
          (case f vs of
             Inl e \<Rightarrow> Some (Inl e, h)
           | Inr v \<Rightarrow> do { (r, h) \<leftarrow> rc (Complete a (Inr v)) h; Some (map_sum Lib id r, h) })
      | Pass g \<Rightarrow>
          (let h = add_promise a h
           in case g vs of
                Keep_promise \<Rightarrow> Some (Inr (), h)
              | Drop_promise \<Rightarrow> do { h \<leftarrow> remove_promise rc a h; Some (Inr (), h) }
              | Throw_out e \<Rightarrow> do { h \<leftarrow> remove_promise rc a h; Some (Inl e, h) }
              | Fulfil x \<Rightarrow>
                  do {
                    (r, h) \<leftarrow> rc (Complete a x) h;
                    h \<leftarrow> remove_promise rc a h;
                    Some (map_sum Lib id r, h)
                  }))"

definition invoke_fn ::
    "('v, 'x) rc \<Rightarrow> addr \<Rightarrow> nat list \<Rightarrow> ('v, 'x) fun_object \<Rightarrow> 'v arg list \<Rightarrow> ('v, 'x) fheap \<Rightarrow>
     ('v, 'x) fheap option" where
  "invoke_fn rc a ord fn args h =
     do {
       (r, h) \<leftarrow> resolve_args rc ord args h;
       (r, h) \<leftarrow> (case r of
                    Inl e \<Rightarrow> Some (Inl e, h)
                  | Inr vs \<Rightarrow> invoke_and_assign rc a fn vs h);
       (case r of
          Inl e \<Rightarrow> noexc (rc (Complete a (Inl e)) h)
        | Inr _ \<Rightarrow> Some h)
     }"

definition activate_job :: "addr \<Rightarrow> ('v, 'x) fheap \<Rightarrow> ('v, 'x) fheap" where
  "activate_job a h = h\<lparr>f_jobs := f_jobs h @ [a]\<rparr>"

text \<open>The virtual \<open>invoke_deferred\<close>.\<close>

definition invoke_deferred :: "('v, 'x) rc \<Rightarrow> addr \<Rightarrow> ('v, 'x) fheap \<Rightarrow> ('v, 'x) fheap option" where
  "invoke_deferred rc a h =
     do {
       c \<leftarrow> f_cells h a;
       (case fs_kind c of
          Nofn \<Rightarrow> None
        | Fn ord fn args \<Rightarrow> invoke_fn rc a ord fn args h
        | Wqjob ord fn args \<Rightarrow> if fs_self c then Some (activate_job a h) else None)
     }"

text \<open>\<open>need_resolution_.fetch_sub(1)\<close>, and the call when it was the last.\<close>

definition resolve_one :: "('v, 'x) rc \<Rightarrow> addr \<Rightarrow> ('v, 'x) fheap \<Rightarrow> ('v, 'x) fheap option" where
  "resolve_one rc a h =
     do {
       c \<leftarrow> f_cells h a;
       let h = upd a (\<lambda>c. c\<lparr>fs_need := fs_need c - 1\<rparr>) h;
       if fs_need c = 1 then invoke_deferred rc a h else Some h
     }"

text \<open>\<open>shared_state<T>::do_start_deferred\<close> with the one of \<open>shared_state_base\<close>.\<close>

definition do_start_base ::
    "('v, 'x) rc \<Rightarrow> bool \<Rightarrow> addr \<Rightarrow> ('v, 'x) fheap \<Rightarrow> ('v, 'x) fheap option" where
  "do_start_base rc async a h =
     do {
       c \<leftarrow> f_cells h a;
       (case fs_convert c of
          Some cv \<Rightarrow>
            (case c_src cv of
               None \<Rightarrow> None
             | Some s \<Rightarrow> noexc (rc (Start async s) h))
        | None \<Rightarrow>
            if fs_state c = Uninitialized_deferred \<or> fs_state c = Uninitialized_convert then None
            else Some h)
     }"

definition clear_deferred :: "addr \<Rightarrow> ('v, 'x) fheap \<Rightarrow> ('v, 'x) fheap" where
  "clear_deferred a h =
     upd a (\<lambda>c. if fs_state c = Uninitialized_deferred then c\<lparr>fs_state := Uninitialized\<rparr> else c) h"

definition do_start_fn ::
    "('v, 'x) rc \<Rightarrow> bool \<Rightarrow> addr \<Rightarrow> 'v arg list \<Rightarrow> ('v, 'x) fheap \<Rightarrow> ('v, 'x) fheap option" where
  "do_start_fn rc async a args h =
     do {
       c \<leftarrow> f_cells h a;
       if \<not> async \<and> fs_state c = Uninitialized_deferred then
         do {
           h \<leftarrow> start_args rc args (clear_deferred a h);
           resolve_one rc a h
         }
       else if fs_state c \<noteq> Uninitialized_deferred then do_start_base rc async a h
       else Some h
     }"

definition do_start_deferred ::
    "('v, 'x) rc \<Rightarrow> bool \<Rightarrow> addr \<Rightarrow> ('v, 'x) fheap \<Rightarrow> ('v, 'x) fheap option" where
  "do_start_deferred rc async a h =
     do {
       c \<leftarrow> f_cells h a;
       (case fs_kind c of
          Nofn \<Rightarrow> do_start_base rc async a h
        | Fn ord fn args \<Rightarrow> do_start_fn rc async a args h
        | Wqjob ord fn args \<Rightarrow>
            if fs_self c then None
            else if fs_state c = Uninitialized_deferred
                 then do_start_fn rc False a args (upd a (\<lambda>c. c\<lparr>fs_self := True\<rparr>) h)
                 else do_start_base rc async a h)
     }"

definition start_deferred ::
    "('v, 'x) rc \<Rightarrow> bool \<Rightarrow> addr \<Rightarrow> ('v, 'x) fheap \<Rightarrow> ('v, 'x) fheap option" where
  "start_deferred rc async a h =
     do_start_deferred rc async a
       (upd a (\<lambda>c. c\<lparr>fs_called := True, fs_async := fs_async c \<or> async\<rparr>) h)"

text \<open>
  The callbacks of dependants. A dependant that is gone is skipped, as a weak pointer does.
\<close>

definition dependant_cb :: "('v, 'x) rc \<Rightarrow> addr \<Rightarrow> ('v, 'x) fheap \<Rightarrow> ('v, 'x) fheap option" where
  "dependant_cb rc a h = (case f_cells h a of None \<Rightarrow> Some h | Some _ \<Rightarrow> resolve_one rc a h)"

definition clear_convert :: "addr \<Rightarrow> ('v, 'x) fheap \<Rightarrow> ('v, 'x) fheap" where
  "clear_convert a h =
     upd a (\<lambda>c. if fs_state c = Uninitialized_convert then c\<lparr>fs_state := Uninitialized\<rparr> else c) h"

definition upd_conv ::
    "addr \<Rightarrow> (('v, 'x) conv \<Rightarrow> ('v, 'x) conv) \<Rightarrow> ('v, 'x) fheap \<Rightarrow> ('v, 'x) fheap" where
  "upd_conv a g h = upd a (\<lambda>c. c\<lparr>fs_convert := map_option g (fs_convert c)\<rparr>) h"

text \<open>\<open>install_value\<close> and \<open>install_exc\<close> of the converter at \<open>a\<close>.\<close>

definition install ::
    "('v, 'x) rc \<Rightarrow> addr \<Rightarrow> ('v, 'x) conv \<Rightarrow> 'x exn + 'v \<Rightarrow> ('v, 'x) fheap \<Rightarrow>
     (('x exn + unit) \<times> ('v, 'x) fheap) option" where
  "install rc a cv x h =
     (let h = upd_conv a (\<lambda>cv. cv\<lparr>c_prom := None\<rparr>) h
      in case c_prom cv of
           None \<Rightarrow> Some (Inr (), h)
         | Some p \<Rightarrow>
             do { (r, h) \<leftarrow> rc (Complete p x) (clear_convert p h); Some (map_sum Lib id r, h) })"

definition convert_result ::
    "('v, 'x) rc \<Rightarrow> ('v, 'x) conv \<Rightarrow> ('v, 'x) fheap \<Rightarrow>
     (('x exn + 'v) \<times> ('v, 'x) fheap) option" where
  "convert_result rc cv h =
     do {
       s \<leftarrow> c_src cv;
       (r, h) \<leftarrow> state_get rc s h;
       Some ((case r of Inl e \<Rightarrow> Inl e | Inr v \<Rightarrow> c_fn cv v), h)
     }"

definition conv_of :: "addr \<Rightarrow> ('v, 'x) fheap \<Rightarrow> ('v, 'x) conv option" where
  "conv_of a h = Option.bind (f_cells h a) fs_convert"

definition conv_cb :: "('v, 'x) rc \<Rightarrow> addr \<Rightarrow> ('v, 'x) fheap \<Rightarrow> ('v, 'x) fheap option" where
  "conv_cb rc a h =
     (case conv_of a h of
        None \<Rightarrow> Some h
      | Some cv \<Rightarrow>
          do {
            (x, h) \<leftarrow> convert_result rc cv h;
            (r, h) \<leftarrow> (case x of Inl e \<Rightarrow> Some (Inl e, h) | Inr v \<Rightarrow> install rc a cv (Inr v) h);
            cv \<leftarrow> conv_of a h;
            h \<leftarrow> (case r of Inl e \<Rightarrow> noexc (install rc a cv (Inl e) h) | Inr _ \<Rightarrow> Some h);
            Some (upd_conv a (\<lambda>cv. cv\<lparr>c_src := None\<rparr>) h)
          })"

text \<open>\<open>dependant_cb_shared_\<close> has no handler.\<close>

definition conv_cb_shared :: "('v, 'x) rc \<Rightarrow> addr \<Rightarrow> ('v, 'x) fheap \<Rightarrow> ('v, 'x) fheap option" where
  "conv_cb_shared rc a h =
     (case conv_of a h of
        None \<Rightarrow> Some h
      | Some cv \<Rightarrow>
          do {
            (x, h) \<leftarrow> convert_result rc cv h;
            h \<leftarrow> (case x of Inl e \<Rightarrow> None | Inr v \<Rightarrow> noexc (install rc a cv (Inr v) h));
            Some (upd_conv a (\<lambda>cv. cv\<lparr>c_src := None\<rparr>) h)
          })"

definition run_dep :: "('v, 'x) rc \<Rightarrow> dep \<Rightarrow> ('v, 'x) fheap \<Rightarrow> ('v, 'x) fheap option" where
  "run_dep rc d h =
     (case d of
        Noop \<Rightarrow> Some h
      | Dep_fn a \<Rightarrow> dependant_cb rc a h
      | Dep_conv a \<Rightarrow> conv_cb rc a h
      | Dep_conv_shared a \<Rightarrow> conv_cb_shared rc a h)"

fun run_deps :: "('v, 'x) rc \<Rightarrow> dep list \<Rightarrow> ('v, 'x) fheap \<Rightarrow> ('v, 'x) fheap option" where
  "run_deps rc [] h = Some h"
| "run_deps rc (d # ds) h = do { h \<leftarrow> run_dep rc d h; run_deps rc ds h }"

definition invoke_ready_cb :: "('v, 'x) rc \<Rightarrow> addr \<Rightarrow> ('v, 'x) fheap \<Rightarrow> ('v, 'x) fheap option" where
  "invoke_ready_cb rc a h =
     do {
       c \<leftarrow> f_cells h a;
       let h = upd a (\<lambda>c. c\<lparr>fs_ready_cb := None, fs_shared_cbs := [], fs_deps := []\<rparr>) h;
       let cbs = (case fs_ready_cb c of None \<Rightarrow> [] | Some i \<Rightarrow> [i]) @ fs_shared_cbs c;
       run_deps rc (fs_deps c) (h\<lparr>f_fired := f_fired h @ map (\<lambda>i. (i, a)) cbs\<rparr>)
     }"

text \<open>\<open>set_value\<close> and \<open>set_exc\<close> of the shared state, with \<open>set_ready_val\<close> and \<open>set_ready_exc\<close>.\<close>

definition complete ::
    "('v, 'x) rc \<Rightarrow> addr \<Rightarrow> 'x exn + 'v \<Rightarrow> ('v, 'x) fheap \<Rightarrow>
     (unit result \<times> ('v, 'x) fheap) option" where
  "complete rc a x h =
     do {
       c \<leftarrow> f_cells h a;
       if fs_state c \<noteq> Uninitialized then Some (Inl (Future_error Promise_already_satisfied), h)
       else
         do {
           h \<leftarrow> invoke_ready_cb rc a
                 (upd a (\<lambda>c. c\<lparr>fs_storage := Some x,
                              fs_state := (case x of Inl _ \<Rightarrow> Ready_exc | Inr _ \<Rightarrow> Ready_value)\<rparr>) h);
           Some (Inr (), h)
         }
     }"

primrec exec :: "nat \<Rightarrow> ('v, 'x) rc" where
  "exec 0 = (\<lambda>c h. None)"
| "exec (Suc n) =
     (\<lambda>c h. case c of
        Start async a \<Rightarrow> map_option (Pair (Inr ())) (start_deferred (exec n) async a h)
      | Complete a x \<Rightarrow> complete (exec n) a x h)"

end
