(* ===== verification/Future_Handle.thy ===== *)
theory Future_Handle
  imports Future
begin

text \<open>
  The handles of \<open>include/ilias/future.h\<close>: \<open>cb_promise\<close>, \<open>cb_future\<close> and \<open>shared_cb_future\<close> are
  pointers to a shared state, \<open>None\<close> when there is none. The variants for references and \<open>void\<close>
  differ from the general ones only in how a value is stored. \<open>n\<close> is the fuel.
\<close>

section \<open>Callbacks and dependants\<close>

definition at_state :: "addr \<Rightarrow> ('v, 'x) fheap \<Rightarrow> state_t option" where
  "at_state a h = map_option fs_state (f_cells h a)"

definition add_dep :: "dep \<Rightarrow> addr \<Rightarrow> ('v, 'x) fheap \<Rightarrow> ('v, 'x) fheap" where
  "add_dep d a h = upd a (\<lambda>c. c\<lparr>fs_deps := fs_deps c @ [d]\<rparr>) h"

text \<open>
  On a state that is ready the mutex is unlocked directly, and again by the guard that still owns
  it.
\<close>

definition register_dependant ::
    "('v, 'x) rc \<Rightarrow> addr \<Rightarrow> dep \<Rightarrow> ('v, 'x) fheap \<Rightarrow> ('v, 'x) fheap option" where
  "register_dependant rc a d h =
     do {
       c \<leftarrow> f_cells h a;
       if ready_t (fs_state c) then run_dep rc d (h\<lparr>f_unlocks := True\<rparr>) else Some (add_dep d a h)
     }"

definition register_dependant_begin :: "addr \<Rightarrow> ('v, 'x) fheap \<Rightarrow> (nat \<times> ('v, 'x) fheap) option" where
  "register_dependant_begin a h =
     do {
       c \<leftarrow> f_cells h a;
       Some (if ready_t (fs_state c) then (0, h) else (length (fs_deps c), add_dep Noop a h))
     }"

definition register_dependant_commit ::
    "('v, 'x) rc \<Rightarrow> addr \<Rightarrow> nat \<Rightarrow> dep \<Rightarrow> ('v, 'x) fheap \<Rightarrow> ('v, 'x) fheap option" where
  "register_dependant_commit rc a idx d h =
     do {
       c \<leftarrow> f_cells h a;
       if ready_t (fs_state c) then run_dep rc d (h\<lparr>f_unlocks := True\<rparr>)
       else if idx < length (fs_deps c)
            then Some (upd a (\<lambda>c. c\<lparr>fs_deps := (fs_deps c)[idx := d]\<rparr>) h)
            else None
     }"

text \<open>
  The two overloads of \<open>install_callback\<close>. A shared callback that is called at once is destroyed
  with a pointer \<open>chain\<close> that was never set.
\<close>

definition install_callback :: "addr \<Rightarrow> nat \<Rightarrow> ('v, 'x) fheap \<Rightarrow> ('v, 'x) fheap option" where
  "install_callback a i h =
     do {
       c \<leftarrow> f_cells h a;
       if ready_t (fs_state c) then Some (h\<lparr>f_fired := f_fired h @ [(i, a)]\<rparr>)
       else if fs_ready_cb c \<noteq> None then None
       else Some (upd a (\<lambda>c. c\<lparr>fs_ready_cb := Some i\<rparr>) h)
     }"

definition install_shared_callback :: "addr \<Rightarrow> nat \<Rightarrow> ('v, 'x) fheap \<Rightarrow> ('v, 'x) fheap option" where
  "install_shared_callback a i h =
     do {
       c \<leftarrow> f_cells h a;
       Some (if ready_t (fs_state c) then h\<lparr>f_fired := f_fired h @ [(i, a)], f_wild := True\<rparr>
             else upd a (\<lambda>c. c\<lparr>fs_shared_cbs := i # fs_shared_cbs c\<rparr>) h)
     }"

section \<open>Promises\<close>

definition prom_new :: "('v, 'x) fheap \<Rightarrow> ptr \<times> ('v, 'x) fheap" where
  "prom_new h =
     (case new_state (shared_state_ctor Nofn False) h of
        (a, h) \<Rightarrow> (Some a, add_promise a h))"

definition prom_dtor :: "nat \<Rightarrow> ptr \<Rightarrow> ('v, 'x) fheap \<Rightarrow> ('v, 'x) fheap option" where
  "prom_dtor n p h = (case p of None \<Rightarrow> Some h | Some a \<Rightarrow> remove_promise (exec n) a h)"

text \<open>
  Copying and assigning the counted pointer of a promise; the pointer that is overwritten is
  given up.
\<close>

definition prom_copy :: "ptr \<Rightarrow> ('v, 'x) fheap \<Rightarrow> ptr \<times> ('v, 'x) fheap" where
  "prom_copy p h = (p, when_ptr add_promise p h)"

definition prom_assign ::
    "nat \<Rightarrow> ptr \<Rightarrow> ptr \<Rightarrow> ('v, 'x) fheap \<Rightarrow> (ptr \<times> ptr \<times> ('v, 'x) fheap) option" where
  "prom_assign n p q h = do { h \<leftarrow> prom_dtor n p h; Some (q, None, h) }"

definition mark_shared :: "addr \<Rightarrow> ('v, 'x) fheap \<Rightarrow> (bool \<times> ('v, 'x) fheap) option" where
  "mark_shared a h =
     do { c \<leftarrow> f_cells h a; Some (\<not> fs_shared c, upd a (\<lambda>c. c\<lparr>fs_shared := True\<rparr>) h) }"

definition prom_get_future :: "ptr \<Rightarrow> ('v, 'x) fheap \<Rightarrow> (ptr result \<times> ('v, 'x) fheap) option" where
  "prom_get_future p h =
     (case p of
        None \<Rightarrow> Some (Inl (Future_error No_state), h)
      | Some a \<Rightarrow>
          do {
            (ok, h) \<leftarrow> mark_shared a h;
            Some (if ok then Inr p else Inl (Future_error Future_already_retrieved), h)
          })"

text \<open>\<open>set_value\<close> and \<open>set_exception\<close>.\<close>

definition prom_set ::
    "nat \<Rightarrow> ptr \<Rightarrow> 'x exn + 'v \<Rightarrow> ('v, 'x) fheap \<Rightarrow> (unit result \<times> ('v, 'x) fheap) option" where
  "prom_set n p x h =
     (case p of
        None \<Rightarrow> Some (Inl (Future_error No_state), h)
      | Some a \<Rightarrow> exec n (Complete a x) h)"

section \<open>Futures\<close>

definition fut_valid :: "ptr \<Rightarrow> bool" where "fut_valid f \<longleftrightarrow> f \<noteq> None"

text \<open>\<open>share\<close>: the shared future, and what is left of the future.\<close>

definition fut_share :: "ptr \<Rightarrow> ptr \<times> ptr" where "fut_share f = (f, None)"

text \<open>\<open>get\<close>: the answer, the future afterwards and the heap.\<close>

definition fut_get ::
    "nat \<Rightarrow> ptr \<Rightarrow> ('v, 'x) fheap \<Rightarrow> (('x exn + 'v) \<times> ptr \<times> ('v, 'x) fheap) option" where
  "fut_get n f h =
     (case f of
        None \<Rightarrow> Some (Inl (Lib (Future_error No_state)), f, h)
      | Some a \<Rightarrow>
          do {
            (r, h) \<leftarrow> state_get (exec n) a h;
            Some (r, (case r of Inl _ \<Rightarrow> f | Inr _ \<Rightarrow> None), h)
          })"

definition shared_get ::
    "nat \<Rightarrow> ptr \<Rightarrow> ('v, 'x) fheap \<Rightarrow> (('x exn + 'v) \<times> ('v, 'x) fheap) option" where
  "shared_get n f h =
     (case f of
        None \<Rightarrow> Some (Inl (Lib (Future_error No_state)), h)
      | Some a \<Rightarrow> state_get (exec n) a h)"

definition fut_start :: "nat \<Rightarrow> ptr \<Rightarrow> ('v, 'x) fheap \<Rightarrow> (unit result \<times> ('v, 'x) fheap) option" where
  "fut_start n f h =
     (case f of
        None \<Rightarrow> Some (Inl (Future_error No_state), h)
      | Some a \<Rightarrow> exec n (Start False a) h)"

definition fut_wait :: "nat \<Rightarrow> ptr \<Rightarrow> ('v, 'x) fheap \<Rightarrow> (unit result \<times> ('v, 'x) fheap) option" where
  "fut_wait n f h =
     (case f of
        None \<Rightarrow> Some (Inl (Future_error No_state), h)
      | Some a \<Rightarrow> do { h \<leftarrow> state_wait (exec n) a h; Some (Inr (), h) })"

text \<open>
  The timed waits; without another thread the state at the end is the one after the start, and
  the deadline passes if it is not ready. \<open>zero\<close> tells whether the duration is zero.
\<close>

datatype future_status = Status_deferred | Status_ready | Status_timeout

definition status_of :: "state_t \<Rightarrow> future_status" where
  "status_of s =
     (case s of
        Uninitialized_deferred \<Rightarrow> Status_deferred
      | Uninitialized_convert \<Rightarrow> Status_deferred
      | Ready_value \<Rightarrow> Status_ready
      | Ready_exc \<Rightarrow> Status_ready
      | Uninitialized \<Rightarrow> Status_timeout)"

definition fut_wait_until ::
    "nat \<Rightarrow> ptr \<Rightarrow> ('v, 'x) fheap \<Rightarrow> (future_status result \<times> ('v, 'x) fheap) option" where
  "fut_wait_until n f h =
     (case f of
        None \<Rightarrow> Some (Inl (Future_error No_state), h)
      | Some a \<Rightarrow>
          do {
            h \<leftarrow> noexc (exec n (Start True a) h);
            s \<leftarrow> at_state a h;
            Some (Inr (status_of s), h)
          })"

definition fut_wait_for ::
    "nat \<Rightarrow> bool \<Rightarrow> ptr \<Rightarrow> ('v, 'x) fheap \<Rightarrow> (future_status result \<times> ('v, 'x) fheap) option" where
  "fut_wait_for n zero f h =
     (case f of
        None \<Rightarrow> fut_wait_until n f h
      | Some a \<Rightarrow>
          if zero then do { s \<leftarrow> at_state a h; Some (Inr (status_of s), h) }
          else fut_wait_until n f h)"

text \<open>\<open>callback\<close> on a future, which it takes over, and on a shared future.\<close>

definition fut_callback ::
    "nat \<Rightarrow> ptr \<Rightarrow> nat \<Rightarrow> ('v, 'x) fheap \<Rightarrow> (unit result \<times> ('v, 'x) fheap) option" where
  "fut_callback n f i h =
     (case f of
        None \<Rightarrow> Some (Inl (Future_error No_state), h)
      | Some a \<Rightarrow>
          do {
            s \<leftarrow> at_state a h;
            if ready_t s then Some (Inr (), h\<lparr>f_fired := f_fired h @ [(i, a)]\<rparr>)
            else do { h \<leftarrow> install_callback a i h; fut_start n f h }
          })"

definition shared_callback ::
    "nat \<Rightarrow> ptr \<Rightarrow> nat \<Rightarrow> bool \<Rightarrow> ('v, 'x) fheap \<Rightarrow> (unit result \<times> ('v, 'x) fheap) option" where
  "shared_callback n f i start h =
     (case f of
        None \<Rightarrow> Some (Inl (Future_error No_state), h)
      | Some a \<Rightarrow>
          do {
            s \<leftarrow> at_state a h;
            if ready_t s
            then Some (Inr (), h\<lparr>f_fired := f_fired h @ [(i, a)], f_wild := True\<rparr>)
            else
              do {
                h \<leftarrow> install_shared_callback a i h;
                if start then fut_start n f h else Some (Inr (), h)
              }
          })"

section \<open>Deferred functions\<close>

text \<open>
  \<open>init_cb\<close>: every future among the arguments counts and is told to report. When it throws, the
  new state is destroyed.
\<close>

fun init_cb ::
    "('v, 'x) rc \<Rightarrow> addr \<Rightarrow> 'v arg list \<Rightarrow> ('v, 'x) fheap \<Rightarrow>
     (unit result \<times> ('v, 'x) fheap) option" where
  "init_cb rc a [] h = Some (Inr (), h)"
| "init_cb rc a (Val v # as) h = init_cb rc a as h"
| "init_cb rc a (Fut None # as) h = Some (Inl (Future_error No_state), h)"
| "init_cb rc a (Fut (Some s) # as) h =
     do {
       h \<leftarrow> register_dependant rc s (Dep_fn a) (upd a (\<lambda>c. c\<lparr>fs_need := fs_need c + 1\<rparr>) h);
       init_cb rc a as h
     }"

definition async_lazy ::
    "nat \<Rightarrow> nat list \<Rightarrow> ('v, 'x) fun_object \<Rightarrow> 'v arg list \<Rightarrow> ('v, 'x) fheap \<Rightarrow>
     (ptr result \<times> ('v, 'x) fheap) option" where
  "async_lazy n ord fn args h =
     (case new_state (shared_state_ctor (Fn ord fn args) True) h of
        (a, h) \<Rightarrow>
          do {
            (r, h) \<leftarrow> init_cb (exec n) a args h;
            Some (case r of
                    Inl e \<Rightarrow> (Inl e, h\<lparr>f_cells := (f_cells h)(a := None)\<rparr>)
                  | Inr _ \<Rightarrow> (Inr (Some a), h))
          })"

text \<open>The bits of \<open>launch\<close>, and the flags of the job.\<close>

definition LAUNCH_DEFER :: u32 where "LAUNCH_DEFER = 0x1"
definition LAUNCH_AID :: u32 where "LAUNCH_AID = 0x2"
definition LAUNCH_PARALLEL :: u32 where "LAUNCH_PARALLEL = 0x4"

definition async_flags :: "u32 \<Rightarrow> u32" where
  "async_flags l =
     (if l AND LAUNCH_PARALLEL = LAUNCH_PARALLEL then TYPE_PARALLEL else 0) OR
     (if l AND LAUNCH_AID \<noteq> LAUNCH_AID then TYPE_NO_AID else 0)"

text \<open>
  \<open>async\<close> on a work queue: the futures among the arguments are not registered (\<open>init_cb\<close> is not
  called), so that \<open>need_resolution_\<close> stays 1.
\<close>

definition async_job ::
    "nat \<Rightarrow> u32 \<Rightarrow> nat list \<Rightarrow> ('v, 'x) fun_object \<Rightarrow> 'v arg list \<Rightarrow> ('v, 'x) fheap \<Rightarrow>
     (ptr result \<times> ('v, 'x) fheap) option" where
  "async_job n l ord fn args h =
     (case new_state (shared_state_ctor (Wqjob ord fn args) True) h of
        (a, h) \<Rightarrow>
          if l AND LAUNCH_DEFER \<noteq> LAUNCH_DEFER
          then do { (r, h) \<leftarrow> fut_start n (Some a) h; Some (map_sum id (\<lambda>_. Some a) r, h) }
          else Some (Inr (Some a), h))"

text \<open>\<open>run\<close> of the job of a state.\<close>

definition job_run :: "nat \<Rightarrow> addr \<Rightarrow> ('v, 'x) fheap \<Rightarrow> ('v, 'x) fheap option" where
  "job_run n a h =
     do {
       c \<leftarrow> f_cells h a;
       (case fs_kind c of
          Wqjob ord fn args \<Rightarrow>
            if fs_self c then
              do {
                h \<leftarrow> invoke_fn (exec n) a ord fn args h;
                Some (upd a (\<lambda>c. c\<lparr>fs_self := False\<rparr>) h)
              }
            else None
        | _ \<Rightarrow> None)
     }"

section \<open>Conversion\<close>

definition mark_convert_present :: "addr \<Rightarrow> ('v, 'x) fheap \<Rightarrow> ('v, 'x) fheap option" where
  "mark_convert_present p h =
     do {
       c \<leftarrow> f_cells h p;
       if fs_state c = Uninitialized
       then Some (upd p (\<lambda>c. c\<lparr>fs_state := Uninitialized_convert\<rparr>) h) else None
     }"

definition converter_init_cb ::
    "('v, 'x) rc \<Rightarrow> addr \<Rightarrow> addr \<Rightarrow> bool \<Rightarrow> ('v \<Rightarrow> 'x exn + 'v) \<Rightarrow> ('v, 'x) fheap \<Rightarrow>
     ('v, 'x) fheap option" where
  "converter_init_cb rc p s shared f h =
     do {
       (idx, h) \<leftarrow> register_dependant_begin s h;
       h \<leftarrow> mark_convert_present p h;
       c \<leftarrow> f_cells h p;
       h \<leftarrow> (if fs_convert c \<noteq> None then None
             else Some (upd p (\<lambda>c. c\<lparr>fs_convert :=
                    Some \<lparr>c_fn = f, c_src = Some s, c_prom = Some p\<rparr>\<rparr>) h));
       h \<leftarrow> register_dependant_commit rc s idx (if shared then Dep_conv_shared p else Dep_conv p) h;
       c \<leftarrow> f_cells h p;
       cv \<leftarrow> fs_convert c;
       if fs_called c then
         (case c_src cv of
            None \<Rightarrow> None
          | Some s \<Rightarrow> noexc (rc (Start (fs_async c) s) h))
       else Some h
     }"

text \<open>\<open>convert\<close>: the promise is destroyed at the end.\<close>

definition fut_convert ::
    "nat \<Rightarrow> ptr \<Rightarrow> ptr \<Rightarrow> bool \<Rightarrow> ('v \<Rightarrow> 'x exn + 'v) \<Rightarrow> ('v, 'x) fheap \<Rightarrow>
     (unit result \<times> ('v, 'x) fheap) option" where
  "fut_convert n prom src shared f h =
     (case (prom, src) of
        (Some p, Some s) \<Rightarrow>
          do {
            h \<leftarrow> converter_init_cb (exec n) p s shared f h;
            h \<leftarrow> prom_dtor n prom h;
            Some (Inr (), h)
          }
      | _ \<Rightarrow> do { h \<leftarrow> prom_dtor n prom h; Some (Inl (Future_error No_state), h) })"

end
