(* ===== verification/Future_Inv.thy ===== *)
theory Future_Inv
  imports Future_Handle
begin

text \<open>
  Promises and deferred functions of a plain kind: the invariant that the counters
  \<open>need_resolution_\<close>, the lists of dependants and the states keep while states are started and
  completed, with enough fuel; then what \<open>get\<close> answers.
\<close>

section \<open>Static structure\<close>

definition cell :: "('v, 'x) fheap \<Rightarrow> addr \<Rightarrow> ('v, 'x) shared_state" where
  "cell h a = the (f_cells h a)"

abbreviation st :: "('v, 'x) fheap \<Rightarrow> addr \<Rightarrow> state_t" where "st h a \<equiv> fs_state (cell h a)"

abbreviation rdy :: "('v, 'x) fheap \<Rightarrow> addr \<Rightarrow> bool" where "rdy h a \<equiv> ready_t (st h a)"

fun fut_of :: "'v arg \<Rightarrow> addr list" where
  "fut_of (Fut (Some s)) = [s]"
| "fut_of _ = []"

definition futs :: "('v, 'x) kind \<Rightarrow> addr list" where
  "futs k = (case k of Fn ord fn args \<Rightarrow> concat (map fut_of args) | _ \<Rightarrow> [])"

definition futs_of :: "('v, 'x) fheap \<Rightarrow> addr \<Rightarrow> addr list" where
  "futs_of h b = (if b < f_next h then futs (fs_kind (cell h b)) else [])"

definition plain_kind :: "addr \<Rightarrow> ('v, 'x) kind \<Rightarrow> bool" where
  "plain_kind a k =
     (case k of
        Nofn \<Rightarrow> True
      | Fn ord fn args \<Rightarrow>
          (\<exists>f. fn = Plain f) \<and> eval_order ord args \<and> Fut None \<notin> set args \<and> (\<forall>s\<in>set (futs k). s < a)
      | Wqjob ord fn args \<Rightarrow> False)"

definition pending :: "('v, 'x) fheap \<Rightarrow> addr \<Rightarrow> nat" where
  "pending h b = length (filter (\<lambda>s. \<not> rdy h s) (futs_of h b))"

text \<open>The values of the arguments, once they are ready, and the value of a function on them.\<close>

definition arg_val :: "(addr \<Rightarrow> 'x exn + 'v) \<Rightarrow> 'v arg \<Rightarrow> 'x exn + 'v" where
  "arg_val val x =
     (case x of Val v \<Rightarrow> Inr v | Fut None \<Rightarrow> Inl (Lib (Future_error No_state)) | Fut (Some s) \<Rightarrow> val s)"

text \<open>The exception of the first argument, in the order \<open>ord\<close>, that has one.\<close>

fun first_exn :: "(addr \<Rightarrow> 'x exn + 'v) \<Rightarrow> 'v arg list \<Rightarrow> nat list \<Rightarrow> 'x exn option" where
  "first_exn val args [] = None"
| "first_exn val args (i # is) =
     (case arg_val val (args ! i) of Inl e \<Rightarrow> Some e | Inr _ \<Rightarrow> first_exn val args is)"

definition arg_vals :: "(addr \<Rightarrow> 'x exn + 'v) \<Rightarrow> nat list \<Rightarrow> 'v arg list \<Rightarrow> 'x exn + 'v list" where
  "arg_vals val ord args =
     (case first_exn val args ord of
        Some e \<Rightarrow> Inl e
      | None \<Rightarrow> Inr (map (\<lambda>x. projr (arg_val val x)) args))"

definition fn_value :: "(addr \<Rightarrow> 'x exn + 'v) \<Rightarrow> ('v, 'x) kind \<Rightarrow> 'x exn + 'v" where
  "fn_value val k =
     (case k of
        Fn ord (Plain f) args \<Rightarrow>
          (case arg_vals val ord args of Inl e \<Rightarrow> Inl e | Inr vs \<Rightarrow> f vs)
      | _ \<Rightarrow> Inl (Lib Logic_error))"

definition stored :: "('v, 'x) fheap \<Rightarrow> addr \<Rightarrow> 'x exn + 'v" where
  "stored h a = the (fs_storage (cell h a))"

definition tag :: "'x exn + 'v \<Rightarrow> state_t" where
  "tag x = (case x of Inl _ \<Rightarrow> Ready_exc | Inr _ \<Rightarrow> Ready_value)"

lemma ready_t_simps [simp]:
  "\<not> ready_t Uninitialized" "\<not> ready_t Uninitialized_deferred" "\<not> ready_t Uninitialized_convert"
  "ready_t Ready_value" "ready_t Ready_exc" "ready_t (tag x)"
  by (simp_all add: ready_t_def tag_def split: sum.splits)

lemma arg_val_cong:
  "(\<And>s. s \<in> set (fut_of x) \<Longrightarrow> val s = val' s) \<Longrightarrow> arg_val val x = arg_val val' x"
  by (cases x rule: fut_of.cases) (simp_all add: arg_val_def)

lemma first_exn_cong:
  "set ord \<subseteq> set [0..<length args] \<Longrightarrow> (\<And>x. x \<in> set args \<Longrightarrow> arg_val val x = arg_val val' x) \<Longrightarrow>
     first_exn val args ord = first_exn val' args ord"
  by (induction ord) (auto split: sum.splits)

lemma arg_vals_cong:
  assumes "eval_order ord args" and "\<And>s. s \<in> set (concat (map fut_of args)) \<Longrightarrow> val s = val' s"
  shows "arg_vals val ord args = arg_vals val' ord args"
proof -
  have a: "arg_val val x = arg_val val' x" if "x \<in> set args" for x
    by (rule arg_val_cong) (use assms(2) that in auto)
  then have "first_exn val args ord = first_exn val' args ord"
    by (intro first_exn_cong) (use assms(1) in \<open>simp_all add: eval_order_def\<close>)
  then show ?thesis using a by (auto simp: arg_vals_def split: option.splits)
qed

lemma fn_value_cong:
  "plain_kind a k \<Longrightarrow> (\<And>s. s \<in> set (futs k) \<Longrightarrow> val s = val' s) \<Longrightarrow> fn_value val k = fn_value val' k"
  using arg_vals_cong [of _ _ val val']
  by (auto simp: fn_value_def futs_def plain_kind_def split: kind.splits fun_object.splits)

section \<open>The invariant\<close>

text \<open>
  \<open>M\<close> are the notifications that are still to be delivered, \<open>T\<close> the states whose start is under
  way, and \<open>X\<close> those that are being computed. \<open>need_resolution_\<close> counts the start to come, the
  arguments that are not ready and the notifications to come.
\<close>

definition ticket :: "addr set \<Rightarrow> ('v, 'x) fheap \<Rightarrow> addr \<Rightarrow> nat" where
  "ticket T h a = (if st h a = Uninitialized_deferred \<or> a \<in> T then 1 else 0)"

definition fn_good ::
    "addr set \<Rightarrow> dep list \<Rightarrow> addr set \<Rightarrow> ('v, 'x) fheap \<Rightarrow> addr \<Rightarrow> bool" where
  "fn_good X M T h a \<longleftrightarrow>
     fs_need (cell h a) = ticket T h a + pending h a + count_list M (Dep_fn a) \<and>
     (if a \<in> X then fs_need (cell h a) = 0 \<and> st h a = Uninitialized
      else (rdy h a \<longleftrightarrow> fs_need (cell h a) = 0)) \<and>
     (st h a \<noteq> Uninitialized_deferred \<and> a \<notin> T \<longrightarrow>
        (\<forall>s\<in>set (futs_of h a). st h s \<noteq> Uninitialized_deferred)) \<and>
     (rdy h a \<longrightarrow> stored h a = fn_value (stored h) (fs_kind (cell h a)))"

definition good :: "addr set \<Rightarrow> dep list \<Rightarrow> addr set \<Rightarrow> ('v, 'x) fheap \<Rightarrow> addr \<Rightarrow> bool" where
  "good X M T h a \<longleftrightarrow>
     plain_kind a (fs_kind (cell h a)) \<and> fs_convert (cell h a) = None \<and>
     st h a \<noteq> Uninitialized_convert \<and>
     (rdy h a \<longrightarrow> fs_storage (cell h a) \<noteq> None \<and> st h a = tag (stored h a) \<and>
        fs_deps (cell h a) = []) \<and>
     (\<not> rdy h a \<longrightarrow> set (fs_deps (cell h a)) \<subseteq> range Dep_fn \<and>
        (\<forall>b. count_list (fs_deps (cell h a)) (Dep_fn b) = count_list (futs_of h b) a)) \<and>
     (if fs_kind (cell h a) = Nofn then st h a \<noteq> Uninitialized_deferred else fn_good X M T h a)"

definition fut_inv :: "addr set \<Rightarrow> dep list \<Rightarrow> addr set \<Rightarrow> ('v, 'x) fheap \<Rightarrow> bool" where
  "fut_inv X M T h \<longleftrightarrow>
     (\<forall>a. f_cells h a \<noteq> None \<longleftrightarrow> a < f_next h) \<and>
     (\<forall>a<f_next h. good X M T h a) \<and>
     (\<forall>t\<in>T. t < f_next h \<and> st h t \<noteq> Uninitialized_deferred) \<and>
     (\<forall>d\<in>set M. \<exists>b<f_next h. d = Dep_fn b \<and> fs_kind (cell h b) \<noteq> Nofn)"

text \<open>How a heap goes on: nothing is undone.\<close>

definition later :: "('v, 'x) fheap \<Rightarrow> ('v, 'x) fheap \<Rightarrow> bool" where
  "later h h' \<longleftrightarrow>
     f_next h' = f_next h \<and> f_unlocks h' = f_unlocks h \<and> f_wild h' = f_wild h \<and>
     (\<forall>a<f_next h. fs_kind (cell h' a) = fs_kind (cell h a) \<and>
        (rdy h a \<longrightarrow> st h' a = st h a \<and> stored h' a = stored h a) \<and>
        (st h a \<noteq> Uninitialized_deferred \<longrightarrow> st h' a \<noteq> Uninitialized_deferred))"

definition work_left :: "('v, 'x) fheap \<Rightarrow> nat" where
  "work_left h =
     card {a. a < f_next h \<and> st h a = Uninitialized_deferred} + card {a. a < f_next h \<and> \<not> rdy h a}"

lemma later_refl [simp]: "later h h" by (simp add: later_def)

lemma later_trans: "later h h' \<Longrightarrow> later h' h'' \<Longrightarrow> later h h''"
  by (simp add: later_def)

lemma later_work_left:
  assumes "later h h'" shows "work_left h' \<le> work_left h"
proof -
  have n: "f_next h' = f_next h" using assms by (simp add: later_def)
  have d: "st h' a = Uninitialized_deferred \<Longrightarrow> st h a = Uninitialized_deferred"
    and r: "rdy h a \<Longrightarrow> rdy h' a" if "a < f_next h" for a
    using assms that unfolding later_def by metis+
  have "{a. a < f_next h' \<and> st h' a = Uninitialized_deferred} \<subseteq>
      {a. a < f_next h \<and> st h a = Uninitialized_deferred}"
    "{a. a < f_next h' \<and> \<not> rdy h' a} \<subseteq> {a. a < f_next h \<and> \<not> rdy h a}"
    using d r unfolding n by blast+
  then show ?thesis unfolding work_left_def by (intro add_mono card_mono) simp_all
qed

lemma work_left_bound: "work_left h \<le> 2 * f_next h"
proof -
  have c: "card {a. a < f_next h \<and> P a} \<le> f_next h" for P
    using card_mono [of "{..<f_next h}" "{a. a < f_next h \<and> P a}"] by auto
  show ?thesis unfolding work_left_def mult_2 by (intro add_mono c)
qed

section \<open>Updates of one state\<close>

lemma cell_upd:
  "f_cells h a \<noteq> None \<Longrightarrow> cell (upd a g h) b = (if b = a then g (cell h a) else cell h b)"
  by (auto simp: cell_def upd_def)

lemma upd_next [simp]:
  "f_next (upd a g h) = f_next h" "f_unlocks (upd a g h) = f_unlocks h" "f_wild (upd a g h) = f_wild h"
  by (simp_all add: upd_def)

lemma upd_dom [simp]: "f_cells (upd a g h) b = None \<longleftrightarrow> f_cells h b = None"
  by (auto simp: upd_def)

lemma cells_cell: "f_cells h a \<noteq> None \<Longrightarrow> f_cells h a = Some (cell h a)"
  by (auto simp: cell_def)

lemma fut_inv_cell: "fut_inv X M T h \<Longrightarrow> a < f_next h \<Longrightarrow> f_cells h a = Some (cell h a)"
  using cells_cell [of h a] by (auto simp: fut_inv_def)

text \<open>Changes of the fields that the invariant does not read.\<close>

definition same_core :: "('v, 'x) shared_state \<Rightarrow> ('v, 'x) shared_state \<Rightarrow> bool" where
  "same_core c c' \<longleftrightarrow>
     fs_state c' = fs_state c \<and> fs_storage c' = fs_storage c \<and> fs_deps c' = fs_deps c \<and>
     fs_kind c' = fs_kind c \<and> fs_need c' = fs_need c \<and> fs_convert c' = fs_convert c"

definition same_heap :: "('v, 'x) fheap \<Rightarrow> ('v, 'x) fheap \<Rightarrow> bool" where
  "same_heap h h' \<longleftrightarrow>
     f_next h' = f_next h \<and> f_unlocks h' = f_unlocks h \<and> f_wild h' = f_wild h \<and>
     (\<forall>a. f_cells h' a = None \<longleftrightarrow> f_cells h a = None) \<and>
     (\<forall>a<f_next h. same_core (cell h a) (cell h' a))"

lemma same_heap_sel:
  assumes "same_heap h h'" "a < f_next h"
  shows "st h' a = st h a" "stored h' a = stored h a" "fs_kind (cell h' a) = fs_kind (cell h a)"
    "fs_need (cell h' a) = fs_need (cell h a)" "fs_deps (cell h' a) = fs_deps (cell h a)"
    "fs_convert (cell h' a) = fs_convert (cell h a)"
    "fs_storage (cell h' a) = fs_storage (cell h a)"
  using assms by (auto simp: same_heap_def same_core_def stored_def)

lemma same_heap_refl [simp]: "same_heap h h" by (simp add: same_heap_def same_core_def)

lemma same_heap_trans: "same_heap h h' \<Longrightarrow> same_heap h' h'' \<Longrightarrow> same_heap h h''"
  by (simp add: same_heap_def same_core_def)

lemma same_heap_later: "same_heap h h' \<Longrightarrow> later h h'"
  by (simp add: later_def same_heap_sel) (simp add: same_heap_def)

lemma futs_of_lt:
  assumes "fut_inv X M T h" "s \<in> set (futs_of h b)"
  shows "s < b" "b < f_next h"
proof -
  show b: "b < f_next h" using assms(2) by (auto simp: futs_of_def split: if_splits)
  then have k: "plain_kind b (fs_kind (cell h b))" using assms(1) by (simp add: fut_inv_def good_def)
  have "s \<in> set (futs (fs_kind (cell h b)))" using assms(2) b by (simp add: futs_of_def)
  then show "s < b"
    using k by (cases "fs_kind (cell h b)") (auto simp: plain_kind_def futs_def)
qed

lemma pending_cong:
  assumes "f_next h' = f_next h" "\<And>a. a < f_next h \<Longrightarrow> fs_kind (cell h' a) = fs_kind (cell h a)"
    and "\<And>s. s \<in> set (futs_of h b) \<Longrightarrow> rdy h' s = rdy h s"
  shows "pending h' b = pending h b" "futs_of h' b = futs_of h b"
proof -
  show f: "futs_of h' b = futs_of h b" using assms(1,2) by (simp add: futs_of_def)
  show "pending h' b = pending h b"
    unfolding pending_def f using assms(3) by (metis (mono_tags, lifting) filter_cong)
qed

text \<open>A function that is ready has arguments that are ready.\<close>

lemma ready_args:
  assumes "fut_inv X M T h" "b < f_next h" "fs_kind (cell h b) \<noteq> Nofn" "fs_need (cell h b) = 0"
  shows "\<forall>s\<in>set (futs_of h b). rdy h s"
proof -
  have "fn_good X M T h b" using assms(1-3) by (simp add: fut_inv_def good_def)
  then have "pending h b = 0" using assms(4) by (simp add: fn_good_def)
  then show ?thesis by (simp add: pending_def filter_empty_conv)
qed

lemma same_heap_inv:
  assumes s: "same_heap h h'" and i: "fut_inv X M T h"
  shows "fut_inv X M T h'"
proof -
  have n: "f_next h' = f_next h" using s by (simp add: same_heap_def)
  note sel = same_heap_sel [OF s]
  have r: "rdy h' s = rdy h s" if "s \<in> set (futs_of h b)" for s b
    using sel(1) [of s] futs_of_lt [OF i that] by simp
  have p: "pending h' b = pending h b" "futs_of h' b = futs_of h b" for b
    using pending_cong [OF n sel(3) r] by auto
  have "good X M T h' a" if a: "a < f_next h" for a
  proof -
    have g: "good X M T h a" using i a by (simp add: fut_inv_def)
    have "futs (fs_kind (cell h a)) = futs_of h a" using a by (simp add: futs_of_def)
    then have v: "fn_value (stored h') (fs_kind (cell h a)) = fn_value (stored h) (fs_kind (cell h a))"
      by (intro fn_value_cong [of a] sel(2))
        (use g futs_of_lt [OF i] a in \<open>simp add: good_def\<close>, use futs_of_lt [OF i] a in \<open>metis less_trans\<close>)
    have e: "(\<forall>s\<in>set (futs_of h a). st h' s \<noteq> Uninitialized_deferred) =
        (\<forall>s\<in>set (futs_of h a). st h s \<noteq> Uninitialized_deferred)"
      using sel(1) futs_of_lt [OF i] a by (metis less_trans)
    show ?thesis
      using g unfolding good_def fn_good_def ticket_def p sel(1-7) [OF a] e v .
  qed
  moreover have "\<forall>a. f_cells h' a \<noteq> None \<longleftrightarrow> a < f_next h"
    using i s by (simp add: fut_inv_def same_heap_def)
  moreover have "\<forall>t\<in>T. t < f_next h \<and> st h' t \<noteq> Uninitialized_deferred"
    using i sel(1) by (simp add: fut_inv_def)
  moreover have "\<forall>d\<in>set M. \<exists>b<f_next h. d = Dep_fn b \<and> fs_kind (cell h' b) \<noteq> Nofn"
  proof
    fix d assume "d \<in> set M"
    then obtain b where "b < f_next h" "d = Dep_fn b" "fs_kind (cell h b) \<noteq> Nofn"
      using i by (auto simp: fut_inv_def)
    then show "\<exists>b<f_next h. d = Dep_fn b \<and> fs_kind (cell h' b) \<noteq> Nofn" using sel(3) by metis
  qed
  ultimately show ?thesis unfolding fut_inv_def n by blast
qed

lemma filter_not_count:
  "\<not> P a \<Longrightarrow> length (filter (\<lambda>s. s \<noteq> a \<and> \<not> P s) xs) + count_list xs a = length (filter (\<lambda>s. \<not> P s) xs)"
  by (induction xs) auto

lemma card_less_elem: "finite B \<Longrightarrow> A \<subseteq> B \<Longrightarrow> x \<in> B \<Longrightarrow> x \<notin> A \<Longrightarrow> card A < card B"
  by (rule psubset_card_mono) auto

lemma count_list_0: "count_list xs x = 0 \<longleftrightarrow> x \<notin> set xs"
  by (induction xs) auto

text \<open>A state becomes ready: its dependants are to be notified.\<close>

definition finish :: "addr \<Rightarrow> 'x exn + 'v \<Rightarrow> ('v, 'x) fheap \<Rightarrow> ('v, 'x) fheap" where
  "finish a x h =
     upd a (\<lambda>c. c\<lparr>fs_ready_cb := None, fs_shared_cbs := [], fs_deps := []\<rparr>)
       (upd a (\<lambda>c. c\<lparr>fs_storage := Some x, fs_state := tag x\<rparr>) h)"

lemma finish_inv:
  assumes i: "fut_inv {a} M T h" and a: "a < f_next h" "st h a = Uninitialized"
    and x: "fs_kind (cell h a) \<noteq> Nofn \<Longrightarrow> x = fn_value (stored h) (fs_kind (cell h a))"
  shows "fut_inv {} (fs_deps (cell h a) @ M) T (finish a x h)"
    and "later h (finish a x h)" and "work_left (finish a x h) < work_left h"
    and "rdy (finish a x h) a" and "stored (finish a x h) a = x"
proof -
  define hh where "hh = finish a x h"
  have c: "f_cells h a \<noteq> None" using i a by (simp add: fut_inv_def)
  then have cell: "cell hh b = (if b = a then (cell h a)\<lparr>fs_storage := Some x, fs_state := tag x,
      fs_ready_cb := None, fs_shared_cbs := [], fs_deps := []\<rparr> else cell h b)" for b
    by (simp add: hh_def finish_def cell_upd)
  have n: "f_next hh = f_next h" "f_unlocks hh = f_unlocks h" "f_wild hh = f_wild h"
    by (simp_all add: hh_def finish_def)
  have ga: "good {a} M T h a" using i a by (simp add: fut_inv_def)
  have kind: "fs_kind (cell hh b) = fs_kind (cell h b)" for b by (simp add: cell)
  have futs: "futs_of hh b = futs_of h b" for b using n kind by (simp add: futs_of_def)
  have rdy: "rdy hh b \<longleftrightarrow> b = a \<or> rdy h b" for b by (simp add: cell)
  have sto: "stored hh b = (if b = a then x else stored h b)" for b by (simp add: cell stored_def)
  have pend: "pending hh b + count_list (futs_of h b) a = pending h b" for b
    using filter_not_count [of "rdy h" a "futs_of h b"] a(2) by (simp add: pending_def futs rdy)
  have deps: "count_list (fs_deps (cell h a)) (Dep_fn b) = count_list (futs_of h b) a" for b
    using ga a(2) by (simp add: good_def)
  have self: "count_list (futs_of h a) a = 0"
    using futs_of_lt(1) [OF i, of a a] by (auto simp: count_list_0)
  have val: "fn_value (stored hh) (fs_kind (cell h b)) = fn_value (stored h) (fs_kind (cell h b))"
    if "b < f_next h" "a \<notin> set (futs_of h b)" for b
    using that i by (intro fn_value_cong [of b]) (auto simp: sto futs_of_def fut_inv_def good_def)
  have "good {} (fs_deps (cell h a) @ M) T hh b" if b: "b < f_next h" for b
  proof -
    have gb: "good {a} M T h b" using i b by (simp add: fut_inv_def)
    have f: "fn_good {} (fs_deps (cell h a) @ M) T hh b" if k: "fs_kind (cell h b) \<noteq> Nofn"
    proof -
      have g: "fn_good {a} M T h b" using gb k by (simp add: good_def)
      show ?thesis
      proof (cases "b = a")
        case True
        then have z: "fs_need (cell h a) = 0" using g by (simp add: fn_good_def)
        then have "ticket T h a = 0" "pending h a = 0" "count_list M (Dep_fn a) = 0"
          using g True by (simp_all add: fn_good_def)
        moreover have "st hh a \<noteq> Uninitialized_deferred" by (simp add: cell tag_def split: sum.splits)
        moreover from calculation(1) have "\<forall>s\<in>set (futs_of h a). st h s \<noteq> Uninitialized_deferred"
          using g True by (auto simp: fn_good_def ticket_def split: if_splits)
        ultimately show ?thesis
          using True z pend [of a] self deps [of a] x k val [OF a(1)]
          by (auto simp: fn_good_def ticket_def cell rdy sto futs count_list_0 split: if_splits)
      next
        case False
        have nd: "st h s \<noteq> Uninitialized_deferred \<Longrightarrow> st hh s \<noteq> Uninitialized_deferred" for s
          by (simp add: cell tag_def split: sum.splits)
        have cb: "cell hh b = cell h b" using False by (simp add: cell)
        have "rdy h b \<Longrightarrow> a \<notin> set (futs_of h b)"
          using ready_args [OF i b k] g False a(2) by (auto simp: fn_good_def)
        then show ?thesis
          using False g pend [of b] deps [of b] val [OF b] nd cb
          by (auto simp: fn_good_def ticket_def rdy sto futs)
      qed
    qed
    have g1: "plain_kind b (fs_kind (cell h b)) \<and> fs_convert (cell h b) = None \<and>
       st h b \<noteq> Uninitialized_convert" using gb by (simp add: good_def)
    show ?thesis
    proof (cases "b = a")
      case True
      then show ?thesis
        using g1 f unfolding good_def kind futs rdy
        by (simp add: cell stored_def) (simp add: tag_def split: sum.splits)
    next
      case False
      then show ?thesis
        using gb f unfolding good_def kind futs rdy sto by (simp add: cell)
    qed
  qed
  moreover have "\<forall>d\<in>set (fs_deps (cell h a) @ M). \<exists>b<f_next h. d = Dep_fn b \<and> fs_kind (cell h b) \<noteq> Nofn"
  proof -
    have "\<exists>b<f_next h. d = Dep_fn b \<and> fs_kind (cell h b) \<noteq> Nofn" if dd: "d \<in> set (fs_deps (cell h a))" for d
    proof -
      have "set (fs_deps (cell h a)) \<subseteq> range Dep_fn" using ga a(2) by (simp add: good_def)
      then obtain b where d: "d = Dep_fn b" using dd by blast
      have "count_list (fs_deps (cell h a)) (Dep_fn b) \<noteq> 0" using dd d by (simp add: count_list_0)
      then have "count_list (futs_of h b) a \<noteq> 0" unfolding deps .
      then have "futs_of h b \<noteq> []" by auto
      then show ?thesis using d by (auto simp: futs_of_def futs_def split: if_splits kind.splits)
    qed
    then show ?thesis using i by (auto simp: fut_inv_def)
  qed
  moreover have "\<forall>b. f_cells hh b \<noteq> None \<longleftrightarrow> b < f_next h" using i by (simp add: fut_inv_def finish_def hh_def)
  moreover have "\<forall>t\<in>T. t < f_next h \<and> st hh t \<noteq> Uninitialized_deferred"
    using i by (auto simp: fut_inv_def cell tag_def split: sum.splits)
  ultimately show "fut_inv {} (fs_deps (cell h a) @ M) T (finish a x h)"
    unfolding fut_inv_def n kind hh_def [symmetric] by blast
  show "later h (finish a x h)"
    unfolding hh_def [symmetric] using a(2) unfolding later_def n kind sto by (auto simp: cell tag_def split: sum.splits)
  show "rdy (finish a x h) a" "stored (finish a x h) a = x"
    unfolding hh_def [symmetric] by (simp_all add: rdy sto)
  have "card {b. b < f_next h \<and> \<not> rdy hh b} < card {b. b < f_next h \<and> \<not> rdy h b}"
    by (rule card_less_elem [of _ _ a]) (simp_all add: rdy a Collect_mono)
  moreover have "card {b. b < f_next h \<and> st hh b = Uninitialized_deferred} \<le>
      card {b. b < f_next h \<and> st h b = Uninitialized_deferred}"
    by (intro card_mono) (auto simp: cell tag_def split: if_splits sum.splits)
  ultimately show "work_left (finish a x h) < work_left h"
    unfolding work_left_def n hh_def [symmetric] by simp
qed

text \<open>\<open>need_resolution_\<close> of \<open>b\<close> is decremented, for a notification or for the end of a start.\<close>

definition dec_need :: "addr \<Rightarrow> ('v, 'x) fheap \<Rightarrow> ('v, 'x) fheap" where
  "dec_need b h = upd b (\<lambda>c. c\<lparr>fs_need := fs_need c - 1\<rparr>) h"

lemma dec_need_inv:
  assumes i: "fut_inv {} M T h" and b: "b < f_next h" "fs_kind (cell h b) \<noteq> Nofn"
    and less: "ticket T h b + count_list M (Dep_fn b) = 1 + (ticket T' h b + count_list M' (Dep_fn b))"
    and other: "\<forall>a. a \<noteq> b \<longrightarrow> ticket T' h a = ticket T h a \<and>
        count_list M' (Dep_fn a) = count_list M (Dep_fn a)"
    and sub: "T' \<subseteq> T" "set M' \<subseteq> set M"
    and started: "b \<in> T - T' \<longrightarrow> (\<forall>s\<in>set (futs_of h b). st h s \<noteq> Uninitialized_deferred)"
  shows "fut_inv (if fs_need (cell h b) = 1 then {b} else {}) M' T' (dec_need b h)"
    and "later h (dec_need b h)"
    and "fs_need (cell h b) = 1 \<Longrightarrow>
      st (dec_need b h) b = Uninitialized \<and> (\<forall>s\<in>set (futs_of h b). rdy (dec_need b h) s) \<and>
      fs_kind (cell (dec_need b h) b) = fs_kind (cell h b)"
proof -
  define hh where "hh = dec_need b h"
  have cell: "cell hh a = (if a = b then (cell h b)\<lparr>fs_need := fs_need (cell h b) - 1\<rparr> else cell h a)"
    for a
    using i b by (simp add: hh_def dec_need_def cell_upd fut_inv_def)
  have n: "f_next hh = f_next h" "f_unlocks hh = f_unlocks h" "f_wild hh = f_wild h"
    by (simp_all add: hh_def dec_need_def)
  have sel: "st hh a = st h a" "stored hh a = stored h a" "fs_kind (cell hh a) = fs_kind (cell h a)"
    for a by (simp_all add: cell stored_def)
  have futs: "futs_of hh a = futs_of h a" for a using n sel by (simp add: futs_of_def)
  have pend: "pending hh a = pending h a" for a by (simp add: pending_def futs sel)
  have tick: "ticket T' hh a = ticket T' h a" for a by (simp add: ticket_def sel)
  have gb: "fn_good {} M T h b" using i b by (simp add: fut_inv_def good_def)
  have need: "fs_need (cell h b) = 1 + (ticket T' h b + pending h b + count_list M' (Dep_fn b))"
    using gb less by (simp add: fn_good_def)
  have nr: "\<not> rdy h b" using gb need by (simp add: fn_good_def)
  let ?X = "if fs_need (cell h b) = 1 then {b} else {}"
  have un: "st h b = Uninitialized" if "fs_need (cell h b) = 1"
  proof -
    have "st h b \<noteq> Uninitialized_convert" using i b by (simp add: fut_inv_def good_def)
    moreover have "ticket T' h b = 0" using need that by simp
    ultimately show ?thesis using nr by (cases "st h b") (auto simp: ticket_def)
  qed
  have f: "fn_good ?X M' T' hh a" if "a < f_next h" "fs_kind (cell h a) \<noteq> Nofn" for a
  proof (cases "a = b")
    case True
    then show ?thesis
      using need nr un gb started unfolding fn_good_def pend tick sel futs by (auto simp: cell)
  next
    case False
    have "fn_good {} M T h a" using i that by (simp add: fut_inv_def good_def)
    moreover have "st h a \<noteq> Uninitialized_deferred \<Longrightarrow> a \<in> T' \<longleftrightarrow> a \<in> T"
      using False other by (auto simp: ticket_def split: if_splits)
    ultimately show ?thesis
      using False other unfolding fn_good_def pend tick sel futs by (auto simp: cell)
  qed
  have "good ?X M' T' hh a" if a: "a < f_next h" for a
  proof -
    have "good {} M T h a" using i a by (simp add: fut_inv_def)
    moreover have "fs_deps (cell hh a) = fs_deps (cell h a)"
      "fs_convert (cell hh a) = fs_convert (cell h a)"
      "fs_storage (cell hh a) = fs_storage (cell h a)" by (simp_all add: cell)
    ultimately show ?thesis using f [OF a] unfolding good_def futs sel by metis
  qed
  moreover have "\<forall>a. f_cells hh a \<noteq> None \<longleftrightarrow> a < f_next h"
    using i by (simp add: fut_inv_def hh_def dec_need_def)
  moreover have "\<forall>t\<in>T'. t < f_next h \<and> st hh t \<noteq> Uninitialized_deferred"
    using i sub unfolding sel fut_inv_def by blast
  moreover have "\<forall>d\<in>set M'. \<exists>b<f_next h. d = Dep_fn b \<and> fs_kind (cell hh b) \<noteq> Nofn"
    using i sub unfolding sel fut_inv_def by blast
  ultimately show "fut_inv ?X M' T' (dec_need b h)"
    unfolding hh_def [symmetric] fut_inv_def n by blast
  show "later h (dec_need b h)"
    unfolding hh_def [symmetric] later_def n sel by simp
  show "st (dec_need b h) b = Uninitialized \<and> (\<forall>s\<in>set (futs_of h b). rdy (dec_need b h) s) \<and>
      fs_kind (cell (dec_need b h) b) = fs_kind (cell h b)"
    if "fs_need (cell h b) = 1"
  proof -
    have "pending h b = 0" using need that by simp
    then show ?thesis
      unfolding hh_def [symmetric] sel using un [OF that] by (simp add: pending_def filter_empty_conv)
  qed
qed

text \<open>The start of a deferred function is claimed.\<close>

lemma clear_deferred_inv:
  assumes i: "fut_inv {} M T h" and a: "a < f_next h" "st h a = Uninitialized_deferred"
  shows "fut_inv {} M (insert a T) (clear_deferred a h)" and "a \<notin> T"
    and "later h (clear_deferred a h)" and "work_left (clear_deferred a h) < work_left h"
    and "st (clear_deferred a h) a = Uninitialized" "fs_kind (cell h a) \<noteq> Nofn"
proof -
  define hh where "hh = clear_deferred a h"
  show aT: "a \<notin> T" using i a by (auto simp: fut_inv_def)
  have ga: "good {} M T h a" using i a by (simp add: fut_inv_def)
  then show k: "fs_kind (cell h a) \<noteq> Nofn" using a by (auto simp: good_def)
  have cell: "cell hh b = (if b = a then (cell h a)\<lparr>fs_state := Uninitialized\<rparr> else cell h b)" for b
    using i a by (simp add: hh_def clear_deferred_def cell_upd fut_inv_def)
  have n: "f_next hh = f_next h" "f_unlocks hh = f_unlocks h" "f_wild hh = f_wild h"
    by (simp_all add: hh_def clear_deferred_def)
  have sel: "rdy hh b = rdy h b" "stored hh b = stored h b" "fs_kind (cell hh b) = fs_kind (cell h b)"
    for b using a by (simp_all add: cell stored_def)
  have futs: "futs_of hh b = futs_of h b" for b using n sel by (simp add: futs_of_def)
  have pend: "pending hh b = pending h b" for b by (simp add: pending_def futs sel)
  have tick: "ticket (insert a T) hh b = ticket T h b" for b
    using a by (auto simp: ticket_def cell)
  have f: "fn_good {} M (insert a T) hh b" if "b < f_next h" "fs_kind (cell h b) \<noteq> Nofn" for b
  proof -
    have "fn_good {} M T h b" using i that by (simp add: fut_inv_def good_def)
    moreover have "fs_need (cell hh b) = fs_need (cell h b)" by (simp add: cell)
    moreover have "st hh s \<noteq> Uninitialized_deferred" if "st h s \<noteq> Uninitialized_deferred" for s
      using that by (simp add: cell)
    moreover have "b \<noteq> a \<Longrightarrow> st hh b = st h b" by (simp add: cell)
    ultimately show ?thesis unfolding fn_good_def pend tick sel futs by auto
  qed
  have "good {} M (insert a T) hh b" if b: "b < f_next h" for b
  proof -
    have g: "good {} M T h b" using i b by (simp add: fut_inv_def)
    have e: "fs_deps (cell hh b) = fs_deps (cell h b)"
      "fs_convert (cell hh b) = fs_convert (cell h b)"
      "fs_storage (cell hh b) = fs_storage (cell h b)" by (simp_all add: cell)
    show ?thesis
    proof (cases "b = a")
      case True
      then have s: "st hh b = Uninitialized" "st h b = Uninitialized_deferred"
        using a by (simp_all add: cell)
      show ?thesis using g f [OF b] k True unfolding good_def futs sel e s by simp
    next
      case False
      then have "st hh b = st h b" by (simp add: cell)
      then show ?thesis using g f [OF b] unfolding good_def futs sel e by simp
    qed
  qed
  moreover have "\<forall>b. f_cells hh b \<noteq> None \<longleftrightarrow> b < f_next h"
    using i by (simp add: fut_inv_def hh_def clear_deferred_def)
  moreover have "\<forall>t\<in>insert a T. t < f_next h \<and> st hh t \<noteq> Uninitialized_deferred"
    using i a by (auto simp: fut_inv_def cell)
  moreover have "\<forall>d\<in>set M. \<exists>b<f_next h. d = Dep_fn b \<and> fs_kind (cell hh b) \<noteq> Nofn"
    using i unfolding sel fut_inv_def by blast
  ultimately show "fut_inv {} M (insert a T) (clear_deferred a h)"
    unfolding hh_def [symmetric] fut_inv_def n by blast
  show "later h (clear_deferred a h)"
    using a(2) unfolding hh_def [symmetric] later_def n sel by (simp add: cell)
  show "st (clear_deferred a h) a = Uninitialized"
    unfolding hh_def [symmetric] by (simp add: cell)
  have "st hh b = Uninitialized_deferred \<Longrightarrow> st h b = Uninitialized_deferred" for b
    by (simp add: cell split: if_splits)
  then have "card {b. b < f_next h \<and> st hh b = Uninitialized_deferred} <
      card {b. b < f_next h \<and> st h b = Uninitialized_deferred}"
    by (intro card_less_elem [of _ _ a]) (auto simp: cell a)
  then show "work_left (clear_deferred a h) < work_left h"
    unfolding hh_def [symmetric] work_left_def n sel by simp
qed

end
