(* ===== verification/Future_Run.thy ===== *)
theory Future_Run
  imports Future_Inv
begin

text \<open>
  Starting and completing states, run with enough fuel: neither fails, both keep the invariant of
  \<open>Future_Inv\<close>.
\<close>

section \<open>Starts that find nothing to do\<close>

definition flag_start :: "bool \<Rightarrow> addr \<Rightarrow> ('v, 'x) fheap \<Rightarrow> ('v, 'x) fheap" where
  "flag_start async a h =
     upd a (\<lambda>c. c\<lparr>fs_called := True, fs_async := fs_async c \<or> async\<rparr>) h"

lemma same_heap_flag: "f_cells h a \<noteq> None \<Longrightarrow> same_heap h (flag_start async a h)"
  by (simp add: same_heap_def same_core_def flag_start_def cell_upd)

lemma same_heap_promise: "f_cells h a \<noteq> None \<Longrightarrow> same_heap h (upd a (\<lambda>c. c\<lparr>fs_promises := g c\<rparr>) h)"
  by (simp add: same_heap_def same_core_def cell_upd)

lemma fut_inv_facts:
  assumes "fut_inv X M T h" "a < f_next h"
  shows "f_cells h a = Some (cell h a)" "fs_convert (cell h a) = None"
    "st h a \<noteq> Uninitialized_convert" "plain_kind a (fs_kind (cell h a))"
    "rdy h a \<Longrightarrow> fs_storage (cell h a) = Some (stored h a)"
  using assms fut_inv_cell [OF assms] by (auto simp: fut_inv_def good_def stored_def)

lemma plain_kindE:
  assumes "plain_kind a k"
  obtains "k = Nofn" | ord f args where "k = Fn ord (Plain f) args" "Fut None \<notin> set args"
    "eval_order ord args"
    "\<forall>s\<in>set (futs k). s < a"
  using assms by (cases k) (auto simp: plain_kind_def)

lemma start_quiet:
  assumes i: "fut_inv X M T h" and a: "a < f_next h"
    and q: "async \<or> st h a \<noteq> Uninitialized_deferred"
  shows "exec (Suc n) (Start async a) h = Some (Inr (), flag_start async a h)"
proof -
  let ?h = "flag_start async a h"
  have s: "same_heap h ?h" using same_heap_flag fut_inv_facts(1) [OF i a] by blast
  have i': "fut_inv X M T ?h" by (rule same_heap_inv [OF s i])
  have a': "a < f_next ?h" using a by (simp add: flag_start_def)
  note fa = fut_inv_facts [OF i' a']
  have st: "st ?h a = st h a" using same_heap_sel(1) [OF s a] .
  have b: "do_start_base rc async a ?h = Some ?h" if "st h a \<noteq> Uninitialized_deferred" for rc
    using fa that st by (simp add: do_start_base_def)
  have "do_start_deferred (exec n) async a ?h = Some ?h"
  proof (cases rule: plain_kindE [OF fa(4)])
    case 1
    then have "st h a \<noteq> Uninitialized_deferred"
      using i a s by (auto simp: fut_inv_def good_def same_heap_sel(3))
    then show ?thesis using 1 fa(1) b by (simp add: do_start_deferred_def)
  next
    case (2 ord f args)
    then show ?thesis
      using fa(1) b q st by (auto simp: do_start_deferred_def do_start_fn_def)
  qed
  then show ?thesis
    by (simp add: start_deferred_def flag_start_def [symmetric])
qed

section \<open>Resolving arguments that are ready\<close>

lemma get_ready:
  assumes i: "fut_inv X M T h" and a: "a < f_next h" "rdy h a"
  shows "state_get (exec (Suc n)) a h = Some (stored h a, flag_start False a h)"
    and "same_heap h (flag_start False a h)"
proof -
  let ?h = "flag_start False a h"
  show s: "same_heap h ?h" using same_heap_flag fut_inv_facts(1) [OF i a(1)] by blast
  have i': "fut_inv X M T ?h" by (rule same_heap_inv [OF s i])
  have a': "a < f_next ?h" using a by (simp add: flag_start_def)
  have r: "rdy ?h a" "stored ?h a = stored h a"
    using a same_heap_sel(1,2) [OF s a(1)] by simp_all
  have "exec (Suc n) (Start False a) h = Some (Inr (), ?h)"
    by (rule start_quiet [OF i a(1)]) (use a(2) in auto)
  then show "state_get (exec (Suc n)) a h = Some (stored h a, ?h)"
    using fut_inv_facts(1,5) [OF i' a'] r
    by (simp add: state_get_def state_wait_def noexc_def del: exec.simps)
qed

lemma resolve_future_ready:
  assumes i: "fut_inv X M T h" and x: "x \<noteq> Fut None" "\<forall>s\<in>set (fut_of x). s < f_next h \<and> rdy h s"
  shows "\<exists>h'. resolve_future (exec (Suc n)) x h = Some (arg_val (stored h) x, h') \<and> same_heap h h'"
proof (cases x rule: fut_of.cases)
  case (1 s)
  then have "s < f_next h" "rdy h s" using x(2) by auto
  from get_ready [OF i this] show ?thesis
    by (auto simp: 1 resolve_future_def arg_val_def simp del: exec.simps)
qed (use x(1) in \<open>auto simp: resolve_future_def arg_val_def\<close>)

definition vals_at :: "(addr \<Rightarrow> 'x exn + 'v) \<Rightarrow> 'v arg list \<Rightarrow> nat list \<Rightarrow> nat \<Rightarrow> 'v option" where
  "vals_at val args ord i = (if i \<in> set ord then Some (projr (arg_val val (args ! i))) else None)"

lemma resolve_in_order_ready:
  assumes "fut_inv X M T h" "Fut None \<notin> set args" "set ord \<subseteq> set [0..<length args]"
    and "\<forall>s\<in>set (concat (map fut_of args)). s < f_next h \<and> rdy h s"
  shows "\<exists>h'. resolve_in_order (exec (Suc n)) args ord h =
      Some (case first_exn (stored h) args ord of
          Some e \<Rightarrow> Inl e | None \<Rightarrow> Inr (vals_at (stored h) args ord), h') \<and> same_heap h h'"
  using assms
proof (induction ord arbitrary: h)
  case Nil
  then show ?case by (auto simp: vals_at_def)
next
  case (Cons i ord)
  have x: "args ! i \<in> set args" using Cons.prems(3) by simp
  then have "args ! i \<noteq> Fut None" using Cons.prems(2) by metis
  moreover have "\<forall>s\<in>set (fut_of (args ! i)). s < f_next h \<and> rdy h s" using Cons.prems(4) x by auto
  ultimately obtain h1 where h1: "resolve_future (exec (Suc n)) (args ! i) h =
      Some (arg_val (stored h) (args ! i), h1)" "same_heap h h1"
    using resolve_future_ready [OF Cons.prems(1)] by blast
  show ?case
  proof (cases "arg_val (stored h) (args ! i)")
    case (Inl e)
    then show ?thesis using h1 by (auto simp del: exec.simps)
  next
    case (Inr v)
    have sel: "st h1 s = st h s" "stored h1 s = stored h s" if "s \<in> set (concat (map fut_of args))" for s
    proof -
      have "s < f_next h" using Cons.prems(4) that by blast
      then show "st h1 s = st h s" "stored h1 s = stored h s"
        using same_heap_sel(1,2) [OF h1(2)] by simp_all
    qed
    have n: "f_next h1 = f_next h" using h1(2) by (simp add: same_heap_def)
    have "\<forall>s\<in>set (concat (map fut_of args)). s < f_next h1 \<and> rdy h1 s"
      using Cons.prems(4) sel n by simp
    then obtain h' where h': "resolve_in_order (exec (Suc n)) args ord h1 =
        Some (case first_exn (stored h1) args ord of
          Some e \<Rightarrow> Inl e | None \<Rightarrow> Inr (vals_at (stored h1) args ord), h')" "same_heap h1 h'"
      using Cons.IH [OF same_heap_inv [OF h1(2) Cons.prems(1)] Cons.prems(2)] Cons.prems(3) by auto
    have a: "arg_val (stored h1) y = arg_val (stored h) y" if "y \<in> set args" for y
      by (rule arg_val_cong) (use sel(2) that in auto)
    have e: "first_exn (stored h1) args ord = first_exn (stored h) args ord"
      by (rule first_exn_cong) (use Cons.prems(3) a in auto)
    have "(vals_at (stored h1) args ord)(i \<mapsto> v) = vals_at (stored h) args (i # ord)"
    proof
      fix k
      show "((vals_at (stored h1) args ord)(i \<mapsto> v)) k = vals_at (stored h) args (i # ord) k"
        using a [of "args ! k"] Cons.prems(3) Inr by (auto simp: vals_at_def)
    qed
    then show ?thesis
      using h1(1) h'(1) Inr same_heap_trans [OF h1(2) h'(2)] unfolding e
      by (cases "first_exn (stored h) args ord") (auto simp del: exec.simps)
  qed
qed

lemma resolve_ready:
  assumes "fut_inv X M T h" "Fut None \<notin> set args" "eval_order ord args"
    and "\<forall>s\<in>set (concat (map fut_of args)). s < f_next h \<and> rdy h s"
  shows "\<exists>h'. resolve_args (exec (Suc n)) ord args h = Some (arg_vals (stored h) ord args, h') \<and>
    same_heap h h'"
proof -
  have o: "set ord \<subseteq> set [0..<length args]" "set ord = {..<length args}"
    using assms(3) by (simp_all add: eval_order_def lessThan_atLeast0)
  obtain h' where h': "resolve_in_order (exec (Suc n)) args ord h =
      Some (case first_exn (stored h) args ord of
          Some e \<Rightarrow> Inl e | None \<Rightarrow> Inr (vals_at (stored h) args ord), h')" "same_heap h h'"
    using resolve_in_order_ready [OF assms(1,2) o(1) assms(4)] by blast
  have "map (\<lambda>i. the (vals_at (stored h) args ord i)) [0..<length args] =
      map (\<lambda>x. projr (arg_val (stored h) x)) args"
    by (rule nth_equalityI) (simp_all add: vals_at_def o(2))
  then show ?thesis
    using h' by (cases "first_exn (stored h) args ord") (auto simp: resolve_args_def arg_vals_def simp del: exec.simps)
qed

section \<open>Starting and completing\<close>

definition complete_ok :: "('v, 'x) rc \<Rightarrow> nat \<Rightarrow> bool" where
  "complete_ok rc n \<longleftrightarrow>
     (\<forall>M T h a x.
        fut_inv {a} M T h \<longrightarrow> a < f_next h \<longrightarrow> st h a = Uninitialized \<longrightarrow>
        (fs_kind (cell h a) \<noteq> Nofn \<longrightarrow> x = fn_value (stored h) (fs_kind (cell h a))) \<longrightarrow>
        work_left h + 2 \<le> n \<longrightarrow>
        (\<exists>h'. rc (Complete a x) h = Some (Inr (), h') \<and> fut_inv {} M T h' \<and> later h h' \<and>
           rdy h' a \<and> stored h' a = x))"

definition start_ok :: "('v, 'x) rc \<Rightarrow> nat \<Rightarrow> bool" where
  "start_ok rc n \<longleftrightarrow>
     (\<forall>M T h a.
        fut_inv {} M T h \<longrightarrow> a < f_next h \<longrightarrow> work_left h + 2 \<le> n \<longrightarrow>
        (\<exists>h'. rc (Start False a) h = Some (Inr (), h') \<and> fut_inv {} M T h' \<and> later h h' \<and>
           st h' a \<noteq> Uninitialized_deferred))"

lemma complete_okD:
  "complete_ok rc n \<Longrightarrow> fut_inv {a} M T h \<Longrightarrow> a < f_next h \<Longrightarrow> st h a = Uninitialized \<Longrightarrow>
   fs_kind (cell h a) \<noteq> Nofn \<longrightarrow> x = fn_value (stored h) (fs_kind (cell h a)) \<Longrightarrow>
   work_left h + 2 \<le> n \<Longrightarrow>
   \<exists>h'. rc (Complete a x) h = Some (Inr (), h') \<and> fut_inv {} M T h' \<and> later h h' \<and> rdy h' a \<and>
     stored h' a = x"
  unfolding complete_ok_def by blast

lemma start_okD:
  "start_ok rc n \<Longrightarrow> fut_inv {} M T h \<Longrightarrow> a < f_next h \<Longrightarrow> work_left h + 2 \<le> n \<Longrightarrow>
   \<exists>h'. rc (Start False a) h = Some (Inr (), h') \<and> fut_inv {} M T h' \<and> later h h' \<and>
     st h' a \<noteq> Uninitialized_deferred"
  unfolding start_ok_def by blast

lemma invoke_ok:
  fixes h :: "('v, 'x) fheap"
  assumes C: "complete_ok (exec n :: ('v, 'x) rc) n" and i: "fut_inv {b} M T h" and b: "b < f_next h"
    and st: "st h b = Uninitialized" and k: "fs_kind (cell h b) \<noteq> Nofn"
    and r: "\<forall>s\<in>set (futs_of h b). rdy h s" and w: "work_left h + 2 \<le> n"
  shows "\<exists>h'. invoke_deferred (exec n) b h = Some h' \<and> fut_inv {} M T h' \<and> later h h' \<and> rdy h' b"
proof -
  note fb = fut_inv_facts [OF i b]
  obtain ord f args where k': "fs_kind (cell h b) = Fn ord (Plain f) args" "Fut None \<notin> set args"
    "eval_order ord args"
    using fb(4) k by (elim plain_kindE) auto
  have fu: "futs_of h b = concat (map fut_of args)" using k' b by (simp add: futs_of_def futs_def)
  obtain m where m: "n = Suc m" using w by (cases n) auto
  have "\<forall>s\<in>set (concat (map fut_of args)). s < f_next h \<and> rdy h s"
    using r futs_of_lt [OF i, of _ b] unfolding fu by (meson less_trans)
  then obtain h1 where h1: "resolve_args (exec n) ord args h = Some (arg_vals (stored h) ord args, h1)"
    "same_heap h h1"
    using resolve_ready [OF i k'(2,3)] m by blast
  note sel = same_heap_sel [OF h1(2) b]
  have i1: "fut_inv {b} M T h1" by (rule same_heap_inv [OF h1(2) i])
  have b1: "b < f_next h1" using b h1(2) by (simp add: same_heap_def)
  have l1: "later h h1" by (rule same_heap_later [OF h1(2)])
  have w1: "work_left h1 + 2 \<le> n" using later_work_left [OF l1] w by simp
  have v: "fn_value (stored h1) (fs_kind (cell h1 b)) = fn_value (stored h) (fs_kind (cell h b))"
  proof -
    have "stored h1 s = stored h s" if "s \<in> set (futs (fs_kind (cell h b)))" for s
    proof -
      have "s \<in> set (futs_of h b)" using that b by (simp add: futs_of_def)
      then have "s < f_next h" using futs_of_lt [OF i] by (meson less_trans)
      then show ?thesis using same_heap_sel(2) [OF h1(2)] by simp
    qed
    then show ?thesis unfolding sel(3) by (rule fn_value_cong [OF fb(4)])
  qed
  have "st h1 b = Uninitialized" using sel(1) st by simp
  then obtain h' where h': "exec n (Complete b (fn_value (stored h) (fs_kind (cell h b)))) h1 = Some (Inr (), h')"
    "fut_inv {} M T h'" "later h1 h'" "rdy h' b"
    using complete_okD [OF C i1 b1 _ _ w1, of "fn_value (stored h) (fs_kind (cell h b))"] v by metis
  have "invoke_deferred (exec n) b h = Some h'"
  proof (cases "arg_vals (stored h) ord args")
    case (Inl e)
    then show ?thesis
      using h1 h' k' fb(1) by (simp add: invoke_deferred_def invoke_fn_def fn_value_def noexc_def)
  next
    case (Inr vs)
    then show ?thesis
      using h1 h' k' fb(1)
      by (cases "f vs")
        (simp_all add: invoke_deferred_def invoke_fn_def invoke_and_assign_def fn_value_def noexc_def)
  qed
  then show ?thesis using h' later_trans [OF l1] by blast
qed

lemma resolve_one_eq:
  assumes "f_cells h b = Some (cell h b)"
  shows "resolve_one rc b h =
    (if fs_need (cell h b) = 1 then invoke_deferred rc b (dec_need b h) else Some (dec_need b h))"
  using assms unfolding resolve_one_def dec_need_def by simp

lemma resolve_one_ok:
  fixes h :: "('v, 'x) fheap"
  assumes C: "complete_ok (exec n :: ('v, 'x) rc) n" and i: "fut_inv {} M T h"
    and b: "b < f_next h" "fs_kind (cell h b) \<noteq> Nofn"
    and less: "ticket T h b + count_list M (Dep_fn b) = 1 + (ticket T' h b + count_list M' (Dep_fn b))"
    and other: "\<forall>a. a \<noteq> b \<longrightarrow> ticket T' h a = ticket T h a \<and>
        count_list M' (Dep_fn a) = count_list M (Dep_fn a)"
    and sub: "T' \<subseteq> T" "set M' \<subseteq> set M"
    and started: "b \<in> T - T' \<longrightarrow> (\<forall>s\<in>set (futs_of h b). st h s \<noteq> Uninitialized_deferred)"
    and w: "work_left h + 2 \<le> n"
  shows "\<exists>h'. resolve_one (exec n) b h = Some h' \<and> fut_inv {} M' T' h' \<and> later h h'"
proof -
  note d = dec_need_inv [OF i b less other sub started]
  have c: "f_cells h b = Some (cell h b)" using fut_inv_facts [OF i b(1)] by simp
  show ?thesis
  proof (cases "fs_need (cell h b) = 1")
    case False
    then show ?thesis using d resolve_one_eq [OF c] by simp
  next
    case True
    have n: "f_next (dec_need b h) = f_next h" by (simp add: dec_need_def)
    have f: "futs_of (dec_need b h) b = futs_of h b" using d(3) [OF True] n by (simp add: futs_of_def)
    have w': "work_left (dec_need b h) + 2 \<le> n" using later_work_left [OF d(2)] w by simp
    have "fut_inv {b} M' T' (dec_need b h)" using d(1) True by simp
    then obtain h' where "invoke_deferred (exec n) b (dec_need b h) = Some h'" "fut_inv {} M' T' h'"
      "later (dec_need b h) h'"
      using invoke_ok [OF C _ _ _ _ _ w', of b M' T'] d(3) [OF True] b n f by auto
    then show ?thesis
      using True resolve_one_eq [OF c] later_trans [OF d(2)] by auto
  qed
qed

lemma run_deps_ok:
  fixes h :: "('v, 'x) fheap"
  assumes C: "complete_ok (exec n :: ('v, 'x) rc) n"
  shows "fut_inv {} (ds @ M) T h \<Longrightarrow> work_left h + 2 \<le> n \<Longrightarrow>
    \<exists>h'. run_deps (exec n) ds h = Some h' \<and> fut_inv {} M T h' \<and> later h h'"
proof (induction ds arbitrary: h)
  case (Cons d ds)
  obtain b where b: "d = Dep_fn b" "b < f_next h" "fs_kind (cell h b) \<noteq> Nofn"
    using Cons.prems(1) by (auto simp: fut_inv_def)
  have "\<exists>h'. resolve_one (exec n) b h = Some h' \<and> fut_inv {} (ds @ M) T h' \<and> later h h'"
    by (rule resolve_one_ok [OF C Cons.prems(1) b(2,3) _ _ _ _ _ Cons.prems(2)]) (use b(1) in auto)
  then obtain h1 where h1: "resolve_one (exec n) b h = Some h1" "fut_inv {} (ds @ M) T h1" "later h h1"
    by blast
  have "work_left h1 + 2 \<le> n" using later_work_left [OF h1(3)] Cons.prems(2) by simp
  then obtain h' where "run_deps (exec n) ds h1 = Some h'" "fut_inv {} M T h'" "later h1 h'"
    using Cons.IH [OF h1(2)] by blast
  then show ?case
    using h1 b fut_inv_facts(1) [OF Cons.prems(1) b(2)] later_trans [OF h1(3)]
    by (auto simp: run_dep_def dependant_cb_def)
qed simp

lemma start_args_ok:
  fixes h :: "('v, 'x) fheap"
  assumes S: "start_ok (exec n :: ('v, 'x) rc) n"
  shows "fut_inv {} M T h \<Longrightarrow> work_left h + 2 \<le> n \<Longrightarrow> Fut None \<notin> set args \<Longrightarrow>
    \<forall>s\<in>set (concat (map fut_of args)). s < f_next h \<Longrightarrow>
    \<exists>h'. start_args (exec n) args h = Some h' \<and> fut_inv {} M T h' \<and> later h h' \<and>
      (\<forall>s\<in>set (concat (map fut_of args)). st h' s \<noteq> Uninitialized_deferred)"
proof (induction "exec n :: ('v, 'x) rc" args h rule: start_args.induct)
  case (1 h)
  then show ?case by auto
next
  case (2 v as h)
  then show ?case by auto
next
  case (3 as h)
  then show ?case by simp
next
  case (4 a as h)
  obtain h1 where h1: "exec n (Start False a) h = Some (Inr (), h1)" "fut_inv {} M T h1" "later h h1"
    "st h1 a \<noteq> Uninitialized_deferred"
    using start_okD [OF S 4(2), of a] 4(3,5) by auto
  have n1: "f_next h1 = f_next h" using h1(3) by (simp add: later_def)
  have "noexc (exec n (Start False a) h) = Some h1" using h1(1) by (simp add: noexc_def)
  moreover from this obtain h' where "start_args (exec n) as h1 = Some h'" "fut_inv {} M T h'"
    "later h1 h'" "\<forall>s\<in>set (concat (map fut_of as)). st h' s \<noteq> Uninitialized_deferred"
    using 4(1) [OF _ h1(2)] 4(3-5) later_work_left [OF h1(3)] n1 by auto
  moreover from this have "st h' a \<noteq> Uninitialized_deferred"
    using h1(4) 4(5) n1 by (simp add: later_def)
  ultimately show ?case using later_trans [OF h1(3)] by auto
qed

lemma complete_step:
  fixes h :: "('v, 'x) fheap"
  assumes C: "complete_ok (exec n :: ('v, 'x) rc) n"
    and i: "fut_inv {a} M T h" and a: "a < f_next h" "st h a = Uninitialized"
    and x: "fs_kind (cell h a) \<noteq> Nofn \<longrightarrow> x = fn_value (stored h) (fs_kind (cell h a))"
    and w: "work_left h + 2 \<le> Suc n"
  shows "\<exists>h'. exec (Suc n) (Complete a x) h = Some (Inr (), h') \<and> fut_inv {} M T h' \<and>
    later h h' \<and> rdy h' a \<and> stored h' a = x"
proof -
  note f = finish_inv [OF i a x [rule_format]]
  have c: "f_cells h a = Some (cell h a)" using fut_inv_facts(1) [OF i a(1)] .
  let ?cbs = "(case fs_ready_cb (cell h a) of None \<Rightarrow> [] | Some i \<Rightarrow> [i]) @ fs_shared_cbs (cell h a)"
  let ?h1 = "(finish a x h)\<lparr>f_fired := f_fired h @ map (\<lambda>i. (i, a)) ?cbs\<rparr>"
  have s: "same_heap (finish a x h) ?h1"
    by (simp add: same_heap_def same_core_def cell_def)
  have i1: "fut_inv {} (fs_deps (cell h a) @ M) T ?h1" by (rule same_heap_inv [OF s f(1)])
  have l1: "later h ?h1" using later_trans [OF f(2) same_heap_later [OF s]] .
  have "work_left ?h1 \<le> work_left (finish a x h)" by (rule later_work_left [OF same_heap_later [OF s]])
  then have "work_left ?h1 + 2 \<le> n" using f(3) w by simp
  then obtain h' where h': "run_deps (exec n) (fs_deps (cell h a)) ?h1 = Some h'" "fut_inv {} M T h'"
    "later ?h1 h'"
    using run_deps_ok [OF C i1] by blast
  have a1: "a < f_next ?h1" using a(1) by (simp add: finish_def)
  have "rdy ?h1 a" "stored ?h1 a = x"
    using same_heap_sel(1,2) [OF s] a1 f(4,5) by simp_all
  then have r: "rdy h' a" "stored h' a = x" using h'(3) a1 by (auto simp: later_def)
  have "invoke_ready_cb (exec n) a (upd a (\<lambda>c. c\<lparr>fs_storage := Some x, fs_state := tag x\<rparr>) h) = Some h'"
    using h'(1) c by (simp add: invoke_ready_cb_def finish_def upd_def)
  then have "exec (Suc n) (Complete a x) h = Some (Inr (), h')"
    using c a(2) by (simp add: complete_def tag_def)
  then show ?thesis using h'(2) r later_trans [OF l1 h'(3)] by blast
qed

lemma start_step:
  fixes h :: "('v, 'x) fheap"
  assumes S: "start_ok (exec n :: ('v, 'x) rc) n" and C: "complete_ok (exec n :: ('v, 'x) rc) n"
    and i: "fut_inv {} M T h" and a: "a < f_next h" and w: "work_left h + 2 \<le> Suc n"
  shows "\<exists>h'. exec (Suc n) (Start False a) h = Some (Inr (), h') \<and> fut_inv {} M T h' \<and>
    later h h' \<and> st h' a \<noteq> Uninitialized_deferred"
proof (cases "st h a = Uninitialized_deferred")
  case False
  have s: "same_heap h (flag_start False a h)"
    using same_heap_flag fut_inv_facts(1) [OF i a] by blast
  show ?thesis
    using start_quiet [OF i a, of False n] False same_heap_inv [OF s i] same_heap_later [OF s]
      same_heap_sel(1) [OF s a] by simp
next
  case True
  let ?h0 = "flag_start False a h"
  have s: "same_heap h ?h0"
    using same_heap_flag fut_inv_facts(1) [OF i a] by blast
  have i0: "fut_inv {} M T ?h0" by (rule same_heap_inv [OF s i])
  have a0: "a < f_next ?h0" "st ?h0 a = Uninitialized_deferred"
    using a True same_heap_sel(1) [OF s a] by (simp_all add: flag_start_def)
  have l0: "later h ?h0" by (rule same_heap_later [OF s])
  let ?h1 = "clear_deferred a ?h0"
  note cd = clear_deferred_inv [OF i0 a0]
  have a1: "a < f_next ?h1" using a0(1) by (simp add: clear_deferred_def)
  have w1: "work_left ?h1 + 2 \<le> n" using later_work_left [OF l0] cd(4) w by simp
  have c0: "f_cells ?h0 a = Some (cell ?h0 a)" using fut_inv_facts(1) [OF i0 a0(1)] .
  have k1: "fs_kind (cell ?h1 a) = fs_kind (cell ?h0 a)"
    using c0 by (simp add: clear_deferred_def cell_upd)
  obtain ord f args where k: "fs_kind (cell ?h0 a) = Fn ord (Plain f) args" "Fut None \<notin> set args"
    "\<forall>s\<in>set (futs (fs_kind (cell ?h0 a))). s < a"
    using fut_inv_facts(4) [OF i0 a0(1)] cd(6) by (elim plain_kindE) auto
  have "\<forall>s\<in>set (concat (map fut_of args)). s < f_next ?h1"
    using k a1 unfolding futs_def by (fastforce intro: less_trans)
  then obtain h2 where h2: "start_args (exec n) args ?h1 = Some h2" "fut_inv {} M (insert a T) h2"
    "later ?h1 h2" "\<forall>s\<in>set (concat (map fut_of args)). st h2 s \<noteq> Uninitialized_deferred"
    using start_args_ok [OF S cd(1) w1 k(2)] by blast
  have a2: "a < f_next h2" using h2(3) a1 by (simp add: later_def)
  have st2: "st h2 a \<noteq> Uninitialized_deferred" using h2(3) a1 cd(5) by (auto simp: later_def)
  have k2: "fs_kind (cell h2 a) \<noteq> Nofn" using h2(3) a1 k1 cd(6) by (auto simp: later_def)
  have fu: "futs_of h2 a = concat (map fut_of args)"
    using h2(3) a1 a2 k1 k(1) by (simp add: futs_of_def futs_def later_def)
  have w2: "work_left h2 + 2 \<le> n" using later_work_left [OF h2(3)] w1 by simp
  have "\<exists>h'. resolve_one (exec n) a h2 = Some h' \<and> fut_inv {} M T h' \<and> later h2 h'"
    by (rule resolve_one_ok [OF C h2(2) a2 k2 _ _ _ _ _ w2])
      (use cd(2) st2 fu h2(4) in \<open>auto simp: ticket_def\<close>)
  then obtain h' where h': "resolve_one (exec n) a h2 = Some h'" "fut_inv {} M T h'" "later h2 h'"
    by blast
  have "exec (Suc n) (Start False a) h = Some (Inr (), h')"
    using h2(1) h'(1) c0 a0(2) k(1)
    by (simp add: start_deferred_def flag_start_def [of False, simplified, symmetric]
        do_start_deferred_def do_start_fn_def)
  moreover have "later h h'"
    using later_trans [OF l0 later_trans [OF cd(3) later_trans [OF h2(3) h'(3)]]] .
  moreover have "st h' a \<noteq> Uninitialized_deferred" using h'(3) a2 st2 by (auto simp: later_def)
  ultimately show ?thesis using h'(2) by blast
qed

lemma exec_ok: "start_ok (exec n :: ('v, 'x) rc) n \<and> complete_ok (exec n :: ('v, 'x) rc) n"
proof (induction n)
  case 0
  then show ?case by (simp add: start_ok_def complete_ok_def)
next
  case (Suc n)
  have "start_ok (exec (Suc n) :: ('v, 'x) rc) (Suc n)"
    unfolding start_ok_def using start_step Suc.IH by blast
  moreover have "complete_ok (exec (Suc n) :: ('v, 'x) rc) (Suc n)"
    unfolding complete_ok_def
  proof (intro allI impI)
    fix M T a x and h :: "('v, 'x) fheap"
    assume i: "fut_inv {a} M T h" and a: "a < f_next h" "st h a = Uninitialized"
      and x: "fs_kind (cell h a) \<noteq> Nofn \<longrightarrow> x = fn_value (stored h) (fs_kind (cell h a))"
      and w: "work_left h + 2 \<le> Suc n"
    show "\<exists>h'. exec (Suc n) (Complete a x) h = Some (Inr (), h') \<and> fut_inv {} M T h' \<and>
       later h h' \<and> rdy h' a \<and> stored h' a = x"
      using complete_step [OF conjunct2 [OF Suc.IH] i a x w] .
  qed
  ultimately show ?case ..
qed

end
