(* ===== verification/Future_Prog.thy ===== *)
theory Future_Prog
  imports Future_Run
begin

text \<open>
  Programs of promises and deferred functions: which operations have a defined behaviour, and that
  those complete; a function runs exactly when it was started and its arguments are ready, and \<open>get\<close> answers the value of the expression that
  the functions make up. Last, the defects of conversions, of functions that take the promise and
  of jobs.
\<close>

section \<open>Programs\<close>

datatype ('v, 'x) fop =
  Op_promise | Op_lazy "nat list" "'v list \<Rightarrow> 'x exn + 'v" "'v arg list" | Op_set addr "'x exn + 'v"
| Op_drop addr | Op_start addr | Op_callback addr nat bool

definition fuel :: "('v, 'x) fheap \<Rightarrow> nat" where "fuel h = 2 * f_next h + 2"

definition fexec :: "('v, 'x) fop \<Rightarrow> ('v, 'x) fheap \<Rightarrow> ('v, 'x) fheap option" where
  "fexec op h =
     (case op of
        Op_promise \<Rightarrow> Some (snd (prom_new h))
      | Op_lazy ord f args \<Rightarrow> map_option snd (async_lazy (fuel h) ord (Plain f) args h)
      | Op_set a x \<Rightarrow> map_option snd (prom_set (fuel h) (Some a) x h)
      | Op_drop a \<Rightarrow> prom_dtor (fuel h) (Some a) h
      | Op_start a \<Rightarrow> map_option snd (fut_start (fuel h) (Some a) h)
      | Op_callback a i start \<Rightarrow> map_option snd (shared_callback (fuel h) (Some a) i start h))"

text \<open>
  Promises are set and dropped, functions take futures that have a state; the order in which the
  arguments of a function are evaluated may be any.
\<close>

definition fop_valid :: "('v, 'x) fop \<Rightarrow> ('v, 'x) fheap \<Rightarrow> bool" where
  "fop_valid op h =
     (case op of
        Op_promise \<Rightarrow> True
      | Op_lazy ord f args \<Rightarrow>
          eval_order ord args \<and> Fut None \<notin> set args \<and> (\<forall>s\<in>set (concat (map fut_of args)). s < f_next h)
      | Op_set a x \<Rightarrow> a < f_next h \<and> fs_kind (cell h a) = Nofn
      | Op_drop a \<Rightarrow> a < f_next h \<and> fs_kind (cell h a) = Nofn
      | Op_start a \<Rightarrow> a < f_next h
      | Op_callback a i start \<Rightarrow> a < f_next h)"

text \<open>
  The code has no defined behaviour for a function of a future that is ready already (a mutex is
  unlocked twice) and for a callback on a shared future that is ready (an uninitialised pointer is
  followed). Programs do neither.
\<close>

definition fop_undefined :: "('v, 'x) fop \<Rightarrow> ('v, 'x) fheap \<Rightarrow> bool" where
  "fop_undefined op h =
     (case op of
        Op_lazy ord f args \<Rightarrow> list_ex (rdy h) (concat (map fut_of args))
      | Op_callback a i start \<Rightarrow> rdy h a
      | _ \<Rightarrow> False)"

inductive fut_reach :: "('v, 'x) fheap \<Rightarrow> bool" where
  init: "fut_reach fheap_init"
| op: "fut_reach h \<Longrightarrow> fop_valid op h \<Longrightarrow> \<not> fop_undefined op h \<Longrightarrow> fexec op h = Some h' \<Longrightarrow>
    fut_reach h'"

abbreviation quiet_inv :: "('v, 'x) fheap \<Rightarrow> bool" where "quiet_inv h \<equiv> fut_inv {} [] {} h"

lemma quiet_inv_wild: "quiet_inv (h\<lparr>f_wild := True\<rparr>) = quiet_inv h"
proof -
  let ?h = "h\<lparr>f_wild := True\<rparr>"
  have c: "cell ?h = cell h" "f_cells ?h = f_cells h" "f_next ?h = f_next h"
    by (simp_all add: cell_def fun_eq_iff)
  have s: "stored ?h = stored h" "futs_of ?h = futs_of h" unfolding stored_def futs_of_def c by simp_all
  have p: "pending ?h = pending h" unfolding pending_def c s by simp
  have t: "ticket T ?h = ticket T h" for T unfolding ticket_def c by simp
  show ?thesis unfolding fut_inv_def good_def fn_good_def c s p t ..
qed

lemma fuel_enough: "work_left h + 2 \<le> fuel h"
  using work_left_bound [of h] by (simp add: fuel_def)

lemma quiet_inv_init: "quiet_inv fheap_init"
  by (simp add: fut_inv_def fheap_init_def)

lemma quiet_start:
  assumes "quiet_inv h" "a < f_next h"
  shows "\<exists>h'. exec (fuel h) (Start False a) h = Some (Inr (), h') \<and> quiet_inv h' \<and> later h h' \<and>
    st h' a \<noteq> Uninitialized_deferred"
  using start_okD [OF conjunct1 [OF exec_ok] assms fuel_enough] .

lemma fut_inv_nofn:
  assumes "fut_inv {} M T h" "fs_kind (cell h a) = Nofn"
  shows "fut_inv {a} M T h"
proof -
  have f: "fn_good {a} M T h b = fn_good {} M T h b" if "b \<noteq> a" for b
    using that by (simp add: fn_good_def)
  have "good {a} M T h b" if "good {} M T h b" for b
    using that assms(2) by (cases "b = a") (simp_all add: good_def f)
  then show ?thesis using assms(1) by (simp add: fut_inv_def)
qed

lemma quiet_complete:
  assumes i: "quiet_inv h" and a: "a < f_next h" "fs_kind (cell h a) = Nofn"
    and w: "work_left h + 2 \<le> n"
  shows "\<exists>r h'. exec n (Complete a x) h = Some (r, h') \<and> quiet_inv h' \<and> later h h'"
proof (cases "st h a = Uninitialized")
  case True
  have "fut_inv {a} [] {} h" by (rule fut_inv_nofn [OF i a(2)])
  then show ?thesis
    using complete_okD [OF conjunct2 [OF exec_ok] _ a(1) True _ w] a(2) by blast
next
  case False
  obtain m where "n = Suc m" using w by (cases n) auto
  then show ?thesis
    using False fut_inv_facts(1) [OF i a(1)] i by (simp add: complete_def)
qed

section \<open>New states\<close>

lemma cell_new: "new_state c h = (f_next h, h') \<Longrightarrow>
    cell h' b = (if b = f_next h then c else cell h b) \<and> f_next h' = Suc (f_next h) \<and>
    f_cells h' = (f_cells h)(f_next h \<mapsto> c)"
  by (auto simp: new_state_def cell_def)

text \<open>\<open>init_cb\<close>: every argument that is not ready gets the new state as a dependant.\<close>

lemma upd_upd: "upd a f (upd a g h) = upd a (\<lambda>c. f (g c)) h"
  by (auto simp: upd_def option.map_comp o_def)

lemma upd_cong: "f_cells h a = Some c \<Longrightarrow> f c = g c \<Longrightarrow> upd a f h = upd a g h"
  by (simp add: upd_def)

definition registered :: "addr \<Rightarrow> addr list \<Rightarrow> ('v, 'x) fheap \<Rightarrow> ('v, 'x) fheap \<Rightarrow> bool" where
  "registered a ss h h' \<longleftrightarrow>
     f_wild h' = f_wild h \<and> (f_unlocks h' \<longleftrightarrow> f_unlocks h \<or> list_ex (rdy h) ss) \<and>
     f_next h' = f_next h \<and> (\<forall>b. f_cells h' b = None \<longleftrightarrow> f_cells h b = None) \<and>
     cell h' a =
       (cell h a)\<lparr>fs_need := fs_need (cell h a) + length (filter (\<lambda>s. \<not> rdy h s) ss)\<rparr> \<and>
     (\<forall>b. b \<noteq> a \<longrightarrow> f_cells h b \<noteq> None \<longrightarrow>
        cell h' b =
          (if rdy h b then cell h b
           else (cell h b)\<lparr>fs_deps := fs_deps (cell h b) @ replicate (count_list ss b) (Dep_fn a)\<rparr>))"

lemma registered_ready:
  assumes "registered a ss h1 h'" "rdy h s" "s \<noteq> a"
    and "f_next h1 = f_next h" "\<And>b. f_cells h1 b = None \<longleftrightarrow> f_cells h b = None"
    and "\<And>b. cell h1 b = cell h b" and "f_wild h1 = f_wild h" "f_unlocks h1"
  shows "registered a (s # ss) h h'"
  using assms(1-3,7,8) unfolding registered_def assms(4-6) by auto

lemma registered_wait:
  assumes "registered a ss h1 h'" "\<not> rdy h s" "s \<noteq> a"
    and "f_next h1 = f_next h" "\<And>b. f_cells h1 b = None \<longleftrightarrow> f_cells h b = None"
    and c: "\<And>b. cell h1 b = (if b = s then (cell h s)\<lparr>fs_deps := fs_deps (cell h s) @ [Dep_fn a]\<rparr>
        else if b = a then (cell h a)\<lparr>fs_need := fs_need (cell h a) + 1\<rparr> else cell h b)"
    and fl: "f_wild h1 = f_wild h" "f_unlocks h1 = f_unlocks h"
  shows "registered a (s # ss) h h'"
proof -
  have rd: "rdy h1 b \<longleftrightarrow> rdy h b" for b using assms(3) by (simp add: c)
  show ?thesis
    using assms(1-3) fl unfolding registered_def assms(4,5) rd by (simp add: c)
qed

lemma init_cb_effect:
  assumes "Fut None \<notin> set args" "a \<notin> set (concat (map fut_of args))"
    and "f_cells h a \<noteq> None" "\<forall>s\<in>set (concat (map fut_of args)). f_cells h s \<noteq> None"
    and "1 \<le> fs_need (cell h a)"
  shows "\<exists>h'. init_cb rc a args h = Some (Inr (), h') \<and> registered a (concat (map fut_of args)) h h'"
  using assms
proof (induction rc a args h rule: init_cb.induct)
  case (1 rc a h)
  then show ?case by (simp add: registered_def)
next
  case (4 rc a s as h)
  have s: "s \<noteq> a" "f_cells h s \<noteq> None" and a: "f_cells h a \<noteq> None" using 4(3-5) by auto
  let ?h0 = "upd a (\<lambda>c. c\<lparr>fs_need := fs_need c + 1\<rparr>) h"
  have c0: "cell ?h0 b = (if b = a then (cell h a)\<lparr>fs_need := fs_need (cell h a) + 1\<rparr> else cell h b)" for b
    using cell_upd [OF a] .
  have s0: "f_cells ?h0 s = Some (cell h s)" "f_cells ?h0 a = Some ((cell h a)\<lparr>fs_need := fs_need (cell h a) + 1\<rparr>)"
    using s a by (auto simp: upd_def cell_def)
  have "\<exists>h1. register_dependant rc s (Dep_fn a) ?h0 = Some h1 \<and> f_next h1 = f_next h \<and>
      (\<forall>b. f_cells h1 b = None \<longleftrightarrow> f_cells h b = None) \<and> f_wild h1 = f_wild h \<and>
      (f_unlocks h1 \<longleftrightarrow> f_unlocks h \<or> rdy h s) \<and>
      (if rdy h s then (\<forall>b. cell h1 b = cell h b)
       else (\<forall>b. cell h1 b = (if b = s then (cell h s)\<lparr>fs_deps := fs_deps (cell h s) @ [Dep_fn a]\<rparr>
          else if b = a then (cell h a)\<lparr>fs_need := fs_need (cell h a) + 1\<rparr> else cell h b)))"
  proof (cases "rdy h s")
    case True
    let ?h1 = "upd a (\<lambda>c. c\<lparr>fs_need := fs_need c - 1\<rparr>) (?h0\<lparr>f_unlocks := True\<rparr>)"
    have "register_dependant rc s (Dep_fn a) ?h0 = Some ?h1"
      using True s0 4(6)
      by (simp add: register_dependant_def run_dep_def dependant_cb_def resolve_one_def)
    moreover have "cell ?h1 b = cell h b" for b using a by (auto simp: cell_def upd_def)
    ultimately show ?thesis using True by (auto simp: upd_def)
  next
    case False
    have "register_dependant rc s (Dep_fn a) ?h0 = Some (add_dep (Dep_fn a) s ?h0)"
      using False s0 by (simp add: register_dependant_def)
    then show ?thesis using False s a s0 by (auto simp: add_dep_def cell_upd)
  qed
  then obtain h1 where r: "register_dependant rc s (Dep_fn a) ?h0 = Some h1" "f_next h1 = f_next h"
    "\<And>b. f_cells h1 b = None \<longleftrightarrow> f_cells h b = None" "f_wild h1 = f_wild h"
    "f_unlocks h1 \<longleftrightarrow> f_unlocks h \<or> rdy h s"
    and c1: "if rdy h s then (\<forall>b. cell h1 b = cell h b)
       else (\<forall>b. cell h1 b = (if b = s then (cell h s)\<lparr>fs_deps := fs_deps (cell h s) @ [Dep_fn a]\<rparr>
          else if b = a then (cell h a)\<lparr>fs_need := fs_need (cell h a) + 1\<rparr> else cell h b))"
    by blast
  have "1 \<le> fs_need (cell h1 a)" using c1 4(6) s(1) by (cases "rdy h s") simp_all
  moreover have "f_cells h1 a \<noteq> None" "\<forall>s\<in>set (concat (map fut_of as)). f_cells h1 s \<noteq> None"
    using 4(5) a r(3) by auto
  ultimately obtain h' where h': "init_cb rc a as h1 = Some (Inr (), h')"
    "registered a (concat (map fut_of as)) h1 h'"
    using 4(1) [OF r(1)] 4(2,3) by auto
  have "registered a (s # concat (map fut_of as)) h h'"
  proof (cases "rdy h s")
    case True
    then show ?thesis using c1 r(4,5) by (intro registered_ready [OF h'(2) True s(1) r(2,3)]) simp_all
  next
    case False
    then show ?thesis using c1 r(4,5) by (intro registered_wait [OF h'(2) False s(1) r(2,3)]) simp_all
  qed
  then show ?case using r(1) h'(1) by simp
qed simp_all

lemma count_list_replicate: "count_list (replicate n x) y = (if x = y then n else 0)"
  by (induction n) auto

lemma quiet_new:
  assumes i: "quiet_inv h" and k: "plain_kind (f_next h) k"
    and n: "new_state (shared_state_ctor k (k \<noteq> Nofn)) h = (a, h0)"
    and r: "registered a (futs k) h0 h'"
  shows "quiet_inv h' \<and> f_next h' = Suc (f_next h) \<and> a = f_next h \<and> f_wild h' = f_wild h \<and>
    (f_unlocks h' \<longleftrightarrow> f_unlocks h \<or> list_ex (rdy h) (futs k))"
proof -
  let ?N = "f_next h"
  let ?c = "shared_state_ctor k (k \<noteq> Nofn)"
  have a: "a = ?N" using n by (simp add: new_state_def)
  note c0 = cell_new [OF n [unfolded a]]
  have N': "f_next h' = Suc ?N" using r c0 by (simp add: registered_def)
  have "f_cells h b = None \<longleftrightarrow> \<not> b < ?N" for b
  proof -
    have "f_cells h b \<noteq> None \<longleftrightarrow> b < ?N" using i unfolding fut_inv_def by blast
    then show ?thesis by blast
  qed
  then have dom0: "f_cells h0 b = None \<longleftrightarrow> \<not> b < Suc ?N" for b
    using c0 [of b] by (simp add: less_Suc_eq)
  then have dom: "f_cells h' b \<noteq> None \<longleftrightarrow> b < f_next h'" for b
    using r N' by (simp add: registered_def)
  have ss: "s < ?N" if "s \<in> set (futs k)" for s
    using k that by (cases k) (auto simp: plain_kind_def futs_def)
  have rd0: "rdy h0 b \<longleftrightarrow> rdy h b" if "b < ?N" for b using c0 [of b] that by simp
  have cN: "cell h' ?N = ?c\<lparr>fs_need := 1 + length (filter (\<lambda>s. \<not> rdy h s) (futs k))\<rparr>"
  proof -
    have "filter (\<lambda>s. \<not> rdy h0 s) (futs k) = filter (\<lambda>s. \<not> rdy h s) (futs k)"
      using ss rd0 by (intro filter_cong) auto
    moreover have "cell h0 ?N = ?c" using c0 by simp
    moreover have "fs_need ?c = 1" by (simp add: shared_state_ctor_def)
    ultimately show ?thesis using r by (simp add: registered_def a)
  qed
  have cb: "cell h' b = (if rdy h b then cell h b else (cell h b)\<lparr>fs_deps :=
      fs_deps (cell h b) @ replicate (count_list (futs k) b) (Dep_fn ?N)\<rparr>)" if "b < ?N" for b
  proof -
    have "f_cells h0 b \<noteq> None" "b \<noteq> ?N" using dom0 [of b] that by auto
    moreover have "cell h0 b = cell h b" using c0 [of b] that by simp
    ultimately show ?thesis using r unfolding registered_def a by metis
  qed
  have sel: "st h' b = st h b" "stored h' b = stored h b" "fs_kind (cell h' b) = fs_kind (cell h b)"
    "fs_need (cell h' b) = fs_need (cell h b)" "fs_convert (cell h' b) = fs_convert (cell h b)"
    "fs_storage (cell h' b) = fs_storage (cell h b)" if "b < ?N" for b
    using cb [OF that] by (simp_all add: stored_def)
  have selN: "fs_kind (cell h' ?N) = k" "fs_deps (cell h' ?N) = []" "fs_convert (cell h' ?N) = None"
    "st h' ?N = (if k \<noteq> Nofn then Uninitialized_deferred else Uninitialized)"
    by (simp_all add: cN shared_state_ctor_def)
  have futs: "futs_of h' b = (if b = ?N then futs k else futs_of h b)" for b
    using N' sel(3) selN(1) by (simp add: futs_of_def less_Suc_eq)
  have lt: "s < ?N" if "s \<in> set (futs_of h' b)" for s b
    using that ss futs_of_lt [OF i, of s b] by (auto simp: futs split: if_splits)
  have pend: "pending h' b = (if b = ?N then length (filter (\<lambda>s. \<not> rdy h s) (futs k)) else pending h b)" for b
  proof -
    have "filter (\<lambda>s. \<not> rdy h' s) (futs_of h' b) = filter (\<lambda>s. \<not> rdy h s) (futs_of h' b)"
      using lt sel(1) by (intro filter_cong) auto
    then show ?thesis by (simp add: pending_def futs)
  qed
  have "list_ex (rdy h0) (futs k) = list_ex (rdy h) (futs k)"
    using ss rd0 by (auto simp: list_ex_iff)
  then have fl: "f_wild h' = f_wild h" "f_unlocks h' \<longleftrightarrow> f_unlocks h \<or> list_ex (rdy h) (futs k)"
    using r n by (auto simp: registered_def new_state_def)
  have "good {} [] {} h' b" if b: "b < Suc ?N" for b
  proof (cases "b = ?N")
    case True
    have "count_list (futs_of h' c) ?N = 0" for c using lt [of ?N c] by (auto simp: count_list_0)
    moreover have "k \<noteq> Nofn \<Longrightarrow> fn_good {} [] {} h' ?N"
      unfolding fn_good_def pend ticket_def using selN by (simp add: cN)
    ultimately show ?thesis using True k selN by (simp add: good_def)
  next
    case False
    then have b: "b < ?N" using b by simp
    have g: "good {} [] {} h b" using i b by (simp add: fut_inv_def)
    have d: "count_list (fs_deps (cell h' b)) (Dep_fn c) = count_list (futs_of h' c) b"
      if "\<not> rdy h b" for c
    proof -
      have "count_list (fs_deps (cell h b)) (Dep_fn c) = count_list (futs_of h c) b"
        using g that by (simp add: good_def)
      moreover have "futs_of h ?N = []" by (simp add: futs_of_def)
      ultimately show ?thesis
        using cb [OF b] that by (simp add: futs count_list_replicate)
    qed
    have "set (fs_deps (cell h' b)) \<subseteq> range Dep_fn" if "\<not> rdy h b"
      using cb [OF b] g that by (auto simp: good_def)
    moreover have "fs_deps (cell h' b) = fs_deps (cell h b)" if "rdy h b"
      using cb [OF b] that by simp
    moreover have "fn_good {} [] {} h' b" if kb: "fs_kind (cell h b) \<noteq> Nofn"
    proof -
      have f: "fn_good {} [] {} h b" using g kb by (simp add: good_def)
      have e: "futs_of h' b = futs_of h b" using False by (simp add: futs)
      have "futs (fs_kind (cell h b)) = futs_of h' b" unfolding e using b by (simp add: futs_of_def)
      then have "fn_value (stored h') (fs_kind (cell h b)) = fn_value (stored h) (fs_kind (cell h b))"
        using g by (intro fn_value_cong [of b] sel(2)) (simp_all add: lt good_def)
      moreover have "\<forall>s\<in>set (futs_of h b). st h' s = st h s"
        using lt [of _ b] sel(1) by (simp add: e)
      ultimately show ?thesis
        using f unfolding fn_good_def pend ticket_def sel [OF b] e using False by simp
    qed
    ultimately show ?thesis
      using g d unfolding good_def sel [OF b]
      by (cases "rdy h b") (simp_all add: tag_def split: sum.splits)
  qed
  then show ?thesis using dom a N' fl by (simp add: fut_inv_def)
qed

section \<open>Every operation\<close>

text \<open>Whether the mutex was unlocked twice or the wild pointer followed.\<close>

definition went_wrong :: "('v, 'x) fheap \<Rightarrow> bool" where "went_wrong h \<longleftrightarrow> f_unlocks h \<or> f_wild h"

lemma later_went_wrong: "later h h' \<Longrightarrow> went_wrong h' = went_wrong h"
  by (simp add: went_wrong_def later_def)

lemma fexec_ok:
  assumes i: "quiet_inv h" and v: "fop_valid op h"
  shows "\<exists>h'. fexec op h = Some h' \<and> quiet_inv h' \<and> went_wrong h' = (went_wrong h \<or> fop_undefined op h)"
proof (cases op)
  case Op_promise
  obtain a h0 where n: "new_state (shared_state_ctor Nofn False) h = (a, h0)" by fastforce
  have "registered a [] h0 h0" by (simp add: registered_def)
  then have q: "quiet_inv h0" "f_next h0 = Suc (f_next h)" "a = f_next h" "went_wrong h0 = went_wrong h"
    using quiet_new [OF i _, of Nofn a h0 h0] n by (simp_all add: plain_kind_def futs_def went_wrong_def)
  have "f_cells h0 a \<noteq> None" using q by (simp add: fut_inv_def)
  then have s: "same_heap h0 (add_promise a h0)"
    unfolding add_promise_def by (rule same_heap_promise)
  then have "quiet_inv (add_promise a h0)" using same_heap_inv q(1) by blast
  then show ?thesis
    using n Op_promise q(4) later_went_wrong [OF same_heap_later [OF s]]
    by (simp add: fexec_def prom_new_def fop_undefined_def)
next
  case (Op_lazy ord f args)
  let ?k = "Fn ord (Plain f) args"
  have v': "Fut None \<notin> set args" "\<forall>s\<in>set (concat (map fut_of args)). s < f_next h"
    "eval_order ord args"
    using v Op_lazy by (simp_all add: fop_valid_def)
  then have k: "plain_kind (f_next h) ?k" by (simp add: plain_kind_def futs_def)
  obtain a h0 where n: "new_state (shared_state_ctor ?k True) h = (a, h0)" by fastforce
  have a: "a = f_next h" using n by (simp add: new_state_def)
  note c0 = cell_new [OF n [unfolded a]]
  have fu: "futs ?k = concat (map fut_of args)" by (simp add: futs_def)
  have "\<forall>s\<in>set (concat (map fut_of args)). f_cells h0 s \<noteq> None"
  proof
    fix s assume "s \<in> set (concat (map fut_of args))"
    then have "f_cells h s \<noteq> None" using v'(2) i by (auto simp: fut_inv_def)
    then show "f_cells h0 s \<noteq> None" using c0 by simp
  qed
  moreover have "a \<notin> set (concat (map fut_of args))" using v'(2) a by auto
  moreover have "f_cells h0 a \<noteq> None" "1 \<le> fs_need (cell h0 a)"
    using c0 a by (simp_all add: shared_state_ctor_def)
  ultimately obtain h' where h': "init_cb (exec (fuel h)) a args h0 = Some (Inr (), h')"
    "registered a (futs ?k) h0 h'"
    using init_cb_effect [OF v'(1), of a h0 "exec (fuel h)"] fu by metis
  have "quiet_inv h' \<and> went_wrong h' = (went_wrong h \<or> list_ex (rdy h) (futs ?k))"
    using quiet_new [OF i k _ h'(2)] n by (auto simp: went_wrong_def)
  then show ?thesis
    using n h'(1) Op_lazy unfolding fu by (simp add: fexec_def async_lazy_def fop_undefined_def)
next
  case (Op_set a x)
  then show ?thesis
    using quiet_complete [OF i _ _ fuel_enough, of a x] v later_went_wrong
    by (fastforce simp: fexec_def prom_set_def fop_valid_def fop_undefined_def)
next
  case (Op_drop a)
  then have a: "a < f_next h" "fs_kind (cell h a) = Nofn" using v by (simp_all add: fop_valid_def)
  have c: "f_cells h a = Some (cell h a)" using fut_inv_facts(1) [OF i a(1)] .
  let ?h = "upd a (\<lambda>c. c\<lparr>fs_promises := fs_promises c - 1\<rparr>) h"
  have s: "same_heap h ?h" by (rule same_heap_promise) (simp add: c)
  have i': "quiet_inv ?h" by (rule same_heap_inv [OF s i])
  have a': "a < f_next ?h" "fs_kind (cell ?h a) = Nofn" using a same_heap_sel(3) [OF s a(1)] by simp_all
  have st: "st ?h a = st h a" using same_heap_sel(1) [OF s a(1)] .
  have ww: "went_wrong ?h = went_wrong h" by (simp add: went_wrong_def)
  let ?broken = "Inl (Lib (Future_error Broken_promise))"
  have w: "work_left ?h + 2 \<le> fuel h" using fuel_enough [of ?h] by (simp add: fuel_def)
  have "\<exists>h'. noexc (exec (fuel h) (Complete a ?broken) ?h) = Some h' \<and> quiet_inv h' \<and>
      went_wrong h' = went_wrong h"
    if un: "st h a = Uninitialized"
  proof -
    obtain h' where "exec (fuel h) (Complete a ?broken) ?h = Some (Inr (), h')" "quiet_inv h'" "later ?h h'"
      using complete_okD [OF conjunct2 [OF exec_ok] fut_inv_nofn [OF i' a'(2)] a'(1) _ _ w, of ?broken]
        un st a'(2) by auto
    then show ?thesis using later_went_wrong [of ?h h'] ww by (simp add: noexc_def)
  qed
  then show ?thesis
    using Op_drop c i' ww
    by (auto simp: fexec_def prom_dtor_def remove_promise_def Let_def fop_undefined_def)
next
  case (Op_start a)
  then show ?thesis
    using quiet_start [OF i, of a] v later_went_wrong
    by (fastforce simp: fexec_def fut_start_def fop_valid_def fop_undefined_def)
next
  case (Op_callback a j start)
  then have a: "a < f_next h" using v by (simp add: fop_valid_def)
  have c: "f_cells h a = Some (cell h a)" using fut_inv_facts(1) [OF i a] .
  have at: "at_state a h = Some (st h a)" by (simp add: at_state_def c)
  show ?thesis
  proof (cases "rdy h a")
    case True
    have "same_heap h (h\<lparr>f_fired := f_fired h @ [(j, a)]\<rparr>)"
      by (simp add: same_heap_def same_core_def cell_def)
    then have "quiet_inv (h\<lparr>f_fired := f_fired h @ [(j, a)]\<rparr>)" using same_heap_inv i by blast
    then have "quiet_inv (h\<lparr>f_fired := f_fired h @ [(j, a)], f_wild := True\<rparr>)"
      using quiet_inv_wild [of "h\<lparr>f_fired := f_fired h @ [(j, a)]\<rparr>"] by simp
    then show ?thesis
      using True Op_callback at by (simp add: fexec_def shared_callback_def fop_undefined_def went_wrong_def)
  next
    case False
    let ?h = "upd a (\<lambda>c. c\<lparr>fs_shared_cbs := j # fs_shared_cbs c\<rparr>) h"
    have s: "same_heap h ?h" by (simp add: same_heap_def same_core_def cell_upd c)
    have i': "quiet_inv ?h" by (rule same_heap_inv [OF s i])
    have f: "fuel ?h = fuel h" by (simp add: fuel_def)
    have ww: "went_wrong ?h = went_wrong h" by (simp add: went_wrong_def)
    obtain h' where "exec (fuel h) (Start False a) ?h = Some (Inr (), h')" "quiet_inv h'" "later ?h h'"
      using quiet_start [OF i', of a] a unfolding f by auto
    then show ?thesis
      using False Op_callback at c i' ww later_went_wrong [of ?h h']
      by (auto simp: fexec_def shared_callback_def install_shared_callback_def fut_start_def fop_undefined_def)
  qed
qed

lemma fut_reach_inv: "fut_reach h \<Longrightarrow> quiet_inv h \<and> \<not> went_wrong h"
proof (induction rule: fut_reach.induct)
  case init
  then show ?case using quiet_inv_init by (simp add: went_wrong_def fheap_init_def)
next
  case (op h op h')
  then show ?case using fexec_ok [of h op] by auto
qed

text \<open>
  C13. Deferred functions run exactly when they can. In every program of promises, deferred
  functions, starts and callbacks that makes no deferred function of a future that is ready and
  asks no ready shared future for a callback, nothing undefined happens: no mutex is unlocked
  twice and no wild pointer is followed. Then every valid operation completes without an abort
  (with fuel \<open>2 * f_next h + 2\<close>), and it goes wrong exactly if it is one of those two. A deferred
  function has a result exactly if it was started and all its arguments are ready; the result is
  its value on theirs, or, if some have exceptions, that of the first of them in the order in
  which the arguments are evaluated, which may be any.
\<close>

theorem futures_run_when_ready:
  assumes "fut_reach h"
  shows "\<not> f_unlocks h \<and> \<not> f_wild h \<and>
    (fop_valid op h \<longrightarrow> (\<exists>h'. fexec op h = Some h' \<and> ((f_unlocks h' \<or> f_wild h') \<longleftrightarrow> fop_undefined op h))) \<and>
    (a < f_next h \<and> fs_kind (cell h a) = Fn ord (Plain f) args \<longrightarrow>
      eval_order ord args \<and>
      (rdy h a \<longleftrightarrow> st h a \<noteq> Uninitialized_deferred \<and>
         (\<forall>s\<in>set (concat (map fut_of args)). rdy h s)) \<and>
      (rdy h a \<longrightarrow> stored h a =
         (case arg_vals (stored h) ord args of Inl e \<Rightarrow> Inl e | Inr vs \<Rightarrow> f vs)))"
proof -
  have i: "quiet_inv h" and w: "\<not> went_wrong h" using fut_reach_inv [OF assms] by blast+
  have "\<exists>h'. fexec op h = Some h' \<and> ((f_unlocks h' \<or> f_wild h') \<longleftrightarrow> fop_undefined op h)" if "fop_valid op h"
    using fexec_ok [OF i that] w by (auto simp: went_wrong_def)
  moreover have "eval_order ord args \<and>
      (rdy h a \<longleftrightarrow> st h a \<noteq> Uninitialized_deferred \<and> (\<forall>s\<in>set (concat (map fut_of args)). rdy h s)) \<and>
      (rdy h a \<longrightarrow> stored h a = (case arg_vals (stored h) ord args of Inl e \<Rightarrow> Inl e | Inr vs \<Rightarrow> f vs))"
    if a: "a < f_next h" "fs_kind (cell h a) = Fn ord (Plain f) args"
  proof -
    have "good {} [] {} h a" using i a(1) unfolding fut_inv_def by blast
    then have g: "fn_good {} [] {} h a" "plain_kind a (fs_kind (cell h a))"
      using a(2) by (simp_all add: good_def)
    have "futs_of h a = concat (map fut_of args)" using a by (simp add: futs_of_def futs_def)
    then have "pending h a = 0 \<longleftrightarrow> (\<forall>s\<in>set (concat (map fut_of args)). rdy h s)"
      by (simp add: pending_def filter_empty_conv)
    moreover have "rdy h a \<longleftrightarrow> ticket {} h a = 0 \<and> pending h a = 0" using g by (simp add: fn_good_def)
    moreover have "rdy h a \<longrightarrow> stored h a = fn_value (stored h) (Fn ord (Plain f) args)"
      using g a by (simp add: fn_good_def)
    moreover have "eval_order ord args" using g(2) a(2) by (simp add: plain_kind_def)
    ultimately show ?thesis by (simp add: ticket_def fn_value_def)
  qed
  ultimately show ?thesis using w by (auto simp: went_wrong_def)
qed

section \<open>The value of a future\<close>

text \<open>
  The value that the promises and functions below a state make up, whatever was started, and
  whether the promises below it are set. Arguments are older than the function, so that the depth
  \<open>a + 1\<close> is enough.
\<close>

primrec value_at :: "nat \<Rightarrow> ('v, 'x) fheap \<Rightarrow> addr \<Rightarrow> 'x exn + 'v" where
  "value_at 0 h a = stored h a"
| "value_at (Suc d) h a =
     (if fs_kind (cell h a) = Nofn then stored h a else fn_value (value_at d h) (fs_kind (cell h a)))"

primrec supplied_at :: "nat \<Rightarrow> ('v, 'x) fheap \<Rightarrow> addr \<Rightarrow> bool" where
  "supplied_at 0 h a = rdy h a"
| "supplied_at (Suc d) h a =
     (if fs_kind (cell h a) = Nofn then rdy h a
      else list_all (supplied_at d h) (futs (fs_kind (cell h a))))"

lemma started_supplied:
  assumes i: "quiet_inv h'" and l: "later h h'"
  shows "b < d \<Longrightarrow> b < f_next h \<Longrightarrow> supplied_at d h b \<Longrightarrow> st h' b \<noteq> Uninitialized_deferred \<Longrightarrow>
    rdy h' b \<and> stored h' b = value_at d h b"
proof (induction d arbitrary: b)
  case (Suc d)
  have k: "fs_kind (cell h' b) = fs_kind (cell h b)" and n: "f_next h' = f_next h"
    using l Suc.prems(2) by (simp_all add: later_def)
  show ?case
  proof (cases "fs_kind (cell h b) = Nofn")
    case True
    then show ?thesis using Suc.prems l by (auto simp: later_def)
  next
    case False
    have g: "fn_good {} [] {} h' b" using i k n False Suc.prems(2) by (simp add: fut_inv_def good_def)
    have fu: "futs_of h' b = futs (fs_kind (cell h b))" using k n Suc.prems(2) by (simp add: futs_of_def)
    have "rdy h' s \<and> stored h' s = value_at d h s" if s: "s \<in> set (futs (fs_kind (cell h b)))" for s
    proof (rule Suc.IH)
      have "s < b" using futs_of_lt(1) [OF i, of s b] s fu by simp
      then show "s < d" "s < f_next h" using Suc.prems(1,2) by simp_all
      show "supplied_at d h s" using Suc.prems(3) False s by (simp add: list_all_iff)
      show "st h' s \<noteq> Uninitialized_deferred"
        using g Suc.prems(4) s fu by (simp add: fn_good_def)
    qed
    then have "pending h' b = 0" "fn_value (stored h') (fs_kind (cell h b)) = fn_value (value_at d h) (fs_kind (cell h b))"
      using fut_inv_facts(4) [OF i, of b] k n Suc.prems(2)
      by (auto simp: pending_def fu filter_empty_conv intro: fn_value_cong [of b])
    then show ?thesis using g Suc.prems(4) False k by (simp add: fn_good_def ticket_def)
  qed
qed simp

text \<open>
  C12. \<open>get\<close> computes the value of the expression: in any state that a program can reach, \<open>get\<close> on
  a future whose promises are set returns (fuel \<open>2 * f_next h + 2\<close> is enough), without undefined
  behaviour, the value that the functions below it make up, even if none of them was started
  before. An exception among the arguments of a function is that of the first one in the order in
  which the arguments are evaluated, whatever this order is.
\<close>

theorem get_computes_value:
  assumes "fut_reach h" and "a < f_next h" and "supplied_at (Suc a) h a"
  shows "\<exists>h'. fut_get (fuel h) (Some a) h =
      Some (value_at (Suc a) h a, (case value_at (Suc a) h a of Inl _ \<Rightarrow> Some a | Inr _ \<Rightarrow> None), h') \<and>
    \<not> f_unlocks h' \<and> \<not> f_wild h'"
proof -
  have i: "quiet_inv h" "\<not> went_wrong h" using fut_reach_inv [OF assms(1)] by blast+
  obtain h' where h': "exec (fuel h) (Start False a) h = Some (Inr (), h')" "quiet_inv h'" "later h h'"
    "st h' a \<noteq> Uninitialized_deferred"
    using quiet_start [OF i(1) assms(2)] by blast
  have r: "rdy h' a" "stored h' a = value_at (Suc a) h a"
    using started_supplied [OF h'(2,3) _ assms(2,3) h'(4)] by simp_all
  have "a < f_next h'" using h'(3) assms(2) by (simp add: later_def)
  then have "f_cells h' a = Some (cell h' a)" "fs_storage (cell h' a) = Some (stored h' a)"
    using fut_inv_facts(1,5) [OF h'(2)] r(1) by blast+
  then have "state_get (exec (fuel h)) a h = Some (value_at (Suc a) h a, h')"
    using h'(1) r by (simp add: state_get_def state_wait_def noexc_def)
  then show ?thesis using later_went_wrong [OF h'(3)] i(2) by (simp add: fut_get_def went_wrong_def)
qed

section \<open>Defects\<close>

text \<open>
  A converter drops its source when it has delivered; a later start, and every \<open>get\<close> and \<open>wait\<close>
  does one, goes through the null pointer.
\<close>

lemma get_after_conversion_aborts:
  assumes "f_cells h a = Some c" "fs_kind c = Nofn" "fs_convert c = Some cv" "c_src cv = None"
  shows "exec n (Start b a) h = None" "fut_get n (Some a) h = None"
proof -
  show s: "exec n (Start b a) h = None" for b
    using assms
    by (cases n) (simp_all add: start_deferred_def do_start_deferred_def do_start_base_def upd_def)
  show "fut_get n (Some a) h = None"
    by (simp add: fut_get_def state_get_def state_wait_def noexc_def s)
qed

text \<open>
  A function that takes the promise and throws: the promise is broken while the exception is on
  its way, and the handler cannot assign it any more.
\<close>

lemma throwing_pass_promise_terminates:
  assumes "f_cells h a = Some c" "fs_kind c = Fn [] (Pass g) []" "fs_state c = Uninitialized_deferred"
    and "fs_need c = 1" "fs_promises c = 0" "fs_deps c = []" "g [] = Throw_out e"
  shows "exec n (Start False a) h = None"
proof (cases n)
  case (Suc m)
  show ?thesis
    using assms Suc
    by (cases m)
      (simp_all add: start_deferred_def do_start_deferred_def do_start_fn_def clear_deferred_def
        resolve_args_def resolve_one_def invoke_deferred_def invoke_fn_def invoke_and_assign_def add_promise_def
        remove_promise_def upd_def noexc_def complete_def invoke_ready_cb_def)
qed simp

text \<open>A job that was started and has not run yet: starting it again fails an assertion.\<close>

lemma get_of_started_job_aborts:
  assumes "f_cells h a = Some c" "fs_kind c = Wqjob ord fn args" "fs_self c"
  shows "exec n (Start b a) h = None" "fut_get n (Some a) h = None"
proof -
  show s: "exec n (Start b a) h = None" for b
    using assms by (cases n) (simp_all add: start_deferred_def do_start_deferred_def upd_def)
  show "fut_get n (Some a) h = None"
    by (simp add: fut_get_def state_get_def state_wait_def noexc_def s)
qed

end
