(* ===== verification/Future_Demo.thy ===== *)
theory Future_Demo
  imports Future_Prog
begin

text \<open>
  A program on concrete shared states, run step by step: a promise, a deferred function that takes
  its future, and the value that is set before the function is started.
\<close>

definition demo_sum :: "nat list \<Rightarrow> unit exn + nat" where "demo_sum vs = Inr (sum_list vs)"

definition demo_cell ::
    "(nat, unit) kind \<Rightarrow> state_t \<Rightarrow> nat \<Rightarrow> dep list \<Rightarrow> uptr \<Rightarrow> (unit exn + nat) option \<Rightarrow>
     (nat, unit) shared_state"
where
  "demo_cell k s n ds p x =
     \<lparr>fs_state = s, fs_storage = x, fs_shared = False, fs_called = False, fs_async = False,
      fs_promises = p, fs_ready_cb = None, fs_shared_cbs = [], fs_deps = ds, fs_kind = k,
      fs_need = n, fs_self = False, fs_convert = None\<rparr>"

definition demo_heap :: "(nat, unit) shared_state list \<Rightarrow> (nat, unit) fheap" where
  "demo_heap cs =
     \<lparr>f_cells = (\<lambda>i. if i < length cs then Some (cs ! i) else None), f_next = length cs,
      f_fired = [], f_jobs = [], f_unlocks = False, f_wild = False\<rparr>"

lemma upd_demo_heap: "a < length cs \<Longrightarrow> upd a g (demo_heap cs) = demo_heap (cs[a := g (cs ! a)])"
  by (auto simp: upd_def demo_heap_def)

lemma new_demo_heap: "new_state c (demo_heap cs) = (length cs, demo_heap (cs @ [c]))"
  by (auto simp: new_state_def demo_heap_def nth_append)

lemma cells_demo_heap: "f_cells (demo_heap cs) a = (if a < length cs then Some (cs ! a) else None)"
  by (simp add: demo_heap_def)

lemma cell_demo_heap: "a < length cs \<Longrightarrow> cell (demo_heap cs) a = cs ! a"
  by (simp add: demo_heap_def cell_def)

lemma sel_demo_heap: "f_next (demo_heap cs) = length cs" "f_fired (demo_heap cs) = []"
  by (simp_all add: demo_heap_def)

lemma fired_demo_heap: "(demo_heap cs)\<lparr>f_fired := []\<rparr> = demo_heap cs"
  by (simp add: demo_heap_def)

lemmas demo_heap_simps =
  upd_demo_heap new_demo_heap cells_demo_heap cell_demo_heap sel_demo_heap fired_demo_heap

lemma demo_cell_sels:
  "fs_state (demo_cell k s n ds p x) = s" "fs_kind (demo_cell k s n ds p x) = k"
  "fs_need (demo_cell k s n ds p x) = n" "fs_deps (demo_cell k s n ds p x) = ds"
  "fs_storage (demo_cell k s n ds p x) = x" "fs_promises (demo_cell k s n ds p x) = p"
  "fs_ready_cb (demo_cell k s n ds p x) = None" "fs_shared_cbs (demo_cell k s n ds p x) = []"
  by (simp_all add: demo_cell_def)

lemma demo_cell_upds:
  "(demo_cell k s n ds p x)\<lparr>fs_need := n'\<rparr> = demo_cell k s n' ds p x"
  "(demo_cell k s n ds p x)\<lparr>fs_promises := p'\<rparr> = demo_cell k s n ds p' x"
  "(demo_cell k s n ds p x)\<lparr>fs_deps := ds'\<rparr> = demo_cell k s n ds' p x"
  "(demo_cell k s n ds p x)\<lparr>fs_storage := y, fs_state := s'\<rparr> = demo_cell k s' n ds p y"
  "(demo_cell k s n ds p x)\<lparr>fs_ready_cb := None, fs_shared_cbs := [], fs_deps := ds'\<rparr> =
    demo_cell k s n ds' p x"
  by (simp_all add: demo_cell_def)

lemma demo_cell_new:
  "shared_state_ctor k d =
    demo_cell k (if d then Uninitialized_deferred else Uninitialized) 1 [] 0 None"
  by (simp add: demo_cell_def shared_state_ctor_def)

lemmas demo_simps = demo_heap_simps demo_cell_sels demo_cell_upds demo_cell_new

abbreviation "demo_fresh \<equiv> demo_cell Nofn Uninitialized 1 [] 1 None"
abbreviation "demo_waited \<equiv> demo_cell Nofn Uninitialized 1 [Dep_fn 1] 1 None"
abbreviation "demo_set \<equiv> demo_cell Nofn Ready_value 1 [] 1 (Some (Inr 5))"
abbreviation "demo_fun n \<equiv>
  demo_cell (Fn [1, 0] (Plain demo_sum) [Fut (Some 0), Val 2]) Uninitialized_deferred n [] 0 None"

lemma demo_0: "fheap_init = demo_heap []"
  by (simp add: fheap_init_def demo_heap_def)

lemma demo_1: "fexec Op_promise (demo_heap []) = Some (demo_heap [demo_fresh])"
  by (simp add: fexec_def prom_new_def add_promise_def demo_simps)

lemma demo_2: "fexec (Op_lazy [1, 0] demo_sum [Fut (Some 0), Val 2]) (demo_heap [demo_fresh]) =
  Some (demo_heap [demo_waited, demo_fun 2])"
  by (simp add: fexec_def async_lazy_def register_dependant_def add_dep_def demo_simps numeral_2_eq_2)

lemma demo_fuel: "fuel (demo_heap [a, b]) = Suc (Suc (Suc (Suc (Suc (Suc 0)))))"
  by (simp add: fuel_def demo_simps)

lemma demo_3: "fexec (Op_set 0 (Inr 5)) (demo_heap [demo_waited, demo_fun 2]) =
  Some (demo_heap [demo_set, demo_fun 1])"
  by (simp add: fexec_def prom_set_def demo_fuel complete_def invoke_ready_cb_def run_dep_def
      dependant_cb_def resolve_one_def demo_simps)

lemma demo_reach: "fut_reach (demo_heap [demo_set, demo_fun 1])"
proof -
  have "fut_reach (demo_heap [])" unfolding demo_0 [symmetric] by (rule fut_reach.init)
  then have "fut_reach (demo_heap [demo_fresh])"
    by (rule fut_reach.op [OF _ _ _ demo_1]) (simp_all add: fop_valid_def fop_undefined_def)
  then have "fut_reach (demo_heap [demo_waited, demo_fun 2])"
    by (rule fut_reach.op [OF _ _ _ demo_2])
      (auto simp: fop_valid_def fop_undefined_def demo_simps eval_order_def)
  then show ?thesis
    by (rule fut_reach.op [OF _ _ _ demo_3]) (simp_all add: fop_valid_def fop_undefined_def demo_simps)
qed

theorem get_computes_value_witness:
  "\<exists>h h'. fut_get (fuel h) (Some 1) h = Some (Inr (7 :: nat) :: unit exn + nat, None, h') \<and>
     \<not> f_unlocks h'"
proof -
  have v: "value_at (Suc 1) (demo_heap [demo_set, demo_fun 1]) 1 = Inr 7"
    by (simp add: demo_simps fn_value_def arg_vals_def arg_val_def stored_def demo_sum_def)
  moreover have s: "supplied_at (Suc 1) (demo_heap [demo_set, demo_fun 1]) 1"
    by (simp add: demo_simps futs_def)
  moreover have "1 < f_next (demo_heap [demo_set, demo_fun 1])" by (simp add: demo_simps)
  ultimately show ?thesis using get_computes_value [OF demo_reach, of 1] by auto
qed

theorem futures_run_when_ready_witness:
  "\<exists>h h'. \<not> rdy h 1 \<and> fs_kind (cell h 1) = Fn [1, 0] (Plain demo_sum) [Fut (Some 0), Val 2] \<and>
    fexec (Op_start 1) h = Some h' \<and> \<not> f_unlocks h' \<and>
    (rdy h 1 \<longleftrightarrow> st h 1 \<noteq> Uninitialized_deferred \<and> rdy h 0)"
proof -
  have v: "fop_valid (Op_start 1) (demo_heap [demo_set, demo_fun 1])"
    "\<not> fop_undefined (Op_start 1) (demo_heap [demo_set, demo_fun 1])"
    by (simp_all add: fop_valid_def fop_undefined_def demo_simps)
  have k: "1 < f_next (demo_heap [demo_set, demo_fun 1])" "\<not> rdy (demo_heap [demo_set, demo_fun 1]) 1"
    "fs_kind (cell (demo_heap [demo_set, demo_fun 1]) 1) = Fn [1, 0] (Plain demo_sum) [Fut (Some 0), Val 2]"
    by (simp_all add: demo_simps)
  note t = futures_run_when_ready [OF demo_reach, of "Op_start 1" 1 "[1, 0]" demo_sum "[Fut (Some 0), Val 2]"]
  obtain h' where "fexec (Op_start 1) (demo_heap [demo_set, demo_fun 1]) = Some h'" "\<not> f_unlocks h'"
    using t v by blast
  then show ?thesis using t k by (intro exI [of _ "demo_heap [demo_set, demo_fun 1]"] exI [of _ h']) auto
qed

end
