(* ===== verification/Future_Conc.thy ===== *)
theory Future_Conc
  imports Future_Inv "HOL-Library.Multiset"
begin

text \<open>
  One shared state of \<open>include/ilias/future-inl.h\<close>, used by any number of threads at once:
  completion through a promise or by the destruction of the last one, callbacks on the future and
  on shared futures, and dependants. A step is an access to one of the atomics, the placement of
  the result in \<open>storage_\<close>, a critical section of \<open>ready_cb_mtx_\<close> (which reads \<open>state_\<close> at most
  once) or the call of a callback. The second unlock of \<open>ready_cb_mtx_\<close> in the registration of a
  dependant of a ready state is undefined behaviour and left out. The atomics are sequentially
  consistent.
\<close>

section \<open>The steps\<close>

text \<open>
  The places of a thread. In \<open>set_value\<close> and \<open>set_exc\<close> (the flag tells whether the destructor of
  the last promise calls it): before \<open>lock\<close>, before \<open>ensure_uninitialized\<close>, before the placement,
  before the exchange of \<open>state_\<close>, before \<open>unlock\<close>, before the critical section of
  \<open>invoke_ready_cb\<close>, and with the callbacks that are left to call; \<open>C_Throw\<close> is the way out of a
  failed \<open>ensure_uninitialized\<close>. \<open>C_Dropped\<close> is inside of \<open>remove_promise_reference_\<close> after the
  last reference, the others are inside of \<open>callback\<close>, \<open>install_callback\<close> and the registration of
  dependants.
\<close>

datatype ('v, 'x) ct_pc =
  C_Idle | C_Lock "'x exn + 'v" bool | C_Check "'x exn + 'v" bool | C_Place "'x exn + 'v" bool
| C_Xchg "'x exn + 'v" bool | C_Unlock | C_Invoke | C_Calls "nat list" | C_Throw bool | C_Dropped
| C_Callback nat | C_Shared nat | C_Install nat | C_Install_shared nat
| C_Dep nat | C_Begin nat | C_Commit nat nat

text \<open>
  \<open>ct_proms\<close> counts the references to the promise that a thread owns, \<open>ct_fut\<close> is the owner of
  the future, \<open>ct_sfut\<close> whether it was shared. The last three fields follow the history: the
  callbacks and dependants that were asked for, those that were called, and whether an assertion
  failed or an exception left a destructor.
\<close>

record ('t, 'v, 'x) ct_shared_state =
  ct_state :: state_t
  ct_storage :: "('x exn + 'v) option"
  ct_lck :: bool
  ct_marked :: bool
  ct_refs :: nat
  ct_cb :: "nat option"
  ct_scbs :: "nat list"
  ct_deps :: "nat option list"
  ct_pc :: "'t \<Rightarrow> ('v, 'x) ct_pc"
  ct_proms :: "'t \<Rightarrow> nat"
  ct_fut :: "'t option"
  ct_sfut :: bool
  ct_asked :: "nat list"
  ct_fired :: "nat list"
  ct_aborted :: bool

definition ct_init :: "'t \<Rightarrow> ('t, 'v, 'x) ct_shared_state" where
  "ct_init t =
     \<lparr>ct_state = Uninitialized, ct_storage = None, ct_lck = False, ct_marked = False, ct_refs = 1,
      ct_cb = None, ct_scbs = [], ct_deps = [], ct_pc = (\<lambda>_. C_Idle),
      ct_proms = (\<lambda>u. if u = t then 1 else 0), ct_fut = None, ct_sfut = False,
      ct_asked = [], ct_fired = [], ct_aborted = False\<rparr>"

definition cgoto ::
    "'t \<Rightarrow> ('v, 'x) ct_pc \<Rightarrow> ('t, 'v, 'x) ct_shared_state \<Rightarrow> ('t, 'v, 'x) ct_shared_state" where
  "cgoto t c s = s\<lparr>ct_pc := (ct_pc s)(t := c)\<rparr>"

lemma cgoto_sel [simp]:
  "ct_state (cgoto t c s) = ct_state s" "ct_storage (cgoto t c s) = ct_storage s"
  "ct_lck (cgoto t c s) = ct_lck s" "ct_marked (cgoto t c s) = ct_marked s"
  "ct_refs (cgoto t c s) = ct_refs s" "ct_cb (cgoto t c s) = ct_cb s"
  "ct_scbs (cgoto t c s) = ct_scbs s" "ct_deps (cgoto t c s) = ct_deps s"
  "ct_pc (cgoto t c s) = (ct_pc s)(t := c)" "ct_proms (cgoto t c s) = ct_proms s"
  "ct_fut (cgoto t c s) = ct_fut s" "ct_sfut (cgoto t c s) = ct_sfut s"
  "ct_asked (cgoto t c s) = ct_asked s" "ct_fired (cgoto t c s) = ct_fired s"
  "ct_aborted (cgoto t c s) = ct_aborted s"
  by (simp_all add: cgoto_def)

abbreviation ct_rdy :: "('t, 'v, 'x) ct_shared_state \<Rightarrow> bool" where "ct_rdy s \<equiv> ready_t (ct_state s)"

definition ct_ask :: "nat \<Rightarrow> ('t, 'v, 'x) ct_shared_state \<Rightarrow> ('t, 'v, 'x) ct_shared_state" where
  "ct_ask i s = s\<lparr>ct_asked := ct_asked s @ [i]\<rparr>"

text \<open>The critical sections of \<open>ready_cb_mtx_\<close>.\<close>

definition ct_swap_out :: "'t \<Rightarrow> ('t, 'v, 'x) ct_shared_state \<Rightarrow> ('t, 'v, 'x) ct_shared_state" where
  "ct_swap_out t s =
     cgoto t
       (C_Calls ((case ct_cb s of None \<Rightarrow> [] | Some i \<Rightarrow> [i]) @ ct_scbs s @
          List.map_filter id (ct_deps s)))
       (s\<lparr>ct_cb := None, ct_scbs := [], ct_deps := []\<rparr>)"

definition ct_install ::
    "'t \<Rightarrow> nat \<Rightarrow> ('t, 'v, 'x) ct_shared_state \<Rightarrow> ('t, 'v, 'x) ct_shared_state" where
  "ct_install t i s =
     (if ct_rdy s then cgoto t (C_Calls [i]) s
      else if ct_cb s \<noteq> None then s\<lparr>ct_aborted := True\<rparr>
      else cgoto t C_Idle (s\<lparr>ct_cb := Some i\<rparr>))"

definition ct_install_shared ::
    "'t \<Rightarrow> nat \<Rightarrow> ('t, 'v, 'x) ct_shared_state \<Rightarrow> ('t, 'v, 'x) ct_shared_state" where
  "ct_install_shared t i s =
     (if ct_rdy s then cgoto t (C_Calls [i]) s
      else cgoto t C_Idle (s\<lparr>ct_scbs := i # ct_scbs s\<rparr>))"

definition ct_register ::
    "'t \<Rightarrow> nat \<Rightarrow> ('t, 'v, 'x) ct_shared_state \<Rightarrow> ('t, 'v, 'x) ct_shared_state" where
  "ct_register t i s =
     (if ct_rdy s then cgoto t (C_Calls [i]) s
      else cgoto t C_Idle (s\<lparr>ct_deps := ct_deps s @ [Some i]\<rparr>))"

definition ct_begin ::
    "'t \<Rightarrow> nat \<Rightarrow> ('t, 'v, 'x) ct_shared_state \<Rightarrow> ('t, 'v, 'x) ct_shared_state" where
  "ct_begin t i s =
     (if ct_rdy s then cgoto t (C_Commit 0 i) s
      else cgoto t (C_Commit (length (ct_deps s)) i) (s\<lparr>ct_deps := ct_deps s @ [None]\<rparr>))"

definition ct_commit ::
    "'t \<Rightarrow> nat \<Rightarrow> nat \<Rightarrow> ('t, 'v, 'x) ct_shared_state \<Rightarrow> ('t, 'v, 'x) ct_shared_state" where
  "ct_commit t idx i s =
     (if ct_rdy s then cgoto t (C_Calls [i]) s
      else if idx < length (ct_deps s) then cgoto t C_Idle (s\<lparr>ct_deps := (ct_deps s)[idx := Some i]\<rparr>)
      else s\<lparr>ct_aborted := True\<rparr>)"

inductive ct_step :: "'t \<Rightarrow> ('t, 'v, 'x) ct_shared_state \<Rightarrow> ('t, 'v, 'x) ct_shared_state \<Rightarrow> bool" where
  \<comment> \<open>\<open>promise_refptr\<close>\<close>
  ct_copy: "ct_pc s t = C_Idle \<Longrightarrow> 0 < ct_proms s t \<Longrightarrow>
    ct_step t s (s\<lparr>ct_refs := ct_refs s + 1, ct_proms := (ct_proms s)(u := ct_proms s u + 1)\<rparr>)"
| ct_drop: "ct_pc s t = C_Idle \<Longrightarrow> 0 < ct_proms s t \<Longrightarrow>
    ct_step t s (cgoto t (if ct_refs s = 1 then C_Dropped else C_Idle)
      (s\<lparr>ct_refs := ct_refs s - 1, ct_proms := (ct_proms s)(t := ct_proms s t - 1)\<rparr>))"
| ct_dropped: "ct_pc s t = C_Dropped \<Longrightarrow>
    ct_step t s (cgoto t
      (if ct_state s = Uninitialized then C_Lock (Inl (Lib (Future_error Broken_promise))) True
       else C_Idle) s)"
  \<comment> \<open>\<open>set_value\<close> and \<open>set_exc\<close>\<close>
| ct_set: "ct_pc s t = C_Idle \<Longrightarrow> 0 < ct_proms s t \<Longrightarrow> ct_step t s (cgoto t (C_Lock x False) s)"
| ct_lock: "ct_pc s t = C_Lock x b \<Longrightarrow> \<not> ct_lck s \<Longrightarrow>
    ct_step t s (cgoto t (C_Check x b) (s\<lparr>ct_lck := True\<rparr>))"
| ct_check: "ct_pc s t = C_Check x b \<Longrightarrow>
    ct_step t s (cgoto t (if ct_state s = Uninitialized then C_Place x b else C_Throw b) s)"
| ct_throw: "ct_pc s t = C_Throw b \<Longrightarrow>
    ct_step t s (cgoto t C_Idle (s\<lparr>ct_lck := False, ct_aborted := ct_aborted s \<or> b\<rparr>))"
| ct_place: "ct_pc s t = C_Place x b \<Longrightarrow>
    ct_step t s (cgoto t (C_Xchg x b) (s\<lparr>ct_storage := Some x\<rparr>))"
| ct_xchg: "ct_pc s t = C_Xchg x b \<Longrightarrow>
    ct_step t s (cgoto t C_Unlock
      (s\<lparr>ct_state := (case x of Inl _ \<Rightarrow> Ready_exc | Inr _ \<Rightarrow> Ready_value),
         ct_aborted := ct_aborted s \<or> ct_state s \<noteq> Uninitialized\<rparr>))"
| ct_unlock: "ct_pc s t = C_Unlock \<Longrightarrow>
    ct_step t s (cgoto t C_Invoke (s\<lparr>ct_lck := False, ct_aborted := ct_aborted s \<or> \<not> ct_lck s\<rparr>))"
| ct_invoke: "ct_pc s t = C_Invoke \<Longrightarrow> ct_step t s (ct_swap_out t s)"
| ct_call: "ct_pc s t = C_Calls (i # is) \<Longrightarrow>
    ct_step t s (cgoto t (C_Calls is) (s\<lparr>ct_fired := ct_fired s @ [i]\<rparr>))"
| ct_called: "ct_pc s t = C_Calls [] \<Longrightarrow> ct_step t s (cgoto t C_Idle s)"
  \<comment> \<open>\<open>get_future\<close> and \<open>share\<close>\<close>
| ct_get_future: "ct_pc s t = C_Idle \<Longrightarrow> 0 < ct_proms s t \<Longrightarrow>
    ct_step t s (if ct_marked s then s else s\<lparr>ct_marked := True, ct_fut := Some t\<rparr>)"
| ct_move: "ct_pc s t = C_Idle \<Longrightarrow> ct_fut s = Some t \<Longrightarrow> ct_step t s (s\<lparr>ct_fut := Some u\<rparr>)"
| ct_share: "ct_pc s t = C_Idle \<Longrightarrow> ct_fut s = Some t \<Longrightarrow>
    ct_step t s (s\<lparr>ct_fut := None, ct_sfut := True\<rparr>)"
  \<comment> \<open>\<open>callback\<close>\<close>
| ct_callback: "ct_pc s t = C_Idle \<Longrightarrow> ct_fut s = Some t \<Longrightarrow>
    ct_step t s (cgoto t (C_Callback i) (ct_ask i (s\<lparr>ct_fut := None\<rparr>)))"
| ct_shared_callback: "ct_pc s t = C_Idle \<Longrightarrow> ct_sfut s \<Longrightarrow>
    ct_step t s (cgoto t (C_Shared i) (ct_ask i s))"
| ct_test: "ct_pc s t = C_Callback i \<Longrightarrow>
    ct_step t s (cgoto t (if ct_rdy s then C_Calls [i] else C_Install i) s)"
| ct_test_shared: "ct_pc s t = C_Shared i \<Longrightarrow>
    ct_step t s (cgoto t (if ct_rdy s then C_Calls [i] else C_Install_shared i) s)"
| ct_do_install: "ct_pc s t = C_Install i \<Longrightarrow> ct_step t s (ct_install t i s)"
| ct_do_install_shared: "ct_pc s t = C_Install_shared i \<Longrightarrow> ct_step t s (ct_install_shared t i s)"
  \<comment> \<open>dependants of a future that is moved, or of a shared one\<close>
| ct_dep: "ct_pc s t = C_Idle \<Longrightarrow> ct_fut s = Some t \<or> ct_sfut s \<Longrightarrow>
    ct_step t s (cgoto t (C_Dep i) (ct_ask i (if ct_sfut s then s else s\<lparr>ct_fut := None\<rparr>)))"
| ct_conv: "ct_pc s t = C_Idle \<Longrightarrow> ct_fut s = Some t \<or> ct_sfut s \<Longrightarrow>
    ct_step t s (cgoto t (C_Begin i) (ct_ask i (if ct_sfut s then s else s\<lparr>ct_fut := None\<rparr>)))"
| ct_do_register: "ct_pc s t = C_Dep i \<Longrightarrow> ct_step t s (ct_register t i s)"
| ct_do_begin: "ct_pc s t = C_Begin i \<Longrightarrow> ct_step t s (ct_begin t i s)"
| ct_do_commit: "ct_pc s t = C_Commit idx i \<Longrightarrow> ct_step t s (ct_commit t idx i s)"

inductive ct_reachable :: "('t, 'v, 'x) ct_shared_state \<Rightarrow> bool" where
  cr_init: "ct_reachable (ct_init t)"
| cr_next: "ct_reachable s \<Longrightarrow> ct_step t s s' \<Longrightarrow> ct_reachable s'"

section \<open>Invariants\<close>

fun c_locked :: "('v, 'x) ct_pc \<Rightarrow> bool" where
  "c_locked (C_Check x b) = True" | "c_locked (C_Place x b) = True"
| "c_locked (C_Xchg x b) = True" | "c_locked C_Unlock = True" | "c_locked (C_Throw b) = True"
| "c_locked _ = False"

text \<open>Completion by a promise that is held, and by the destructor of the last one.\<close>

fun c_user :: "('v, 'x) ct_pc \<Rightarrow> bool" where
  "c_user (C_Lock x b) = (\<not> b)" | "c_user (C_Check x b) = (\<not> b)"
| "c_user (C_Place x b) = (\<not> b)" | "c_user (C_Xchg x b) = (\<not> b)" | "c_user _ = False"

fun c_last :: "('v, 'x) ct_pc \<Rightarrow> bool" where
  "c_last (C_Lock x b) = b" | "c_last (C_Check x b) = b"
| "c_last (C_Place x b) = b" | "c_last (C_Xchg x b) = b" | "c_last _ = False"

fun c_storing :: "('v, 'x) ct_pc \<Rightarrow> bool" where
  "c_storing (C_Place x b) = True" | "c_storing (C_Xchg x b) = True" | "c_storing _ = False"

definition lock_ok :: "('t, 'v, 'x) ct_shared_state \<Rightarrow> bool" where
  "lock_ok s \<longleftrightarrow>
     (\<forall>t u. c_locked (ct_pc s t) \<longrightarrow> c_locked (ct_pc s u) \<longrightarrow> t = u) \<and>
     (ct_lck s \<longleftrightarrow> (\<exists>t. c_locked (ct_pc s t)))"

abbreviation c_final :: "('v, 'x) ct_pc \<Rightarrow> bool" where "c_final c \<equiv> c_last c \<or> c = C_Dropped"

definition promise_ok :: "('t::finite, 'v, 'x) ct_shared_state \<Rightarrow> bool" where
  "promise_ok s \<longleftrightarrow>
     ct_refs s = sum (ct_proms s) UNIV \<and>
     (\<forall>t. c_user (ct_pc s t) \<longrightarrow> 0 < ct_proms s t) \<and>
     (\<forall>t. c_final (ct_pc s t) \<longrightarrow> ct_refs s = 0) \<and>
     (\<forall>t u. c_final (ct_pc s t) \<longrightarrow> c_final (ct_pc s u) \<longrightarrow> t = u) \<and>
     (\<forall>t. c_last (ct_pc s t) \<longrightarrow> ct_state s = Uninitialized) \<and>
     (\<forall>t. ct_pc s t \<noteq> C_Throw True) \<and>
     (ct_refs s = 0 \<longrightarrow> ct_rdy s \<or> (\<exists>t. c_final (ct_pc s t)))"

definition result_ok :: "('t, 'v, 'x) ct_shared_state \<Rightarrow> bool" where
  "result_ok s \<longleftrightarrow>
     (ct_state s = Uninitialized \<or> ct_rdy s) \<and>
     (\<forall>t. c_storing (ct_pc s t) \<longrightarrow> ct_state s = Uninitialized) \<and>
     (\<forall>t x b. ct_pc s t = C_Xchg x b \<longrightarrow> ct_storage s = Some x) \<and>
     (ct_rdy s \<longrightarrow> (\<exists>x. ct_storage s = Some x \<and> ct_state s = tag x))"

lemmas ct_critical =
  ct_swap_out_def ct_install_def ct_install_shared_def ct_register_def ct_begin_def ct_commit_def
  ct_ask_def

lemma ct_step_others: "ct_step t s s' \<Longrightarrow> u \<noteq> t \<Longrightarrow> ct_pc s' u = ct_pc s u"
  by (induction rule: ct_step.induct) (auto simp: ct_critical)

lemma ct_step_lock: "ct_step t s s' \<Longrightarrow>
    c_locked (ct_pc s' t) = c_locked (ct_pc s t) \<and> ct_lck s' = ct_lck s \<or>
    \<not> c_locked (ct_pc s t) \<and> c_locked (ct_pc s' t) \<and> \<not> ct_lck s \<and> ct_lck s' \<or>
    c_locked (ct_pc s t) \<and> \<not> c_locked (ct_pc s' t) \<and> \<not> ct_lck s'"
  by (induction rule: ct_step.induct) (auto simp: ct_critical)

lemma lock_ok_step: "ct_step t s s' \<Longrightarrow> lock_ok s \<Longrightarrow> lock_ok s'"
  using ct_step_lock [of t s s'] ct_step_others [of t s s'] unfolding lock_ok_def by metis

lemma ct_step_state: "ct_step t s s' \<Longrightarrow>
    ct_state s' = ct_state s \<and> ct_storage s' = ct_storage s \<and> (\<nexists>x b. ct_pc s' t = C_Xchg x b) \<or>
    (\<exists>x b. ct_pc s t = C_Place x b \<and> ct_pc s' t = C_Xchg x b \<and> ct_storage s' = Some x \<and>
       ct_state s' = ct_state s) \<or>
    (\<exists>x b. ct_pc s t = C_Xchg x b \<and> ct_pc s' t = C_Unlock \<and> ct_storage s' = ct_storage s \<and>
       ct_state s' = tag x)"
  by (induction rule: ct_step.induct) (auto simp: ct_critical tag_def)

lemma ct_step_storing: "ct_step t s s' \<Longrightarrow> c_storing (ct_pc s' t) \<Longrightarrow>
    ct_state s' = ct_state s \<and> (ct_state s = Uninitialized \<or> c_storing (ct_pc s t))"
  by (induction rule: ct_step.induct) (auto simp: ct_critical split: if_splits)

lemma c_storing_locked: "c_storing c \<Longrightarrow> c_locked c"
  by (cases c) simp_all

lemma result_ok_step:
  assumes t: "ct_step t s s'" and l: "lock_ok s" and r: "result_ok s"
  shows "result_ok s'"
proof -
  note o = ct_step_others [OF t]
  have alone: "\<not> c_locked (ct_pc s u)" if "u \<noteq> t" "c_locked (ct_pc s t)" for u
    using l that by (auto simp: lock_ok_def)
  from ct_step_state [OF t] consider
      (same) "ct_state s' = ct_state s" "ct_storage s' = ct_storage s"
        "\<And>x b. ct_pc s' t \<noteq> C_Xchg x b"
    | (place) x b where "ct_pc s t = C_Place x b" "ct_pc s' t = C_Xchg x b" "ct_storage s' = Some x"
        "ct_state s' = ct_state s"
    | (xchg) x b where "ct_pc s t = C_Xchg x b" "ct_pc s' t = C_Unlock"
        "ct_storage s' = ct_storage s" "ct_state s' = tag x"
    by blast
  then show ?thesis
  proof cases
    case same
    have "ct_state s = Uninitialized" if "c_storing (ct_pc s' u)" for u
      using that ct_step_storing [OF t] o [of u] r by (cases "u = t") (auto simp: result_ok_def)
    moreover have "ct_storage s = Some x" if "ct_pc s' u = C_Xchg x b" for u x b
      using that same(3) [of x b] o [of u] r by (cases "u = t") (auto simp: result_ok_def)
    ultimately show ?thesis using r unfolding result_ok_def same(1,2) by blast
  next
    case place
    have un: "ct_state s = Uninitialized" using r place(1) unfolding result_ok_def by (metis c_storing.simps(1))
    have "x' = x" if "ct_pc s' u = C_Xchg x' b'" for u x' b'
      using that place o [of u] alone [of u] by (cases "u = t") auto
    then show ?thesis using un by (simp add: result_ok_def place)
  next
    case xchg
    have "\<not> c_locked (ct_pc s u)" if "u \<noteq> t" for u using alone [OF that] xchg(1) by simp
    then have n: "\<not> c_storing (ct_pc s' u)" for u
      using xchg(2) o [of u] c_storing_locked [of "ct_pc s u"] by (cases "u = t") auto
    then have "ct_pc s' u \<noteq> C_Xchg y b" for u y b by (metis c_storing.simps(2))
    moreover have "ct_storage s = Some x" using r xchg(1) by (auto simp: result_ok_def)
    ultimately show ?thesis using n by (simp add: result_ok_def xchg(3,4))
  qed
qed

lemma sum_one:
  "sum ((f :: 't::finite \<Rightarrow> nat)(u := c)) UNIV + f u = sum f UNIV + c"
  using sum_change_one [of u "f(u := c)" f] by simp

lemma ct_step_refs:
  fixes s :: "('t::finite, 'v, 'x) ct_shared_state"
  shows "ct_step t s s' \<Longrightarrow> ct_refs s = sum (ct_proms s) UNIV \<Longrightarrow>
    ct_refs s' = sum (ct_proms s') UNIV"
proof (induction rule: ct_step.induct)
  case (ct_copy s t u)
  then show ?case using sum_one [of "ct_proms s" u "ct_proms s u + 1"] by simp
next
  case (ct_drop s t)
  then show ?case using sum_one [of "ct_proms s" t "ct_proms s t - 1"] by simp
qed (auto simp: ct_critical)

lemma ct_step_user:
  assumes "ct_step t s s'" "\<And>u. c_user (ct_pc s u) \<Longrightarrow> 0 < ct_proms s u" "c_user (ct_pc s' u)"
  shows "0 < ct_proms s' u"
  using assms by (induction rule: ct_step.induct) (fastforce simp: ct_critical split: if_splits)+

lemma ct_step_final: "ct_step t s s' \<Longrightarrow>
    (c_final (ct_pc s' t) \<longrightarrow> c_final (ct_pc s t) \<and> ct_refs s' = ct_refs s \<or> ct_refs s = 1 \<and> ct_refs s' = 0) \<and>
    (c_final (ct_pc s t) \<longrightarrow> c_final (ct_pc s' t) \<or> ct_state s \<noteq> Uninitialized \<or> ct_rdy s')"
  by (induction rule: ct_step.induct) (auto simp: ct_critical split: if_splits sum.splits)

lemma ct_step_refs0: "ct_step t s s' \<Longrightarrow> ct_refs s = 0 \<Longrightarrow> (\<And>t. ct_proms s t = 0) \<Longrightarrow> ct_refs s' = 0"
  by (induction rule: ct_step.induct) (auto simp: ct_critical)

lemma ct_step_last: "ct_step t s s' \<Longrightarrow>
    (c_last (ct_pc s' t) \<longrightarrow> ct_state s' = ct_state s \<and> (c_last (ct_pc s t) \<or> ct_state s = Uninitialized)) \<and>
    (ct_pc s' t = C_Throw True \<longrightarrow> ct_pc s t = C_Throw True \<or> c_last (ct_pc s t) \<and> ct_state s \<noteq> Uninitialized) \<and>
    (ct_refs s' = 0 \<longrightarrow> ct_refs s = 0 \<or> ct_pc s' t = C_Dropped)"
  by (induction rule: ct_step.induct) (auto simp: ct_critical split: if_splits)

lemma promise_ok_step:
  fixes s :: "('t::finite, 'v, 'x) ct_shared_state"
  assumes t: "ct_step t s s'" and i: "promise_ok s" and r: "result_ok s"
  shows "promise_ok s'"
proof -
  note o = ct_step_others [OF t]
  have sm: "ct_refs s = sum (ct_proms s) UNIV" and us: "\<And>u. c_user (ct_pc s u) \<Longrightarrow> 0 < ct_proms s u"
    and fi: "\<And>u. c_final (ct_pc s u) \<Longrightarrow> ct_refs s = 0"
    and un: "\<And>u v. c_final (ct_pc s u) \<Longrightarrow> c_final (ct_pc s v) \<Longrightarrow> u = v"
    and la: "\<And>u. c_last (ct_pc s u) \<Longrightarrow> ct_state s = Uninitialized"
    and th: "\<And>u. ct_pc s u \<noteq> C_Throw True"
    and ex: "ct_refs s = 0 \<Longrightarrow> ct_rdy s \<or> (\<exists>u. c_final (ct_pc s u))"
    using i unfolding promise_ok_def by blast+
  have z: "ct_proms s u = 0" if "ct_refs s = 0" for u using sm that by simp
  have z': "ct_refs s' = 0" if "ct_refs s = 0" using ct_step_refs0 [OF t that z [OF that]] .
  have fin: "ct_refs s' = 0" if "c_final (ct_pc s' u)" for u
    using that ct_step_final [OF t] fi [of t] fi [of u] z' o [of u] by (cases "u = t") auto
  have one: "u = t" if "c_final (ct_pc s' t)" "c_final (ct_pc s' u)" for u
    using that ct_step_final [OF t] fi [of u] un [of u t] o [of u] by (cases "u = t") auto
  have uni: "u = v" if "c_final (ct_pc s' u)" "c_final (ct_pc s' v)" for u v
    using that one un [of u v] o by metis
  have rdy: "ct_rdy s'" if "ct_rdy s" using ct_step_state [OF t] that by auto
  have last: "ct_state s' = Uninitialized" if "c_last (ct_pc s' u)" for u
  proof (cases "u = t")
    case True
    then show ?thesis using that ct_step_last [OF t] la by metis
  next
    case False
    then have u: "c_last (ct_pc s u)" using that o by simp
    have "ct_pc s t \<noteq> C_Xchg x b" for x b
      using us [of t] z [of t] fi [of u] un [of u t] u False by (cases b) auto
    then show ?thesis using ct_step_state [OF t] la [OF u] by auto
  qed
  have nothrow: "ct_pc s' u \<noteq> C_Throw True" for u
    using ct_step_last [OF t] th [of u] la [of t] o [of u] by (cases "u = t") auto
  have left: "ct_rdy s' \<or> (\<exists>u. c_final (ct_pc s' u))" if "ct_refs s' = 0"
  proof (cases "ct_refs s = 0")
    case False
    then show ?thesis using ct_step_last [OF t] that by auto
  next
    case True
    have "ct_rdy s' \<or> (\<exists>u. c_final (ct_pc s' u))" if "c_final (ct_pc s u)" for u
    proof (cases "u = t")
      case True
      moreover have "ct_state s = Uninitialized \<or> ct_rdy s" using r unfolding result_ok_def by blast
      ultimately show ?thesis
        using that ct_step_final [OF t, THEN conjunct2] rdy by blast
    next
      case False
      then have "c_final (ct_pc s' u)" using that o by simp
      then show ?thesis by blast
    qed
    then show ?thesis using ex [OF True] rdy by blast
  qed
  have p1: "\<forall>u. c_user (ct_pc s' u) \<longrightarrow> 0 < ct_proms s' u" using ct_step_user [OF t us] by blast
  have p2: "\<forall>u. c_final (ct_pc s' u) \<longrightarrow> ct_refs s' = 0" using fin by blast
  have p3: "\<forall>u v. c_final (ct_pc s' u) \<longrightarrow> c_final (ct_pc s' v) \<longrightarrow> u = v" using uni by blast
  have p4: "\<forall>u. c_last (ct_pc s' u) \<longrightarrow> ct_state s' = Uninitialized" using last by blast
  have p5: "\<forall>u. ct_pc s' u \<noteq> C_Throw True" using nothrow by blast
  show ?thesis
    unfolding promise_ok_def by (intro conjI p1 p2 p3 p4 p5 ct_step_refs [OF t sm] impI left)
qed

text \<open>Callbacks: the lists are emptied once the state is ready.\<close>

abbreviation c_serving :: "('v, 'x) ct_pc \<Rightarrow> bool" where
  "c_serving c \<equiv> c = C_Unlock \<or> c = C_Invoke"

abbreviation no_callbacks :: "('t, 'v, 'x) ct_shared_state \<Rightarrow> bool" where
  "no_callbacks s \<equiv> ct_cb s = None \<and> ct_scbs s = [] \<and> ct_deps s = []"

definition calls_ok :: "('t, 'v, 'x) ct_shared_state \<Rightarrow> bool" where
  "calls_ok s \<longleftrightarrow>
     (\<forall>t. c_serving (ct_pc s t) \<or> (\<exists>is. ct_pc s t = C_Calls is) \<longrightarrow> ct_rdy s) \<and>
     (ct_fired s \<noteq> [] \<longrightarrow> ct_rdy s) \<and>
     (ct_rdy s \<longrightarrow> no_callbacks s \<or> (\<exists>t. c_serving (ct_pc s t)))"

lemma ct_step_calls: "ct_step t s s' \<Longrightarrow>
    (c_serving (ct_pc s' t) \<or> (\<exists>is. ct_pc s' t = C_Calls is) \<longrightarrow>
       ct_rdy s' \<or> c_serving (ct_pc s t) \<or> (\<exists>is. ct_pc s t = C_Calls is)) \<and>
    (ct_fired s' \<noteq> ct_fired s \<longrightarrow> (\<exists>is. ct_pc s t = C_Calls is)) \<and>
    (ct_rdy s \<longrightarrow> (no_callbacks s \<longrightarrow> no_callbacks s') \<and>
       (c_serving (ct_pc s t) \<longrightarrow> c_serving (ct_pc s' t) \<or> no_callbacks s')) \<and>
    (ct_rdy s' \<longrightarrow> ct_rdy s \<or> ct_pc s' t = C_Unlock)"
  by (induction rule: ct_step.induct) (auto simp: ct_critical split: if_splits sum.splits)

lemma calls_ok_step:
  assumes t: "ct_step t s s'" and c: "calls_ok s"
  shows "calls_ok s'"
proof -
  note o = ct_step_others [OF t]
  note k = ct_step_calls [OF t, THEN conjunct1]
    and kf = ct_step_calls [OF t, THEN conjunct2, THEN conjunct1]
    and kn = ct_step_calls [OF t, THEN conjunct2, THEN conjunct2, THEN conjunct1]
    and ku = ct_step_calls [OF t, THEN conjunct2, THEN conjunct2, THEN conjunct2]
  have a: "ct_rdy s" if "c_serving (ct_pc s u) \<or> (\<exists>is. ct_pc s u = C_Calls is)" for u
    using c that unfolding calls_ok_def by blast
  have rdy: "ct_rdy s'" if "ct_rdy s" using ct_step_state [OF t] that by auto
  have 1: "ct_rdy s'" if "c_serving (ct_pc s' u) \<or> (\<exists>is. ct_pc s' u = C_Calls is)" for u
    using that k a rdy o by metis
  have 2: "ct_rdy s'" if "ct_fired s' \<noteq> []"
    using that kf a [of t] rdy c unfolding calls_ok_def by metis
  have 3: "no_callbacks s' \<or> (\<exists>u. c_serving (ct_pc s' u))" if "ct_rdy s'"
  proof (cases "ct_rdy s")
    case True
    have "no_callbacks s' \<or> (\<exists>u. c_serving (ct_pc s' u))" if "c_serving (ct_pc s u)" for u
      using that kn True o [of u] by (cases "u = t") metis+
    then show ?thesis using True c kn unfolding calls_ok_def by metis
  qed (use ku that in blast)
  show ?thesis unfolding calls_ok_def using 1 2 3 by blast
qed

text \<open>The future is used once.\<close>

fun c_unique :: "('v, 'x) ct_pc \<Rightarrow> bool" where
  "c_unique (C_Callback i) = True" | "c_unique (C_Install i) = True" | "c_unique _ = False"

definition tokens :: "('t, 'v, 'x) ct_shared_state \<Rightarrow> nat" where
  "tokens s =
     (if ct_marked s then 0 else 1) + (if ct_fut s = None then 0 else 1) +
     (if ct_sfut s then 1 else 0) + (if ct_cb s = None then 0 else 1)"

definition future_ok :: "('t::finite, 'v, 'x) ct_shared_state \<Rightarrow> bool" where
  "future_ok s \<longleftrightarrow> tokens s + (\<Sum>t\<in>UNIV. if c_unique (ct_pc s t) then 1 else 0) \<le> 1"

lemma ct_step_tokens: "ct_step t s s' \<Longrightarrow> tokens s \<le> 1 \<Longrightarrow>
    tokens s' + (if c_unique (ct_pc s' t) then 1 else 0)
      \<le> tokens s + (if c_unique (ct_pc s t) then 1 else 0)"
  by (induction rule: ct_step.induct) (auto simp: ct_critical tokens_def)

lemma future_ok_step:
  fixes s :: "('t::finite, 'v, 'x) ct_shared_state"
  assumes t: "ct_step t s s'" and f: "future_ok s"
  shows "future_ok s'"
proof -
  let ?u = "\<lambda>s t. if c_unique (ct_pc (s :: ('t, 'v, 'x) ct_shared_state) t) then 1 else 0 :: nat"
  have "sum (?u s') UNIV + ?u s t = sum (?u s) UNIV + ?u s' t"
    by (rule sum_change_one) (simp add: ct_step_others [OF t])
  moreover have "tokens s' + ?u s' t \<le> tokens s + ?u s t"
    using ct_step_tokens [OF t] f by (simp add: future_ok_def)
  ultimately show ?thesis using f unfolding future_ok_def by linarith
qed

text \<open>The slot that \<open>register_dependant_begin\<close> took is still there at the commit.\<close>

definition slots_ok :: "('t, 'v, 'x) ct_shared_state \<Rightarrow> bool" where
  "slots_ok s \<longleftrightarrow> (\<not> ct_rdy s \<longrightarrow>
     (\<forall>t idx i. ct_pc s t = C_Commit idx i \<longrightarrow> idx < length (ct_deps s) \<and> ct_deps s ! idx = None) \<and>
     (\<forall>t u idx i j. ct_pc s t = C_Commit idx i \<longrightarrow> ct_pc s u = C_Commit idx j \<longrightarrow> t = u))"

lemma ct_step_slots: "ct_step t s s' \<Longrightarrow> \<not> ct_rdy s' \<Longrightarrow>
    \<not> ct_rdy s \<and>
    ((\<nexists>idx i. ct_pc s' t = C_Commit idx i) \<and>
       (ct_deps s' = ct_deps s \<or> (\<exists>i. ct_deps s' = ct_deps s @ [Some i]) \<or>
        (\<exists>idx i. ct_pc s t = C_Commit idx i \<and> ct_deps s' = (ct_deps s)[idx := Some i]) \<or>
        ct_pc s t = C_Invoke) \<or>
     ct_pc s' t = ct_pc s t \<and> ct_deps s' = ct_deps s \<or>
     (\<exists>i. ct_pc s' t = C_Commit (length (ct_deps s)) i \<and> ct_deps s' = ct_deps s @ [None]))"
  by (induction rule: ct_step.induct) (auto simp: ct_critical split: if_splits sum.splits)

lemma cb_slots_ok_step:
  assumes t: "ct_step t s s'" and c: "calls_ok s" and i: "slots_ok s"
  shows "slots_ok s'"
proof (cases "ct_rdy s'")
  case False
  note o = ct_step_others [OF t]
  have nr: "\<not> ct_rdy s" using ct_step_slots [OF t False] by blast
  have old: "idx < length (ct_deps s) \<and> ct_deps s ! idx = None" if "ct_pc s u = C_Commit idx j" for u idx j
    using i nr that unfolding slots_ok_def by blast
  have uni: "u = v" if "ct_pc s u = C_Commit idx j" "ct_pc s v = C_Commit idx k" for u v idx j k
    using i nr that unfolding slots_ok_def by blast
  have "ct_pc s t \<noteq> C_Invoke" using c nr unfolding calls_ok_def by blast
  with ct_step_slots [OF t False] consider
      (away) "\<nexists>idx i. ct_pc s' t = C_Commit idx i"
        "ct_deps s' = ct_deps s \<or> (\<exists>i. ct_deps s' = ct_deps s @ [Some i]) \<or>
         (\<exists>idx i. ct_pc s t = C_Commit idx i \<and> ct_deps s' = (ct_deps s)[idx := Some i])"
    | (same) "ct_pc s' t = ct_pc s t" "ct_deps s' = ct_deps s"
    | (opened) j where "ct_pc s' t = C_Commit (length (ct_deps s)) j" "ct_deps s' = ct_deps s @ [None]"
    by blast
  then show ?thesis
  proof cases
    case away
    have "idx < length (ct_deps s') \<and> ct_deps s' ! idx = None" if u: "ct_pc s' u = C_Commit idx j" for u idx j
    proof -
      have "u \<noteq> t" using away(1) u by auto
      then have "ct_pc s u = C_Commit idx j" using u o by simp
      moreover from this have "k \<noteq> idx" if "ct_pc s t = C_Commit k i" for k i
        using uni [of u idx j t i] that \<open>u \<noteq> t\<close> by blast
      ultimately show ?thesis using old [of u idx j] away(2)
        by (auto simp: nth_append nth_list_update)
    qed
    moreover have "u = v" if "ct_pc s' u = C_Commit idx j" "ct_pc s' v = C_Commit idx k" for u v idx j k
      using that away(1) uni o by metis
    ultimately show ?thesis unfolding slots_ok_def by blast
  next
    case same
    then have "ct_pc s' u = ct_pc s u" for u using o by (cases "u = t") auto
    then show ?thesis using i same(2) nr by (simp add: slots_ok_def)
  next
    case opened
    have new: "idx = length (ct_deps s) \<and> u = t \<or> u \<noteq> t \<and> ct_pc s u = C_Commit idx j \<and> idx < length (ct_deps s)"
      if "ct_pc s' u = C_Commit idx j" for u idx j
      using that opened(1) o [of u] old [of u idx j] by (cases "u = t") auto
    have "idx < length (ct_deps s') \<and> ct_deps s' ! idx = None" if u: "ct_pc s' u = C_Commit idx j" for u idx j
      using new [OF u] old [of u idx j] opened(2) by (auto simp: nth_append)
    moreover have "u = v" if "ct_pc s' u = C_Commit idx j" "ct_pc s' v = C_Commit idx k" for u v idx j k
      using new [OF that(1)] new [OF that(2)] uni by blast
    ultimately show ?thesis unfolding slots_ok_def by blast
  qed
qed (simp add: slots_ok_def)

text \<open>What was asked for is waiting, being delivered, or was called.\<close>

fun c_todo :: "nat \<Rightarrow> ('v, 'x) ct_pc \<Rightarrow> nat" where
  "c_todo i (C_Calls is) = count_list is i"
| "c_todo i (C_Callback j) = (if j = i then 1 else 0)"
| "c_todo i (C_Shared j) = (if j = i then 1 else 0)"
| "c_todo i (C_Install j) = (if j = i then 1 else 0)"
| "c_todo i (C_Install_shared j) = (if j = i then 1 else 0)"
| "c_todo i (C_Dep j) = (if j = i then 1 else 0)"
| "c_todo i (C_Begin j) = (if j = i then 1 else 0)"
| "c_todo i (C_Commit idx j) = (if j = i then 1 else 0)"
| "c_todo i _ = 0"

definition waiting :: "nat \<Rightarrow> ('t, 'v, 'x) ct_shared_state \<Rightarrow> nat" where
  "waiting i s =
     (if ct_cb s = Some i then 1 else 0) + count_list (ct_scbs s) i + count_list (ct_deps s) (Some i)"

definition delivered :: "('t::finite, 'v, 'x) ct_shared_state \<Rightarrow> bool" where
  "delivered s \<longleftrightarrow>
     (\<forall>i. count_list (ct_asked s) i =
        count_list (ct_fired s) i + waiting i s + (\<Sum>t\<in>UNIV. c_todo i (ct_pc s t)))"

lemma count_list_map_filter: "count_list (List.map_filter id xs) i = count_list xs (Some i)"
  by (induction xs) (auto simp: List.map_filter_def)

lemma count_list_update_None:
  "k < length xs \<Longrightarrow> xs ! k = None \<Longrightarrow>
   count_list (xs[k := Some j]) (Some i) = count_list xs (Some i) + (if j = i then 1 else 0)"
  by (induction xs arbitrary: k) (auto split: nat.splits)

lemma ct_step_count:
  "ct_step t s s' \<Longrightarrow> slots_ok s \<Longrightarrow> tokens s + (if c_unique (ct_pc s t) then 1 else 0) \<le> 1 \<Longrightarrow>
   count_list (ct_asked s') i + count_list (ct_fired s) i + waiting i s + c_todo i (ct_pc s t) =
   count_list (ct_asked s) i + count_list (ct_fired s') i + waiting i s' + c_todo i (ct_pc s' t)"
proof (induction rule: ct_step.induct)
  case (ct_do_commit s t idx j)
  show ?case
  proof (cases "ct_rdy s")
    case False
    then have "idx < length (ct_deps s)" "ct_deps s ! idx = None"
      using ct_do_commit(1,2) unfolding slots_ok_def by blast+
    then show ?thesis
      using False ct_do_commit(1) by (simp add: ct_commit_def waiting_def count_list_update_None)
  qed (use ct_do_commit(1) in \<open>simp add: ct_commit_def waiting_def\<close>)
qed (auto simp: ct_critical waiting_def count_list_map_filter tokens_def split: option.splits)

section \<open>The result\<close>

lemma ct_step_aborted: "ct_step t s s' \<Longrightarrow> ct_aborted s' \<Longrightarrow> ct_aborted s \<or>
    ct_pc s t = C_Throw True \<or> (\<exists>x b. ct_pc s t = C_Xchg x b \<and> ct_state s \<noteq> Uninitialized) \<or>
    ct_pc s t = C_Unlock \<and> \<not> ct_lck s \<or> c_unique (ct_pc s t) \<and> ct_cb s \<noteq> None \<or>
    (\<exists>idx i. ct_pc s t = C_Commit idx i \<and> \<not> ct_rdy s \<and> \<not> idx < length (ct_deps s))"
  by (induction rule: ct_step.induct) (auto simp: ct_critical split: if_splits)

definition ct_inv :: "('t::finite, 'v, 'x) ct_shared_state \<Rightarrow> bool" where
  "ct_inv s \<longleftrightarrow> lock_ok s \<and> result_ok s \<and> promise_ok s \<and> calls_ok s \<and> future_ok s \<and> slots_ok s \<and>
     delivered s \<and> \<not> ct_aborted s"

lemma tokens_one:
  fixes s :: "('t::finite, 'v, 'x) ct_shared_state"
  assumes "future_ok s" shows "tokens s + (if c_unique (ct_pc s t) then 1 else 0) \<le> 1"
  using assms sum_ge_one [of "\<lambda>t. if c_unique (ct_pc s t) then 1 else 0" t]
  unfolding future_ok_def by linarith

lemma delivered_step:
  fixes s :: "('t::finite, 'v, 'x) ct_shared_state"
  assumes t: "ct_step t s s'" and f: "future_ok s" "slots_ok s" and d: "delivered s"
  shows "delivered s'"
  unfolding delivered_def
proof
  fix i
  let ?c = "\<lambda>s t. c_todo i (ct_pc (s :: ('t, 'v, 'x) ct_shared_state) t)"
  have "sum (?c s') UNIV + ?c s t = sum (?c s) UNIV + ?c s' t"
    by (rule sum_change_one) (simp add: ct_step_others [OF t])
  moreover note ct_step_count [OF t f(2) tokens_one [OF f(1)], of i]
  moreover have "count_list (ct_asked s) i =
      count_list (ct_fired s) i + waiting i s + sum (?c s) UNIV"
    using d unfolding delivered_def by blast
  ultimately show "count_list (ct_asked s') i =
      count_list (ct_fired s') i + waiting i s' + sum (?c s') UNIV" by linarith
qed

lemma ct_inv_step:
  fixes s :: "('t::finite, 'v, 'x) ct_shared_state"
  assumes t: "ct_step t s s'" and i: "ct_inv s"
  shows "ct_inv s'"
proof -
  have l: "lock_ok s" and r: "result_ok s" and p: "promise_ok s" and c: "calls_ok s"
    and f: "future_ok s" and sl: "slots_ok s" and d: "delivered s" and a: "\<not> ct_aborted s"
    using i unfolding ct_inv_def by blast+
  have "\<not> ct_aborted s'"
  proof
    assume ab: "ct_aborted s'"
    have "ct_pc s t \<noteq> C_Throw True" using p unfolding promise_ok_def by blast
    moreover have "ct_state s = Uninitialized" if "ct_pc s t = C_Xchg x b" for x b
      using r that unfolding result_ok_def by (metis c_storing.simps(2))
    moreover have "ct_lck s" if "ct_pc s t = C_Unlock"
      using l that unfolding lock_ok_def by (metis c_locked.simps(4))
    moreover have "ct_cb s = None" if "c_unique (ct_pc s t)"
      using tokens_one [OF f, of t] that by (auto simp: tokens_def split: if_splits)
    moreover have "idx < length (ct_deps s)" if "ct_pc s t = C_Commit idx i" "\<not> ct_rdy s" for idx i
      using sl that unfolding slots_ok_def by blast
    ultimately show False using ct_step_aborted [OF t ab] a by blast
  qed
  then show ?thesis
    unfolding ct_inv_def
    using lock_ok_step [OF t l] result_ok_step [OF t l r] promise_ok_step [OF t p r]
      calls_ok_step [OF t c] future_ok_step [OF t f] cb_slots_ok_step [OF t c sl]
      delivered_step [OF t f sl d] by blast
qed

lemma ct_inv_init: "ct_inv (ct_init (t :: 't::finite))"
proof -
  have "(\<Sum>u\<in>UNIV. if u = t then 1 else 0 :: nat) = 1" by simp
  then show ?thesis
    by (simp add: ct_inv_def ct_init_def lock_ok_def result_ok_def promise_ok_def calls_ok_def
      future_ok_def tokens_def slots_ok_def delivered_def waiting_def)
qed

lemma ct_reachable_inv: "ct_reachable (s :: ('t::finite, 'v, 'x) ct_shared_state) \<Longrightarrow> ct_inv s"
  by (induction rule: ct_reachable.induct) (simp_all add: ct_inv_init ct_inv_step)

lemma c_todo_idle: "ct_pc s t = C_Idle \<Longrightarrow> c_todo i (ct_pc s t) = 0" by simp

text \<open>
  C10. Callbacks are called exactly once, however threads interleave: no assertion fails and no
  exception leaves a destructor; a callback or dependant is called at most as often as it was
  asked for, only after the result is there, and the result never changes. When all threads have
  returned, the state is ready if no promise is left, and if it is ready every callback was
  called.
\<close>

theorem callbacks_exactly_once:
  fixes s :: "('t::finite, 'v, 'x) ct_shared_state"
  assumes "ct_reachable s"
  shows "\<not> ct_aborted s \<and>
    (\<forall>i. count_list (ct_fired s) i \<le> count_list (ct_asked s) i) \<and>
    (ct_fired s \<noteq> [] \<longrightarrow> (\<exists>x. ct_storage s = Some x \<and> ct_state s = tag x)) \<and>
    (ct_rdy s \<and> ct_step t s s' \<longrightarrow> ct_state s' = ct_state s \<and> ct_storage s' = ct_storage s) \<and>
    ((\<forall>t. ct_pc s t = C_Idle) \<longrightarrow>
       (ct_refs s = 0 \<longrightarrow> ct_rdy s) \<and> (ct_rdy s \<longrightarrow> mset (ct_fired s) = mset (ct_asked s)))"
proof -
  have r: "result_ok s" and p: "promise_ok s" and c: "calls_ok s" and d: "delivered s"
    and a: "\<not> ct_aborted s"
    using ct_reachable_inv [OF assms] unfolding ct_inv_def by blast+
  have at_most: "count_list (ct_fired s) i \<le> count_list (ct_asked s) i" for i
    using d unfolding delivered_def by simp
  have fired: "\<exists>x. ct_storage s = Some x \<and> ct_state s = tag x" if "ct_fired s \<noteq> []"
    using r c that unfolding result_ok_def calls_ok_def by blast
  have kept: "ct_state s' = ct_state s \<and> ct_storage s' = ct_storage s" if "ct_rdy s" "ct_step t s s'"
  proof -
    have "\<not> c_storing (ct_pc s t)" using r that(1) unfolding result_ok_def by (metis ready_t_simps(1))
    then have "ct_pc s t \<noteq> C_Place x b" "ct_pc s t \<noteq> C_Xchg x b" for x b by auto
    then show ?thesis using ct_step_state [OF that(2)] by blast
  qed
  have ready: "ct_rdy s" if "\<forall>t. ct_pc s t = C_Idle" "ct_refs s = 0"
    using p that unfolding promise_ok_def by simp
  have "mset (ct_fired s) = mset (ct_asked s)" if idle: "\<forall>t. ct_pc s t = C_Idle" and rd: "ct_rdy s"
  proof (rule multiset_eqI)
    fix i
    have "no_callbacks s" using c idle rd unfolding calls_ok_def by simp
    then have "waiting i s = 0" by (simp add: waiting_def)
    then show "count (mset (ct_fired s)) i = count (mset (ct_asked s)) i"
      using d idle unfolding delivered_def by (simp add: count_mset)
  qed
  then show ?thesis using a at_most fired kept ready by blast
qed

section \<open>A run\<close>

text \<open>Thread \<open>True\<close> owns the promise, thread \<open>False\<close> gets the future and installs a callback.\<close>

definition run_state ::
    "(nat, unit) ct_pc \<Rightarrow> (nat, unit) ct_pc \<Rightarrow> state_t \<Rightarrow> (unit exn + nat) option \<Rightarrow> bool \<Rightarrow>
     bool \<Rightarrow> bool option \<Rightarrow> nat option \<Rightarrow> nat list \<Rightarrow> nat list \<Rightarrow> (bool, nat, unit) ct_shared_state"
where
  "run_state p q c x lck marked fut cb asked fired =
     \<lparr>ct_state = c, ct_storage = x, ct_lck = lck, ct_marked = marked, ct_refs = 1,
      ct_cb = cb, ct_scbs = [], ct_deps = [], ct_pc = (\<lambda>u. if u then p else q),
      ct_proms = (\<lambda>u. if u then 1 else 0), ct_fut = fut, ct_sfut = False,
      ct_asked = asked, ct_fired = fired, ct_aborted = False\<rparr>"

lemma two_upd:
  "(\<lambda>u. if u then p else q)(True := r) = (\<lambda>u. if u then r else q)"
  "(\<lambda>u. if u then p else q)(False := r) = (\<lambda>u. if u then p else r)"
  "(\<lambda>u. p)(True := r) = (\<lambda>u. if u then r else p)"
  "(\<lambda>u. p)(False := r) = (\<lambda>u. if u then p else r)"
  by auto

lemma run_sel:
  "ct_state (run_state p q c x l m f cb as fs) = c" "ct_lck (run_state p q c x l m f cb as fs) = l"
  "ct_marked (run_state p q c x l m f cb as fs) = m" "ct_fut (run_state p q c x l m f cb as fs) = f"
  "ct_cb (run_state p q c x l m f cb as fs) = cb"
  "ct_pc (run_state p q c x l m f cb as fs) = (\<lambda>u. if u then p else q)"
  "ct_proms (run_state p q c x l m f cb as fs) = (\<lambda>u. if u then 1 else 0)"
  "ct_storage (run_state p q c x l m f cb as fs) = x"
  "ct_fired (run_state p q c x l m f cb as fs) = fs" "ct_asked (run_state p q c x l m f cb as fs) = as"
  by (simp_all add: run_state_def)

lemmas run_simps = run_state_def cgoto_def ct_critical List.map_filter_def two_upd

lemma run_reach:
  "ct_reachable (run_state C_Idle C_Idle Ready_value (Some (Inr 5)) False True None None [7] [7])"
proof -
  let ?u = Uninitialized and ?r = "Ready_value" and ?x = "Some (Inr 5)"
  have r: "ct_reachable (run_state C_Idle C_Idle ?u None False False None None [] [])"
    using cr_init [of True] by (simp add: ct_init_def run_state_def)
  have s1: "ct_step True (run_state C_Idle C_Idle ?u None False False None None [] [])
      (run_state C_Idle C_Idle ?u None False True (Some True) None [] [])"
    using ct_get_future [of "run_state C_Idle C_Idle ?u None False False None None [] []" True]
    by (simp add: run_simps)
  have s2: "ct_step True (run_state C_Idle C_Idle ?u None False True (Some True) None [] [])
      (run_state C_Idle C_Idle ?u None False True (Some False) None [] [])"
    using ct_move [of "run_state C_Idle C_Idle ?u None False True (Some True) None [] []" True False]
    by (simp add: run_simps)
  have s3: "ct_step False (run_state C_Idle C_Idle ?u None False True (Some False) None [] [])
      (run_state C_Idle (C_Callback 7) ?u None False True None None [7] [])"
    using ct_callback [of "run_state C_Idle C_Idle ?u None False True (Some False) None [] []" False 7]
    by (simp add: run_simps)
  have s4: "ct_step False (run_state C_Idle (C_Callback 7) ?u None False True None None [7] [])
      (run_state C_Idle (C_Install 7) ?u None False True None None [7] [])"
    using ct_test [of "run_state C_Idle (C_Callback 7) ?u None False True None None [7] []" False 7]
    by (simp add: run_simps)
  have s5: "ct_step True (run_state C_Idle (C_Install 7) ?u None False True None None [7] [])
      (run_state (C_Lock (Inr 5) False) (C_Install 7) ?u None False True None None [7] [])"
    using ct_set [of "run_state C_Idle (C_Install 7) ?u None False True None None [7] []" True "Inr 5"]
    by (simp add: run_simps)
  have s6: "ct_step False (run_state (C_Lock (Inr 5) False) (C_Install 7) ?u None False True None None [7] [])
      (run_state (C_Lock (Inr 5) False) C_Idle ?u None False True None (Some 7) [7] [])"
    using ct_do_install [of "run_state (C_Lock (Inr 5) False) (C_Install 7) ?u None False True None None [7] []" False 7]
    by (simp add: run_simps)
  have s7: "ct_step True (run_state (C_Lock (Inr 5) False) C_Idle ?u None False True None (Some 7) [7] [])
      (run_state (C_Check (Inr 5) False) C_Idle ?u None True True None (Some 7) [7] [])"
    using ct_lock [of "run_state (C_Lock (Inr 5) False) C_Idle ?u None False True None (Some 7) [7] []" True "Inr 5" False]
    by (simp add: run_simps)
  have s8: "ct_step True (run_state (C_Check (Inr 5) False) C_Idle ?u None True True None (Some 7) [7] [])
      (run_state (C_Place (Inr 5) False) C_Idle ?u None True True None (Some 7) [7] [])"
    using ct_check [of "run_state (C_Check (Inr 5) False) C_Idle ?u None True True None (Some 7) [7] []" True "Inr 5" False]
    by (simp add: run_simps)
  have s9: "ct_step True (run_state (C_Place (Inr 5) False) C_Idle ?u None True True None (Some 7) [7] [])
      (run_state (C_Xchg (Inr 5) False) C_Idle ?u ?x True True None (Some 7) [7] [])"
    using ct_place [of "run_state (C_Place (Inr 5) False) C_Idle ?u None True True None (Some 7) [7] []" True "Inr 5" False]
    by (simp add: run_simps)
  have s10: "ct_step True (run_state (C_Xchg (Inr 5) False) C_Idle ?u ?x True True None (Some 7) [7] [])
      (run_state C_Unlock C_Idle ?r ?x True True None (Some 7) [7] [])"
    using ct_xchg [of "run_state (C_Xchg (Inr 5) False) C_Idle ?u ?x True True None (Some 7) [7] []" True "Inr 5" False]
    by (simp add: run_simps)
  have s11: "ct_step True (run_state C_Unlock C_Idle ?r ?x True True None (Some 7) [7] [])
      (run_state C_Invoke C_Idle ?r ?x False True None (Some 7) [7] [])"
    using ct_unlock [of "run_state C_Unlock C_Idle ?r ?x True True None (Some 7) [7] []" True]
    by (simp add: run_simps)
  have s12: "ct_step True (run_state C_Invoke C_Idle ?r ?x False True None (Some 7) [7] [])
      (run_state (C_Calls [7]) C_Idle ?r ?x False True None None [7] [])"
    using ct_invoke [of "run_state C_Invoke C_Idle ?r ?x False True None (Some 7) [7] []" True]
    by (simp add: run_simps)
  have s13: "ct_step True (run_state (C_Calls [7]) C_Idle ?r ?x False True None None [7] [])
      (run_state (C_Calls []) C_Idle ?r ?x False True None None [7] [7])"
    using ct_call [of "run_state (C_Calls [7]) C_Idle ?r ?x False True None None [7] []" True 7 "[]"]
    by (simp add: run_simps)
  have s14: "ct_step True (run_state (C_Calls []) C_Idle ?r ?x False True None None [7] [7])
      (run_state C_Idle C_Idle ?r ?x False True None None [7] [7])"
    using ct_called [of "run_state (C_Calls []) C_Idle ?r ?x False True None None [7] [7]" True]
    by (simp add: run_simps)
  show ?thesis
    by (rule r [THEN cr_next, OF s1, THEN cr_next, OF s2, THEN cr_next, OF s3, THEN cr_next, OF s4,
        THEN cr_next, OF s5, THEN cr_next, OF s6, THEN cr_next, OF s7, THEN cr_next, OF s8,
        THEN cr_next, OF s9, THEN cr_next, OF s10, THEN cr_next, OF s11, THEN cr_next, OF s12,
        THEN cr_next, OF s13, THEN cr_next, OF s14])
qed

theorem callbacks_exactly_once_witness:
  "\<exists>s :: (bool, nat, unit) ct_shared_state.
     ct_fired s = [7] \<and> mset (ct_fired s) = mset (ct_asked s) \<and> \<not> ct_aborted s"
  using callbacks_exactly_once [OF run_reach]
  by (intro exI [of _ "run_state C_Idle C_Idle Ready_value (Some (Inr 5)) False True None None [7] [7]"])
    (simp add: run_sel)

end
