(* ===== verification/Future_Start.thy ===== *)
theory Future_Start
  imports Future_Inv
begin

text \<open>
  One deferred function (\<open>shared_state_fn\<close> of \<open>include/ilias/future-inl.h\<close>) with \<open>n\<close> futures
  among its arguments, interleaved: \<open>init_cb\<close> in the thread that makes it, starts by any number of
  threads, and the reports of the arguments, which complete whenever they like. An argument calls
  \<open>dependant_cb\<close> once for each registration, at once if it is ready (\<open>Future_Conc\<close> shows this of
  \<open>register_dependant\<close>). A step is an access to \<open>need_resolution_\<close> or \<open>state_\<close>, or a call on an
  argument.
\<close>

section \<open>The steps\<close>

text \<open>
  The places of a thread: in \<open>init_cb_\<close> before the \<open>fetch_add\<close> for argument \<open>k\<close> and before the
  registration; in \<open>do_start_deferred\<close> before the test, before the start of argument \<open>k\<close>, and in the
  other branch before the second test and before the one in \<open>shared_state_base\<close>; before a
  \<open>fetch_sub\<close>, in \<open>invoke_deferred\<close>, and before the result is set. A thread that makes the function
  (\<open>Some k\<close>) goes on with argument \<open>k\<close>.
\<close>

datatype sf_pc =
  D_Idle | D_Add nat | D_Register nat | D_Start bool | D_Args nat | D_Else bool | D_Base
| D_Sub "nat option" | D_Run "nat option" | D_Set "nat option"

text \<open>
  \<open>sf_waiting\<close> are the arguments that have the function among their dependants, \<open>sf_ready\<close> those
  with a result. The history: how many arguments were counted, which were started, how often the
  function ran, whether one of its arguments was not ready then, and whether an assertion failed.
\<close>

record 't sf_fn =
  sf_state :: state_t
  sf_need :: uptr
  sf_pc :: "'t \<Rightarrow> sf_pc"
  sf_built :: bool
  sf_waiting :: "nat set"
  sf_ready :: "nat set"
  sf_added :: nat
  sf_started :: "nat set"
  sf_runs :: nat
  sf_blocked :: bool
  sf_aborted :: bool

definition sf_init :: "'t \<Rightarrow> 't sf_fn" where
  "sf_init t =
     \<lparr>sf_state = Uninitialized_deferred, sf_need = 1,
      sf_pc = (\<lambda>u. if u = t then D_Add 0 else D_Idle), sf_built = False, sf_waiting = {},
      sf_ready = {}, sf_added = 0, sf_started = {}, sf_runs = 0, sf_blocked = False,
      sf_aborted = False\<rparr>"

definition sgoto :: "'t \<Rightarrow> sf_pc \<Rightarrow> 't sf_fn \<Rightarrow> 't sf_fn" where
  "sgoto t c s = s\<lparr>sf_pc := (sf_pc s)(t := c)\<rparr>"

lemma sgoto_sel [simp]:
  "sf_state (sgoto t c s) = sf_state s" "sf_need (sgoto t c s) = sf_need s"
  "sf_pc (sgoto t c s) = (sf_pc s)(t := c)" "sf_built (sgoto t c s) = sf_built s"
  "sf_waiting (sgoto t c s) = sf_waiting s" "sf_ready (sgoto t c s) = sf_ready s"
  "sf_added (sgoto t c s) = sf_added s" "sf_started (sgoto t c s) = sf_started s"
  "sf_runs (sgoto t c s) = sf_runs s" "sf_blocked (sgoto t c s) = sf_blocked s"
  "sf_aborted (sgoto t c s) = sf_aborted s"
  by (simp_all add: sgoto_def)

definition sf_next :: "nat option \<Rightarrow> sf_pc" where
  "sf_next m = (case m of None \<Rightarrow> D_Idle | Some k \<Rightarrow> D_Add k)"

inductive sf_step :: "nat \<Rightarrow> 't \<Rightarrow> 't sf_fn \<Rightarrow> 't sf_fn \<Rightarrow> bool" for n where
  \<comment> \<open>\<open>init_cb\<close>\<close>
  sf_add: "sf_pc s t = D_Add k \<Longrightarrow> k < n \<Longrightarrow>
    sf_step n t s
      (sgoto t (D_Register k) (s\<lparr>sf_need := sf_need s + 1, sf_added := sf_added s + 1\<rparr>))"
| sf_register: "sf_pc s t = D_Register k \<Longrightarrow>
    sf_step n t s
      (if k \<in> sf_ready s then sgoto t (D_Sub (Some (k + 1))) s
       else sgoto t (D_Add (k + 1)) (s\<lparr>sf_waiting := insert k (sf_waiting s)\<rparr>))"
| sf_done: "sf_pc s t = D_Add n \<Longrightarrow> sf_step n t s (sgoto t D_Idle (s\<lparr>sf_built := True\<rparr>))"
  \<comment> \<open>an argument completes, and calls \<open>dependant_cb\<close>\<close>
| sf_complete: "k < n \<Longrightarrow> sf_step n t s (s\<lparr>sf_ready := insert k (sf_ready s)\<rparr>)"
| sf_report: "sf_pc s t = D_Idle \<Longrightarrow> k \<in> sf_waiting s \<Longrightarrow> k \<in> sf_ready s \<Longrightarrow>
    sf_step n t s (sgoto t (D_Sub None) (s\<lparr>sf_waiting := sf_waiting s - {k}\<rparr>))"
  \<comment> \<open>\<open>do_start_deferred\<close>\<close>
| sf_call_start: "sf_pc s t = D_Idle \<Longrightarrow> sf_built s \<Longrightarrow> sf_step n t s (sgoto t (D_Start async) s)"
| sf_start: "sf_pc s t = D_Start async \<Longrightarrow> \<not> async \<Longrightarrow> sf_state s = Uninitialized_deferred \<Longrightarrow>
    sf_step n t s (sgoto t (D_Args 0) (s\<lparr>sf_state := Uninitialized\<rparr>))"
| sf_else: "sf_pc s t = D_Start async \<Longrightarrow> async \<or> sf_state s \<noteq> Uninitialized_deferred \<Longrightarrow>
    sf_step n t s (sgoto t (D_Else async) s)"
| sf_test: "sf_pc s t = D_Else async \<Longrightarrow>
    sf_step n t s (sgoto t (if sf_state s \<noteq> Uninitialized_deferred then D_Base else D_Idle) s)"
| sf_base: "sf_pc s t = D_Base \<Longrightarrow>
    sf_step n t s (sgoto t D_Idle
      (s\<lparr>sf_aborted := sf_aborted s \<or> sf_state s = Uninitialized_deferred\<rparr>))"
| sf_arg: "sf_pc s t = D_Args k \<Longrightarrow> k < n \<Longrightarrow>
    sf_step n t s (sgoto t (D_Args (k + 1)) (s\<lparr>sf_started := insert k (sf_started s)\<rparr>))"
| sf_args: "sf_pc s t = D_Args n \<Longrightarrow> sf_step n t s (sgoto t (D_Sub None) s)"
  \<comment> \<open>\<open>need_resolution_.fetch_sub(1)\<close>, \<open>invoke_deferred\<close>\<close>
| sf_sub: "sf_pc s t = D_Sub m \<Longrightarrow>
    sf_step n t s
      (sgoto t (if sf_need s = 1 then D_Run m else sf_next m) (s\<lparr>sf_need := sf_need s - 1\<rparr>))"
| sf_run: "sf_pc s t = D_Run m \<Longrightarrow>
    sf_step n t s
      (sgoto t (D_Set m)
        (s\<lparr>sf_runs := sf_runs s + 1, sf_blocked := sf_blocked s \<or> \<not> {..<n} \<subseteq> sf_ready s\<rparr>))"
| sf_set: "sf_pc s t = D_Set m \<Longrightarrow>
    sf_step n t s
      (sgoto t (sf_next m)
        (s\<lparr>sf_state := Ready_value, sf_aborted := sf_aborted s \<or> sf_state s \<noteq> Uninitialized\<rparr>))"

inductive sf_reachable :: "nat \<Rightarrow> 't sf_fn \<Rightarrow> bool" for n where
  sr_init: "sf_reachable n (sf_init t)"
| sr_next: "sf_reachable n s \<Longrightarrow> sf_step n t s s' \<Longrightarrow> sf_reachable n s'"

section \<open>Invariants\<close>

lemma sf_step_others: "sf_step n t s s' \<Longrightarrow> u \<noteq> t \<Longrightarrow> sf_pc s' u = sf_pc s u"
  by (induction rule: sf_step.induct) auto

text \<open>The thread in \<open>init_cb\<close>, and the argument that it will count next.\<close>

fun d_maker :: "sf_pc \<Rightarrow> nat option" where
  "d_maker (D_Add k) = Some k" | "d_maker (D_Register k) = Some (k + 1)"
| "d_maker (D_Sub m) = m" | "d_maker (D_Run m) = m" | "d_maker (D_Set m) = m" | "d_maker _ = None"

fun d_weight :: "sf_pc \<Rightarrow> nat" where
  "d_weight (D_Register k) = 1" | "d_weight (D_Args k) = 1" | "d_weight (D_Sub m) = 1"
| "d_weight _ = 0"

fun d_runs :: "sf_pc \<Rightarrow> nat" where "d_runs (D_Run m) = 1" | "d_runs _ = 0"

fun d_sets :: "sf_pc \<Rightarrow> nat" where "d_sets (D_Set m) = 1" | "d_sets _ = 0"

definition start_ticket :: "'t sf_fn \<Rightarrow> nat" where
  "start_ticket s = (if sf_state s = Uninitialized_deferred then 1 else 0)"

text \<open>\<open>need_resolution_\<close> counts the start to come, the arguments waited for and the steps under way.\<close>

definition need_ok :: "'t::finite sf_fn \<Rightarrow> bool" where
  "need_ok s \<longleftrightarrow>
     unat (sf_need s) = start_ticket s + card (sf_waiting s) + (\<Sum>t\<in>UNIV. d_weight (sf_pc s t)) \<and>
     sf_runs s + (\<Sum>t\<in>UNIV. d_runs (sf_pc s t)) = (if sf_need s = 0 then 1 else 0) \<and>
     (\<Sum>t\<in>UNIV. d_sets (sf_pc s t)) + (if sf_state s = Ready_value then 1 else 0) = sf_runs s"

definition build_ok :: "nat \<Rightarrow> 't sf_fn \<Rightarrow> bool" where
  "build_ok n s \<longleftrightarrow>
     (\<forall>t k. d_maker (sf_pc s t) = Some k \<longrightarrow> \<not> sf_built s \<and> sf_added s = k) \<and>
     (\<forall>t u. d_maker (sf_pc s t) \<noteq> None \<longrightarrow> d_maker (sf_pc s u) \<noteq> None \<longrightarrow> t = u) \<and>
     sf_added s \<le> n \<and> (sf_built s \<longrightarrow> sf_added s = n)"

definition start_ok :: "'t sf_fn \<Rightarrow> bool" where
  "start_ok s \<longleftrightarrow>
     sf_state s \<in> {Uninitialized_deferred, Uninitialized, Ready_value} \<and>
     (\<not> sf_built s \<longrightarrow> sf_state s = Uninitialized_deferred \<and> (\<forall>t b. sf_pc s t \<noteq> D_Start b)) \<and>
     (\<forall>t. sf_pc s t = D_Base \<longrightarrow> sf_state s \<noteq> Uninitialized_deferred)"

definition args_ok :: "nat \<Rightarrow> 't sf_fn \<Rightarrow> bool" where
  "args_ok n s \<longleftrightarrow>
     (\<forall>k\<in>sf_waiting s. k < sf_added s \<and> (\<forall>t. sf_pc s t \<noteq> D_Register k)) \<and>
     (\<forall>k < sf_added s. k \<in> sf_waiting s \<or> k \<in> sf_ready s \<or> (\<exists>t. sf_pc s t = D_Register k)) \<and>
     (sf_state s \<noteq> Uninitialized_deferred \<longrightarrow>
        {..<n} \<subseteq> sf_started s \<or> (\<exists>t k. sf_pc s t = D_Args k \<and> {..<k} \<subseteq> sf_started s))"

lemma sf_step_build: "sf_step n t s s' \<Longrightarrow>
    (d_maker (sf_pc s' t) = d_maker (sf_pc s t) \<and> sf_added s' = sf_added s \<and> sf_built s' = sf_built s \<or>
     (\<exists>k<n. d_maker (sf_pc s t) = Some k \<and> d_maker (sf_pc s' t) = Some (k + 1) \<and>
        sf_added s' = sf_added s + 1 \<and> sf_built s' = sf_built s) \<or>
     d_maker (sf_pc s t) = Some n \<and> d_maker (sf_pc s' t) = None \<and> sf_added s' = sf_added s \<and>
       sf_built s')"
  by (induction rule: sf_step.induct) (auto simp: sf_next_def split: option.splits)

lemma build_ok_step:
  assumes t: "sf_step n t s s'" and b: "build_ok n s"
  shows "build_ok n s'"
proof -
  note o = sf_step_others [OF t]
  have b1: "\<not> sf_built s \<and> sf_added s = k" if "d_maker (sf_pc s u) = Some k" for u k
    using b that unfolding build_ok_def by blast
  have b2: "u = v" if "d_maker (sf_pc s u) \<noteq> None" "d_maker (sf_pc s v) \<noteq> None" for u v
    using b that unfolding build_ok_def by blast
  have b3: "sf_added s \<le> n" "sf_built s \<Longrightarrow> sf_added s = n" using b unfolding build_ok_def by blast+
  have "d_maker (sf_pc s' u) \<noteq> None \<Longrightarrow> d_maker (sf_pc s u) \<noteq> None" for u
    using sf_step_build [OF t] o [of u] by (cases "u = t") auto
  then have 2: "u = v" if "d_maker (sf_pc s' u) \<noteq> None" "d_maker (sf_pc s' v) \<noteq> None" for u v
    using that b2 by blast
  have 1: "\<not> sf_built s' \<and> sf_added s' = k" if "d_maker (sf_pc s' u) = Some k" for u k
  proof (cases "u = t")
    case True
    then show ?thesis using that sf_step_build [OF t] b1 [of t k] b1 [of t "k - 1"] by auto
  next
    case False
    then have u: "d_maker (sf_pc s u) = Some k" using that o by simp
    then have "d_maker (sf_pc s t) = None" using b2 [of u t] False by (metis option.distinct(1))
    then show ?thesis using sf_step_build [OF t] b1 [OF u] by auto
  qed
  have "sf_added s' \<le> n \<and> (sf_built s' \<longrightarrow> sf_added s' = n)"
    using sf_step_build [OF t] b1 [of t] b3 by auto
  then show ?thesis unfolding build_ok_def using 1 2 by blast
qed

lemma sf_step_need:
  assumes t: "sf_step n t s s'" and n: "n + 1 < 2 ^ 64"
    and bound: "unat (sf_need s) \<le> sf_added s + 1" "sf_added s \<le> n"
    and pos: "d_weight (sf_pc s t) \<le> unat (sf_need s)"
    and fresh: "\<And>k. sf_pc s t = D_Register k \<Longrightarrow> k \<notin> sf_waiting s" and fin: "finite (sf_waiting s)"
    and set: "\<And>m. sf_pc s t = D_Set m \<Longrightarrow> sf_state s \<noteq> Uninitialized_deferred"
    and add: "\<And>k. sf_pc s t = D_Add k \<Longrightarrow> sf_added s = k"
  shows "unat (sf_need s') + start_ticket s + card (sf_waiting s) + d_weight (sf_pc s t) =
      unat (sf_need s) + start_ticket s' + card (sf_waiting s') + d_weight (sf_pc s' t) \<and>
    unat (sf_need s') \<le> sf_added s' + 1"
  using t bound pos fresh fin set add
proof (induction rule: sf_step.induct)
  case (sf_add s t k)
  have "Suc (unat (sf_need s)) < 2 ^ LENGTH(64)" using sf_add(2-4) sf_add(9) [OF sf_add(1)] n by simp
  then have "unat (sf_need s + 1) = Suc (unat (sf_need s))" by (rule unat_inc)
  then show ?case using sf_add(1,3) by (simp add: start_ticket_def)
next
  case (sf_sub s t m)
  have "unat (sf_need s - 1) = unat (sf_need s) - 1" using sf_sub by (intro unat_dec) simp
  moreover have "1 \<le> unat (sf_need s)" using sf_sub by simp
  ultimately show ?case using sf_sub by (auto simp: start_ticket_def sf_next_def split: option.splits)
next
  case (sf_report s t k)
  have "card (sf_waiting s) = Suc (card (sf_waiting s - {k}))"
    using sf_report by (metis card_Suc_Diff1)
  then show ?case using sf_report by (simp add: start_ticket_def)
qed (auto simp: start_ticket_def sf_next_def split: option.splits)

lemma sf_step_runs:
  assumes t: "sf_step n t s s'" and n: "n + 1 < 2 ^ 64"
    and bound: "unat (sf_need s) \<le> sf_added s + 1" "sf_added s \<le> n"
    and pos: "d_weight (sf_pc s t) \<le> unat (sf_need s)"
    and add: "\<And>k. sf_pc s t = D_Add k \<Longrightarrow> sf_added s = k \<and> sf_need s \<noteq> 0"
  shows "sf_runs s' + d_runs (sf_pc s' t) + (if sf_need s = 0 then 1 else 0) =
    sf_runs s + d_runs (sf_pc s t) + (if sf_need s' = 0 then 1 else 0)"
  using t bound pos add
proof (induction rule: sf_step.induct)
  case (sf_add s t k)
  have "Suc (unat (sf_need s)) < 2 ^ LENGTH(64)" using sf_add(2-4) sf_add(6) [OF sf_add(1)] n by simp
  then have "unat (sf_need s + 1) = Suc (unat (sf_need s))" by (rule unat_inc)
  then have "sf_need s + 1 \<noteq> 0" by (metis nat.distinct(1) unat_0)
  then show ?case using sf_add(1) sf_add(6) [OF sf_add(1)] by simp
next
  case (sf_sub s t m)
  then show ?case by (auto simp: sf_next_def split: option.splits)
qed (auto simp: sf_next_def split: option.splits)

lemma sf_step_sets:
  "sf_step n t s s' \<Longrightarrow> (\<And>m. sf_pc s t = D_Set m \<Longrightarrow> sf_state s = Uninitialized) \<Longrightarrow>
   d_sets (sf_pc s' t) + (if sf_state s' = Ready_value then 1 else 0) + sf_runs s =
   d_sets (sf_pc s t) + (if sf_state s = Ready_value then 1 else 0) + sf_runs s'"
  by (induction rule: sf_step.induct) (auto simp: sf_next_def split: option.splits)

definition sf_inv :: "nat \<Rightarrow> 't::finite sf_fn \<Rightarrow> bool" where
  "sf_inv n s \<longleftrightarrow> need_ok s \<and> build_ok n s \<and> start_ok s \<and> args_ok n s \<and>
     unat (sf_need s) \<le> sf_added s + 1 \<and> finite (sf_waiting s) \<and> \<not> sf_blocked s \<and> \<not> sf_aborted s"

text \<open>What the counter says about a thread that is about to invoke the function, or to set its result.\<close>

lemma need_weight:
  fixes s :: "'t::finite sf_fn"
  assumes "need_ok s"
  shows "start_ticket s + card (sf_waiting s) + d_weight (sf_pc s t) \<le> unat (sf_need s)"
  using assms sum_ge_one [of "\<lambda>t. d_weight (sf_pc s t)" t] unfolding need_ok_def by linarith

lemma need_zero:
  fixes s :: "'t::finite sf_fn"
  assumes "need_ok s" "sf_need s = 0"
  shows "sf_state s \<noteq> Uninitialized_deferred" "card (sf_waiting s) = 0" "d_weight (sf_pc s t) = 0"
  using need_weight [OF assms(1), of t] assms(2) by (auto simp: start_ticket_def split: if_splits)

lemma running_zero:
  fixes s :: "'t::finite sf_fn"
  assumes "need_ok s" "0 < sf_runs s + d_runs (sf_pc s t)"
  shows "sf_need s = 0"
  using assms sum_ge_one [of "\<lambda>t. d_runs (sf_pc s t)" t] unfolding need_ok_def by (auto split: if_splits)

lemma setting_once:
  fixes s :: "'t::finite sf_fn"
  assumes i: "need_ok s" "start_ok s" "sf_pc s t = D_Set m"
  shows "sf_state s = Uninitialized" "sf_need s = 0"
proof -
  have "1 \<le> (\<Sum>t\<in>UNIV. d_sets (sf_pc s t))"
    using sum_ge_one [of "\<lambda>t. d_sets (sf_pc s t)" t] i(3) by simp
  then have r: "1 + (if sf_state s = Ready_value then 1 else 0) \<le> sf_runs s"
    using i(1) unfolding need_ok_def by linarith
  then show z: "sf_need s = 0" using running_zero [OF i(1), of t] by simp
  have "sf_runs s \<le> 1" using i(1) z unfolding need_ok_def by simp
  then have "sf_state s \<noteq> Ready_value" using r by auto
  then show "sf_state s = Uninitialized"
    using need_zero(1) [OF i(1) z] i(2) unfolding start_ok_def by blast
qed

lemma need_ok_step:
  fixes s :: "'t::finite sf_fn"
  assumes t: "sf_step n t s s'" and n: "n + 1 < 2 ^ 64" and i: "sf_inv n s"
  shows "need_ok s' \<and> unat (sf_need s') \<le> sf_added s' + 1 \<and> finite (sf_waiting s')"
proof -
  have nd: "need_ok s" and b: "build_ok n s" and st: "start_ok s" and ar: "args_ok n s"
    and bd: "unat (sf_need s) \<le> sf_added s + 1" and fw: "finite (sf_waiting s)"
    using i unfolding sf_inv_def by blast+
  have "sf_added s = k \<and> \<not> sf_built s" if "sf_pc s t = D_Add k" for k
    using b that unfolding build_ok_def by (metis d_maker.simps(1))
  then have add: "sf_added s = k \<and> sf_need s \<noteq> 0" if "sf_pc s t = D_Add k" for k
    using that st need_zero(1) [OF nd] unfolding start_ok_def by blast
  have le: "sf_added s \<le> n" using b unfolding build_ok_def by blast
  have pos: "d_weight (sf_pc s t) \<le> unat (sf_need s)" using need_weight [OF nd, of t] by simp
  have fresh: "k \<notin> sf_waiting s" if "sf_pc s t = D_Register k" for k
    using ar that unfolding args_ok_def by blast
  have set: "sf_state s = Uninitialized" if "sf_pc s t = D_Set m" for m
    using setting_once(1) [OF nd st that] .
  have ch: "sum (\<lambda>t. g (sf_pc s' t)) UNIV + g (sf_pc s t) = sum (\<lambda>t. g (sf_pc s t)) UNIV + g (sf_pc s' t)"
    for g :: "sf_pc \<Rightarrow> nat"
    by (rule sum_change_one) (simp add: sf_step_others [OF t])
  have need: "unat (sf_need s') + start_ticket s + card (sf_waiting s) + d_weight (sf_pc s t) =
      unat (sf_need s) + start_ticket s' + card (sf_waiting s') + d_weight (sf_pc s' t)"
    "unat (sf_need s') \<le> sf_added s' + 1"
    using sf_step_need [OF t n bd le pos fresh fw] set add by fastforce+
  have f: "finite (sf_waiting s')" using t fw by (induction rule: sf_step.induct) auto
  have runs: "sf_runs s' + d_runs (sf_pc s' t) + (if sf_need s = 0 then 1 else 0) =
      sf_runs s + d_runs (sf_pc s t) + (if sf_need s' = 0 then 1 else 0)"
    using add by (intro sf_step_runs [OF t n bd le pos]) blast
  have sets: "d_sets (sf_pc s' t) + (if sf_state s' = Ready_value then 1 else 0) + sf_runs s =
      d_sets (sf_pc s t) + (if sf_state s = Ready_value then 1 else 0) + sf_runs s'"
    using set by (intro sf_step_sets [OF t]) blast
  have 1: "unat (sf_need s') =
      start_ticket s' + card (sf_waiting s') + (\<Sum>t\<in>UNIV. d_weight (sf_pc s' t))"
    using nd need(1) ch [of d_weight] unfolding need_ok_def by linarith
  have 2: "sf_runs s' + (\<Sum>t\<in>UNIV. d_runs (sf_pc s' t)) = (if sf_need s' = 0 then 1 else 0)"
    using nd runs ch [of d_runs] unfolding need_ok_def by linarith
  have 3: "(\<Sum>t\<in>UNIV. d_sets (sf_pc s' t)) + (if sf_state s' = Ready_value then 1 else 0) = sf_runs s'"
    using nd sets ch [of d_sets] unfolding need_ok_def by linarith
  show ?thesis using 1 2 3 need(2) f unfolding need_ok_def by blast
qed

lemma sf_step_start: "sf_step n t s s' \<Longrightarrow>
    (\<forall>m. sf_pc s t \<noteq> D_Set m) \<or> sf_state s = Uninitialized \<Longrightarrow>
    (sf_state s' = sf_state s \<or> sf_state s' = Ready_value \<and> sf_state s = Uninitialized \<or>
       (\<exists>b. sf_pc s t = D_Start b) \<and> sf_state s' = Uninitialized) \<and>
    ((\<exists>b. sf_pc s' t = D_Start b) \<longrightarrow> sf_built s' \<or> (\<exists>b. sf_pc s t = D_Start b)) \<and>
    (sf_pc s' t = D_Base \<longrightarrow> sf_state s' \<noteq> Uninitialized_deferred \<or> sf_pc s t = D_Base \<and> sf_state s' = sf_state s)"
  by (induction rule: sf_step.induct) (auto simp: sf_next_def split: option.splits)

lemma start_ok_step:
  fixes s :: "'t::finite sf_fn"
  assumes t: "sf_step n t s s'" and nd: "need_ok s" and i: "start_ok s"
  shows "start_ok s'"
proof -
  note o = sf_step_others [OF t]
  have "sf_state s = Uninitialized" if "sf_pc s t = D_Set m" for m using setting_once(1) [OF nd i that] .
  then have "(\<forall>m. sf_pc s t \<noteq> D_Set m) \<or> sf_state s = Uninitialized" by blast
  note k = sf_step_start [OF t this]
  have bt: "sf_built s'" if "sf_built s" using sf_step_build [OF t] that by auto
  have i1: "sf_state s \<in> {Uninitialized_deferred, Uninitialized, Ready_value}"
    and i2: "\<not> sf_built s \<Longrightarrow> sf_state s = Uninitialized_deferred"
    and i3: "\<And>u b. \<not> sf_built s \<Longrightarrow> sf_pc s u \<noteq> D_Start b"
    and i4: "\<And>u. sf_pc s u = D_Base \<Longrightarrow> sf_state s \<noteq> Uninitialized_deferred"
    using i unfolding start_ok_def by blast+
  have 1: "sf_state s' \<in> {Uninitialized_deferred, Uninitialized, Ready_value}" using i1 k by auto
  have 2: "sf_state s' = Uninitialized_deferred" if "\<not> sf_built s'"
  proof -
    have "\<not> sf_built s" using bt that by blast
    then show ?thesis using i2 i3 [of t] k by auto
  qed
  have 3: "sf_pc s' u \<noteq> D_Start b" if "\<not> sf_built s'" for u b
    using that bt i3 [of u] k o [of u] by (cases "u = t") auto
  have 4: "sf_state s' \<noteq> Uninitialized_deferred" if "sf_pc s' u = D_Base" for u
  proof (cases "u = t")
    case True
    then show ?thesis using that k i4 [of t] by auto
  next
    case False
    then have "sf_state s \<noteq> Uninitialized_deferred" using that o i4 by simp
    then show ?thesis using k by auto
  qed
  show ?thesis unfolding start_ok_def using 1 2 3 4 by blast
qed

lemma sf_step_waiting: "sf_step n t s s' \<Longrightarrow>
    sf_pc s' t = sf_pc s t \<and> sf_waiting s' = sf_waiting s \<and> sf_added s' = sf_added s \<or>
    (\<exists>k. sf_pc s t = D_Add k \<and> sf_pc s' t = D_Register k \<and> sf_waiting s' = sf_waiting s \<and>
       sf_added s' = sf_added s + 1) \<or>
    (\<exists>k. sf_pc s t = D_Register k \<and> (\<forall>j. sf_pc s' t \<noteq> D_Register j) \<and> sf_added s' = sf_added s \<and>
       (sf_waiting s' = insert k (sf_waiting s) \<or> k \<in> sf_ready s \<and> sf_waiting s' = sf_waiting s)) \<or>
    (\<forall>j. sf_pc s t \<noteq> D_Register j) \<and> (\<forall>j. sf_pc s' t \<noteq> D_Register j) \<and>
      sf_added s' = sf_added s \<and>
      (sf_waiting s' = sf_waiting s \<or> (\<exists>k\<in>sf_ready s. sf_waiting s' = sf_waiting s - {k}))"
  by (induction rule: sf_step.induct) (auto simp: sf_next_def split: option.splits)

lemma sf_step_started: "sf_step n t s s' \<Longrightarrow>
    (\<exists>b. sf_pc s t = D_Start b) \<and> sf_pc s' t = D_Args 0 \<or>
    (\<exists>k. sf_pc s t = D_Args k \<and> sf_pc s' t = D_Args (k + 1) \<and> k \<in> sf_started s' \<and>
       sf_state s' = sf_state s) \<or>
    (sf_pc s' t = sf_pc s t \<or> sf_pc s t = D_Args n \<or> (\<forall>k. sf_pc s t \<noteq> D_Args k)) \<and>
      (sf_state s' = sf_state s \<or> (\<exists>m. sf_pc s t = D_Set m))"
  by (induction rule: sf_step.induct) (auto simp: sf_next_def split: option.splits)

lemma sf_step_grows: "sf_step n t s s' \<Longrightarrow> sf_ready s \<subseteq> sf_ready s' \<and> sf_started s \<subseteq> sf_started s'"
  by (induction rule: sf_step.induct) auto

lemma args_ok_step:
  fixes s :: "'t::finite sf_fn"
  assumes t: "sf_step n t s s'" and b: "build_ok n s" and st: "start_ok s" and nd: "need_ok s"
    and i: "args_ok n s"
  shows "args_ok n s'"
proof -
  note o = sf_step_others [OF t]
  have w: "k < sf_added s" "\<And>u. sf_pc s u \<noteq> D_Register k" if "k \<in> sf_waiting s" for k
    using i that unfolding args_ok_def by blast+
  have a: "k \<in> sf_waiting s \<or> k \<in> sf_ready s \<or> (\<exists>u. sf_pc s u = D_Register k)" if "k < sf_added s" for k
    using i that unfolding args_ok_def by blast
  have ad: "sf_added s = k + 1" if "sf_pc s u = D_Register k" for u k
    using b that unfolding build_ok_def by (metis d_maker.simps(2))
  have ad': "sf_added s = k" if "sf_pc s u = D_Add k" for u k
    using b that unfolding build_ok_def by (metis d_maker.simps(1))
  have one: "u = v" if "sf_pc s u = D_Register k" "sf_pc s v = D_Add j \<or> sf_pc s v = D_Register j" for u v k j
  proof -
    have "d_maker (sf_pc s u) \<noteq> None" "d_maker (sf_pc s v) \<noteq> None" using that by auto
    then show ?thesis using b unfolding build_ok_def by blast
  qed
  have sub: "sf_ready s \<subseteq> sf_ready s'" using sf_step_grows [OF t] by blast
  have a2: "k \<in> sf_waiting s \<or> k \<in> sf_ready s' \<or> (\<exists>u. sf_pc s u = D_Register k)" if "k < sf_added s" for k
    using a [OF that] sub by blast
  consider (same) "sf_pc s' t = sf_pc s t" "sf_waiting s' = sf_waiting s" "sf_added s' = sf_added s"
    | (add) k where "sf_pc s t = D_Add k" "sf_pc s' t = D_Register k" "sf_waiting s' = sf_waiting s"
        "sf_added s' = sf_added s + 1"
    | (reg) k where "sf_pc s t = D_Register k" "\<And>j. sf_pc s' t \<noteq> D_Register j"
        "sf_added s' = sf_added s"
        "sf_waiting s' = insert k (sf_waiting s) \<or> k \<in> sf_ready s \<and> sf_waiting s' = sf_waiting s"
    | (other) "\<And>j. sf_pc s t \<noteq> D_Register j" "\<And>j. sf_pc s' t \<noteq> D_Register j"
        "sf_added s' = sf_added s"
        "sf_waiting s' = sf_waiting s \<or> (\<exists>k\<in>sf_ready s. sf_waiting s' = sf_waiting s - {k})"
    using sf_step_waiting [OF t] by blast
  then have 12: "(\<forall>k\<in>sf_waiting s'. k < sf_added s' \<and> (\<forall>u. sf_pc s' u \<noteq> D_Register k)) \<and>
    (\<forall>k < sf_added s'. k \<in> sf_waiting s' \<or> k \<in> sf_ready s' \<or> (\<exists>u. sf_pc s' u = D_Register k))"
  proof cases
    case same
    have "sf_pc s' u = sf_pc s u" for u using same(1) o by (cases "u = t") auto
    then show ?thesis using w a2 unfolding same(2,3) by simp
  next
    case add
    have n: "sf_pc s u \<noteq> D_Register j" for u j
      using one [of u j t k] add(1) by auto
    have "sf_pc s' u = D_Register j \<longleftrightarrow> u = t \<and> j = k" for u j
      using add(2) o [of u] n [of u j] by (cases "u = t") auto
    then show ?thesis using w(1) a2 ad' [OF add(1)] n unfolding add(3,4) by (auto simp: less_Suc_eq)
  next
    case reg
    have n: "u = t \<and> j = k" if "sf_pc s u = D_Register j" for u j
      using one [OF that, of t k] reg(1) that by auto
    have n': "sf_pc s' u \<noteq> D_Register j" for u j
      using reg(2) o [of u] n [of u j] by (cases "u = t") auto
    have "j \<in> sf_waiting s' \<or> j \<in> sf_ready s'" if "j < sf_added s" for j
      using a [OF that] n reg(4) sub by blast
    then show ?thesis using w(1) reg(3,4) ad [OF reg(1)] n' by auto
  next
    case other
    have "sf_pc s' u = D_Register j \<longleftrightarrow> sf_pc s u = D_Register j" for u j
      using other(1,2) o [of u] by (cases "u = t") auto
    moreover have "k \<in> sf_waiting s' \<or> k \<in> sf_ready s'" if "k \<in> sf_waiting s" for k
      using that other(4) sub by blast
    moreover have "sf_waiting s' \<subseteq> sf_waiting s" using other(4) by blast
    ultimately show ?thesis using w a2 unfolding other(3) by (metis subsetD)
  qed
  have ss: "sf_started s \<subseteq> sf_started s'" using sf_step_grows [OF t] by blast
  have 3: "{..<n} \<subseteq> sf_started s' \<or> (\<exists>u k. sf_pc s' u = D_Args k \<and> {..<k} \<subseteq> sf_started s')"
    if "sf_state s' \<noteq> Uninitialized_deferred"
  proof -
    have old: "{..<n} \<subseteq> sf_started s \<or> (\<exists>u k. sf_pc s u = D_Args k \<and> {..<k} \<subseteq> sf_started s)"
      if "sf_state s \<noteq> Uninitialized_deferred"
      using i that unfolding args_ok_def by blast
    consider (first) "sf_pc s' t = D_Args 0"
      | (arg) k where "sf_pc s t = D_Args k" "sf_pc s' t = D_Args (k + 1)" "k \<in> sf_started s'"
          "sf_state s' = sf_state s"
      | (rest) "sf_pc s' t = sf_pc s t \<or> sf_pc s t = D_Args n \<or> (\<forall>k. sf_pc s t \<noteq> D_Args k)"
          "sf_state s' = sf_state s \<or> (\<exists>m. sf_pc s t = D_Set m)"
      using sf_step_started [OF t] by blast
    then show ?thesis
    proof cases
      case first
      then show ?thesis by fastforce
    next
      case arg
      have "{..<k + 1} \<subseteq> sf_started s'" if "{..<k} \<subseteq> sf_started s"
        using that ss arg(3) by (auto simp: less_Suc_eq)
      moreover have "{..<j} \<subseteq> sf_started s'" if "{..<j} \<subseteq> sf_started s" for j using that ss by blast
      moreover have "sf_pc s' u = D_Args j" if "sf_pc s u = D_Args j" "u \<noteq> t" for u j using that o by simp
      moreover have "sf_state s \<noteq> Uninitialized_deferred" using that arg(4) by simp
      ultimately show ?thesis using old arg(1,2) by (metis sf_pc.inject(4))
    next
      case rest
      have "sf_state s \<noteq> Uninitialized_deferred"
        using that rest(2) setting_once(1) [OF nd st, of t] by (metis state_t.distinct(1))
      moreover have "{..<j} \<subseteq> sf_started s'" if "{..<j} \<subseteq> sf_started s" for j using that ss by blast
      moreover have "sf_pc s' u = D_Args j \<or> j = n" if "sf_pc s u = D_Args j" for u j
        using that o [of u] rest(1) by (cases "u = t") auto
      ultimately show ?thesis using old by metis
    qed
  qed
  show ?thesis unfolding args_ok_def using 12 3 by blast
qed

lemma invoked_ready:
  fixes s :: "'t::finite sf_fn"
  assumes i: "sf_inv n s" and z: "sf_need s = 0"
  shows "{..<n} \<subseteq> sf_ready s \<inter> sf_started s"
proof -
  have nd: "need_ok s" and b: "build_ok n s" and st: "start_ok s" and ar: "args_ok n s"
    and fw: "finite (sf_waiting s)"
    using i unfolding sf_inv_def by blast+
  note nz = need_zero [OF nd z]
  have "sf_built s" using nz(1) st unfolding start_ok_def by blast
  then have "sf_added s = n" using b unfolding build_ok_def by blast
  moreover have "sf_waiting s = {}" using nz(2) fw by simp
  moreover have "sf_pc s u \<noteq> D_Register k" "sf_pc s u \<noteq> D_Args k" for u k using nz(3) [of u] by auto
  ultimately show ?thesis using ar nz(1) unfolding args_ok_def by blast
qed

lemma sf_step_bad: "sf_step n t s s' \<Longrightarrow>
    (sf_blocked s' \<longrightarrow> sf_blocked s \<or> (\<exists>m. sf_pc s t = D_Run m) \<and> \<not> {..<n} \<subseteq> sf_ready s) \<and>
    (sf_aborted s' \<longrightarrow> sf_aborted s \<or> sf_pc s t = D_Base \<and> sf_state s = Uninitialized_deferred \<or>
       (\<exists>m. sf_pc s t = D_Set m) \<and> sf_state s \<noteq> Uninitialized)"
  by (induction rule: sf_step.induct) auto

lemma sf_inv_step:
  fixes s :: "'t::finite sf_fn"
  assumes t: "sf_step n t s s'" and n: "n + 1 < 2 ^ 64" and i: "sf_inv n s"
  shows "sf_inv n s'"
proof -
  have nd: "need_ok s" and b: "build_ok n s" and st: "start_ok s" and ar: "args_ok n s"
    and bad: "\<not> sf_blocked s" "\<not> sf_aborted s"
    using i unfolding sf_inv_def by blast+
  have "{..<n} \<subseteq> sf_ready s" if "sf_pc s t = D_Run m" for m
  proof -
    have "sf_need s = 0" using running_zero [OF nd, of t] that by simp
    then show ?thesis using invoked_ready [OF i] by blast
  qed
  then have "\<not> sf_blocked s'" using sf_step_bad [OF t] bad(1) by blast
  moreover have "\<not> sf_aborted s'"
    using sf_step_bad [OF t] bad(2) st setting_once(1) [OF nd st] unfolding start_ok_def by blast
  ultimately show ?thesis
    unfolding sf_inv_def
    using need_ok_step [OF t n i] build_ok_step [OF t b] start_ok_step [OF t nd st]
      args_ok_step [OF t b st nd ar] by blast
qed

lemma sf_inv_init: "sf_inv n (sf_init (t :: 't::finite))"
proof -
  have w: "d_weight (if u = t then D_Add 0 else D_Idle) = 0" "d_runs (if u = t then D_Add 0 else D_Idle) = 0"
    "d_sets (if u = t then D_Add 0 else D_Idle) = 0" for u by simp_all
  show ?thesis
    by (auto simp: sf_inv_def sf_init_def need_ok_def build_ok_def start_ok_def args_ok_def start_ticket_def
      w split: if_splits)
qed

lemma sf_reachable_inv: "sf_reachable n (s :: 't::finite sf_fn) \<Longrightarrow> n + 1 < 2 ^ 64 \<Longrightarrow> sf_inv n s"
  by (induction rule: sf_reachable.induct) (simp_all add: sf_inv_init sf_inv_step)

section \<open>The result\<close>

text \<open>
  C11. A deferred function runs exactly once, however its making, its starts and the completion of
  its arguments interleave: it runs at most once, and only when it was started, every argument
  was started and every argument is ready, so that it never waits inside of a \<open>noexcept\<close> handler;
  no assertion fails. When all threads have returned, the function was started and its arguments
  are ready and have reported, it has run and its result is set.
\<close>

theorem deferred_runs_once:
  fixes s :: "'t::finite sf_fn"
  assumes "sf_reachable n s" and "n + 1 < 2 ^ 64"
  shows "\<not> sf_aborted s \<and> \<not> sf_blocked s \<and> sf_runs s \<le> 1 \<and>
    (sf_runs s = 1 \<longrightarrow> sf_state s \<noteq> Uninitialized_deferred \<and> {..<n} \<subseteq> sf_ready s \<inter> sf_started s) \<and>
    ((\<forall>t. sf_pc s t = D_Idle) \<and> sf_state s \<noteq> Uninitialized_deferred \<and> {..<n} \<subseteq> sf_ready s \<and>
       sf_waiting s \<inter> sf_ready s = {} \<longrightarrow> sf_runs s = 1 \<and> sf_state s = Ready_value)"
proof -
  have i: "sf_inv n s" by (rule sf_reachable_inv [OF assms])
  have nd: "need_ok s" and b: "build_ok n s" and st: "start_ok s" and ar: "args_ok n s"
    and bad: "\<not> sf_blocked s" "\<not> sf_aborted s"
    using i unfolding sf_inv_def by blast+
  have "sf_runs s + (\<Sum>t\<in>UNIV. d_runs (sf_pc s t)) = (if sf_need s = 0 then 1 else 0)"
    using nd unfolding need_ok_def by blast
  then have le: "sf_runs s \<le> 1" by (auto split: if_splits)
  have run: "sf_state s \<noteq> Uninitialized_deferred \<and> {..<n} \<subseteq> sf_ready s \<inter> sf_started s" if "sf_runs s = 1"
  proof -
    have "sf_need s = 0" using running_zero [OF nd] that by simp
    then show ?thesis using invoked_ready [OF i] need_zero(1) [OF nd] by blast
  qed
  have fin: "sf_runs s = 1 \<and> sf_state s = Ready_value"
    if idle: "\<forall>t. sf_pc s t = D_Idle" and d: "sf_state s \<noteq> Uninitialized_deferred"
      and rd: "{..<n} \<subseteq> sf_ready s" and w: "sf_waiting s \<inter> sf_ready s = {}"
  proof -
    have "k < n" if "k \<in> sf_waiting s" for k
      using ar b that unfolding args_ok_def build_ok_def by fastforce
    then have "sf_waiting s = {}" using rd w by blast
    then have "unat (sf_need s) = 0" using nd d idle unfolding need_ok_def by (simp add: start_ticket_def)
    then have z: "sf_need s = 0" by (simp add: unat_eq_0)
    have "sf_runs s + (\<Sum>t\<in>UNIV. d_runs (sf_pc s t)) = 1" using nd z unfolding need_ok_def by simp
    then have r: "sf_runs s = 1" using idle by simp
    have "(if sf_state s = Ready_value then 1 else 0 :: nat) = sf_runs s"
      using nd idle unfolding need_ok_def by simp
    then have "sf_state s = Ready_value" using r by (metis zero_neq_one)
    then show ?thesis using r by simp
  qed
  show ?thesis using bad le run fin by blast
qed

text \<open>
  C14. \<open>need_resolution_\<close> never wraps: with \<open>n\<close> futures among the arguments it stays at or below
  \<open>n + 1\<close>, no \<open>fetch_add\<close> overflows and every \<open>fetch_sub\<close> finds it positive.
\<close>

theorem need_resolution_bounds:
  fixes s :: "'t::finite sf_fn"
  assumes "sf_reachable n s" and "n + 1 < 2 ^ 64"
  shows "unat (sf_need s) \<le> n + 1 \<and>
    (\<forall>t k. sf_pc s t = D_Add k \<and> k < n \<longrightarrow> unat (sf_need s + 1) = unat (sf_need s) + 1) \<and>
    (\<forall>t m. sf_pc s t = D_Sub m \<longrightarrow> unat (sf_need s - 1) + 1 = unat (sf_need s))"
proof -
  have i: "sf_inv n s" by (rule sf_reachable_inv [OF assms])
  have b: "build_ok n s" and nd: "need_ok s" and bd: "unat (sf_need s) \<le> sf_added s + 1"
    using i unfolding sf_inv_def by blast+
  have "sf_added s \<le> n" using b unfolding build_ok_def by blast
  then have le: "unat (sf_need s) \<le> n + 1" using bd by simp
  have add: "unat (sf_need s + 1) = unat (sf_need s) + 1" if "sf_pc s t = D_Add k" "k < n" for t k
  proof -
    have "sf_added s = k" using b that(1) unfolding build_ok_def by (metis d_maker.simps(1))
    then have "Suc (unat (sf_need s)) < 2 ^ LENGTH(64)" using bd that(2) assms(2) by simp
    then show ?thesis using unat_inc [of "sf_need s"] by simp
  qed
  have sub: "unat (sf_need s - 1) + 1 = unat (sf_need s)" if "sf_pc s t = D_Sub m" for t m
  proof -
    have "0 < unat (sf_need s)" using need_weight [OF nd, of t] that by simp
    then show ?thesis using unat_dec [of "sf_need s"] by simp
  qed
  show ?thesis using le add sub by blast
qed

section \<open>A run\<close>

text \<open>
  A function of one future, made by thread \<open>True\<close> and started by thread \<open>False\<close> before the future
  is ready; thread \<open>True\<close> reports it and runs the function.
\<close>

definition fn_state ::
    "sf_pc \<Rightarrow> sf_pc \<Rightarrow> state_t \<Rightarrow> uptr \<Rightarrow> bool \<Rightarrow> nat set \<Rightarrow> nat set \<Rightarrow> nat \<Rightarrow> nat set \<Rightarrow> nat \<Rightarrow> bool sf_fn"
where
  "fn_state p q c need built w ready added started runs =
     \<lparr>sf_state = c, sf_need = need, sf_pc = (\<lambda>u. if u then p else q), sf_built = built,
      sf_waiting = w, sf_ready = ready, sf_added = added, sf_started = started, sf_runs = runs,
      sf_blocked = False, sf_aborted = False\<rparr>"

lemma fn_upd:
  "(\<lambda>u. if u then p else q)(True := r) = (\<lambda>u. if u then r else q)"
  "(\<lambda>u. if u then p else q)(False := r) = (\<lambda>u. if u then p else r)"
  "(\<lambda>u. p)(True := r) = (\<lambda>u. if u then r else p)"
  "(\<lambda>u. p)(False := r) = (\<lambda>u. if u then p else r)"
  by auto

lemmas fn_defs = fn_state_def sf_init_def sgoto_def fn_upd sf_next_def lessThan_Suc

lemma fn_reach: "sf_reachable 1 (fn_state D_Idle D_Idle Ready_value 0 True {} {0} 1 {0} 1)"
proof -
  have r: "sf_reachable 1 (fn_state (D_Add 0) D_Idle Uninitialized_deferred 1 False {} {} 0 {} 0)"
    using sr_init [of 1 True] by (simp add: fn_defs)
  have s1: "sf_step 1 True (fn_state (D_Add 0) D_Idle Uninitialized_deferred 1 False {} {} 0 {} 0)
      (fn_state (D_Register 0) D_Idle Uninitialized_deferred 2 False {} {} 1 {} 0)"
    using sf_add [of "(fn_state (D_Add 0) D_Idle Uninitialized_deferred 1 False {} {} 0 {} 0)" True 0 1] by (simp add: fn_defs)
  have s2: "sf_step 1 True (fn_state (D_Register 0) D_Idle Uninitialized_deferred 2 False {} {} 1 {} 0)
      (fn_state (D_Add 1) D_Idle Uninitialized_deferred 2 False {0} {} 1 {} 0)"
    using sf_register [of "(fn_state (D_Register 0) D_Idle Uninitialized_deferred 2 False {} {} 1 {} 0)" True 0 1] by (simp add: fn_defs)
  have s3: "sf_step 1 True (fn_state (D_Add 1) D_Idle Uninitialized_deferred 2 False {0} {} 1 {} 0)
      (fn_state D_Idle D_Idle Uninitialized_deferred 2 True {0} {} 1 {} 0)"
    using sf_done [of "(fn_state (D_Add 1) D_Idle Uninitialized_deferred 2 False {0} {} 1 {} 0)" True 1] by (simp add: fn_defs)
  have s4: "sf_step 1 False (fn_state D_Idle D_Idle Uninitialized_deferred 2 True {0} {} 1 {} 0)
      (fn_state D_Idle (D_Start False) Uninitialized_deferred 2 True {0} {} 1 {} 0)"
    using sf_call_start [of "(fn_state D_Idle D_Idle Uninitialized_deferred 2 True {0} {} 1 {} 0)" False 1 False] by (simp add: fn_defs)
  have s5: "sf_step 1 False (fn_state D_Idle (D_Start False) Uninitialized_deferred 2 True {0} {} 1 {} 0)
      (fn_state D_Idle (D_Args 0) Uninitialized 2 True {0} {} 1 {} 0)"
    using sf_start [of "(fn_state D_Idle (D_Start False) Uninitialized_deferred 2 True {0} {} 1 {} 0)" False False 1] by (simp add: fn_defs)
  have s6: "sf_step 1 False (fn_state D_Idle (D_Args 0) Uninitialized 2 True {0} {} 1 {} 0)
      (fn_state D_Idle (D_Args 1) Uninitialized 2 True {0} {} 1 {0} 0)"
    using sf_arg [of "(fn_state D_Idle (D_Args 0) Uninitialized 2 True {0} {} 1 {} 0)" False 0 1] by (simp add: fn_defs)
  have s7: "sf_step 1 False (fn_state D_Idle (D_Args 1) Uninitialized 2 True {0} {} 1 {0} 0)
      (fn_state D_Idle (D_Sub None) Uninitialized 2 True {0} {} 1 {0} 0)"
    using sf_args [of "(fn_state D_Idle (D_Args 1) Uninitialized 2 True {0} {} 1 {0} 0)" False 1] by (simp add: fn_defs)
  have s8: "sf_step 1 False (fn_state D_Idle (D_Sub None) Uninitialized 2 True {0} {} 1 {0} 0)
      (fn_state D_Idle D_Idle Uninitialized 1 True {0} {} 1 {0} 0)"
    using sf_sub [of "(fn_state D_Idle (D_Sub None) Uninitialized 2 True {0} {} 1 {0} 0)" False None 1] by (simp add: fn_defs)
  have s9: "sf_step 1 True (fn_state D_Idle D_Idle Uninitialized 1 True {0} {} 1 {0} 0)
      (fn_state D_Idle D_Idle Uninitialized 1 True {0} {0} 1 {0} 0)"
    using sf_complete [of 0 1 True "(fn_state D_Idle D_Idle Uninitialized 1 True {0} {} 1 {0} 0)"] by (simp add: fn_defs)
  have s10: "sf_step 1 True (fn_state D_Idle D_Idle Uninitialized 1 True {0} {0} 1 {0} 0)
      (fn_state (D_Sub None) D_Idle Uninitialized 1 True {} {0} 1 {0} 0)"
    using sf_report [of "(fn_state D_Idle D_Idle Uninitialized 1 True {0} {0} 1 {0} 0)" True 0 1] by (simp add: fn_defs)
  have s11: "sf_step 1 True (fn_state (D_Sub None) D_Idle Uninitialized 1 True {} {0} 1 {0} 0)
      (fn_state (D_Run None) D_Idle Uninitialized 0 True {} {0} 1 {0} 0)"
    using sf_sub [of "(fn_state (D_Sub None) D_Idle Uninitialized 1 True {} {0} 1 {0} 0)" True None 1] by (simp add: fn_defs)
  have s12: "sf_step 1 True (fn_state (D_Run None) D_Idle Uninitialized 0 True {} {0} 1 {0} 0)
      (fn_state (D_Set None) D_Idle Uninitialized 0 True {} {0} 1 {0} 1)"
    using sf_run [of "(fn_state (D_Run None) D_Idle Uninitialized 0 True {} {0} 1 {0} 0)" True None 1] by (simp add: fn_defs)
  have s13: "sf_step 1 True (fn_state (D_Set None) D_Idle Uninitialized 0 True {} {0} 1 {0} 1)
      (fn_state D_Idle D_Idle Ready_value 0 True {} {0} 1 {0} 1)"
    using sf_set [of "(fn_state (D_Set None) D_Idle Uninitialized 0 True {} {0} 1 {0} 1)" True None 1] by (simp add: fn_defs)
  show ?thesis
    by (rule r [THEN sr_next, OF s1, THEN sr_next, OF s2, THEN sr_next, OF s3, THEN sr_next, OF s4, THEN
        sr_next, OF s5, THEN sr_next, OF s6, THEN sr_next, OF s7, THEN sr_next, OF s8, THEN
        sr_next, OF s9, THEN sr_next, OF s10, THEN sr_next, OF s11, THEN sr_next, OF s12, THEN
        sr_next, OF s13])
qed

theorem deferred_runs_once_witness:
  "\<exists>s :: bool sf_fn. sf_runs s = 1 \<and> sf_state s = Ready_value \<and> \<not> sf_blocked s \<and> 0 \<in> sf_started s"
  using deferred_runs_once [OF fn_reach]
  by (intro exI [of _ "(fn_state D_Idle D_Idle Ready_value 0 True {} {0} 1 {0} 1)"]) (simp add: fn_state_def)

theorem need_resolution_bounds_witness:
  "\<exists>s :: bool sf_fn. sf_need s = 0 \<and> unat (sf_need s) \<le> 2"
  using need_resolution_bounds [OF fn_reach]
  by (intro exI [of _ "(fn_state D_Idle D_Idle Ready_value 0 True {} {0} 1 {0} 1)"]) (simp add: fn_state_def)

end
