(* ===== verification/Future_Life.thy ===== *)
theory Future_Life
  imports Future
begin

text \<open>
  The lifetime of shared states and of the results in them (\<open>include/ilias/future-inl.h\<close>,
  \<open>src/future.cc\<close>), for the three specialisations of \<open>shared_state\<close>. The result is built by a
  placement \<open>new\<close> in raw storage and destroyed by hand; a state is owned by the counted pointers
  of promises, futures and shared futures, and promises are counted once more to find out that a
  promise was broken. Handles are variables here, so that the same one may occur twice in an
  operation. Callbacks and deferred functions are those of \<open>Future\<close> and take no part.

  The result \<open>None\<close> is undefined behaviour or an abort: a state that is used after it was destroyed,
  storage that is read while nothing lives in it or built over something that lives, an object that
  is never destroyed, a lock that is not held or never given up, a failed assertion.
\<close>

section \<open>The storage\<close>

text \<open>\<open>shared_state<T>\<close>, \<open>shared_state<T&>\<close> and \<open>shared_state<void>\<close>.\<close>

datatype special = Of_value | Of_ref | Of_void

text \<open>
  What lives in \<open>storage_\<close>: an object of type \<open>T\<close> with its content, a pointer to the object of the
  user that \<open>'v\<close> names, or an exception.
\<close>

datatype ('v, 'x) storage = Raw | Object 'v | Pointer 'v | Exception "'x exn"

record ('v, 'x) lcell =
  lc_state :: state_t
  lc_lck :: bool
  lc_shared :: bool
  lc_promises :: uptr
  lc_storage :: "('v, 'x) storage"
  lc_uses :: nat  \<comment> \<open>the count of the \<open>std::shared_ptr\<close>s\<close>

definition ss_ctor :: "('v, 'x) lcell" where
  "ss_ctor = \<lparr>lc_state = Uninitialized, lc_lck = False, lc_shared = False, lc_promises = 0,
     lc_storage = Raw, lc_uses = 1\<rparr>"

definition ss_lock :: "('v, 'x) lcell \<Rightarrow> ('v, 'x) lcell option" where
  "ss_lock c = (if lc_lck c then None else Some (c\<lparr>lc_lck := True\<rparr>))"

definition ss_unlock :: "('v, 'x) lcell \<Rightarrow> ('v, 'x) lcell option" where
  "ss_unlock c = (if lc_lck c then Some (c\<lparr>lc_lck := False\<rparr>) else None)"

definition ensure_uninitialized :: "('v, 'x) lcell \<Rightarrow> unit result" where
  "ensure_uninitialized c =
     (if lc_state c \<noteq> Uninitialized then Inl (Future_error Promise_already_satisfied) else Inr ())"

definition placement_new :: "('v, 'x) storage \<Rightarrow> ('v, 'x) lcell \<Rightarrow> ('v, 'x) lcell option" where
  "placement_new s c = (case lc_storage c of Raw \<Rightarrow> Some (c\<lparr>lc_storage := s\<rparr>) | _ \<Rightarrow> None)"

definition set_ready :: "state_t \<Rightarrow> ('v, 'x) lcell \<Rightarrow> ('v, 'x) lcell option" where
  "set_ready r c = (if lc_state c = Uninitialized then ss_unlock (c\<lparr>lc_state := r\<rparr>) else None)"

text \<open>The guard gives the lock back when \<open>ensure_uninitialized\<close> throws.\<close>

definition when_uninitialized ::
    "(('v, 'x) lcell \<Rightarrow> ('v, 'x) lcell option) \<Rightarrow> ('v, 'x) lcell \<Rightarrow> (unit result \<times> ('v, 'x) lcell) option"
where
  "when_uninitialized f c = do {
     c \<leftarrow> ss_lock c;
     (case ensure_uninitialized c of
        Inl e \<Rightarrow> do { c \<leftarrow> ss_unlock c; Some (Inl e, c) }
      | Inr _ \<Rightarrow> do { c \<leftarrow> f c; Some (Inr (), c) })
   }"

definition set_value_obj :: "'v \<Rightarrow> ('v, 'x) lcell \<Rightarrow> (unit result \<times> ('v, 'x) lcell) option" where
  "set_value_obj v = when_uninitialized (\<lambda>c. do {
     c \<leftarrow> placement_new (Object v) c;
     set_ready Ready_value c
   })"

definition set_value_ref :: "'v \<Rightarrow> ('v, 'x) lcell \<Rightarrow> (unit result \<times> ('v, 'x) lcell) option" where
  "set_value_ref v = when_uninitialized (\<lambda>c. do {
     c \<leftarrow> placement_new (Pointer v) c;
     set_ready Ready_value c
   })"

definition set_value_void :: "('v, 'x) lcell \<Rightarrow> (unit result \<times> ('v, 'x) lcell) option" where
  "set_value_void = when_uninitialized (set_ready Ready_value)"

definition ss_set_exc :: "'x exn \<Rightarrow> ('v, 'x) lcell \<Rightarrow> (unit result \<times> ('v, 'x) lcell) option" where
  "ss_set_exc e = when_uninitialized (\<lambda>c. do {
     c \<leftarrow> placement_new (Exception e) c;
     set_ready Ready_exc c
   })"

definition ss_set_value ::
    "special \<Rightarrow> 'v \<Rightarrow> ('v, 'x) lcell \<Rightarrow> (unit result \<times> ('v, 'x) lcell) option" where
  "ss_set_value sp v = (case sp of
     Of_value \<Rightarrow> set_value_obj v | Of_ref \<Rightarrow> set_value_ref v | Of_void \<Rightarrow> set_value_void)"

text \<open>The answers of operations; \<open>Waits\<close> is a \<open>wait\<close> that another thread has to end.\<close>

datatype ('v, 'x) answer = Done | Is bool | Value 'v | Throws "'x exn" | Waits

definition get_obj :: "('v, 'x) lcell \<Rightarrow> ('v, 'x) answer option" where
  "get_obj c = (case lc_state c of
     Ready_value \<Rightarrow> (case lc_storage c of Object v \<Rightarrow> Some (Value v) | _ \<Rightarrow> None)
   | Ready_exc \<Rightarrow> (case lc_storage c of Exception e \<Rightarrow> Some (Throws e) | _ \<Rightarrow> None)
   | Uninitialized \<Rightarrow> Some Waits
   | _ \<Rightarrow> None)"

definition get_ref :: "('v, 'x) lcell \<Rightarrow> ('v, 'x) answer option" where
  "get_ref c = (case lc_state c of
     Ready_value \<Rightarrow> (case lc_storage c of Pointer v \<Rightarrow> Some (Value v) | _ \<Rightarrow> None)
   | Ready_exc \<Rightarrow> (case lc_storage c of Exception e \<Rightarrow> Some (Throws e) | _ \<Rightarrow> None)
   | Uninitialized \<Rightarrow> Some Waits
   | _ \<Rightarrow> None)"

definition get_void :: "('v, 'x) lcell \<Rightarrow> ('v, 'x) answer option" where
  "get_void c = (case lc_state c of
     Ready_value \<Rightarrow> Some Done
   | Ready_exc \<Rightarrow> (case lc_storage c of Exception e \<Rightarrow> Some (Throws e) | _ \<Rightarrow> None)
   | Uninitialized \<Rightarrow> Some Waits
   | _ \<Rightarrow> None)"

definition ss_get :: "special \<Rightarrow> ('v, 'x) lcell \<Rightarrow> ('v, 'x) answer option" where
  "ss_get sp c = (case sp of Of_value \<Rightarrow> get_obj c | Of_ref \<Rightarrow> get_ref c | Of_void \<Rightarrow> get_void c)"

text \<open>The destructors: what they leave in the storage.\<close>

definition destroy_exc :: "('v, 'x) lcell \<Rightarrow> ('v, 'x) storage option" where
  "destroy_exc c = (case lc_storage c of Exception _ \<Rightarrow> Some Raw | _ \<Rightarrow> None)"

definition dtor_obj :: "('v, 'x) lcell \<Rightarrow> ('v, 'x) storage option" where
  "dtor_obj c = (case lc_state c of
     Ready_value \<Rightarrow> (case lc_storage c of Object _ \<Rightarrow> Some Raw | _ \<Rightarrow> None)
   | Ready_exc \<Rightarrow> destroy_exc c
   | _ \<Rightarrow> Some (lc_storage c))"

definition dtor_ref :: "('v, 'x) lcell \<Rightarrow> ('v, 'x) storage option" where
  "dtor_ref c = (case lc_state c of
     Ready_value \<Rightarrow> Some (lc_storage c)
   | Ready_exc \<Rightarrow> destroy_exc c
   | _ \<Rightarrow> Some (lc_storage c))"

definition dtor_void :: "('v, 'x) lcell \<Rightarrow> ('v, 'x) storage option" where
  "dtor_void c = (case lc_state c of
     Ready_value \<Rightarrow> Some (lc_storage c)
   | Ready_exc \<Rightarrow> destroy_exc c
   | _ \<Rightarrow> Some (lc_storage c))"

text \<open>The memory goes; nothing that has a destructor may be left in it.\<close>

definition ss_dtor :: "special \<Rightarrow> ('v, 'x) lcell \<Rightarrow> unit option" where
  "ss_dtor sp c = do {
     s \<leftarrow> (case sp of Of_value \<Rightarrow> dtor_obj c | Of_ref \<Rightarrow> dtor_ref c | Of_void \<Rightarrow> dtor_void c);
     (case s of Raw \<Rightarrow> Some () | Pointer _ \<Rightarrow> Some () | _ \<Rightarrow> None)
   }"

section \<open>Handles\<close>

record ('p, 'f, 's, 'v, 'x) lworld =
  lw_cells :: "addr \<Rightarrow> ('v, 'x) lcell option"
  lw_next :: addr
  lw_prom :: "'p \<Rightarrow> ptr"
  lw_fut :: "'f \<Rightarrow> ptr"
  lw_sh :: "'s \<Rightarrow> ptr"

definition lw_init :: "('p, 'f, 's, 'v, 'x) lworld" where
  "lw_init = \<lparr>lw_cells = (\<lambda>_. None), lw_next = 0, lw_prom = (\<lambda>_. None), lw_fut = (\<lambda>_. None),
     lw_sh = (\<lambda>_. None)\<rparr>"

definition lput :: "addr \<Rightarrow> ('v, 'x) lcell option \<Rightarrow> ('p, 'f, 's, 'v, 'x) lworld \<Rightarrow> ('p, 'f, 's, 'v, 'x) lworld"
where "lput a c w = w\<lparr>lw_cells := (lw_cells w)(a := c)\<rparr>"

text \<open>The counted pointer \<open>std::shared_ptr\<close>.\<close>

definition sp_acquire :: "ptr \<Rightarrow> ('p, 'f, 's, 'v, 'x) lworld \<Rightarrow> ('p, 'f, 's, 'v, 'x) lworld option" where
  "sp_acquire p w = (case p of
     None \<Rightarrow> Some w
   | Some a \<Rightarrow> do { c \<leftarrow> lw_cells w a; Some (lput a (Some (c\<lparr>lc_uses := lc_uses c + 1\<rparr>)) w) })"

definition sp_release ::
    "special \<Rightarrow> ptr \<Rightarrow> ('p, 'f, 's, 'v, 'x) lworld \<Rightarrow> ('p, 'f, 's, 'v, 'x) lworld option" where
  "sp_release sp p w = (case p of
     None \<Rightarrow> Some w
   | Some a \<Rightarrow> do {
       c \<leftarrow> lw_cells w a;
       if lc_uses c = 1 then do { _ \<leftarrow> ss_dtor sp c; Some (lput a None w) }
       else Some (lput a (Some (c\<lparr>lc_uses := lc_uses c - 1\<rparr>)) w)
     })"

subsection \<open>Promises\<close>

definition add_promise_ref :: "('v, 'x) lcell \<Rightarrow> ('v, 'x) lcell" where
  "add_promise_ref c = c\<lparr>lc_promises := lc_promises c + 1\<rparr>"

text \<open>\<open>remove_promise_reference_\<close> is \<open>noexcept\<close>.\<close>

definition remove_promise_ref :: "('v, 'x) lcell \<Rightarrow> ('v, 'x) lcell option" where
  "remove_promise_ref c =
     (let d = c\<lparr>lc_promises := lc_promises c - 1\<rparr>
      in if lc_promises c = 1 \<and> lc_state d = Uninitialized
         then do {
           (r, d) \<leftarrow> ss_set_exc (Lib (Future_error Broken_promise)) d;
           (case r of Inl _ \<Rightarrow> None | Inr _ \<Rightarrow> Some d)
         }
         else Some d)"

text \<open>\<open>~promise_refptr\<close>, with the counted pointer in it.\<close>

definition pr_dtor ::
    "special \<Rightarrow> ptr \<Rightarrow> ('p, 'f, 's, 'v, 'x) lworld \<Rightarrow> ('p, 'f, 's, 'v, 'x) lworld option" where
  "pr_dtor sp p w = (case p of
     None \<Rightarrow> Some w
   | Some a \<Rightarrow> do {
       c \<leftarrow> lw_cells w a;
       c \<leftarrow> remove_promise_ref c;
       sp_release sp p (lput a (Some c) w)
     })"

text \<open>
  Assignment from a temporary pointer: the parameter of \<open>operator=\<close> is swapped with the variable
  and destroyed.
\<close>

definition pr_assign ::
    "special \<Rightarrow> 'p \<Rightarrow> ptr \<Rightarrow> ('p, 'f, 's, 'v, 'x) lworld \<Rightarrow> ('p, 'f, 's, 'v, 'x) lworld option" where
  "pr_assign sp i q w = pr_dtor sp (lw_prom w i) (w\<lparr>lw_prom := (lw_prom w)(i := q)\<rparr>)"

definition life_prom_new ::
    "special \<Rightarrow> 'p \<Rightarrow> ('p, 'f, 's, 'v, 'x) lworld \<Rightarrow> ('p, 'f, 's, 'v, 'x) lworld option" where
  "life_prom_new sp i w =
     (let a = lw_next w
      in pr_assign sp i (Some a) (lput a (Some (add_promise_ref ss_ctor)) (w\<lparr>lw_next := a + 1\<rparr>)))"

definition life_prom_move ::
    "special \<Rightarrow> 'p \<Rightarrow> 'p \<Rightarrow> ('p, 'f, 's, 'v, 'x) lworld \<Rightarrow> ('p, 'f, 's, 'v, 'x) lworld option" where
  "life_prom_move sp i j w = pr_assign sp i (lw_prom w j) (w\<lparr>lw_prom := (lw_prom w)(j := None)\<rparr>)"

text \<open>
  A copy of a \<open>promise_refptr\<close>, as \<open>cb_promise_exceptor\<close> makes one, that becomes the value of a variable.
\<close>

definition life_prom_copy ::
    "special \<Rightarrow> 'p \<Rightarrow> 'p \<Rightarrow> ('p, 'f, 's, 'v, 'x) lworld \<Rightarrow> ('p, 'f, 's, 'v, 'x) lworld option" where
  "life_prom_copy sp i j w = do {
     let tmp = lw_prom w j;
     w \<leftarrow> sp_acquire tmp w;
     w \<leftarrow> (case tmp of
            None \<Rightarrow> Some w
          | Some a \<Rightarrow> do { c \<leftarrow> lw_cells w a; Some (lput a (Some (add_promise_ref c)) w) });
     pr_assign sp i tmp w
   }"

text \<open>\<open>std::swap\<close> of two \<open>promise_refptr\<close>: a move into a temporary and two assignments.\<close>

definition life_prom_swap ::
    "special \<Rightarrow> 'p \<Rightarrow> 'p \<Rightarrow> ('p, 'f, 's, 'v, 'x) lworld \<Rightarrow> ('p, 'f, 's, 'v, 'x) lworld option" where
  "life_prom_swap sp i j w = do {
     let tmp = lw_prom w i;
     w \<leftarrow> life_prom_move sp i j (w\<lparr>lw_prom := (lw_prom w)(i := None)\<rparr>);
     pr_assign sp j tmp w
   }"

definition life_prom_drop ::
    "special \<Rightarrow> 'p \<Rightarrow> ('p, 'f, 's, 'v, 'x) lworld \<Rightarrow> ('p, 'f, 's, 'v, 'x) lworld option" where
  "life_prom_drop sp i w = pr_dtor sp (lw_prom w i) (w\<lparr>lw_prom := (lw_prom w)(i := None)\<rparr>)"

subsection \<open>Futures\<close>

text \<open>A counted pointer of a future is given a new value; the old one is released.\<close>

definition fut_take ::
    "special \<Rightarrow> 'f \<Rightarrow> ptr \<Rightarrow> ('p, 'f, 's, 'v, 'x) lworld \<Rightarrow> ('p, 'f, 's, 'v, 'x) lworld option" where
  "fut_take sp k q w = sp_release sp (lw_fut w k) (w\<lparr>lw_fut := (lw_fut w)(k := q)\<rparr>)"

definition sh_take ::
    "special \<Rightarrow> 's \<Rightarrow> ptr \<Rightarrow> ('p, 'f, 's, 'v, 'x) lworld \<Rightarrow> ('p, 'f, 's, 'v, 'x) lworld option" where
  "sh_take sp l q w = sp_release sp (lw_sh w l) (w\<lparr>lw_sh := (lw_sh w)(l := q)\<rparr>)"

definition life_get_future ::
    "special \<Rightarrow> 'p \<Rightarrow> 'f \<Rightarrow> ('p, 'f, 's, 'v, 'x) lworld \<Rightarrow>
     (('v, 'x) answer \<times> ('p, 'f, 's, 'v, 'x) lworld) option" where
  "life_get_future sp i k w = (case lw_prom w i of
     None \<Rightarrow> Some (Throws (Lib (Future_error No_state)), w)
   | Some a \<Rightarrow> do {
       c \<leftarrow> lw_cells w a;
       if lc_shared c then Some (Throws (Lib (Future_error Future_already_retrieved)), w)
       else do {
         w \<leftarrow> sp_acquire (Some a) (lput a (Some (c\<lparr>lc_shared := True\<rparr>)) w);
         w \<leftarrow> fut_take sp k (Some a) w;
         Some (Done, w)
       }
     })"

definition life_prom_result ::
    "(('v, 'x) lcell \<Rightarrow> (unit result \<times> ('v, 'x) lcell) option) \<Rightarrow> 'p \<Rightarrow>
     ('p, 'f, 's, 'v, 'x) lworld \<Rightarrow> (('v, 'x) answer \<times> ('p, 'f, 's, 'v, 'x) lworld) option" where
  "life_prom_result f i w = (case lw_prom w i of
     None \<Rightarrow> Some (Throws (Lib (Future_error No_state)), w)
   | Some a \<Rightarrow> do {
       c \<leftarrow> lw_cells w a;
       (r, c) \<leftarrow> f c;
       Some (case r of Inl e \<Rightarrow> Throws (Lib e) | Inr _ \<Rightarrow> Done, lput a (Some c) w)
     })"

definition life_fut_move ::
    "special \<Rightarrow> 'f \<Rightarrow> 'f \<Rightarrow> ('p, 'f, 's, 'v, 'x) lworld \<Rightarrow> ('p, 'f, 's, 'v, 'x) lworld option" where
  "life_fut_move sp k l w = fut_take sp k (lw_fut w l) (w\<lparr>lw_fut := (lw_fut w)(l := None)\<rparr>)"

definition life_fut_swap ::
    "'f \<Rightarrow> 'f \<Rightarrow> ('p, 'f, 's, 'v, 'x) lworld \<Rightarrow> ('p, 'f, 's, 'v, 'x) lworld" where
  "life_fut_swap k l w = w\<lparr>lw_fut := swap_at k l (lw_fut w)\<rparr>"

definition life_share ::
    "special \<Rightarrow> 'f \<Rightarrow> 's \<Rightarrow> ('p, 'f, 's, 'v, 'x) lworld \<Rightarrow> ('p, 'f, 's, 'v, 'x) lworld option" where
  "life_share sp k l w = sh_take sp l (lw_fut w k) (w\<lparr>lw_fut := (lw_fut w)(k := None)\<rparr>)"

text \<open>
  \<open>get\<close> of a future moves the object out of the storage (\<open>moved\<close> is what is left of it), or returns
  what the pointer points to, or nothing; then it gives the state up. When it throws it keeps it.
\<close>

definition move_out :: "special \<Rightarrow> ('v \<Rightarrow> 'v) \<Rightarrow> ('v, 'x) lcell \<Rightarrow> ('v, 'x) lcell" where
  "move_out sp moved c = (case lc_storage c of
     Object v \<Rightarrow> if sp = Of_value then c\<lparr>lc_storage := Object (moved v)\<rparr> else c | _ \<Rightarrow> c)"

definition life_fut_get ::
    "special \<Rightarrow> ('v \<Rightarrow> 'v) \<Rightarrow> 'f \<Rightarrow> ('p, 'f, 's, 'v, 'x) lworld \<Rightarrow>
     (('v, 'x) answer \<times> ('p, 'f, 's, 'v, 'x) lworld) option" where
  "life_fut_get sp moved k w = (case lw_fut w k of
     None \<Rightarrow> Some (Throws (Lib (Future_error No_state)), w)
   | Some a \<Rightarrow> do {
       c \<leftarrow> lw_cells w a;
       r \<leftarrow> ss_get sp c;
       (case r of
          Throws e \<Rightarrow> Some (r, w)
        | Waits \<Rightarrow> Some (r, w)
        | _ \<Rightarrow> do { w \<leftarrow> fut_take sp k None (lput a (Some (move_out sp moved c)) w); Some (r, w) })
     })"

definition life_sh_copy ::
    "special \<Rightarrow> 's \<Rightarrow> 's \<Rightarrow> ('p, 'f, 's, 'v, 'x) lworld \<Rightarrow> ('p, 'f, 's, 'v, 'x) lworld option" where
  "life_sh_copy sp k l w = do { w' \<leftarrow> sp_acquire (lw_sh w l) w; sh_take sp k (lw_sh w l) w' }"

definition life_sh_move ::
    "special \<Rightarrow> 's \<Rightarrow> 's \<Rightarrow> ('p, 'f, 's, 'v, 'x) lworld \<Rightarrow> ('p, 'f, 's, 'v, 'x) lworld option" where
  "life_sh_move sp k l w = sh_take sp k (lw_sh w l) (w\<lparr>lw_sh := (lw_sh w)(l := None)\<rparr>)"

definition life_sh_swap ::
    "'s \<Rightarrow> 's \<Rightarrow> ('p, 'f, 's, 'v, 'x) lworld \<Rightarrow> ('p, 'f, 's, 'v, 'x) lworld" where
  "life_sh_swap k l w = w\<lparr>lw_sh := swap_at k l (lw_sh w)\<rparr>"

definition life_sh_get ::
    "special \<Rightarrow> 's \<Rightarrow> ('p, 'f, 's, 'v, 'x) lworld \<Rightarrow> ('v, 'x) answer option" where
  "life_sh_get sp k w = (case lw_sh w k of
     None \<Rightarrow> Some (Throws (Lib (Future_error No_state)))
   | Some a \<Rightarrow> do { c \<leftarrow> lw_cells w a; ss_get sp c })"

section \<open>Programs\<close>

datatype ('p, 'f, 's, 'v, 'x) life_cmd =
  P_new 'p | P_copy 'p 'p | P_move 'p 'p | P_swap 'p 'p | P_drop 'p | P_get_future 'p 'f | P_set 'p 'v | P_set_exc 'p "'x exn"
| F_move 'f 'f | F_swap 'f 'f | F_drop 'f | F_valid 'f | F_share 'f 's | F_get 'f
| S_copy 's 's | S_move 's 's | S_swap 's 's | S_drop 's | S_valid 's | S_get 's

abbreviation done_with :: "'w option \<Rightarrow> (('v, 'x) answer \<times> 'w) option" where
  "done_with m \<equiv> map_option (Pair Done) m"

fun life_exec ::
    "special \<Rightarrow> ('v \<Rightarrow> 'v) \<Rightarrow> ('p, 'f, 's, 'v, 'x) life_cmd \<Rightarrow> ('p, 'f, 's, 'v, 'x) lworld \<Rightarrow>
     (('v, 'x) answer \<times> ('p, 'f, 's, 'v, 'x) lworld) option" where
  "life_exec sp moved (P_new i) w = done_with (life_prom_new sp i w)"
| "life_exec sp moved (P_copy i j) w = done_with (life_prom_copy sp i j w)"
| "life_exec sp moved (P_move i j) w = done_with (life_prom_move sp i j w)"
| "life_exec sp moved (P_swap i j) w = done_with (life_prom_swap sp i j w)"
| "life_exec sp moved (P_drop i) w = done_with (life_prom_drop sp i w)"
| "life_exec sp moved (P_get_future i k) w = life_get_future sp i k w"
| "life_exec sp moved (P_set i v) w = life_prom_result (ss_set_value sp v) i w"
| "life_exec sp moved (P_set_exc i e) w = life_prom_result (ss_set_exc e) i w"
| "life_exec sp moved (F_move k l) w = done_with (life_fut_move sp k l w)"
| "life_exec sp moved (F_swap k l) w = Some (Done, life_fut_swap k l w)"
| "life_exec sp moved (F_drop k) w = done_with (fut_take sp k None w)"
| "life_exec sp moved (F_valid k) w = Some (Is (lw_fut w k \<noteq> None), w)"
| "life_exec sp moved (F_share k l) w = done_with (life_share sp k l w)"
| "life_exec sp moved (F_get k) w = life_fut_get sp moved k w"
| "life_exec sp moved (S_copy k l) w = done_with (life_sh_copy sp k l w)"
| "life_exec sp moved (S_move k l) w = done_with (life_sh_move sp k l w)"
| "life_exec sp moved (S_swap k l) w = Some (Done, life_sh_swap k l w)"
| "life_exec sp moved (S_drop k) w = done_with (sh_take sp k None w)"
| "life_exec sp moved (S_valid k) w = Some (Is (lw_sh w k \<noteq> None), w)"
| "life_exec sp moved (S_get k) w = map_option (\<lambda>r. (r, w)) (life_sh_get sp k w)"

fun life_run ::
    "special \<Rightarrow> ('v \<Rightarrow> 'v) \<Rightarrow> ('p, 'f, 's, 'v, 'x) life_cmd list \<Rightarrow> ('p, 'f, 's, 'v, 'x) lworld \<Rightarrow>
     (('v, 'x) answer list \<times> ('p, 'f, 's, 'v, 'x) lworld) option" where
  "life_run sp moved [] w = Some ([], w)"
| "life_run sp moved (c # cs) w = do {
     (r, w) \<leftarrow> life_exec sp moved c w;
     (rs, w) \<leftarrow> life_run sp moved cs w;
     Some (r # rs, w)
   }"

section \<open>What a program means\<close>

text \<open>
  States that live for ever and remember their result; nothing is counted, locked or destroyed. A
  state whose last promise goes gets the error \<open>Broken_promise\<close> for a result if it has none.
\<close>

record ('p, 'f, 's, 'v, 'x) gworld =
  g_prom :: "'p \<Rightarrow> ptr"
  g_fut :: "'f \<Rightarrow> ptr"
  g_sh :: "'s \<Rightarrow> ptr"
  g_result :: "addr \<Rightarrow> ('x exn + 'v) option"
  g_claimed :: "addr \<Rightarrow> bool"
  g_next :: addr

definition g_init :: "('p, 'f, 's, 'v, 'x) gworld" where
  "g_init = \<lparr>g_prom = (\<lambda>_. None), g_fut = (\<lambda>_. None), g_sh = (\<lambda>_. None), g_result = (\<lambda>_. None),
     g_claimed = (\<lambda>_. False), g_next = 0\<rparr>"

definition g_abandon :: "ptr \<Rightarrow> ('p, 'f, 's, 'v, 'x) gworld \<Rightarrow> ('p, 'f, 's, 'v, 'x) gworld" where
  "g_abandon p g = (case p of
     None \<Rightarrow> g
   | Some a \<Rightarrow>
       if g_result g a = None \<and> (\<forall>i. g_prom g i \<noteq> Some a)
       then g\<lparr>g_result := (g_result g)(a \<mapsto> Inl (Lib (Future_error Broken_promise)))\<rparr> else g)"

definition g_answer :: "special \<Rightarrow> ('x exn + 'v) option \<Rightarrow> ('v, 'x) answer" where
  "g_answer sp r = (case r of
     None \<Rightarrow> Waits
   | Some (Inl e) \<Rightarrow> Throws e
   | Some (Inr v) \<Rightarrow> (if sp = Of_void then Done else Value v))"

definition g_put ::
    "'x exn + 'v \<Rightarrow> 'p \<Rightarrow> ('p, 'f, 's, 'v, 'x) gworld \<Rightarrow> ('v, 'x) answer \<times> ('p, 'f, 's, 'v, 'x) gworld" where
  "g_put x i g = (case g_prom g i of
     None \<Rightarrow> (Throws (Lib (Future_error No_state)), g)
   | Some a \<Rightarrow>
       if g_result g a = None then (Done, g\<lparr>g_result := (g_result g)(a \<mapsto> x)\<rparr>)
       else (Throws (Lib (Future_error Promise_already_satisfied)), g))"

fun g_exec ::
    "special \<Rightarrow> ('p, 'f, 's, 'v, 'x) life_cmd \<Rightarrow> ('p, 'f, 's, 'v, 'x) gworld \<Rightarrow>
     ('v, 'x) answer \<times> ('p, 'f, 's, 'v, 'x) gworld" where
  "g_exec sp (P_new i) g =
     (Done, g_abandon (g_prom g i) (g\<lparr>g_next := g_next g + 1, g_prom := (g_prom g)(i \<mapsto> g_next g)\<rparr>))"
| "g_exec sp (P_copy i j) g = (Done, g_abandon (g_prom g i) (g\<lparr>g_prom := (g_prom g)(i := g_prom g j)\<rparr>))"
| "g_exec sp (P_move i j) g =
     (Done, g_abandon (if i = j then None else g_prom g i)
        (g\<lparr>g_prom := (g_prom g)(j := None, i := g_prom g j)\<rparr>))"
| "g_exec sp (P_swap i j) g = (Done, g\<lparr>g_prom := swap_at i j (g_prom g)\<rparr>)"
| "g_exec sp (P_drop i) g = (Done, g_abandon (g_prom g i) (g\<lparr>g_prom := (g_prom g)(i := None)\<rparr>))"
| "g_exec sp (P_get_future i k) g =
     (case g_prom g i of
        None \<Rightarrow> (Throws (Lib (Future_error No_state)), g)
      | Some a \<Rightarrow>
          if g_claimed g a then (Throws (Lib (Future_error Future_already_retrieved)), g)
          else (Done, g\<lparr>g_claimed := (g_claimed g)(a := True), g_fut := (g_fut g)(k \<mapsto> a)\<rparr>))"
| "g_exec sp (P_set i v) g = g_put (Inr v) i g"
| "g_exec sp (P_set_exc i e) g = g_put (Inl e) i g"
| "g_exec sp (F_move k l) g = (Done, g\<lparr>g_fut := (g_fut g)(l := None, k := g_fut g l)\<rparr>)"
| "g_exec sp (F_swap k l) g = (Done, g\<lparr>g_fut := swap_at k l (g_fut g)\<rparr>)"
| "g_exec sp (F_drop k) g = (Done, g\<lparr>g_fut := (g_fut g)(k := None)\<rparr>)"
| "g_exec sp (F_valid k) g = (Is (g_fut g k \<noteq> None), g)"
| "g_exec sp (F_share k l) g =
     (Done, g\<lparr>g_fut := (g_fut g)(k := None), g_sh := (g_sh g)(l := g_fut g k)\<rparr>)"
| "g_exec sp (F_get k) g =
     (case g_fut g k of
        None \<Rightarrow> (Throws (Lib (Future_error No_state)), g)
      | Some a \<Rightarrow>
          (g_answer sp (g_result g a),
           case g_result g a of Some (Inr _) \<Rightarrow> g\<lparr>g_fut := (g_fut g)(k := None)\<rparr> | _ \<Rightarrow> g))"
| "g_exec sp (S_copy k l) g = (Done, g\<lparr>g_sh := (g_sh g)(k := g_sh g l)\<rparr>)"
| "g_exec sp (S_move k l) g = (Done, g\<lparr>g_sh := (g_sh g)(l := None, k := g_sh g l)\<rparr>)"
| "g_exec sp (S_swap k l) g = (Done, g\<lparr>g_sh := swap_at k l (g_sh g)\<rparr>)"
| "g_exec sp (S_drop k) g = (Done, g\<lparr>g_sh := (g_sh g)(k := None)\<rparr>)"
| "g_exec sp (S_valid k) g = (Is (g_sh g k \<noteq> None), g)"
| "g_exec sp (S_get k) g =
     ((case g_sh g k of
         None \<Rightarrow> Throws (Lib (Future_error No_state)) | Some a \<Rightarrow> g_answer sp (g_result g a)), g)"

fun g_run ::
    "special \<Rightarrow> ('p, 'f, 's, 'v, 'x) life_cmd list \<Rightarrow> ('p, 'f, 's, 'v, 'x) gworld \<Rightarrow>
     ('v, 'x) answer list \<times> ('p, 'f, 's, 'v, 'x) gworld" where
  "g_run sp [] g = ([], g)"
| "g_run sp (c # cs) g =
     (case g_exec sp c g of (r, g) \<Rightarrow> case g_run sp cs g of (rs, g) \<Rightarrow> (r # rs, g))"

end
