(* ===== verification/Future_Life_Inv.thy ===== *)
theory Future_Life_Inv
  imports Future_Life
begin

text \<open>
  Counted and hand-built shared states do what states that live for ever would do: the relation
  between the two worlds, with at most one counted pointer in flight, and the simulation of every
  operation.
\<close>

section \<open>The relation\<close>

text \<open>An operation succeeds, with a result that satisfies a predicate.\<close>

definition yields :: "'a option \<Rightarrow> ('a \<Rightarrow> bool) \<Rightarrow> bool" where
  "yields m P \<longleftrightarrow> (case m of None \<Rightarrow> False | Some x \<Rightarrow> P x)"

lemma yields_simps [simp]: "yields None P = False" "yields (Some x) P = P x"
  by (simp_all add: yields_def)

definition of_ptr :: "ptr \<Rightarrow> addr \<Rightarrow> nat" where "of_ptr p a = (if p = Some a then 1 else 0)"

lemma of_ptr_simps [simp]:
  "of_ptr None a = 0" "of_ptr (Some a) a = 1" "a \<noteq> b \<Longrightarrow> of_ptr (Some a) b = 0"
  by (simp_all add: of_ptr_def)

lemma refs_set: "refs (m(v := x)) a + of_ptr (m v) a = refs m a + of_ptr x a"
  using refs_ge_1 [of m v a] by (auto simp: refs_upd of_ptr_def)

definition result_ok ::
    "special \<Rightarrow> bool \<Rightarrow> nat \<Rightarrow> ('x exn + 'v) option \<Rightarrow> ('v, 'x) lcell \<Rightarrow> bool" where
  "result_ok sp fresh np r c \<longleftrightarrow> (case r of
     None \<Rightarrow> lc_state c = Uninitialized \<and> lc_storage c = Raw \<and> 0 < np
   | Some (Inl e) \<Rightarrow> lc_state c = Ready_exc \<and> lc_storage c = Exception e
   | Some (Inr v) \<Rightarrow> lc_state c = Ready_value \<and>
       (case sp of
          Of_value \<Rightarrow> (\<exists>u. lc_storage c = Object u \<and> (fresh \<longrightarrow> u = v))
        | Of_ref \<Rightarrow> lc_storage c = Pointer v
        | Of_void \<Rightarrow> lc_storage c = Raw))"

text \<open>
  A state and its promises, futures, shared futures and the counted pointer that is about to be
  released, if it is one to this state.
\<close>

definition cell_ok ::
    "special \<Rightarrow> nat \<Rightarrow> nat \<Rightarrow> nat \<Rightarrow> nat \<Rightarrow> bool \<Rightarrow> ('x exn + 'v) option \<Rightarrow> ('v, 'x) lcell option \<Rightarrow> bool" where
  "cell_ok sp np nf ns d cl r co \<longleftrightarrow> (case co of
     None \<Rightarrow> np = 0 \<and> nf = 0 \<and> ns = 0 \<and> d = 0
   | Some c \<Rightarrow> \<not> lc_lck c \<and> lc_uses c = np + nf + ns + d \<and> 0 < lc_uses c \<and> unat (lc_promises c) = np \<and>
       lc_shared c = cl \<and> (\<not> cl \<longrightarrow> nf = 0 \<and> ns = 0) \<and> (nf = 0 \<or> nf = 1 \<and> ns = 0) \<and>
       result_ok sp (\<not> cl \<or> 0 < nf + ns) np r c)"

definition life_ok ::
    "special \<Rightarrow> ptr \<Rightarrow> ptr \<Rightarrow> ('p::finite, 'f::finite, 's::finite, 'v, 'x) lworld \<Rightarrow>
     ('p, 'f, 's, 'v, 'x) gworld \<Rightarrow> bool" where
  "life_ok sp p d w g \<longleftrightarrow>
     lw_prom w = g_prom g \<and> lw_fut w = g_fut g \<and> lw_sh w = g_sh g \<and> lw_next w = g_next g \<and>
     (\<forall>a. cell_ok sp (refs (g_prom g) a + of_ptr p a) (refs (g_fut g) a) (refs (g_sh g) a) (of_ptr d a)
            (g_claimed g a) (g_result g a) (lw_cells w a)) \<and>
     (\<forall>a. g_next g \<le> a \<longrightarrow> lw_cells w a = None \<and> g_result g a = None \<and> \<not> g_claimed g a)"

lemma life_okD:
  "life_ok sp p d w g \<Longrightarrow>
    cell_ok sp (refs (g_prom g) a + of_ptr p a) (refs (g_fut g) a) (refs (g_sh g) a) (of_ptr d a)
      (g_claimed g a) (g_result g a) (lw_cells w a)"
  by (simp add: life_ok_def)

lemma lput_sel [simp]:
  "lw_cells (lput a c w) = (lw_cells w)(a := c)" "lw_prom (lput a c w) = lw_prom w"
  "lw_fut (lput a c w) = lw_fut w" "lw_sh (lput a c w) = lw_sh w" "lw_next (lput a c w) = lw_next w"
  by (simp_all add: lput_def)

lemma lput_id [simp]: "lw_cells w a = c \<Longrightarrow> lput a c w = w"
  by (cases w) (auto simp: lput_def)

lemma lput_lput [simp]: "lput a c (lput a d w) = lput a c w"
  by (simp add: lput_def)

text \<open>A change of the state at one address.\<close>

lemma life_ok_put:
  assumes "life_ok sp p d w g" and "a < g_next g" and "g_prom g' = g_prom g" "g_fut g' = g_fut g"
    "g_sh g' = g_sh g" "g_next g' = g_next g"
    and "\<And>b. b \<noteq> a \<Longrightarrow> of_ptr p' b = of_ptr p b \<and> of_ptr d' b = of_ptr d b \<and>
           g_claimed g' b = g_claimed g b \<and> g_result g' b = g_result g b"
    and "cell_ok sp (refs (g_prom g) a + of_ptr p' a) (refs (g_fut g) a) (refs (g_sh g) a) (of_ptr d' a)
           (g_claimed g' a) (g_result g' a) co"
  shows "life_ok sp p' d' (lput a co w) g'"
  using assms unfolding life_ok_def by auto

text \<open>References that change hands.\<close>

lemma cell_ok_shift:
  "cell_ok sp np nf ns d cl r co \<Longrightarrow> np' = np \<Longrightarrow> nf' + ns' + d' = nf + ns + d \<Longrightarrow>
    nf' + ns' \<le> nf + ns \<Longrightarrow> nf' = 0 \<or> nf' = 1 \<and> ns' = 0 \<Longrightarrow> cell_ok sp np' nf' ns' d' cl r co"
  unfolding cell_ok_def result_ok_def
  by (auto split: option.splits sum.splits special.splits)

lemma cell_ok_futs: "cell_ok sp np nf ns d cl r co \<Longrightarrow> nf = 0 \<or> nf = 1 \<and> ns = 0"
  unfolding cell_ok_def by (auto split: option.splits)

section \<open>Releasing\<close>

text \<open>The last pointer destroys what lives in the storage, once.\<close>

lemma ss_dtor_ok:
  "cell_ok sp 0 0 0 d cl r (Some c) \<Longrightarrow> ss_dtor sp c = Some ()"
  unfolding cell_ok_def result_ok_def ss_dtor_def dtor_obj_def dtor_ref_def dtor_void_def destroy_exc_def
  by (auto split: option.splits sum.splits special.splits)

lemma sp_release_ok:
  assumes "life_ok sp None p w g"
  shows "yields (sp_release sp p w) (\<lambda>w'. life_ok sp None None w' g)"
proof (cases p)
  case None
  then show ?thesis using assms by (simp add: sp_release_def)
next
  case (Some a)
  note c = life_okD [OF assms, of a, unfolded Some, simplified]
  then obtain c where c': "lw_cells w a = Some c" by (cases "lw_cells w a") (auto simp: cell_ok_def)
  have a: "a < g_next g" using assms c' unfolding life_ok_def by (metis linorder_not_le option.distinct(1))
  show ?thesis
  proof (cases "lc_uses c = 1")
    case True
    then have z: "refs (g_prom g) a = 0" "refs (g_fut g) a = 0" "refs (g_sh g) a = 0"
      using c c' by (auto simp: cell_ok_def)
    then have "ss_dtor sp c = Some ()" using c c' ss_dtor_ok by simp
    moreover have "life_ok sp None None (lput a None w) g"
      by (rule life_ok_put [OF assms a]) (use z Some in \<open>auto simp: cell_ok_def\<close>)
    ultimately show ?thesis using c' Some True by (simp add: sp_release_def)
  next
    case False
    have "life_ok sp None None (lput a (Some (c\<lparr>lc_uses := lc_uses c - 1\<rparr>)) w) g"
      by (rule life_ok_put [OF assms a])
         (use c c' Some False in \<open>auto simp: cell_ok_def result_ok_def split: option.splits sum.splits special.splits\<close>)
    then show ?thesis using c' Some False by (simp add: sp_release_def)
  qed
qed

lemma ss_set_exc_fresh:
  "\<not> lc_lck c \<Longrightarrow> lc_state c = Uninitialized \<Longrightarrow> lc_storage c = Raw \<Longrightarrow>
    ss_set_exc e c = Some (Inr (), c\<lparr>lc_state := Ready_exc, lc_storage := Exception e\<rparr>)"
  by (cases c) (simp add: ss_set_exc_def when_uninitialized_def ss_lock_def ensure_uninitialized_def placement_new_def
    set_ready_def ss_unlock_def)

lemma pr_dtor_ok:
  assumes "life_ok sp p None w g"
  shows "yields (pr_dtor sp p w) (\<lambda>w'. life_ok sp None None w' (g_abandon p g))"
proof (cases p)
  case None
  then show ?thesis using assms by (simp add: pr_dtor_def g_abandon_def)
next
  case (Some a)
  note c = life_okD [OF assms, of a, unfolded Some, simplified]
  then obtain c where c': "lw_cells w a = Some c" by (cases "lw_cells w a") (auto simp: cell_ok_def)
  have a: "a < g_next g" using assms c' unfolding life_ok_def by (metis linorder_not_le option.distinct(1))
  let ?d = "c\<lparr>lc_promises := lc_promises c - 1\<rparr>" and ?e = "Lib (Future_error Broken_promise)"
  have n: "unat (lc_promises c) = Suc (refs (g_prom g) a)" using c c' by (simp add: cell_ok_def)
  then have n': "unat (lc_promises c - 1) = refs (g_prom g) a" "lc_promises c = 1 \<longleftrightarrow> refs (g_prom g) a = 0"
    by (simp_all add: unat_dec word_unat_eq_iff [of _ 1])
  have u: "lc_state c = Uninitialized \<longleftrightarrow> g_result g a = None"
    using c c' by (auto simp: cell_ok_def result_ok_def split: option.splits sum.splits)
  have z: "refs (g_prom g) a = 0 \<longleftrightarrow> (\<forall>i. g_prom g i \<noteq> Some a)" by (rule refs_zero_iff)
  show ?thesis
  proof (cases "g_result g a = None \<and> refs (g_prom g) a = 0")
    case True
    let ?f = "?d\<lparr>lc_state := Ready_exc, lc_storage := Exception ?e\<rparr>"
    have r: "lc_storage c = Raw" "\<not> lc_lck c" using c c' True by (simp_all add: cell_ok_def result_ok_def)
    have g: "g_abandon p g = g\<lparr>g_result := (g_result g)(a \<mapsto> Inl ?e)\<rparr>"
      using True z Some by (simp add: g_abandon_def)
    have L: "life_ok sp None (Some a) (lput a (Some ?f) w) (g_abandon p g)"
      unfolding g by (rule life_ok_put [OF assms a])
         (use c c' n' Some True in \<open>auto simp: cell_ok_def result_ok_def\<close>)
    moreover have "remove_promise_ref c = Some ?f"
      using True n' u r ss_set_exc_fresh [of ?d ?e] by (simp add: remove_promise_ref_def)
    ultimately show ?thesis using c' sp_release_ok [OF L] unfolding Some by (simp add: pr_dtor_def)
  next
    case False
    then have g: "g_abandon p g = g" using z Some by (auto simp: g_abandon_def)
    have L: "life_ok sp None (Some a) (lput a (Some ?d) w) g"
      by (rule life_ok_put [OF assms a])
         (use c c' n' Some False in \<open>auto simp: cell_ok_def result_ok_def split: option.splits sum.splits special.splits\<close>)
    moreover have "remove_promise_ref c = Some ?d" using False n' u by (auto simp: remove_promise_ref_def)
    ultimately show ?thesis
      using c' sp_release_ok [OF L] g [unfolded Some] unfolding Some by (simp add: pr_dtor_def)
  qed
qed

section \<open>Assigning to variables\<close>

lemma life_ok_next: "life_ok sp p d w g \<Longrightarrow> lw_cells w a = Some c \<Longrightarrow> a < g_next g"
  unfolding life_ok_def by (metis linorder_not_le option.distinct(1))

text \<open>Pointers that move between variables, one of them into flight.\<close>

lemma prom_shift:
  assumes "life_ok sp p None w g" and "\<And>a. refs m a + of_ptr q a = refs (g_prom g) a + of_ptr p a"
  shows "life_ok sp q None (w\<lparr>lw_prom := m\<rparr>) (g\<lparr>g_prom := m\<rparr>)"
  using assms unfolding life_ok_def by simp

lemma fut_shift:
  assumes "life_ok sp None None w g"
    and "\<And>a. refs m a + refs n a + of_ptr d a = refs (g_fut g) a + refs (g_sh g) a"
    and "\<And>a. refs m a \<le> refs (g_fut g) a \<and> (0 < refs m a \<longrightarrow> refs n a = 0)"
  shows "life_ok sp None d (w\<lparr>lw_fut := m, lw_sh := n\<rparr>) (g\<lparr>g_fut := m, g_sh := n\<rparr>)"
  unfolding life_ok_def
proof (intro conjI allI)
  fix a
  have f: "refs (g_fut g) a = 0 \<or> refs (g_fut g) a = 1 \<and> refs (g_sh g) a = 0"
    by (rule cell_ok_futs [OF life_okD [OF assms(1)]])
  have "cell_ok sp (refs (g_prom g) a + of_ptr None a) (refs m a) (refs n a) (of_ptr d a) (g_claimed g a)
      (g_result g a) (lw_cells w a)"
    by (rule cell_ok_shift [OF life_okD [OF assms(1), of a]])
       (use assms(2,3) [of a] f in auto)
  then show "cell_ok sp (refs (g_prom (g\<lparr>g_fut := m, g_sh := n\<rparr>)) a + of_ptr None a)
      (refs (g_fut (g\<lparr>g_fut := m, g_sh := n\<rparr>)) a) (refs (g_sh (g\<lparr>g_fut := m, g_sh := n\<rparr>)) a) (of_ptr d a)
      (g_claimed (g\<lparr>g_fut := m, g_sh := n\<rparr>) a) (g_result (g\<lparr>g_fut := m, g_sh := n\<rparr>) a)
      (lw_cells (w\<lparr>lw_fut := m, lw_sh := n\<rparr>) a)" by simp
qed (use assms(1) in \<open>simp_all add: life_ok_def\<close>)

lemma life_sels:
  "life_ok sp p d w g \<Longrightarrow> lw_prom w = g_prom g" "life_ok sp p d w g \<Longrightarrow> lw_fut w = g_fut g"
  "life_ok sp p d w g \<Longrightarrow> lw_sh w = g_sh g" "life_ok sp p d w g \<Longrightarrow> lw_next w = g_next g"
  by (simp_all add: life_ok_def)

lemma pr_assign_ok:
  assumes "life_ok sp q None w g"
  shows "yields (pr_assign sp i q w) (\<lambda>w'. life_ok sp None None w' (g_abandon (g_prom g i) (g\<lparr>g_prom := (g_prom g)(i := q)\<rparr>)))"
proof -
  have "life_ok sp (g_prom g i) None (w\<lparr>lw_prom := (g_prom g)(i := q)\<rparr>) (g\<lparr>g_prom := (g_prom g)(i := q)\<rparr>)"
    by (rule prom_shift [OF assms]) (rule refs_set)
  from pr_dtor_ok [OF this] show ?thesis using life_sels(1) [OF assms] by (simp add: pr_assign_def)
qed

lemma fut_take_ok:
  assumes "life_ok sp None (g_fut g k) (w\<lparr>lw_fut := (g_fut g)(k := q)\<rparr>) g'" and "lw_fut w = g_fut g"
  shows "yields (fut_take sp k q w) (\<lambda>w'. life_ok sp None None w' g')"
  using sp_release_ok [OF assms(1)] assms(2) by (simp add: fut_take_def)

lemma sh_take_ok:
  assumes "life_ok sp None (g_sh g k) (w\<lparr>lw_sh := (g_sh g)(k := q)\<rparr>) g'" and "lw_sh w = g_sh g"
  shows "yields (sh_take sp k q w) (\<lambda>w'. life_ok sp None None w' g')"
  using sp_release_ok [OF assms(1)] assms(2) by (simp add: sh_take_def)

section \<open>Promises\<close>

lemma life_prom_new_ok:
  assumes "life_ok sp None None w g"
  shows "yields (life_prom_new sp i w) (\<lambda>w'. life_ok sp None None w' (snd (g_exec sp (P_new i) g)))"
proof -
  let ?a = "g_next g"
  let ?w = "lput ?a (Some (add_promise_ref ss_ctor)) (w\<lparr>lw_next := ?a + 1\<rparr>)"
  have z: "refs (g_prom g) ?a = 0" "refs (g_fut g) ?a = 0" "refs (g_sh g) ?a = 0"
    using assms life_okD [OF assms, of ?a] by (auto simp: life_ok_def cell_ok_def)
  have n: "g_result g ?a = None" "\<not> g_claimed g ?a" "lw_next w = ?a" using assms by (auto simp: life_ok_def)
  have "life_ok sp (Some ?a) None ?w (g\<lparr>g_next := ?a + 1\<rparr>)"
    unfolding life_ok_def
  proof (intro conjI allI)
    fix b
    show "cell_ok sp (refs (g_prom (g\<lparr>g_next := ?a + 1\<rparr>)) b + of_ptr (Some ?a) b)
        (refs (g_fut (g\<lparr>g_next := ?a + 1\<rparr>)) b) (refs (g_sh (g\<lparr>g_next := ?a + 1\<rparr>)) b) (of_ptr None b)
        (g_claimed (g\<lparr>g_next := ?a + 1\<rparr>) b) (g_result (g\<lparr>g_next := ?a + 1\<rparr>) b) (lw_cells ?w b)"
      using z n life_okD [OF assms, of b]
      by (cases "b = ?a") (auto simp: cell_ok_def result_ok_def add_promise_ref_def ss_ctor_def)
  qed (use assms in \<open>auto simp: life_ok_def\<close>)
  from pr_assign_ok [OF this, of i] show ?thesis using n by (simp add: life_prom_new_def Let_def)
qed

lemma life_prom_move_ok:
  assumes "life_ok sp None None w g"
  shows "yields (life_prom_move sp i j w) (\<lambda>w'. life_ok sp None None w' (snd (g_exec sp (P_move i j) g)))"
proof -
  have "life_ok sp (g_prom g j) None (w\<lparr>lw_prom := (g_prom g)(j := None)\<rparr>) (g\<lparr>g_prom := (g_prom g)(j := None)\<rparr>)"
    by (rule prom_shift [OF assms]) (use refs_set [of "g_prom g" j None] in simp)
  from pr_assign_ok [OF this, of i] show ?thesis
    using life_sels(1) [OF assms] by (cases "i = j") (simp_all add: life_prom_move_def)
qed

lemma life_prom_swap_eq:
  "life_prom_swap sp i j w = Some (w\<lparr>lw_prom := swap_at i j (lw_prom w)\<rparr>)"
  by (cases w; cases "i = j")
     (simp_all add: life_prom_swap_def life_prom_move_def pr_assign_def pr_dtor_def swap_at_def Let_def fun_upd_twist)

lemma life_prom_swap_ok:
  assumes "life_ok sp None None w g"
  shows "life_ok sp None None (w\<lparr>lw_prom := swap_at i j (lw_prom w)\<rparr>) (g\<lparr>g_prom := swap_at i j (g_prom g)\<rparr>)"
  using prom_shift [OF assms, of "swap_at i j (g_prom g)" None] life_sels(1) [OF assms] by (simp add: refs_swap_at)

lemma life_prom_drop_ok:
  assumes "life_ok sp None None w g"
  shows "yields (life_prom_drop sp i w) (\<lambda>w'. life_ok sp None None w' (snd (g_exec sp (P_drop i) g)))"
  using pr_assign_ok [OF assms, of i] by (simp add: life_prom_drop_def pr_assign_def)

lemma life_prom_copy_ok:
  fixes w :: "('p::finite, 'f::finite, 's::finite, 'v, 'x) lworld"
  assumes "life_ok sp None None w g" and card: "CARD('p) + 1 < 2 ^ 64"
  shows "yields (life_prom_copy sp i j w) (\<lambda>w'. life_ok sp None None w' (snd (g_exec sp (P_copy i j) g)))"
proof (cases "g_prom g j")
  case None
  then show ?thesis
    using pr_assign_ok [OF assms(1), of i] life_sels(1) [OF assms(1)]
    by (simp add: life_prom_copy_def sp_acquire_def Let_def)
next
  case (Some a)
  have r: "1 \<le> refs (g_prom g) a" by (rule refs_ge_1 [of _ j]) (rule Some)
  then obtain c where c: "lw_cells w a = Some c"
    using life_okD [OF assms(1), of a] by (cases "lw_cells w a") (auto simp: cell_ok_def)
  note k = life_okD [OF assms(1), of a, unfolded c, simplified]
  have "refs (g_prom g) a \<le> CARD('p)" by (rule refs_le_card)
  then have u: "unat (lc_promises c + 1) = Suc (refs (g_prom g) a)"
    using k card by (auto simp: cell_ok_def unat_inc)
  let ?d = "c\<lparr>lc_uses := lc_uses c + 1, lc_promises := lc_promises c + 1\<rparr>"
  have "life_ok sp (Some a) None (lput a (Some ?d) w) g"
    by (rule life_ok_put [OF assms(1) life_ok_next [OF assms(1) c]])
       (use k u in \<open>auto simp: cell_ok_def result_ok_def split: option.splits sum.splits special.splits\<close>)
  from pr_assign_ok [OF this, of i] show ?thesis
    using life_sels(1) [OF assms(1)] Some c
    by (simp add: life_prom_copy_def sp_acquire_def Let_def add_promise_ref_def)
qed

text \<open>A result is set at most once.\<close>

lemma when_uninitialized_set:
  "\<not> lc_lck c \<Longrightarrow> lc_state c \<noteq> Uninitialized \<Longrightarrow>
    when_uninitialized f c = Some (Inl (Future_error Promise_already_satisfied), c)"
  by (cases c) (simp add: when_uninitialized_def ss_lock_def ensure_uninitialized_def ss_unlock_def)

lemma ss_set_value_fresh:
  "\<not> lc_lck c \<Longrightarrow> lc_state c = Uninitialized \<Longrightarrow> lc_storage c = Raw \<Longrightarrow>
    ss_set_value sp v c = Some (Inr (), c\<lparr>lc_state := Ready_value,
      lc_storage := (case sp of Of_value \<Rightarrow> Object v | Of_ref \<Rightarrow> Pointer v | Of_void \<Rightarrow> Raw)\<rparr>)"
  by (cases c) (simp add: ss_set_value_def set_value_obj_def set_value_ref_def set_value_void_def when_uninitialized_def
    ss_lock_def ensure_uninitialized_def placement_new_def set_ready_def ss_unlock_def split: special.splits)

lemma life_prom_result_ok:
  assumes "life_ok sp None None w g"
    and f: "f = (case x of Inl e \<Rightarrow> ss_set_exc e | Inr v \<Rightarrow> ss_set_value sp v)"
  shows "yields (life_prom_result f i w) (\<lambda>(r, w'). r = fst (g_put x i g) \<and> life_ok sp None None w' (snd (g_put x i g)))"
proof (cases "g_prom g i")
  case None
  then show ?thesis using assms(1) life_sels(1) [OF assms(1)] by (simp add: life_prom_result_def g_put_def)
next
  case (Some a)
  have r: "1 \<le> refs (g_prom g) a" by (rule refs_ge_1 [of _ i]) (rule Some)
  then obtain c where c: "lw_cells w a = Some c"
    using life_okD [OF assms(1), of a] by (cases "lw_cells w a") (auto simp: cell_ok_def)
  note k = life_okD [OF assms(1), of a, unfolded c, simplified]
  show ?thesis
  proof (cases "g_result g a")
    case None
    then have k': "\<not> lc_lck c" "lc_state c = Uninitialized" "lc_storage c = Raw"
      using k by (auto simp: cell_ok_def result_ok_def)
    obtain d where d: "f c = Some (Inr (), d)" "cell_ok sp (refs (g_prom g) a) (refs (g_fut g) a)
        (refs (g_sh g) a) 0 (g_claimed g a) (Some x) (Some d)"
      using k None f k' ss_set_value_fresh [OF k', of sp] ss_set_exc_fresh [OF k']
      by (cases x) (auto simp: cell_ok_def result_ok_def split: special.splits)
    have "life_ok sp None None (lput a (Some d) w) (g\<lparr>g_result := (g_result g)(a \<mapsto> x)\<rparr>)"
      by (rule life_ok_put [OF assms(1) life_ok_next [OF assms(1) c]]) (use d in simp_all)
    then show ?thesis
      using Some None d(1) c life_sels(1) [OF assms(1)] by (simp add: life_prom_result_def g_put_def)
  next
    case (Some y)
    then have k': "\<not> lc_lck c" "lc_state c \<noteq> Uninitialized"
      using k by (auto simp: cell_ok_def result_ok_def split: sum.splits)
    have "f c = Some (Inl (Future_error Promise_already_satisfied), c)"
      using f when_uninitialized_set [OF k'] unfolding ss_set_exc_def ss_set_value_def set_value_obj_def
        set_value_ref_def set_value_void_def by (auto split: sum.splits special.splits)
    then show ?thesis
      using Some \<open>g_prom g i = Some a\<close> c life_sels(1) [OF assms(1)] assms(1)
      by (simp add: life_prom_result_def g_put_def)
  qed
qed

section \<open>Futures\<close>

lemma fut_only:
  assumes "life_ok sp None None w g" and "\<And>a. refs m a + of_ptr d a = refs (g_fut g) a"
  shows "life_ok sp None d (w\<lparr>lw_fut := m\<rparr>) (g\<lparr>g_fut := m\<rparr>)"
proof -
  have "life_ok sp None d (w\<lparr>lw_fut := m, lw_sh := g_sh g\<rparr>) (g\<lparr>g_fut := m, g_sh := g_sh g\<rparr>)"
  proof (rule fut_shift [OF assms(1)])
    fix a
    show "refs m a + refs (g_sh g) a + of_ptr d a = refs (g_fut g) a + refs (g_sh g) a"
      using assms(2) [of a] by simp
    show "refs m a \<le> refs (g_fut g) a \<and> (0 < refs m a \<longrightarrow> refs (g_sh g) a = 0)"
      using assms(2) [of a] cell_ok_futs [OF life_okD [OF assms(1), of a]] by auto
  qed
  then show ?thesis using life_sels(3) [OF assms(1)] by (cases w; cases g) simp
qed

lemma sh_only:
  assumes "life_ok sp None None w g" and "\<And>a. refs n a + of_ptr d a = refs (g_sh g) a"
  shows "life_ok sp None d (w\<lparr>lw_sh := n\<rparr>) (g\<lparr>g_sh := n\<rparr>)"
proof -
  have "life_ok sp None d (w\<lparr>lw_fut := g_fut g, lw_sh := n\<rparr>) (g\<lparr>g_fut := g_fut g, g_sh := n\<rparr>)"
  proof (rule fut_shift [OF assms(1)])
    fix a
    show "refs (g_fut g) a + refs n a + of_ptr d a = refs (g_fut g) a + refs (g_sh g) a"
      using assms(2) [of a] by simp
    show "refs (g_fut g) a \<le> refs (g_fut g) a \<and> (0 < refs (g_fut g) a \<longrightarrow> refs n a = 0)"
      using assms(2) [of a] cell_ok_futs [OF life_okD [OF assms(1), of a]] by auto
  qed
  then show ?thesis using life_sels(2) [OF assms(1)] by (cases w; cases g) simp
qed

lemma refs_move: "refs (m(j := None, i := m j)) a + of_ptr ((m(j := None)) i) a = refs m a"
  using refs_set [of "m(j := None)" i "m j" a] refs_set [of m j None a] by simp

lemma life_fut_move_ok:
  assumes "life_ok sp None None w g"
  shows "yields (life_fut_move sp k l w) (\<lambda>w'. life_ok sp None None w' (snd (g_exec sp (F_move k l) g)))"
proof -
  have "life_ok sp None (((g_fut g)(l := None)) k) (w\<lparr>lw_fut := (g_fut g)(l := None, k := g_fut g l)\<rparr>)
      (g\<lparr>g_fut := (g_fut g)(l := None, k := g_fut g l)\<rparr>)"
    by (rule fut_only [OF assms]) (rule refs_move)
  from sp_release_ok [OF this] show ?thesis
    using life_sels(2) [OF assms] by (simp add: life_fut_move_def fut_take_def)
qed

lemma life_sh_move_ok:
  assumes "life_ok sp None None w g"
  shows "yields (life_sh_move sp k l w) (\<lambda>w'. life_ok sp None None w' (snd (g_exec sp (S_move k l) g)))"
proof -
  have "life_ok sp None (((g_sh g)(l := None)) k) (w\<lparr>lw_sh := (g_sh g)(l := None, k := g_sh g l)\<rparr>)
      (g\<lparr>g_sh := (g_sh g)(l := None, k := g_sh g l)\<rparr>)"
    by (rule sh_only [OF assms]) (rule refs_move)
  from sp_release_ok [OF this] show ?thesis
    using life_sels(3) [OF assms] by (simp add: life_sh_move_def sh_take_def)
qed

lemma fut_drop_ok:
  assumes "life_ok sp None None w g"
  shows "yields (fut_take sp k None w) (\<lambda>w'. life_ok sp None None w' (snd (g_exec sp (F_drop k) g)))"
proof -
  have "life_ok sp None (g_fut g k) (w\<lparr>lw_fut := (g_fut g)(k := None)\<rparr>) (g\<lparr>g_fut := (g_fut g)(k := None)\<rparr>)"
    by (rule fut_only [OF assms]) (use refs_set [of "g_fut g" k None] in simp)
  from sp_release_ok [OF this] show ?thesis using life_sels(2) [OF assms] by (simp add: fut_take_def)
qed

lemma sh_drop_ok:
  assumes "life_ok sp None None w g"
  shows "yields (sh_take sp k None w) (\<lambda>w'. life_ok sp None None w' (snd (g_exec sp (S_drop k) g)))"
proof -
  have "life_ok sp None (g_sh g k) (w\<lparr>lw_sh := (g_sh g)(k := None)\<rparr>) (g\<lparr>g_sh := (g_sh g)(k := None)\<rparr>)"
    by (rule sh_only [OF assms]) (use refs_set [of "g_sh g" k None] in simp)
  from sp_release_ok [OF this] show ?thesis using life_sels(3) [OF assms] by (simp add: sh_take_def)
qed

lemma life_swap_ok:
  assumes "life_ok sp None None w g"
  shows "life_ok sp None None (life_fut_swap k l w) (g\<lparr>g_fut := swap_at k l (g_fut g)\<rparr>)"
    and "life_ok sp None None (life_sh_swap i j w) (g\<lparr>g_sh := swap_at i j (g_sh g)\<rparr>)"
  using fut_only [OF assms, of "swap_at k l (g_fut g)" None] sh_only [OF assms, of "swap_at i j (g_sh g)" None]
    life_sels [OF assms] by (simp_all add: life_fut_swap_def life_sh_swap_def refs_swap_at)

text \<open>Sharing takes the only future, so that there is no future and no shared one.\<close>

lemma life_share_ok:
  assumes "life_ok sp None None w g"
  shows "yields (life_share sp k l w) (\<lambda>w'. life_ok sp None None w' (snd (g_exec sp (F_share k l) g)))"
proof -
  let ?m = "(g_fut g)(k := None)" and ?n = "(g_sh g)(l := g_fut g k)"
  have "life_ok sp None (g_sh g l) (w\<lparr>lw_fut := ?m, lw_sh := ?n\<rparr>) (g\<lparr>g_fut := ?m, g_sh := ?n\<rparr>)"
  proof (rule fut_shift [OF assms])
    fix a
    have m: "refs ?m a + of_ptr (g_fut g k) a = refs (g_fut g) a" using refs_set [of "g_fut g" k None a] by simp
    have n: "refs ?n a + of_ptr (g_sh g l) a = refs (g_sh g) a + of_ptr (g_fut g k) a" by (rule refs_set)
    show "refs ?m a + refs ?n a + of_ptr (g_sh g l) a = refs (g_fut g) a + refs (g_sh g) a" using m n by simp
    show "refs ?m a \<le> refs (g_fut g) a \<and> (0 < refs ?m a \<longrightarrow> refs ?n a = 0)"
      using m n cell_ok_futs [OF life_okD [OF assms, of a]] by auto
  qed
  from sp_release_ok [OF this] show ?thesis using life_sels [OF assms] by (simp add: life_share_def sh_take_def)
qed

text \<open>A change of one state together with variables.\<close>

lemma life_ok_step:
  assumes "life_ok sp None None w g" and "lw_cells w a = Some c"
    and "cell_ok sp (refs (g_prom g) a) (refs m a) (refs n a) (of_ptr d a) cl (g_result g a) (Some c')"
    and "\<And>b. b \<noteq> a \<Longrightarrow> refs m b + refs n b + of_ptr d b = refs (g_fut g) b + refs (g_sh g) b \<and>
      refs m b \<le> refs (g_fut g) b \<and> (0 < refs m b \<longrightarrow> refs n b = 0)"
    and "g' = g\<lparr>g_claimed := (g_claimed g)(a := cl), g_fut := m, g_sh := n\<rparr>"
  shows "life_ok sp None d (lput a (Some c') w\<lparr>lw_fut := m, lw_sh := n\<rparr>) g'"
  unfolding life_ok_def
proof (intro conjI allI)
  fix b
  have "cell_ok sp (refs (g_prom g) b) (refs m b) (refs n b) (of_ptr d b) (if b = a then cl else g_claimed g b)
      (g_result g b) (if b = a then Some c' else lw_cells w b)"
  proof (cases "b = a")
    case False
    have f: "refs (g_fut g) b = 0 \<or> refs (g_fut g) b = 1 \<and> refs (g_sh g) b = 0"
      by (rule cell_ok_futs [OF life_okD [OF assms(1)]])
    have "cell_ok sp (refs (g_prom g) b) (refs m b) (refs n b) (of_ptr d b) (g_claimed g b) (g_result g b)
        (lw_cells w b)"
      by (rule cell_ok_shift [OF life_okD [OF assms(1), of b]]) (use assms(4) [OF False] f in auto)
    then show ?thesis using False by simp
  qed (use assms(3) in simp)
  then show "cell_ok sp (refs (g_prom g') b + of_ptr None b) (refs (g_fut g') b) (refs (g_sh g') b) (of_ptr d b)
      (g_claimed g' b) (g_result g' b) (lw_cells (lput a (Some c') w\<lparr>lw_fut := m, lw_sh := n\<rparr>) b)"
    unfolding assms(5) by (auto split: if_splits)
qed (use assms(1,5) life_ok_next [OF assms(1,2)] in \<open>auto simp: life_ok_def\<close>)

lemma life_get_future_ok:
  assumes ok: "life_ok sp None None w g"
  shows "yields (life_get_future sp i k w) (\<lambda>(r, w'). r = fst (g_exec sp (P_get_future i k) g) \<and>
    life_ok sp None None w' (snd (g_exec sp (P_get_future i k) g)))"
proof (cases "g_prom g i")
  case None
  then show ?thesis using ok life_sels(1) [OF ok] by (simp add: life_get_future_def)
next
  case (Some a)
  have r: "1 \<le> refs (g_prom g) a" by (rule refs_ge_1 [of _ i]) (rule Some)
  then obtain c where c: "lw_cells w a = Some c"
    using life_okD [OF ok, of a] by (cases "lw_cells w a") (auto simp: cell_ok_def)
  note k = life_okD [OF ok, of a, unfolded c, simplified]
  have cl: "lc_shared c = g_claimed g a" using k by (simp add: cell_ok_def)
  show ?thesis
  proof (cases "g_claimed g a")
    case True
    then show ?thesis using Some c cl ok life_sels(1) [OF ok] by (simp add: life_get_future_def)
  next
    case False
    let ?m = "(g_fut g)(k \<mapsto> a)" and ?c = "c\<lparr>lc_shared := True, lc_uses := lc_uses c + 1\<rparr>"
    have z: "refs (g_fut g) a = 0" "refs (g_sh g) a = 0" using k False by (simp_all add: cell_ok_def)
    have m: "refs ?m b + of_ptr (g_fut g k) b = refs (g_fut g) b + of_ptr (Some a) b" for b by (rule refs_set)
    have o: "of_ptr (g_fut g k) a = 0" using z(1) refs_ge_1 [of "g_fut g" k a] by (auto simp: of_ptr_def)
    have "life_ok sp None (g_fut g k) (lput a (Some ?c) w\<lparr>lw_fut := ?m, lw_sh := g_sh g\<rparr>)
      (g\<lparr>g_claimed := (g_claimed g)(a := True), g_fut := ?m, g_sh := g_sh g\<rparr>)"
    proof (rule life_ok_step [OF ok c _ _ refl])
      show "cell_ok sp (refs (g_prom g) a) (refs ?m a) (refs (g_sh g) a) (of_ptr (g_fut g k) a) True
          (g_result g a) (Some ?c)"
        using k z m [of a] o False
        by (auto simp: cell_ok_def result_ok_def split: option.splits sum.splits special.splits)
      fix b
      assume "b \<noteq> a"
      then show "refs ?m b + refs (g_sh g) b + of_ptr (g_fut g k) b = refs (g_fut g) b + refs (g_sh g) b \<and>
          refs ?m b \<le> refs (g_fut g) b \<and> (0 < refs ?m b \<longrightarrow> refs (g_sh g) b = 0)"
        using m [of b] cell_ok_futs [OF life_okD [OF ok, of b]] by auto
    qed
    from sp_release_ok [OF this] show ?thesis
      using Some c cl False life_sels [OF ok]
      by (cases w; cases g) (auto simp: life_get_future_def sp_acquire_def fut_take_def lput_def yields_def split: option.splits)
  qed
qed

lemma life_sh_copy_ok:
  assumes ok: "life_ok sp None None w g"
  shows "yields (life_sh_copy sp k l w) (\<lambda>w'. life_ok sp None None w' (snd (g_exec sp (S_copy k l) g)))"
proof (cases "g_sh g l")
  case None
  then show ?thesis using sh_drop_ok [OF ok, of k] life_sels(3) [OF ok] by (simp add: life_sh_copy_def sp_acquire_def)
next
  case (Some a)
  have r: "1 \<le> refs (g_sh g) a" by (rule refs_ge_1 [of _ l]) (rule Some)
  then obtain c where c: "lw_cells w a = Some c"
    using life_okD [OF ok, of a] by (cases "lw_cells w a") (auto simp: cell_ok_def)
  note k = life_okD [OF ok, of a, unfolded c, simplified]
  let ?n = "(g_sh g)(k \<mapsto> a)" and ?c = "c\<lparr>lc_uses := lc_uses c + 1\<rparr>"
  have n: "refs ?n b + of_ptr (g_sh g k) b = refs (g_sh g) b + of_ptr (Some a) b" for b by (rule refs_set)
  have z: "refs (g_fut g) a = 0" "g_claimed g a" using k r by (auto simp: cell_ok_def)
  have "life_ok sp None (g_sh g k) (lput a (Some ?c) w\<lparr>lw_fut := g_fut g, lw_sh := ?n\<rparr>)
    (g\<lparr>g_claimed := (g_claimed g)(a := True), g_fut := g_fut g, g_sh := ?n\<rparr>)"
  proof (rule life_ok_step [OF ok c _ _ refl])
    show "cell_ok sp (refs (g_prom g) a) (refs (g_fut g) a) (refs ?n a) (of_ptr (g_sh g k) a) True
        (g_result g a) (Some ?c)"
      using k z n [of a] r
      by (auto simp: cell_ok_def result_ok_def split: option.splits sum.splits special.splits)
    fix b
    assume "b \<noteq> a"
    then show "refs (g_fut g) b + refs ?n b + of_ptr (g_sh g k) b = refs (g_fut g) b + refs (g_sh g) b \<and>
        refs (g_fut g) b \<le> refs (g_fut g) b \<and> (0 < refs (g_fut g) b \<longrightarrow> refs ?n b = 0)"
      using n [of b] cell_ok_futs [OF life_okD [OF ok, of b]] by auto
  qed
  moreover have "(g_claimed g)(a := True) = g_claimed g" using z(2) by (simp add: fun_upd_idem)
  ultimately have "life_ok sp None (g_sh g k) (lput a (Some ?c) w\<lparr>lw_sh := ?n\<rparr>) (g\<lparr>g_sh := ?n\<rparr>)"
    using life_sels(2) [OF ok] by (cases w; cases g) (simp add: lput_def)
  from sp_release_ok [OF this] show ?thesis
    using Some c life_sels(3) [OF ok] by (simp add: life_sh_copy_def sp_acquire_def sh_take_def)
qed

text \<open>A future or shared future finds the result, never an object whose content was moved out.\<close>

lemma ss_get_ok:
  "cell_ok sp np nf ns d cl r (Some c) \<Longrightarrow> 0 < nf + ns \<Longrightarrow> ss_get sp c = Some (g_answer sp r)"
  unfolding cell_ok_def result_ok_def ss_get_def get_obj_def get_ref_def get_void_def g_answer_def
  by (auto split: option.splits sum.splits special.splits)

lemma life_sh_get_ok:
  assumes ok: "life_ok sp None None w g"
  shows "life_sh_get sp k w = Some (fst (g_exec sp (S_get k) g))"
proof (cases "g_sh g k")
  case None
  then show ?thesis using life_sels(3) [OF ok] by (simp add: life_sh_get_def)
next
  case (Some a)
  have r: "1 \<le> refs (g_sh g) a" by (rule refs_ge_1 [of _ k]) (rule Some)
  then obtain c where c: "lw_cells w a = Some c"
    using life_okD [OF ok, of a] by (cases "lw_cells w a") (auto simp: cell_ok_def)
  have "ss_get sp c = Some (g_answer sp (g_result g a))"
    by (rule ss_get_ok [OF life_okD [OF ok, of a, unfolded c]]) (use r in simp)
  then show ?thesis using Some c life_sels(3) [OF ok] by (simp add: life_sh_get_def)
qed

lemma life_fut_get_ok:
  assumes ok: "life_ok sp None None w g"
  shows "yields (life_fut_get sp moved k w) (\<lambda>(r, w'). r = fst (g_exec sp (F_get k) g) \<and>
    life_ok sp None None w' (snd (g_exec sp (F_get k) g)))"
proof (cases "g_fut g k")
  case None
  then show ?thesis using ok life_sels(2) [OF ok] by (simp add: life_fut_get_def)
next
  case (Some a)
  have r: "1 \<le> refs (g_fut g) a" by (rule refs_ge_1 [of _ k]) (rule Some)
  then obtain c where c: "lw_cells w a = Some c"
    using life_okD [OF ok, of a] by (cases "lw_cells w a") (auto simp: cell_ok_def)
  note k = life_okD [OF ok, of a, unfolded c, simplified]
  have a: "ss_get sp c = Some (g_answer sp (g_result g a))"
    by (rule ss_get_ok [OF life_okD [OF ok, of a, unfolded c]]) (use r in simp)
  show ?thesis
  proof (cases "\<exists>v. g_result g a = Some (Inr v)")
    case False
    then show ?thesis
      using Some c a ok life_sels(2) [OF ok]
      by (auto simp: life_fut_get_def g_answer_def split: option.splits sum.splits)
  next
    case True
    then obtain v where v: "g_result g a = Some (Inr v)" by blast
    let ?m = "(g_fut g)(k := None)" and ?c = "move_out sp moved c"
    have m: "refs ?m b + of_ptr (Some a) b = refs (g_fut g) b" for b
      using refs_set [of "g_fut g" k None b] Some by simp
    have z: "refs (g_fut g) a = 1" "refs (g_sh g) a = 0" "g_claimed g a" using k r by (auto simp: cell_ok_def)
    have "life_ok sp None (Some a) (lput a (Some ?c) w\<lparr>lw_fut := ?m, lw_sh := g_sh g\<rparr>)
      (g\<lparr>g_claimed := (g_claimed g)(a := True), g_fut := ?m, g_sh := g_sh g\<rparr>)"
    proof (rule life_ok_step [OF ok c _ _ refl])
      show "cell_ok sp (refs (g_prom g) a) (refs ?m a) (refs (g_sh g) a) (of_ptr (Some a) a) True
          (g_result g a) (Some ?c)"
        using k z m [of a] v
        by (auto simp: cell_ok_def result_ok_def move_out_def split: special.splits storage.splits)
      fix b
      assume "b \<noteq> a"
      then show "refs ?m b + refs (g_sh g) b + of_ptr (Some a) b = refs (g_fut g) b + refs (g_sh g) b \<and>
          refs ?m b \<le> refs (g_fut g) b \<and> (0 < refs ?m b \<longrightarrow> refs (g_sh g) b = 0)"
        using m [of b] cell_ok_futs [OF life_okD [OF ok, of b]] by auto
    qed
    moreover have "(g_claimed g)(a := True) = g_claimed g" using z(3) by (simp add: fun_upd_idem)
    ultimately have "life_ok sp None (Some a) (lput a (Some ?c) w\<lparr>lw_fut := ?m\<rparr>) (g\<lparr>g_fut := ?m\<rparr>)"
      using life_sels(3) [OF ok] by (cases w; cases g) (simp add: lput_def)
    from sp_release_ok [OF this] show ?thesis
      using Some c a v life_sels(2) [OF ok]
      by (auto simp: life_fut_get_def fut_take_def g_answer_def yields_def split: option.splits)
  qed
qed

section \<open>Programs\<close>

lemma yields_done:
  "yields m P \<Longrightarrow> yields (done_with m) (\<lambda>(r, w). r = Done \<and> P w)"
  by (cases m) simp_all

lemma life_exec_ok:
  fixes w :: "('p::finite, 'f::finite, 's::finite, 'v, 'x) lworld"
  assumes ok: "life_ok sp None None w g" and card: "CARD('p) + 1 < 2 ^ 64"
  shows "yields (life_exec sp moved c w) (\<lambda>(r, w'). r = fst (g_exec sp c g) \<and>
    life_ok sp None None w' (snd (g_exec sp c g)))"
proof (cases c)
  case (P_new i)
  then show ?thesis using yields_done [OF life_prom_new_ok [OF ok, of i]] by simp
next
  case (P_copy i j)
  then show ?thesis using yields_done [OF life_prom_copy_ok [OF ok card, of i j]] by simp
next
  case (P_move i j)
  then show ?thesis using yields_done [OF life_prom_move_ok [OF ok, of i j]] by simp
next
  case (P_swap i j)
  then show ?thesis using life_prom_swap_ok [OF ok, of i j] by (simp add: life_prom_swap_eq)
next
  case (P_drop i)
  then show ?thesis using yields_done [OF life_prom_drop_ok [OF ok, of i]] by simp
next
  case (P_get_future i k)
  then show ?thesis using life_get_future_ok [OF ok, of i k] by simp
next
  case (P_set i v)
  then show ?thesis using life_prom_result_ok [OF ok, of _ "Inr v" i] by simp
next
  case (P_set_exc i e)
  then show ?thesis using life_prom_result_ok [OF ok, of _ "Inl e" i] by simp
next
  case (F_move k l)
  then show ?thesis using yields_done [OF life_fut_move_ok [OF ok, of k l]] by simp
next
  case (F_swap k l)
  then show ?thesis using life_swap_ok(1) [OF ok] by simp
next
  case (F_drop k)
  then show ?thesis using yields_done [OF fut_drop_ok [OF ok, of k]] by simp
next
  case (F_valid k)
  then show ?thesis using ok life_sels(2) [OF ok] by simp
next
  case (F_share k l)
  then show ?thesis using yields_done [OF life_share_ok [OF ok, of k l]] by simp
next
  case (F_get k)
  then show ?thesis using life_fut_get_ok [OF ok, of moved k] by simp
next
  case (S_copy k l)
  then show ?thesis using yields_done [OF life_sh_copy_ok [OF ok, of k l]] by simp
next
  case (S_move k l)
  then show ?thesis using yields_done [OF life_sh_move_ok [OF ok, of k l]] by simp
next
  case (S_swap k l)
  then show ?thesis using life_swap_ok(2) [OF ok] by simp
next
  case (S_drop k)
  then show ?thesis using yields_done [OF sh_drop_ok [OF ok, of k]] by simp
next
  case (S_valid k)
  then show ?thesis using ok life_sels(3) [OF ok] by simp
next
  case (S_get k)
  then show ?thesis using ok life_sh_get_ok [OF ok, of k] by simp
qed

lemma life_run_ok:
  fixes w :: "('p::finite, 'f::finite, 's::finite, 'v, 'x) lworld"
  assumes "CARD('p) + 1 < 2 ^ 64"
  shows "life_ok sp None None w g \<Longrightarrow> \<exists>w'. life_run sp moved cs w = Some (fst (g_run sp cs g), w') \<and>
    life_ok sp None None w' (snd (g_run sp cs g))"
proof (induction cs arbitrary: w g)
  case (Cons c cs)
  obtain r w1 where 1: "life_exec sp moved c w = Some (r, w1)" "r = fst (g_exec sp c g)"
    "life_ok sp None None w1 (snd (g_exec sp c g))"
    using life_exec_ok [OF Cons.prems assms, of moved c] by (auto simp: yields_def split: option.splits)
  from Cons.IH [OF 1(3)] obtain w2 where
    "life_run sp moved cs w1 = Some (fst (g_run sp cs (snd (g_exec sp c g))), w2)"
    "life_ok sp None None w2 (snd (g_run sp cs (snd (g_exec sp c g))))" by blast
  then show ?case using 1 by (auto simp: split_beta)
qed simp

lemma life_init_ok: "life_ok sp None None lw_init g_init"
  by (simp add: life_ok_def lw_init_def g_init_def cell_ok_def refs_def)

text \<open>
  C9. Counted shared states behave like states that live for ever. A program of promises, futures and
  shared futures, for values, references and \<open>void\<close>, never uses a state after its end, reads
  storage in which nothing lives, leaves an object behind or fails an assertion; its answers are
  those of the world without counts and lifetimes, so that no content that was moved out is ever
  seen; and the states that are left are those that some handle still refers to.
\<close>

theorem lifetimes_refine:
  assumes "CARD('p::finite) + 1 < 2 ^ 64"
  shows "\<exists>w :: ('p, 'f::finite, 's::finite, 'v, 'x) lworld.
    life_run sp moved cs lw_init = Some (fst (g_run sp cs g_init), w) \<and>
    (\<forall>a. lw_cells w a \<noteq> None \<longleftrightarrow>
       (\<exists>i. lw_prom w i = Some a) \<or> (\<exists>k. lw_fut w k = Some a) \<or> (\<exists>l. lw_sh w l = Some a)) \<and>
    (\<forall>a c. lw_cells w a = Some c \<longrightarrow> \<not> ready_t (lc_state c) \<longrightarrow> (\<exists>i. lw_prom w i = Some a))"
proof -
  let ?g = "snd (g_run sp cs (g_init :: ('p, 'f, 's, 'v, 'x) gworld))"
  obtain w :: "('p, 'f, 's, 'v, 'x) lworld" where
    w: "life_run sp moved cs lw_init = Some (fst (g_run sp cs g_init), w)" "life_ok sp None None w ?g"
    using life_run_ok [OF assms life_init_ok] by blast
  have "(lw_cells w a \<noteq> None \<longleftrightarrow> 0 < refs (lw_prom w) a \<or> 0 < refs (lw_fut w) a \<or> 0 < refs (lw_sh w) a) \<and>
      (\<forall>c. lw_cells w a = Some c \<longrightarrow> \<not> ready_t (lc_state c) \<longrightarrow> 0 < refs (lw_prom w) a)" for a
    using life_okD [OF w(2), of a] life_sels [OF w(2)]
    by (auto simp: cell_ok_def result_ok_def ready_t_def split: option.splits sum.splits)
  then have "(lw_cells w a \<noteq> None \<longleftrightarrow>
       (\<exists>i. lw_prom w i = Some a) \<or> (\<exists>k. lw_fut w k = Some a) \<or> (\<exists>l. lw_sh w l = Some a)) \<and>
      (\<forall>c. lw_cells w a = Some c \<longrightarrow> \<not> ready_t (lc_state c) \<longrightarrow> (\<exists>i. lw_prom w i = Some a))" for a
    unfolding refs_pos_iff by blast
  then show ?thesis using w(1) by blast
qed

text \<open>
  A promise is fulfilled and dropped, its future shared and read twice through copies; another is
  dropped without a result.
\<close>

definition demo_life :: "(bool, bool, bool, nat, nat) life_cmd list" where
  "demo_life = [P_new True, P_get_future True True, P_copy False True, P_set False 7, P_set True 8,
     P_drop True, P_new True, P_get_future True False, F_get False, P_drop True, F_get False,
     F_share True True, S_copy False True, S_drop True, S_get False]"

theorem lifetimes_refine_witness:
  "\<exists>w :: (bool, bool, bool, nat, nat) lworld.
     life_run Of_value (\<lambda>_. 0) demo_life lw_init = Some
       ([Done, Done, Done, Done, Throws (Lib (Future_error Promise_already_satisfied)), Done, Done, Done,
         Waits, Done, Throws (Lib (Future_error Broken_promise)), Done, Done, Done, Value 7], w)"
proof -
  have c: "CARD(bool) + 1 < 2 ^ 64" by simp
  let ?g = "g_run Of_value demo_life (g_init :: (bool, bool, bool, nat, nat) gworld)"
  have a: "fst ?g = [Done, Done, Done, Done, Throws (Lib (Future_error Promise_already_satisfied)), Done, Done,
      Done, Waits, Done, Throws (Lib (Future_error Broken_promise)), Done, Done, Done, Value 7]"
    by (simp add: demo_life_def g_init_def g_put_def g_abandon_def g_answer_def all_bool_eq)
  obtain w :: "(bool, bool, bool, nat, nat) lworld" where
    "life_run Of_value (\<lambda>_. 0) demo_life lw_init = Some (fst ?g, w)"
    using lifetimes_refine [OF c, of Of_value "\<lambda>_. 0" demo_life] by blast
  then show ?thesis using a by auto
qed

end
