(* ===== verification/Util.thy ===== *)
theory Util
  imports Prelude "HOL-Library.Monad_Syntax"
begin

text \<open>
  Optional data: \<open>optional_data\<close> of \<open>include/ilias/util.h\<close>. The storage is a union, so the code
  itself starts and ends the lifetime of the value in it: \<open>m_data\<close> is the value whose lifetime has
  begun, and \<open>None\<close> as the result of an operation is a construction over a value that lives, or
  the use or destruction of one that does not. A move leaves \<open>moved v\<close> behind. The two variants of
  the class differ in their destructors only.
\<close>

section \<open>The class\<close>

record 'v opt_data =
  m_has_data :: bool
  m_data :: "'v option"

definition od_ctor :: "'v opt_data" where "od_ctor = \<lparr>m_has_data = False, m_data = None\<rparr>"

definition od_construct :: "'v \<Rightarrow> 'v opt_data \<Rightarrow> 'v opt_data option" where
  "od_construct v x = (case m_data x of
     None \<Rightarrow> Some (x\<lparr>m_data := Some v, m_has_data := True\<rparr>) | Some _ \<Rightarrow> None)"

definition od_store :: "'v \<Rightarrow> 'v opt_data \<Rightarrow> 'v opt_data option" where
  "od_store v x = (case m_data x of None \<Rightarrow> None | Some _ \<Rightarrow> Some (x\<lparr>m_data := Some v\<rparr>))"

definition od_reset :: "'v opt_data \<Rightarrow> 'v opt_data option" where
  "od_reset x =
     (if m_has_data x
      then (case m_data x of None \<Rightarrow> None | Some _ \<Rightarrow> Some \<lparr>m_has_data = False, m_data = None\<rparr>)
      else Some x)"


definition od_value :: "'v \<Rightarrow> 'v opt_data option" where "od_value v = od_construct v od_ctor"

definition od_copy :: "'v opt_data \<Rightarrow> 'v opt_data option" where
  "od_copy y = (if m_has_data y then do { v \<leftarrow> m_data y; od_construct v od_ctor } else Some od_ctor)"

text \<open>The new object and what becomes of the old one.\<close>

definition od_move :: "('v \<Rightarrow> 'v) \<Rightarrow> 'v opt_data \<Rightarrow> ('v opt_data \<times> 'v opt_data) option" where
  "od_move moved y =
     (if m_has_data y then do {
        v \<leftarrow> m_data y;
        x \<leftarrow> od_construct v od_ctor;
        y \<leftarrow> od_store (moved v) y;
        y \<leftarrow> od_reset y;
        Some (x, y)
      }
      else Some (od_ctor, y))"


definition od_eq :: "'v opt_data \<Rightarrow> 'v opt_data \<Rightarrow> bool option" where
  "od_eq x y =
     (if m_has_data x \<and> m_has_data y then do { v \<leftarrow> m_data x; w \<leftarrow> m_data y; Some (v = w) }
      else Some (m_has_data x = m_has_data y))"

section \<open>Operations on two objects\<close>






section \<open>Programs\<close>











text \<open>The constructors make an object with the contents of their argument.\<close>

lemma od_copy_same:
  "m_has_data y \<longleftrightarrow> m_data y \<noteq> None \<Longrightarrow> od_copy y = Some y"
  by (cases y) (auto simp: od_copy_def od_construct_def od_ctor_def)

lemma od_move_empties:
  "m_has_data y \<longleftrightarrow> m_data y \<noteq> None \<Longrightarrow> od_move moved y = Some (y, od_ctor)"
  by (cases y) (auto simp: od_move_def od_construct_def od_ctor_def od_store_def od_reset_def)

end
