(* ===== verification/Thread_Local.thy ===== *)
theory Thread_Local
  imports Prelude "HOL-Library.Monad_Syntax"
begin

text \<open>
  Thread-local storage for compilers without it: \<open>tls\<close> of \<open>internal/tls_fallback.h\<close> and \<open>tls_cd\<close> of
  \<open>internal/thread_local.h\<close>. Both keep a pointer per thread under a key of the pthread library, whose
  calls may fail as the system pleases: what the library relies on is that a thread reads back what
  it has set, that a pointer that was set can be taken back, and that the destructor of the key is
  called with the pointer of a thread that ends. The result \<open>None\<close> is a failed assertion, an
  exception that leaves a \<open>noexcept\<close> function, or the use or destruction of an element that is dead.
\<close>

section \<open>The class \<open>tls\<close>\<close>

text \<open>
  \<open>t_mem\<close> is the memory from \<open>malloc\<close> that was not given back, \<open>t_elems\<close> the elements that live in it,
  each with its value.
\<close>

record ('t, 'v) tls =
  t_slot :: "'t \<Rightarrow> ptr"
  t_instances :: "addr list"
  t_mem :: "addr set"
  t_elems :: "addr \<Rightarrow> 'v option"
  t_next :: addr

text \<open>What the system does in one call of \<open>get\<close>, and what the constructor of the value does.\<close>

record 'v tls_env =
  e_malloc :: bool
  e_value :: "'v result"
  e_setspecific :: bool
  e_push_back :: bool

definition tls_ctor :: "bool \<Rightarrow> ('t, 'v) tls result" where
  "tls_ctor key_create =
     (if key_create
      then Inr \<lparr>t_slot = (\<lambda>_. None), t_instances = [], t_mem = {}, t_elems = (\<lambda>_. None), t_next = 0\<rparr>
      else Inl Bad_alloc)"

definition tls_free :: "addr \<Rightarrow> ('t, 'v) tls \<Rightarrow> ('t, 'v) tls option" where
  "tls_free p s = (if p \<in> t_mem s then Some (s\<lparr>t_mem := t_mem s - {p}\<rparr>) else None)"

text \<open>\<open>ip_delete\<close>: the element is destroyed, the memory given back.\<close>

definition ip_delete :: "addr \<Rightarrow> ('t, 'v) tls \<Rightarrow> ('t, 'v) tls option" where
  "ip_delete p s = (case t_elems s p of
     None \<Rightarrow> None | Some _ \<Rightarrow> tls_free p (s\<lparr>t_elems := (t_elems s)(p := None)\<rparr>))"

definition set_slot :: "'t \<Rightarrow> ptr \<Rightarrow> ('t, 'v) tls \<Rightarrow> ('t, 'v) tls" where
  "set_slot t p s = s\<lparr>t_slot := (t_slot s)(t := p)\<rparr>"

definition tls_get :: "'v tls_env \<Rightarrow> 't \<Rightarrow> ('t, 'v) tls \<Rightarrow> (addr result \<times> ('t, 'v) tls) option" where
  "tls_get e t s = (case t_slot s t of
     Some p \<Rightarrow> (case t_elems s p of None \<Rightarrow> None | Some _ \<Rightarrow> Some (Inr p, s))
   | None \<Rightarrow>
       if \<not> e_malloc e then Some (Inl Bad_alloc, s)
       else do {
         let p = t_next s;
         let s = s\<lparr>t_mem := insert p (t_mem s), t_next := p + 1\<rparr>;
         (case e_value e of
            Inl x \<Rightarrow> do { s \<leftarrow> tls_free p s; Some (Inl x, s) }
          | Inr v \<Rightarrow> do {
              let s = s\<lparr>t_elems := (t_elems s)(p \<mapsto> v)\<rparr>;
              if \<not> e_setspecific e then do { s \<leftarrow> ip_delete p s; Some (Inl Bad_alloc, s) }
              else do {
                let s = set_slot t (Some p) s;
                if \<not> e_push_back e
                then do { s \<leftarrow> ip_delete p (set_slot t None s); Some (Inl Bad_alloc, s) }
                else Some (Inr p, s\<lparr>t_instances := t_instances s @ [p]\<rparr>)
              }
            })
       })"

text \<open>\<open>destructor\<close> of the key, called for a thread that ends with its slot cleared.\<close>

definition tls_destructor :: "addr \<Rightarrow> ('t, 'v) tls \<Rightarrow> ('t, 'v) tls option" where
  "tls_destructor p s =
     (if p \<in> set (t_instances s) then ip_delete p (s\<lparr>t_instances := remove1 p (t_instances s)\<rparr>) else None)"

definition tls_exit :: "'t \<Rightarrow> ('t, 'v) tls \<Rightarrow> ('t, 'v) tls option" where
  "tls_exit t s = (case t_slot s t of None \<Rightarrow> Some s | Some p \<Rightarrow> tls_destructor p (set_slot t None s))"

text \<open>\<open>~tls\<close>: the key goes, then the vector with all its elements.\<close>

fun tls_delete_all :: "addr list \<Rightarrow> ('t, 'v) tls \<Rightarrow> ('t, 'v) tls option" where
  "tls_delete_all [] s = Some s"
| "tls_delete_all (p # ps) s = do { s \<leftarrow> ip_delete p s; tls_delete_all ps s }"

definition tls_dtor :: "('t, 'v) tls \<Rightarrow> ('t, 'v) tls option" where
  "tls_dtor s = tls_delete_all (t_instances s) (s\<lparr>t_instances := []\<rparr>)"

text \<open>A write of the owner to its value.\<close>

definition tls_write :: "addr \<Rightarrow> 'v \<Rightarrow> ('t, 'v) tls \<Rightarrow> ('t, 'v) tls option" where
  "tls_write p v s = (case t_elems s p of None \<Rightarrow> None | Some _ \<Rightarrow> Some (s\<lparr>t_elems := (t_elems s)(p \<mapsto> v)\<rparr>))"

section \<open>Programs of threads\<close>

text \<open>Reading and writing go through \<open>get\<close>, with the pointer that it returns.\<close>

datatype ('t, 'v) tls_cmd = Tls_read "'v tls_env" 't | Tls_write "'v tls_env" 't 'v | Tls_exit 't

definition tls_exec ::
    "('t, 'v) tls_cmd \<Rightarrow> ('t, 'v) tls \<Rightarrow> ('v result option \<times> ('t, 'v) tls) option" where
  "tls_exec c s = (case c of
     Tls_read e t \<Rightarrow> do {
       (r, s) \<leftarrow> tls_get e t s;
       (case r of
          Inl x \<Rightarrow> Some (Some (Inl x), s)
        | Inr p \<Rightarrow> do { v \<leftarrow> t_elems s p; Some (Some (Inr v), s) })
     }
   | Tls_write e t v \<Rightarrow> do {
       (r, s) \<leftarrow> tls_get e t s;
       (case r of Inl x \<Rightarrow> Some (Some (Inl x), s) | Inr p \<Rightarrow> do { s \<leftarrow> tls_write p v s; Some (None, s) })
     }
   | Tls_exit t \<Rightarrow> do { s \<leftarrow> tls_exit t s; Some (None, s) })"

fun tls_run ::
    "('t, 'v) tls_cmd list \<Rightarrow> ('t, 'v) tls \<Rightarrow> ('v result option list \<times> ('t, 'v) tls) option" where
  "tls_run [] s = Some ([], s)"
| "tls_run (c # cs) s = do { (r, s) \<leftarrow> tls_exec c s; (rs, s) \<leftarrow> tls_run cs s; Some (r # rs, s) }"

text \<open>
  What threads see: each has a value of its own, from its first successful use until it ends. The
  first use can fail and then leaves nothing behind.
\<close>

definition own_get :: "'v tls_env \<Rightarrow> 't \<Rightarrow> ('t \<Rightarrow> 'v option) \<Rightarrow> 'v result \<times> ('t \<Rightarrow> 'v option)" where
  "own_get e t m = (case m t of
     Some v \<Rightarrow> (Inr v, m)
   | None \<Rightarrow>
       if \<not> e_malloc e then (Inl Bad_alloc, m)
       else case e_value e of
              Inl x \<Rightarrow> (Inl x, m)
            | Inr v \<Rightarrow> if e_setspecific e \<and> e_push_back e then (Inr v, m(t \<mapsto> v)) else (Inl Bad_alloc, m))"

definition own_exec ::
    "('t, 'v) tls_cmd \<Rightarrow> ('t \<Rightarrow> 'v option) \<Rightarrow> 'v result option \<times> ('t \<Rightarrow> 'v option)" where
  "own_exec c m = (case c of
     Tls_read e t \<Rightarrow> (case own_get e t m of (r, m) \<Rightarrow> (Some r, m))
   | Tls_write e t v \<Rightarrow>
       (case own_get e t m of (Inl x, m) \<Rightarrow> (Some (Inl x), m) | (Inr _, m) \<Rightarrow> (None, m(t \<mapsto> v)))
   | Tls_exit t \<Rightarrow> (None, m(t := None)))"

fun own_run :: "('t, 'v) tls_cmd list \<Rightarrow> ('t \<Rightarrow> 'v option) \<Rightarrow> 'v result option list \<times> ('t \<Rightarrow> 'v option)" where
  "own_run [] m = ([], m)"
| "own_run (c # cs) m = (case own_exec c m of (r, m) \<Rightarrow> case own_run cs m of (rs, m) \<Rightarrow> (r # rs, m))"

section \<open>Every thread has its own\<close>

definition tls_ok :: "('t, 'v) tls \<Rightarrow> bool" where
  "tls_ok s \<longleftrightarrow>
     (\<forall>t u p. t_slot s t = Some p \<longrightarrow> t_slot s u = Some p \<longrightarrow> t = u) \<and>
     distinct (t_instances s) \<and> set (t_instances s) = ran (t_slot s) \<and>
     t_mem s = set (t_instances s) \<and> dom (t_elems s) = set (t_instances s) \<and>
     (\<forall>p \<in> set (t_instances s). p < t_next s)"

definition tls_values :: "('t, 'v) tls \<Rightarrow> 't \<Rightarrow> 'v option" where
  "tls_values s t = (case t_slot s t of None \<Rightarrow> None | Some p \<Rightarrow> t_elems s p)"

lemma tls_ok_elem: "tls_ok s \<Longrightarrow> t_slot s t = Some p \<Longrightarrow> \<exists>v. t_elems s p = Some v"
  unfolding tls_ok_def by (metis domD ranI)

lemma tls_ok_fresh:
  "tls_ok s \<Longrightarrow> t_next s \<notin> t_mem s \<and> t_elems s (t_next s) = None \<and> t_next s \<notin> set (t_instances s) \<and>
    (\<forall>t. t_slot s t \<noteq> Some (t_next s))"
  unfolding tls_ok_def by (metis domIff less_irrefl ranI)

lemma tls_ok_next: "tls_ok s \<Longrightarrow> tls_ok (s\<lparr>t_next := Suc (t_next s)\<rparr>)"
  unfolding tls_ok_def by (auto intro: less_SucI)

text \<open>A use that fails at any point changes nothing but the supply of addresses.\<close>

lemma tls_get_cases:
  assumes "tls_ok s"
  shows "\<exists>r s'. tls_get e t s = Some (r, s') \<and> tls_ok s' \<and>
    (case r of Inl x \<Rightarrow> fst (own_get e t (tls_values s)) = Inl x
     | Inr p \<Rightarrow> t_slot s' t = Some p \<and> (\<exists>v. t_elems s' p = Some v \<and> fst (own_get e t (tls_values s)) = Inr v)) \<and>
    tls_values s' = snd (own_get e t (tls_values s))"
proof (cases "t_slot s t")
  case (Some p)
  then obtain v where "t_elems s p = Some v" using tls_ok_elem [OF assms] by blast
  then show ?thesis using Some assms by (auto simp: tls_get_def own_get_def tls_values_def)
next
  case None
  let ?p = "t_next s"
  note f = tls_ok_fresh [OF assms]
  have n: "tls_values s t = None" using None by (simp add: tls_values_def)
  have same: "tls_values (s\<lparr>t_next := Suc ?p\<rparr>) = tls_values s" by (simp add: tls_values_def fun_eq_iff split: option.split)
  note ok = tls_ok_next [OF assms]
  show ?thesis
  proof (cases "e_malloc e \<and> (\<exists>v. e_value e = Inr v) \<and> e_setspecific e \<and> e_push_back e")
    case True
    then obtain v where v: "e_value e = Inr v" by blast
    let ?s = "s\<lparr>t_mem := insert ?p (t_mem s), t_next := Suc ?p, t_elems := (t_elems s)(?p \<mapsto> v),
      t_slot := (t_slot s)(t \<mapsto> ?p), t_instances := t_instances s @ [?p]\<rparr>"
    have g: "tls_get e t s = Some (Inr ?p, ?s)"
      using True v None by (simp add: tls_get_def Let_def set_slot_def)
    have k: "tls_ok ?s" using assms f None unfolding tls_ok_def
      by (auto simp: ran_map_upd intro: less_SucI split: if_splits)
    have "tls_values ?s = (tls_values s)(t \<mapsto> v)" using f by (auto simp: tls_values_def fun_eq_iff split: option.splits)
    then show ?thesis using g k True v n by (intro exI [of _ "Inr ?p"] exI [of _ ?s]) (simp add: own_get_def)
  next
    case False
    show ?thesis
    proof (cases "e_malloc e")
      case False
      then show ?thesis using None n assms by (auto simp: tls_get_def own_get_def)
    next
      case True
      have e: "(t_elems s)(?p := None) = t_elems s" "(t_slot s)(t := None) = t_slot s"
        using f None by (simp_all add: fun_upd_idem)
      have "\<exists>x. tls_get e t s = Some (Inl x, s\<lparr>t_next := Suc ?p\<rparr>) \<and>
        own_get e t (tls_values s) = (Inl x, tls_values s)"
      proof (cases "e_value e")
        case (Inl x)
        then show ?thesis
          using True None n f by (cases s) (simp add: tls_get_def own_get_def Let_def tls_free_def)
      next
        case (Inr v)
        then show ?thesis
          using True False None n f e
          by (cases s) (auto simp: tls_get_def own_get_def Let_def tls_free_def ip_delete_def set_slot_def)
      qed
      then show ?thesis using ok same by auto
    qed
  qed
qed

lemma ran_clear:
  "\<forall>t u p. m t = Some p \<longrightarrow> m u = Some p \<longrightarrow> t = u \<Longrightarrow> m t = Some p \<Longrightarrow> ran (m(t := None)) = ran m - {p}"
  unfolding ran_def by (auto split: if_splits) (metis option.inject)

lemma tls_exit_cases:
  assumes "tls_ok s"
  shows "\<exists>s'. tls_exit t s = Some s' \<and> tls_ok s' \<and> tls_values s' = (tls_values s)(t := None)"
proof (cases "t_slot s t")
  case None
  then show ?thesis using assms by (auto simp: tls_exit_def tls_values_def fun_eq_iff)
next
  case (Some p)
  then obtain v where v: "t_elems s p = Some v" using tls_ok_elem [OF assms] by blast
  have inj: "\<forall>t u p. t_slot s t = Some p \<longrightarrow> t_slot s u = Some p \<longrightarrow> t = u" and m: "p \<in> t_mem s" "p \<in> set (t_instances s)"
    using assms Some unfolding tls_ok_def by (auto intro: ranI)
  let ?s = "s\<lparr>t_slot := (t_slot s)(t := None), t_instances := remove1 p (t_instances s),
    t_elems := (t_elems s)(p := None), t_mem := t_mem s - {p}\<rparr>"
  have x: "tls_exit t s = Some ?s"
    using Some v m by (simp add: tls_exit_def tls_destructor_def ip_delete_def tls_free_def set_slot_def)
  have "tls_ok ?s"
    using assms ran_clear [OF inj Some] unfolding tls_ok_def by (auto simp: set_remove1_eq split: if_splits)
  moreover have "tls_values ?s = (tls_values s)(t := None)"
    using inj Some by (auto simp: tls_values_def fun_eq_iff split: option.splits)
  ultimately show ?thesis using x by blast
qed

lemma tls_write_cases:
  assumes "tls_ok s" and "t_slot s t = Some p"
  shows "\<exists>s'. tls_write p v s = Some s' \<and> tls_ok s' \<and> tls_values s' = (tls_values s)(t \<mapsto> v)"
proof -
  obtain u where "t_elems s p = Some u" using tls_ok_elem [OF assms] by blast
  moreover have "tls_ok (s\<lparr>t_elems := (t_elems s)(p \<mapsto> v)\<rparr>)"
    using assms unfolding tls_ok_def by (auto intro: ranI)
  moreover have "tls_values (s\<lparr>t_elems := (t_elems s)(p \<mapsto> v)\<rparr>) = (tls_values s)(t \<mapsto> v)"
    using assms unfolding tls_ok_def by (auto simp: tls_values_def fun_eq_iff split: option.splits)
  ultimately show ?thesis by (simp add: tls_write_def)
qed

lemma tls_exec_cases:
  assumes "tls_ok s"
  shows "\<exists>s'. tls_exec c s = Some (fst (own_exec c (tls_values s)), s') \<and> tls_ok s' \<and>
    tls_values s' = snd (own_exec c (tls_values s))"
proof (cases c)
  case (Tls_read e t)
  obtain r s' where g: "tls_get e t s = Some (r, s')" "tls_ok s'" "tls_values s' = snd (own_get e t (tls_values s))"
    and r: "case r of Inl x \<Rightarrow> fst (own_get e t (tls_values s)) = Inl x
     | Inr p \<Rightarrow> t_slot s' t = Some p \<and> (\<exists>v. t_elems s' p = Some v \<and> fst (own_get e t (tls_values s)) = Inr v)"
    using tls_get_cases [OF assms, of e t] by blast
  show ?thesis using g r Tls_read by (cases r) (auto simp: tls_exec_def own_exec_def split_beta)
next
  case (Tls_write e t v)
  obtain r s' where g: "tls_get e t s = Some (r, s')" "tls_ok s'" "tls_values s' = snd (own_get e t (tls_values s))"
    and r: "case r of Inl x \<Rightarrow> fst (own_get e t (tls_values s)) = Inl x
     | Inr p \<Rightarrow> t_slot s' t = Some p \<and> (\<exists>v. t_elems s' p = Some v \<and> fst (own_get e t (tls_values s)) = Inr v)"
    using tls_get_cases [OF assms, of e t] by blast
  show ?thesis
  proof (cases r)
    case (Inl x)
    then show ?thesis using g r Tls_write by (auto simp: tls_exec_def own_exec_def split_beta)
  next
    case (Inr p)
    then obtain w s2 where "fst (own_get e t (tls_values s)) = Inr w" "tls_write p v s' = Some s2" "tls_ok s2"
      "tls_values s2 = (tls_values s')(t \<mapsto> v)" using r tls_write_cases [OF g(2), of t p v] by auto
    then show ?thesis using g(1,3) Inr Tls_write by (auto simp: tls_exec_def own_exec_def split_beta)
  qed
next
  case (Tls_exit t)
  then show ?thesis using tls_exit_cases [OF assms, of t] by (auto simp: tls_exec_def own_exec_def)
qed

lemma tls_run_cases:
  "tls_ok s \<Longrightarrow> \<exists>s'. tls_run cs s = Some (fst (own_run cs (tls_values s)), s') \<and> tls_ok s'"
proof (induction cs arbitrary: s)
  case (Cons c cs)
  obtain s1 where "tls_exec c s = Some (fst (own_exec c (tls_values s)), s1)" "tls_ok s1"
    "tls_values s1 = snd (own_exec c (tls_values s))" using tls_exec_cases [OF Cons.prems] by blast
  then show ?case using Cons.IH [of s1] by (auto simp: split_beta)
qed simp

lemma tls_dtor_ok:
  assumes "tls_ok s"
  shows "\<exists>s'. tls_dtor s = Some s' \<and> t_mem s' = {} \<and> t_elems s' = Map.empty"
proof -
  have "\<exists>s'. tls_delete_all ps s = Some s' \<and> t_mem s' = {} \<and> t_elems s' = Map.empty"
    if "distinct ps" "t_mem s = set ps" "dom (t_elems s) = set ps" for ps and s :: "('a, 'b) tls"
    using that
  proof (induction ps arbitrary: s)
    case (Cons p ps)
    then obtain v where v: "t_elems s p = Some v" by (metis domD list.set_intros(1))
    let ?s = "s\<lparr>t_elems := (t_elems s)(p := None), t_mem := t_mem s - {p}\<rparr>"
    have "dom ((t_elems s)(p := None)) = set ps" using Cons.prems unfolding dom_fun_upd by simp
    then have "dom (\<lambda>a. if a = p then None else t_elems s a) = set ps" by (simp add: fun_upd_def)
    then have "\<exists>s'. tls_delete_all ps ?s = Some s' \<and> t_mem s' = {} \<and> t_elems s' = Map.empty"
      using Cons.prems by (intro Cons.IH) simp_all
    then show ?case using v Cons.prems by (simp add: ip_delete_def tls_free_def)
  qed simp
  then show ?thesis using assms unfolding tls_dtor_def tls_ok_def by simp
qed

text \<open>
  C23. Every thread has a value of its own. In every program of threads that read, write and end, the
  answers are those of one private value per thread, made at the first use that does not fail; no
  element is used or destroyed after its end, the destructor finds its element, a failed use leaves
  neither memory nor element behind, and the destructor of the whole frees all that is left.
\<close>

theorem tls_private_values:
  assumes "tls_ctor True = (Inr s :: ('t, 'v) tls result)"
  shows "\<exists>s'. tls_run cs s = Some (fst (own_run cs Map.empty), s') \<and>
    t_mem s' = ran (t_slot s') \<and> dom (t_elems s') = ran (t_slot s') \<and> inj_on (t_slot s') (dom (t_slot s')) \<and>
    (\<exists>s''. tls_dtor s' = Some s'' \<and> t_mem s'' = {})"
proof -
  have s: "s = \<lparr>t_slot = (\<lambda>_. None), t_instances = [], t_mem = {}, t_elems = (\<lambda>_. None), t_next = 0\<rparr>"
    using assms by (simp add: tls_ctor_def)
  have "tls_ok s" "tls_values s = Map.empty" by (simp_all add: s tls_ok_def tls_values_def fun_eq_iff)
  then obtain s' where s': "tls_run cs s = Some (fst (own_run cs Map.empty), s')" "tls_ok s'"
    using tls_run_cases [of s cs] by auto
  moreover have "inj_on (t_slot s') (dom (t_slot s'))"
    using s'(2) unfolding tls_ok_def inj_on_def by (metis domD)
  ultimately show ?thesis using tls_dtor_ok [OF s'(2)] unfolding tls_ok_def by auto
qed

definition tls_fine :: "nat \<Rightarrow> nat tls_env" where
  "tls_fine v = \<lparr>e_malloc = True, e_value = Inr v, e_setspecific = True, e_push_back = True\<rparr>"

theorem tls_private_values_witness:
  "\<exists>s :: (bool, nat) tls. \<exists>s'. tls_ctor True = Inr s \<and>
     tls_run [Tls_write (tls_fine 0) True 5, Tls_read ((tls_fine 3)\<lparr>e_push_back := False\<rparr>) False,
       Tls_read (tls_fine 3) False, Tls_read (tls_fine 0) True, Tls_exit True, Tls_read (tls_fine 4) True] s =
     Some ([None, Some (Inl Bad_alloc), Some (Inr 3), Some (Inr 5), None, Some (Inr 4)], s')"
proof -
  obtain s :: "(bool, nat) tls" where s: "tls_ctor True = Inr s" by (simp add: tls_ctor_def)
  show ?thesis
    using s tls_private_values [OF s, of "[Tls_write (tls_fine 0) True 5,
      Tls_read ((tls_fine 3)\<lparr>e_push_back := False\<rparr>) False, Tls_read (tls_fine 3) False, Tls_read (tls_fine 0) True,
      Tls_exit True, Tls_read (tls_fine 4) True]"]
    by (auto simp: own_exec_def own_get_def tls_fine_def)
qed

section \<open>The class \<open>tls_cd\<close>\<close>

text \<open>
  The variant without compiler support. \<open>get_tls\<close> throws out of a \<open>noexcept\<close> function when
  \<open>pthread_setspecific\<close> fails; the construction of the object may throw out of it as well. The
  variant for compilers that have \<open>THREAD_LOCAL\<close> uses a variable of another function and does not
  compile.
\<close>

record ('t, 'v) tls_cd =
  cd_slot :: "'t \<Rightarrow> ptr"
  cd_objs :: "addr \<Rightarrow> 'v option"
  cd_next :: addr

definition tls_cd_get :: "'v result \<Rightarrow> bool \<Rightarrow> 't \<Rightarrow> ('t, 'v) tls_cd \<Rightarrow> (addr \<times> ('t, 'v) tls_cd) option" where
  "tls_cd_get new setspecific t s = (case cd_slot s t of
     Some p \<Rightarrow> Some (p, s)
   | None \<Rightarrow>
       (case new of
          Inl _ \<Rightarrow> None
        | Inr v \<Rightarrow>
            let p = cd_next s; s = s\<lparr>cd_objs := (cd_objs s)(p \<mapsto> v), cd_next := p + 1\<rparr>
            in if setspecific then Some (p, s\<lparr>cd_slot := (cd_slot s)(t \<mapsto> p)\<rparr>) else None))"

definition tls_cd_destructor :: "addr \<Rightarrow> ('t, 'v) tls_cd \<Rightarrow> ('t, 'v) tls_cd option" where
  "tls_cd_destructor p s = (case cd_objs s p of
     None \<Rightarrow> None | Some _ \<Rightarrow> Some (s\<lparr>cd_objs := (cd_objs s)(p := None)\<rparr>))"

text \<open>The object stays until the thread ends, and is that of the thread.\<close>

lemma tls_cd_get_twice:
  "tls_cd_get new b t s = Some (p, s') \<Longrightarrow> tls_cd_get new' b' t s' = Some (p, s')"
  by (auto simp: tls_cd_get_def Let_def split: option.splits sum.splits if_splits)

lemma tls_cd_get_fails: "cd_slot s t = None \<Longrightarrow> tls_cd_get new False t s = None"
  by (auto simp: tls_cd_get_def Let_def split: sum.splits)

end
