(* ===== verification/Spec2Isabelle.thy ===== *)
theory Spec2Isabelle
  imports Ticket_Lock LLPtr_Inv LLPtr Monitor_Inv Msg_Fire MQ_Ptr Workq_Jobs Workq_Service Workq_Intref
    WQ_Callback LL_List_Race LL_Smart_Ref LL_Queue TP_Pool_Inv TP_Sleep TP_Mux Future_Demo Future_Conc
    Future_Start Future_Life_Inv Util Thread_Local
begin

text \<open>
  Verification of \<open>ilias_async\<close>, a C++ library of asynchronous building blocks: work queues, promises
  and futures, message queues, monitors, thread pools, and the lock-free structures below them.

  \<^bold>\<open>The program.\<close> At the bottom are reference counts (\<open>include/ilias/refcnt.h\<close>, \<open>src/refcnt.cc\<close>),
  hazard pointers (\<open>hazard.h\<close>, \<open>hazard-inl.h\<close>, \<open>src/hazard.cc\<close>), atomic counted pointers with flags
  built on them (\<open>llptr.h\<close>), and a lock-free doubly linked list whose links are such pointers
  (\<open>src/ll_list.cc\<close>), with positions, counted elements and queues on top (\<open>ll_list-inl.h\<close>,
  \<open>ll_queue.h\<close>). Message queues (\<open>msg_queue.h\<close>, \<open>mq_ptr.h\<close>) keep their messages in such queues and
  tell a callback. A work queue (\<open>workq.h\<close>, \<open>src/workq.cc\<close>) runs jobs, one at a time or in
  parallel; a service walks over the work queues that are ready and is a client of a thread pool
  (\<open>threadpool.cc\<close>), to which it is glued by a combiner or through multiplexers
  (\<open>threadpool_intf.cc\<close>). Promises and futures (\<open>future.h\<close>, \<open>future-inl.h\<close>, \<open>src/future.cc\<close>) run
  deferred functions directly or as jobs; a monitor (\<open>monitor.cc\<close>) hands out tokens through them.

  \<^bold>\<open>How it is modelled.\<close> Each component is modelled in one or both of two ways. The sequential theories
  have one definition per method, on a record of the state, and run it without interference, on a
  state that other threads may have left half way (published hazards, stalled removals). The
  interleaved theories have a step relation with one atomic operation or critical section per step
  of any number of threads, sequentially consistent, and an invariant proved by rule induction. Errors
  are values: \<open>Inl\<close> of an exception of \<open>cxx_error\<close> (\<open>Prelude\<close>; a failed assertion is one) or \<open>None\<close>,
  which the header of each theory explains (a failed assertion, a loop that waits, or fuel that
  ran out). Counters are words of their width where they can wrap. Objects live at addresses
  (natural numbers), pointers are \<open>ptr = addr option\<close>.

  \<^bold>\<open>Theories.\<close>
  \<^item> \<open>Prelude\<close>: word widths, exceptions, counting lemmas and the collections \<open>word_count\<close> and \<open>ptr_simps\<close>.
  \<^item> \<open>Refcount\<close>, \<open>Refcount_Inv\<close>: the counter, \<open>refpointer\<close> over pointer variables (aliasing included),
    the contract \<open>refcount_mgr\<close> of an acquire/release policy, and the counting invariant of every
    program of pointers, proved inside the contract. \<open>MQ_Ptr\<close> is a second instance of it.
  \<^item> \<open>Ticket_Lock\<close>: the spin locks of \<open>refcnt.cc\<close>, interleaved: mutual exclusion, order of service.
  \<^item> \<open>Hazard\<close>, \<open>LLPtr\<close>: the table of 64 hazards and every operation of \<open>llptr\<close>, sequentially.
    \<open>LLPtr_Conc\<close>, \<open>LLPtr_Inv\<close>: load, exchange, store and compare-exchange interleaved; no reference is
    taken on a dead object and none is lost.
  \<^item> \<open>LL_List\<close>, \<open>LL_List_Inv\<close>, \<open>LL_List_Ops\<close>: the list as a heap of cells with marked links, the ring
    invariant, and the public operations on it. \<open>LL_List_Race\<close>: removals of several threads that
    stall and are helped, and a race of three threads after which the list hangs. \<open>LL_Pos\<close>, \<open>LL_Pos_Walk\<close>: positions and iteration. \<open>LL_Smart\<close>: the list of
    counted pointers and its iterators, on the sequence of what is linked; \<open>LL_Smart_Ref\<close> shows that the
    heap refines this sequence. \<open>LL_Queue\<close>: the four queues; the contract \<open>deque\<close> and the
    refinement of a double-ended queue.
  \<^item> \<open>Msg_Queue\<close>: both kinds of message queue, sequentially. \<open>Msg_Fire\<close>: their events, interleaved.
  \<^item> \<open>Workq\<close>, \<open>Workq_Props\<close>: jobs, levels, run locks, the stack of a thread, \<open>workq_switch\<close>.
    \<open>Workq_Conc\<close>, \<open>Workq_Jobs\<close>: levels and the state of jobs, interleaved. \<open>Workq_Service\<close>: the search
    for work, co-routines, \<open>aid\<close>. \<open>Workq_Intref\<close>: internal references and deleters. \<open>WQ_Callback\<close>:
    callbacks that run as jobs, composed with the jobs of \<open>Workq_Conc\<close>.
  \<^item> \<open>TP_Intf\<close>, \<open>TP_Mux\<close>: the combiner and the multiplexers. \<open>TP_Pool\<close>, \<open>TP_Pool_Inv\<close>: every operation of
    the pool and the balance of its counters, with the threads that could not be created. \<open>TP_Sleep\<close>: workers that go to sleep and producers that
    wake them, interleaved.
  \<^item> \<open>Monitor\<close>, \<open>Monitor_Inv\<close>: the methods, and clients that call them in any order.
  \<^item> \<open>Future\<close>, \<open>Future_Handle\<close>: shared states, promises, futures, callbacks and conversions.
    The order in which a compiler evaluates the arguments of a function is a parameter of each deferred
    function. \<open>Future_Inv\<close>, \<open>Future_Run\<close>, \<open>Future_Prog\<close>: programs of promises and deferred functions that
    do nothing undefined (which operations do is characterised), and what \<open>get\<close> answers; \<open>Future_Demo\<close> runs one. \<open>Future_Conc\<close>: the completion of one state interleaved with the
    installation of callbacks. \<open>Future_Start\<close>: the start of a deferred function interleaved with its
    arguments. \<open>Future_Life\<close>, \<open>Future_Life_Inv\<close>: how shared states live, for values, references and
    \<open>void\<close>: raw storage, the counts of pointers and of promises, copies, moves and drops of handles; every
    program refines one on states that live for ever.
  \<^item> \<open>Util\<close>: \<open>optional_data\<close>. \<open>Thread_Local\<close>: the fallbacks for thread-local storage (\<open>internal/\<close>), with
    every call of the system that can fail.

  \<^bold>\<open>Interfaces.\<close> \<open>refcount_mgr\<close> (\<open>Refcount\<close>) is interpreted for the default policy and for output pointers
  of message queues; \<open>deque\<close> (\<open>LL_Queue\<close>) for the list with the operations of \<open>ll_qhead\<close>.

  \<^bold>\<open>Bounds and fuel.\<close> Loops of the sequential theories take fuel where they are not structural, and every
  property says how much is enough: the list operations need the length of the ring plus three
  (\<open>enough h = bound h + 3\<close> in \<open>LL_Queue\<close>, \<open>length ns + 5\<close> for a walk, twice the number of stalled
  removals plus two for \<open>succ_\<close>); futures need \<open>fuel h = 2 * f_next h + 2\<close> for \<open>f_next h\<close> shared
  states, since a start or a completion only reaches states that were made before or after it. A
  search for work (\<open>lock_service\<close>) takes what other threads do before and between its steps.
  Interleaved theories bound nothing: any number of threads, any number of steps.

  \<^bold>\<open>Defects.\<close> The lemmas under \<open>Defects\<close> and similar headings, and those named in the findings, show
  runs on which the code does not keep its promises; the largest are that the search for work
  never ends on a depleted work queue, that a co-routine job never gives its lock back, that
  \<open>get\<close> aborts after a conversion, and that \<open>pred_\<close> may move the marked predecessor of an element while
  two removals are under way, which tears the list (\<open>racing_removals_hang\<close>).

  \<^bold>\<open>Not modelled.\<close> Weak memory: all atomics are sequentially consistent. Arbitrary interleavings of the
  cells of the list (only whole operations of some threads between the two halves of removals of
  others); they would not preserve the ring, as \<open>racing_removals_hang\<close> shows. Memory allocation,
  except where it throws in \<open>Msg_Queue\<close> and \<open>Thread_Local\<close>. The wrappers of invocation
  (\<open>detail/invoke.h\<close>) and of the multiplexers' virtual forwarders; \<open>prom_msg_queue.h\<close>, which includes a
  header that does not exist. Reference counts of jobs, which are \<open>Refcount\<close>'s, are left out of the
  theories of work queues; those of shared states are in \<open>Future_Life\<close> and left out of the other
  theories of futures. Member templates that do not compile when used are listed
  in the findings.
\<close>

end
